(* ===== verification/Prelude.thy ===== *)
theory Prelude
  imports Main "HOL-Library.Word" "HOL-Library.Sublist"
begin

text \<open>
  Shared vocabulary of the queqiao development: the machine integers and byte
  strings of the Go sources, the big-endian accessors of \<^verbatim>\<open>encoding/binary\<close>,
  zero-extended byte access, slices, sums over finite lists, and the
  \<^verbatim>\<open>codec\<close> interface that every wire format of the program implements.
\<close>

unbundle bit_operations_syntax

named_theorems wire_defs \<open>constants and layout definitions of the wire formats\<close>
named_theorems wf_intros \<open>introduction rules for well-formedness invariants\<close>

type_synonym u8 = "8 word"
type_synonym u16 = "16 word"
type_synonym u32 = "32 word"
type_synonym u64 = "64 word"
type_synonym bytes = "8 word list"
type_synonym range64 = "64 word \<times> 64 word"

section \<open>Slices\<close>

text \<open>\<^verbatim>\<open>b[lo:hi]\<close> for indices the caller has already checked against the length.\<close>

definition go_slice :: "nat \<Rightarrow> nat \<Rightarrow> 'a list \<Rightarrow> 'a list" where
  "go_slice lo hi xs = take (hi - lo) (drop lo xs)"

lemma length_go_slice [simp]: "length (go_slice lo hi xs) = min (hi - lo) (length xs - lo)"
  by (simp add: go_slice_def min.commute)

lemma go_slice_empty [simp]: "hi \<le> lo \<Longrightarrow> go_slice lo hi xs = []"
  by (simp add: go_slice_def)

lemma go_slice_append:
  "lo \<le> mid \<Longrightarrow> mid \<le> hi \<Longrightarrow> go_slice lo mid xs @ go_slice mid hi xs = go_slice lo hi xs"
proof -
  assume a: "lo \<le> mid" "mid \<le> hi"
  then have "hi - lo = (mid - lo) + (hi - mid)" by simp
  moreover have "drop mid xs = drop (mid - lo) (drop lo xs)" using a by simp
  ultimately show ?thesis by (simp add: go_slice_def take_add)
qed

lemma go_slice_zero: "go_slice 0 n xs = take n xs"
  by (simp add: go_slice_def)

lemma take_append_go_slice:
  "n \<le> m \<Longrightarrow> take n xs @ go_slice n m xs = take m xs"
  using go_slice_append [of 0 n m xs] by (simp add: go_slice_zero)

section \<open>Big-endian integers\<close>

text \<open>
  \<^verbatim>\<open>binary.BigEndian.PutUintN\<close> writes the most significant byte first;
  \<^verbatim>\<open>binary.BigEndian.UintN\<close> reads it back. \<^verbatim>\<open>be_put k\<close> writes the \<^verbatim>\<open>k\<close> low-order
  bytes of a word.
\<close>

primrec be_put :: "nat \<Rightarrow> 'a::len word \<Rightarrow> bytes" where
  "be_put 0 w = []"
| "be_put (Suc k) w = be_put k (drop_bit 8 w) @ [ucast w]"

definition be_get :: "bytes \<Rightarrow> 'a::len word" where
  "be_get bs = foldl (\<lambda>acc b. push_bit 8 acc OR ucast b) 0 bs"

lemma length_be_put [simp]: "length (be_put k w) = k"
  by (induction k arbitrary: w) auto

lemma be_get_Nil [simp]: "be_get [] = 0"
  by (simp add: be_get_def)

lemma be_get_snoc [simp]: "be_get (bs @ [b]) = push_bit 8 (be_get bs) OR ucast b"
  by (simp add: be_get_def)

lemma be_get_put: "be_get (be_put k w) = take_bit (8 * k) w"
proof (induction k arbitrary: w)
  case 0
  show ?case by simp
next
  case (Suc k)
  have "push_bit 8 (take_bit (8 * k) (drop_bit 8 w)) OR ucast (ucast w :: u8) = take_bit (8 * Suc k) w"
    by (rule bit_word_eqI) (auto simp: bit_simps)
  then show ?case by (simp add: Suc)
qed

lemma be_get_put_16 [simp]: "be_get (be_put 2 (w :: u16)) = w"
  and be_get_put_32 [simp]: "be_get (be_put 4 (x :: u32)) = x"
  and be_get_put_64 [simp]: "be_get (be_put 8 (y :: u64)) = y"
  by (simp_all add: be_get_put take_bit_word_eq_self)

lemma be_put_get:
  "8 * length bs \<le> LENGTH('a::len) \<Longrightarrow> be_put (length bs) (be_get bs :: 'a word) = bs"
proof (induction bs rule: rev_induct)
  case Nil
  show ?case by simp
next
  case (snoc b bs)
  let ?w = "be_get bs :: 'a word"
  have len: "8 * length bs + 8 \<le> LENGTH('a)" using snoc.prems by simp
  have small: "?w = take_bit (8 * length bs) ?w"
    by (metis add_leD1 be_get_put len snoc.IH)
  have hi: "drop_bit 8 (push_bit 8 ?w OR ucast b) = ?w"
  proof (rule bit_word_eqI)
    fix n assume "n < LENGTH('a)"
    have "bit ?w n \<Longrightarrow> n < 8 * length bs"
      by (subst (asm) small) (simp add: bit_simps)
    then show "bit (drop_bit 8 (push_bit 8 ?w OR ucast b)) n = bit ?w n"
      using len by (auto simp: bit_simps dest: bit_imp_le_length)
  qed
  have lo: "(ucast (push_bit 8 ?w OR ucast b) :: u8) = b"
    using len by (intro bit_word_eqI) (auto simp: bit_simps)
  show ?case using snoc hi lo by simp
qed

lemma be_put_get_16: "length bs = 2 \<Longrightarrow> be_put 2 (be_get bs :: u16) = bs"
  using be_put_get [of bs, where 'a = 16] by simp

lemma be_put_get_32: "length bs = 4 \<Longrightarrow> be_put 4 (be_get bs :: u32) = bs"
  using be_put_get [of bs, where 'a = 32] by simp

lemma be_put_get_64: "length bs = 8 \<Longrightarrow> be_put 8 (be_get bs :: u64) = bs"
  using be_put_get [of bs, where 'a = 64] by simp

section \<open>Zero-extended byte access\<close>

text \<open>
  Symbols of different lengths are combined as if the shorter were extended with
  zeros; \<^verbatim>\<open>byte_at\<close> is that reading of a byte string.
\<close>

definition byte_at :: "bytes \<Rightarrow> nat \<Rightarrow> u8" where
  "byte_at bs k = (if k < length bs then bs ! k else 0)"

definition zero_extends :: "bytes \<Rightarrow> bytes \<Rightarrow> bool" where
  "zero_extends longer shorter \<longleftrightarrow> (\<exists>n. longer = shorter @ replicate n 0)"

lemma byte_at_append_zeros [simp]: "byte_at (bs @ replicate n 0) = byte_at bs"
  by (auto simp: byte_at_def nth_append fun_eq_iff)

lemma byte_at_eq_zero_extends:
  assumes "byte_at xs = byte_at ys" and "length ys \<le> length xs"
  shows "zero_extends xs ys"
proof -
  have pt: "byte_at xs k = byte_at ys k" for k using assms(1) by simp
  have "xs = ys @ replicate (length xs - length ys) 0"
  proof (rule nth_equalityI)
    show "length xs = length (ys @ replicate (length xs - length ys) 0)"
      using assms(2) by simp
    fix k assume "k < length xs"
    then show "xs ! k = (ys @ replicate (length xs - length ys) 0) ! k"
      using pt [of k] assms(2) by (auto simp: byte_at_def nth_append)
  qed
  then show ?thesis unfolding zero_extends_def by blast
qed

section \<open>Words as offsets\<close>

lemma unat_add_no_wrap:
  "unat a + n < 2 ^ LENGTH('a::len) \<Longrightarrow> unat (a + of_nat n :: 'a word) = unat a + n"
  by (simp add: unat_word_ariths unat_of_nat)

lemma word_le_sub_max:
  "(s :: u64) \<le> - 1 - of_nat n \<longleftrightarrow> unat s + n < 2 ^ 64" if "n < 2 ^ 64"
proof -
  have "unat (- 1 - of_nat n :: u64) = 2 ^ 64 - 1 - n"
  proof -
    have "(of_nat n :: u64) \<le> - 1" by simp
    then have "unat (- 1 - of_nat n :: u64) = unat (- 1 :: u64) - unat (of_nat n :: u64)"
      by (rule unat_sub)
    then show ?thesis using that by (simp add: unat_of_nat unsigned_minus_1_eq_mask mask_eq_exp_minus_1)
  qed
  then show ?thesis using that by (auto simp: word_le_nat_alt)
qed

section \<open>Byte ranges\<close>

text \<open>
  The offsets named by a list of half-open ranges, and lists whose ranges are
  non-empty, in order, separated by at least one missing byte and above a cursor.
\<close>

definition range_bytes :: "range64 list \<Rightarrow> nat set" where
  "range_bytes rs = (\<Union>r\<in>set rs. {unat (fst r)..<unat (snd r)})"

definition gapped :: "u64 \<Rightarrow> range64 list \<Rightarrow> bool" where
  "gapped c rs \<longleftrightarrow> sorted_wrt (\<lambda>a b. snd a < fst b) rs \<and> (\<forall>r\<in>set rs. c < fst r \<and> fst r < snd r)"

section \<open>Sums over lists\<close>

lemma sum_list_filter_split:
  "sum_list (map f xs) = sum_list (map f (filter P xs)) + sum_list (map f (filter (\<lambda>x. \<not> P x) xs))"
  for f :: "'a \<Rightarrow> nat"
  by (induction xs) auto

lemma sum_list_mem_le: "x \<in> set xs \<Longrightarrow> f x \<le> sum_list (map f xs)"
  for f :: "'a \<Rightarrow> nat"
  by (induction xs) auto

lemma sum_list_int: "sum_list (map (\<lambda>x. int (f x)) xs) = int (sum_list (map f xs))"
  by (induction xs) auto

section \<open>Binary search\<close>

text \<open>\<^verbatim>\<open>sort.Search(n, f)\<close>: the standard library's bisection over \<^verbatim>\<open>[i, j)\<close>.\<close>

function sort_search :: "(nat \<Rightarrow> bool) \<Rightarrow> nat \<Rightarrow> nat \<Rightarrow> nat" where
  "sort_search f i j =
     (if i < j then
        (let h = (i + j) div 2 in
         if \<not> f h then sort_search f (h + 1) j else sort_search f i h)
      else i)"
  by pat_completeness auto
termination
  by (relation "measure (\<lambda>(f, i, j). j - i)") auto

declare sort_search.simps [simp del]

lemma sort_search_range: "i \<le> j \<Longrightarrow> i \<le> sort_search f i j \<and> sort_search f i j \<le> j"
proof (induction f i j rule: sort_search.induct)
  case (1 f i j)
  show ?case
  proof (cases "i < j")
    case True
    let ?h = "(i + j) div 2"
    from True have "i \<le> ?h" "?h < j" by auto
    then show ?thesis
      using "1.IH" [OF True refl] True by (auto simp: sort_search.simps [of f i j] Let_def)
  next
    case False
    with "1.prems" show ?thesis by (simp add: sort_search.simps)
  qed
qed

lemma sort_search_split:
  assumes "i \<le> j" and "\<And>a b. a \<le> b \<Longrightarrow> b < j \<Longrightarrow> f a \<Longrightarrow> f b"
  shows "(\<forall>k. i \<le> k \<longrightarrow> k < sort_search f i j \<longrightarrow> \<not> f k)
       \<and> (\<forall>k. sort_search f i j \<le> k \<longrightarrow> k < j \<longrightarrow> f k)"
  using assms
proof (induction f i j rule: sort_search.induct)
  case (1 f i j)
  let ?h = "(i + j) div 2"
  consider "\<not> i < j" | "i < j" "\<not> f ?h" | "i < j" "f ?h" by blast
  then show ?case
  proof cases
    case 1
    then show ?thesis using "1.prems" by (simp add: sort_search.simps)
  next
    case 2
    then have h: "i \<le> ?h" "?h + 1 \<le> j" by auto
    have ih: "(\<forall>k. ?h + 1 \<le> k \<longrightarrow> k < sort_search f (?h + 1) j \<longrightarrow> \<not> f k)
       \<and> (\<forall>k. sort_search f (?h + 1) j \<le> k \<longrightarrow> k < j \<longrightarrow> f k)"
      using "1.IH"(1) [OF 2(1) refl 2(2) h(2)] "1.prems"(2) by blast
    have low: "\<not> f k" if "k \<le> ?h" for k
      using "1.prems"(2) [of k ?h] that 2 h by auto
    have "\<not> f k" if "k < sort_search f (?h + 1) j" for k
      using low ih that by (cases "k \<le> ?h") auto
    then show ?thesis using 2 ih by (simp add: sort_search.simps [of f i j] Let_def)
  next
    case 3
    then have h: "i \<le> ?h" "?h < j" by auto
    have ih: "(\<forall>k. i \<le> k \<longrightarrow> k < sort_search f i ?h \<longrightarrow> \<not> f k)
       \<and> (\<forall>k. sort_search f i ?h \<le> k \<longrightarrow> k < ?h \<longrightarrow> f k)"
      using "1.IH"(2) [OF 3(1) refl _ h(1)] 3(2) "1.prems"(2) h by (meson less_trans)
    have "f k" if "sort_search f i ?h \<le> k" "k < j" for k
      using ih that "1.prems"(2) [of ?h k] 3(2) by (cases "k < ?h") auto
    then show ?thesis using 3 ih by (simp add: sort_search.simps [of f i j] Let_def)
  qed
qed

text \<open>Searching a strictly sorted list of keys for the insertion point of \<^verbatim>\<open>x\<close>.\<close>

definition search_key :: "'a::linorder list \<Rightarrow> 'a \<Rightarrow> nat" where
  "search_key xs x = sort_search (\<lambda>i. xs ! i \<ge> x) 0 (length xs)"

lemma search_key_le: "search_key xs x \<le> length xs"
  unfolding search_key_def using sort_search_range [of 0 "length xs"] by simp

lemma search_key_eq:
  assumes "sorted_wrt (<) xs"
  shows "search_key xs x = length (takeWhile (\<lambda>y. y < x) xs)"
proof -
  let ?r = "search_key xs x"
  have mono: "x \<le> xs ! b" if "a \<le> b" "b < length xs" "x \<le> xs ! a" for a b
  proof (cases "a = b")
    case False
    then have "xs ! a < xs ! b" using that assms by (simp add: sorted_wrt_iff_nth_less)
    then show ?thesis using that by simp
  qed (use that in simp)
  have split: "(\<forall>k<?r. xs ! k < x) \<and> (\<forall>k. ?r \<le> k \<longrightarrow> k < length xs \<longrightarrow> x \<le> xs ! k)"
    using sort_search_split [of 0 "length xs" "\<lambda>i. xs ! i \<ge> x"] mono
    by (simp add: search_key_def not_le)
  have "takeWhile (\<lambda>y. y < x) xs = take ?r xs"
  proof (rule takeWhile_eq_take_P_nth)
    show "\<And>i. i < ?r \<Longrightarrow> i < length xs \<Longrightarrow> xs ! i < x" using split by auto
    show "?r < length xs \<Longrightarrow> \<not> xs ! ?r < x" using split by auto
  qed
  then show ?thesis using search_key_le [of xs x] by simp
qed

lemma takeWhile_dropWhile_sorted:
  fixes x :: "'a::linorder"
  assumes "sorted_wrt (<) xs"
  shows "\<forall>y\<in>set (takeWhile (\<lambda>y. y < x) xs). y < x" "\<forall>y\<in>set (dropWhile (\<lambda>y. y < x) xs). x \<le> y"
proof -
  show "\<forall>y\<in>set (takeWhile (\<lambda>y. y < x) xs). y < x" by (auto dest: set_takeWhileD)
  show "\<forall>y\<in>set (dropWhile (\<lambda>y. y < x) xs). x \<le> y"
    using assms by (induction xs) (auto simp: not_less dest: less_imp_le)
qed

text \<open>Inserting a new key at its search position, and removing a key found there.\<close>

lemma search_key_split:
  fixes x :: "'a::linorder"
  assumes "sorted_wrt (<) xs"
  obtains t d where "xs = t @ d" "take (search_key xs x) xs = t" "drop (search_key xs x) xs = d"
    "search_key xs x = length t" "\<forall>y\<in>set t. y < x" "\<forall>y\<in>set d. x \<le> y"
proof
  let ?t = "takeWhile (\<lambda>y. y < x) xs" and ?d = "dropWhile (\<lambda>y. y < x) xs"
  show "xs = ?t @ ?d" by simp
  show "search_key xs x = length ?t" by (rule search_key_eq [OF assms])
  then show "take (search_key xs x) xs = ?t" "drop (search_key xs x) xs = ?d"
    by (simp_all add: takeWhile_eq_take [symmetric] dropWhile_eq_drop [symmetric])
  show "\<forall>y\<in>set ?t. y < x" "\<forall>y\<in>set ?d. x \<le> y"
    using takeWhile_dropWhile_sorted [OF assms] by blast+
qed

lemma insert_at_search:
  fixes x :: "'a::linorder"
  assumes "sorted_wrt (<) xs" "x \<notin> set xs"
  shows "sorted_wrt (<) (take (search_key xs x) xs @ [x] @ drop (search_key xs x) xs)"
    and "set (take (search_key xs x) xs @ [x] @ drop (search_key xs x) xs) = {x} \<union> set xs"
proof -
  obtain t d where td: "xs = t @ d" "take (search_key xs x) xs = t" "drop (search_key xs x) xs = d"
    "\<forall>y\<in>set t. y < x" "\<forall>y\<in>set d. x \<le> y"
    using search_key_split [OF assms(1), of x] by metis
  have "\<forall>y\<in>set d. x < y" using td assms(2) by (auto simp: order_le_less)
  then show "sorted_wrt (<) (take (search_key xs x) xs @ [x] @ drop (search_key xs x) xs)"
    using td assms(1) by (auto simp: sorted_wrt_append)
  show "set (take (search_key xs x) xs @ [x] @ drop (search_key xs x) xs) = {x} \<union> set xs"
    unfolding td(2,3) using td(1) by auto
qed

lemma remove_at_search:
  fixes x :: "'a::linorder"
  assumes "sorted_wrt (<) xs" "x \<in> set xs"
  shows "search_key xs x < length xs" "xs ! search_key xs x = x"
    and "take (search_key xs x) xs @ drop (search_key xs x + 1) xs = filter (\<lambda>y. y \<noteq> x) xs"
proof -
  obtain t d where td: "xs = t @ d" "take (search_key xs x) xs = t" "search_key xs x = length t"
    "\<forall>y\<in>set t. y < x" "\<forall>y\<in>set d. x \<le> y"
    using search_key_split [OF assms(1), of x] by metis
  have "x \<in> set d" using td assms(2) by auto
  then obtain e ds where d: "d = e # ds" by (cases d) auto
  have e: "e = x" using \<open>x \<in> set d\<close> d td assms(1) by (auto simp: sorted_wrt_append)
  show "search_key xs x < length xs" "xs ! search_key xs x = x"
    using td d e by (simp_all add: nth_append)
  have "filter (\<lambda>y. y \<noteq> x) t = t" using td by (intro filter_True) auto
  moreover have "filter (\<lambda>y. y \<noteq> x) ds = ds"
    using td d e assms(1) by (intro filter_True) (auto simp: sorted_wrt_append)
  ultimately show "take (search_key xs x) xs @ drop (search_key xs x + 1) xs = filter (\<lambda>y. y \<noteq> x) xs"
    using td(1-3) d e by simp
qed

section \<open>Results\<close>

text \<open>A fallible Go function returns an error or a value: \<^verbatim>\<open>Inl e\<close> or \<^verbatim>\<open>Inr v\<close>.\<close>

definition is_ok :: "'e + 'a \<Rightarrow> bool" where
  "is_ok r \<longleftrightarrow> (\<exists>v. r = Inr v)"

lemma is_ok_Inr [simp]: "is_ok (Inr v)" and is_ok_Inl [simp]: "\<not> is_ok (Inl e)"
  by (auto simp: is_ok_def)

section \<open>Wire codecs\<close>

text \<open>
  Every wire format of the program is an encoder that may refuse its argument and a
  decoder that may refuse its input. What the layers above rely on is that a value
  the encoder accepts is what the decoder returns. The laws give, once for all
  formats, that encodings are unambiguous.
\<close>

locale codec =
  fixes enc :: "'a \<Rightarrow> 'e + bytes"
    and dec :: "bytes \<Rightarrow> 'd + 'a"
    and wf :: "'a \<Rightarrow> bool"
  assumes dec_enc: "wf a \<Longrightarrow> enc a = Inr bs \<Longrightarrow> dec bs = Inr a"
begin

lemma enc_inj: "wf a \<Longrightarrow> wf b \<Longrightarrow> enc a = Inr bs \<Longrightarrow> enc b = Inr bs \<Longrightarrow> a = b"
  using dec_enc by (metis sum.inject(2))

lemma enc_sum_inj:
  "wf a \<Longrightarrow> wf b \<Longrightarrow> is_ok (enc a) \<Longrightarrow> enc a = enc b \<longleftrightarrow> a = b"
  by (auto simp: is_ok_def intro: enc_inj)

lemma dec_rejects_other:
  "wf a \<Longrightarrow> enc a = Inr bs \<Longrightarrow> b \<noteq> a \<Longrightarrow> dec bs \<noteq> Inr b"
  using dec_enc by fastforce

end

text \<open>
  A canonical codec also has no second spelling: whatever the decoder accepts is
  exactly what the encoder produces for the decoded value.
\<close>

locale canonical_codec = codec +
  assumes enc_dec: "dec bs = Inr a \<Longrightarrow> wf a \<and> enc a = Inr bs"
begin

lemma dec_inj: "dec xs = Inr a \<Longrightarrow> dec ys = Inr a \<Longrightarrow> xs = ys"
  using enc_dec by (metis sum.inject(2))

lemma dec_iff_enc: "dec bs = Inr a \<longleftrightarrow> wf a \<and> enc a = Inr bs"
  using dec_enc enc_dec by blast

end

end
