(* ===== verification/Frame.thy ===== *)
theory Frame
  imports Prelude
begin

text \<open>
  The versioned frame envelope of \<^verbatim>\<open>internal/protocol/frame.go\<close>: the 46-byte header,
  its validation, the frame reader and writer, and the acknowledgement-range payload.
  A Go \<^verbatim>\<open>[]byte\<close> is a list of 8-bit words; a reader is the rest of its byte stream;
  a writer is a function from its own state.
\<close>

section \<open>Wire constants\<close>

definition Magic0 :: u8 where [wire_defs]: "Magic0 = 0x57"
definition Magic1 :: u8 where [wire_defs]: "Magic1 = 0x4F"
definition Version :: u8 where [wire_defs]: "Version = 2"
definition HeaderSize :: nat where [wire_defs]: "HeaderSize = 46"
definition MaxPayload :: nat where [wire_defs]: "MaxPayload = 128 * 1024"
definition MaxProbePayload :: nat where [wire_defs]: "MaxProbePayload = 1200"
definition MaxProbeFrames :: nat where [wire_defs]: "MaxProbeFrames = 128"
definition MaxProbeBytes :: nat where [wire_defs]: "MaxProbeBytes = 128 * 1024"
definition FlagFin :: u16 where [wire_defs]: "FlagFin = push_bit 0 1"
definition FlagAckFinal :: u16 where [wire_defs]: "FlagAckFinal = push_bit 1 1"
definition FlagAckUp :: u16 where [wire_defs]: "FlagAckUp = push_bit 2 1"
definition FlagAckDown :: u16 where [wire_defs]: "FlagAckDown = push_bit 3 1"
definition FlagCloseAbort :: u16 where [wire_defs]: "FlagCloseAbort = push_bit 4 1"
definition FlagReserveControl :: u16 where [wire_defs]: "FlagReserveControl = push_bit 5 1"
definition FlagReplaceLane :: u16 where [wire_defs]: "FlagReplaceLane = push_bit 6 1"
definition FlagAckRanges :: u16 where [wire_defs]: "FlagAckRanges = push_bit 7 1"

definition knownFlags :: u16 where [wire_defs]:
  "knownFlags = FlagFin OR FlagAckFinal OR FlagAckUp OR FlagAckDown OR FlagCloseAbort
     OR FlagReserveControl OR FlagReplaceLane OR FlagAckRanges"

definition TypeOpen :: u8 where [wire_defs]: "TypeOpen = 1"
definition TypeOpenOK :: u8 where [wire_defs]: "TypeOpenOK = 2"
definition TypeJoin :: u8 where [wire_defs]: "TypeJoin = 3"
definition TypeData :: u8 where [wire_defs]: "TypeData = 4"
definition TypeAck :: u8 where [wire_defs]: "TypeAck = 5"
definition TypeClose :: u8 where [wire_defs]: "TypeClose = 6"
definition TypeReset :: u8 where [wire_defs]: "TypeReset = 7"
definition TypePacket :: u8 where [wire_defs]: "TypePacket = 8"
definition TypeProbe :: u8 where [wire_defs]: "TypeProbe = 9"

definition type_valid :: "u8 \<Rightarrow> bool" where
  "type_valid t \<longleftrightarrow> t \<ge> TypeOpen \<and> t \<le> TypeProbe"

definition ClassNew :: u8 where [wire_defs]: "ClassNew = 0"
definition ClassInteractive :: u8 where [wire_defs]: "ClassInteractive = 1"
definition ClassBulk :: u8 where [wire_defs]: "ClassBulk = 2"

section \<open>Headers and frames\<close>

text \<open>\<^verbatim>\<open>SessionID\<close> is a Go array of sixteen bytes; the model carries a list and
  \<^verbatim>\<open>wf_header\<close> its length.\<close>

record header =
  hVersion :: u8
  hType :: u8
  hFlags :: u16
  hSessionID :: bytes
  hFlowID :: u64
  hSequence :: u64
  hPayloadLen :: u32
  hClass :: u8

record frame =
  fHeader :: header
  fPayload :: bytes

definition wf_header :: "header \<Rightarrow> bool" where
  "wf_header h \<longleftrightarrow> length (hSessionID h) = 16"

datatype frame_error =
    ErrShortBuffer
  | ErrEOF
  | ErrUnexpectedEOF
  | ErrShortWrite
  | InvalidFrameHeader
  | UnknownFrameFlags
  | PayloadExceedsLimit
  | PayloadLengthExceedsLimit u32
  | InvalidFrameMagic
  | UnsupportedVersionError u8 u8
  | UnsupportedFrameHeader frame_error
  | NonZeroReservedBits
  | PayloadLengthMismatch nat u32
  | AckTooManyRanges nat
  | AckRangeEmptyOrInverted
  | AckPayloadMisaligned
  | AckRangesOverlap
  | WriterFailed
  | SliceOutOfRange

definition reserveControlFlagValid :: "u8 \<Rightarrow> u16 \<Rightarrow> bool" where
  "reserveControlFlagValid t flags \<longleftrightarrow> flags AND FlagReserveControl = 0 \<or> t = TypeOpen \<or> t = TypeJoin"

definition replaceLaneFlagValid :: "u8 \<Rightarrow> u16 \<Rightarrow> bool" where
  "replaceLaneFlagValid t flags \<longleftrightarrow> flags AND FlagReplaceLane = 0 \<or> t = TypeJoin"

definition ackRangesFlagValid :: "u8 \<Rightarrow> u16 \<Rightarrow> bool" where
  "ackRangesFlagValid t flags \<longleftrightarrow> flags AND FlagAckRanges = 0 \<or> t = TypeAck"

definition flags_valid :: "header \<Rightarrow> bool" where
  "flags_valid h \<longleftrightarrow> hFlags h AND NOT knownFlags = 0 \<and> reserveControlFlagValid (hType h) (hFlags h)
     \<and> replaceLaneFlagValid (hType h) (hFlags h) \<and> ackRangesFlagValid (hType h) (hFlags h)"

text \<open>The 46 bytes \<^verbatim>\<open>Encode\<close> stores at the front of its destination.\<close>

definition header_bytes :: "header \<Rightarrow> bytes" where
  "header_bytes h =
     [Magic0, Magic1, hVersion h, hType h] @ be_put 2 (hFlags h) @ hSessionID h
     @ be_put 8 (hFlowID h) @ be_put 8 (hSequence h) @ be_put 4 (hPayloadLen h)
     @ [hClass h] @ [0, 0, 0]"

definition Encode :: "header \<Rightarrow> bytes \<Rightarrow> frame_error + bytes" where
  "Encode h dst =
     (if length dst < HeaderSize then Inl ErrShortBuffer
      else if hVersion h \<noteq> Version \<or> \<not> type_valid (hType h) \<or> hClass h > ClassBulk \<or> \<not> flags_valid h
      then Inl InvalidFrameHeader
      else if unat (hPayloadLen h) > MaxPayload then Inl PayloadExceedsLimit
      else Inr (header_bytes h @ drop HeaderSize dst))"

definition Validate :: "header \<Rightarrow> frame_error option" where
  "Validate h =
     (if hVersion h \<noteq> Version \<or> \<not> type_valid (hType h) \<or> hClass h > ClassBulk
      then Some InvalidFrameHeader
      else if \<not> flags_valid h then Some UnknownFrameFlags
      else if unat (hPayloadLen h) > MaxPayload then Some (PayloadLengthExceedsLimit (hPayloadLen h))
      else None)"

definition header_fields :: "bytes \<Rightarrow> header" where
  "header_fields src =
     \<lparr>hVersion = src ! 2, hType = src ! 3, hFlags = be_get (go_slice 4 6 src),
      hSessionID = go_slice 6 22 src, hFlowID = be_get (go_slice 22 30 src),
      hSequence = be_get (go_slice 30 38 src), hPayloadLen = be_get (go_slice 38 42 src),
      hClass = src ! 42\<rparr>"

definition DecodeHeader :: "bytes \<Rightarrow> frame_error + header" where
  "DecodeHeader src =
     (if length src < HeaderSize then Inl ErrUnexpectedEOF
      else if src ! 0 \<noteq> Magic0 \<or> src ! 1 \<noteq> Magic1 then Inl InvalidFrameMagic
      else if src ! 2 \<noteq> Version then Inl (UnsupportedVersionError (src ! 2) Version)
      else let h = header_fields src in
        case Validate h of
          Some e \<Rightarrow> Inl (UnsupportedFrameHeader e)
        | None \<Rightarrow>
            if src ! 43 \<noteq> 0 \<or> src ! 44 \<noteq> 0 \<or> src ! 45 \<noteq> 0 then Inl NonZeroReservedBits
            else Inr h)"

text \<open>\<^verbatim>\<open>io.ReadFull\<close> on a byte stream: no byte at all is \<^verbatim>\<open>EOF\<close>, some but too few
  is \<^verbatim>\<open>ErrUnexpectedEOF\<close>, and asking for nothing always succeeds.\<close>

definition ReadFull :: "nat \<Rightarrow> bytes \<Rightarrow> frame_error + bytes \<times> bytes" where
  "ReadFull n r =
     (if n = 0 then Inr ([], r)
      else if r = [] then Inl ErrEOF
      else if length r < n then Inl ErrUnexpectedEOF
      else Inr (take n r, drop n r))"

definition ReadFrame :: "bytes \<Rightarrow> frame_error + frame \<times> bytes" where
  "ReadFrame r =
     (case ReadFull HeaderSize r of
        Inl e \<Rightarrow> Inl e
      | Inr (raw, r1) \<Rightarrow>
          (case DecodeHeader raw of
             Inl e \<Rightarrow> Inl e
           | Inr h \<Rightarrow>
               (case ReadFull (unat (hPayloadLen h)) r1 of
                  Inl e \<Rightarrow> Inl e
                | Inr (payload, r2) \<Rightarrow> Inr (\<lparr>fHeader = h, fPayload = payload\<rparr>, r2))))"

definition ParseFrame :: "bytes \<Rightarrow> frame_error + frame" where
  "ParseFrame b =
     (if length b < HeaderSize then Inl ErrUnexpectedEOF
      else case DecodeHeader (take HeaderSize b) of
        Inl e \<Rightarrow> Inl e
      | Inr h \<Rightarrow>
          (let rest = drop HeaderSize b in
           if length rest \<noteq> unat (hPayloadLen h)
           then Inl (PayloadLengthMismatch (length rest) (hPayloadLen h))
           else Inr \<lparr>fHeader = h, fPayload = rest\<rparr>))"

text \<open>\<^verbatim>\<open>AppendFrame\<close> returns the destination it was given when it refuses a frame.\<close>

definition AppendFrame :: "bytes \<Rightarrow> frame \<Rightarrow> bytes \<times> frame_error option" where
  "AppendFrame dst f =
     (if length (fPayload f) > MaxPayload then (dst, Some PayloadExceedsLimit)
      else
        (let h = (fHeader f)\<lparr>hPayloadLen := of_nat (length (fPayload f))\<rparr>;
             room = dst @ replicate HeaderSize 0 in
         case Encode h (drop (length dst) room) of
           Inl e \<Rightarrow> (take (length dst) room, Some e)
         | Inr written \<Rightarrow> (take (length dst) room @ written @ fPayload f, None)))"

text \<open>
  \<^verbatim>\<open>writeFull\<close> loops until the writer has taken everything. The writer is a function of
  its own state that reports how many bytes it took and, possibly, an error; a count
  beyond the buffer is the slice panic of \<^verbatim>\<open>p = p[n:]\<close>.
\<close>

type_synonym 's writer = "'s \<Rightarrow> bytes \<Rightarrow> nat \<times> frame_error option \<times> 's"

function writeFull :: "'s writer \<Rightarrow> 's \<Rightarrow> bytes \<Rightarrow> frame_error option \<times> 's" where
  "writeFull w s p =
     (if p = [] then (None, s)
      else case w s p of
        (n, err, s') \<Rightarrow>
          if n > length p then (Some SliceOutOfRange, s')
          else case err of
            Some e \<Rightarrow> (Some e, s')
          | None \<Rightarrow> if n = 0 then (Some ErrShortWrite, s') else writeFull w s' (drop n p))"
  by pat_completeness auto
termination
  by (relation "measure (\<lambda>(w, s, p). length p)") auto

declare writeFull.simps [simp del]

definition WriteFrame :: "'s writer \<Rightarrow> 's \<Rightarrow> frame \<Rightarrow> frame_error option \<times> 's" where
  "WriteFrame w s f =
     (case AppendFrame [] f of
        (_, Some e) \<Rightarrow> (Some e, s)
      | (buf, None) \<Rightarrow> writeFull w s buf)"

section \<open>Acknowledgement ranges\<close>

definition MaxAckRanges :: nat where [wire_defs]: "MaxAckRanges = 16"
definition AckRangeSize :: nat where [wire_defs]: "AckRangeSize = 16"

fun encode_ranges_loop :: "bytes \<Rightarrow> range64 list \<Rightarrow> frame_error + bytes" where
  "encode_ranges_loop payload [] = Inr payload"
| "encode_ranges_loop payload (r # rs) =
     (if fst r \<ge> snd r then Inl AckRangeEmptyOrInverted
      else encode_ranges_loop ((payload @ be_put 8 (fst r)) @ be_put 8 (snd r)) rs)"

definition EncodeAckRanges :: "range64 list \<Rightarrow> frame_error + bytes" where
  "EncodeAckRanges ranges =
     (if length ranges > MaxAckRanges then Inl (AckTooManyRanges (length ranges))
      else encode_ranges_loop [] ranges)"

fun decode_ranges_loop :: "bytes \<Rightarrow> nat list \<Rightarrow> u64 \<Rightarrow> range64 list \<Rightarrow> frame_error + range64 list" where
  "decode_ranges_loop payload [] previousEnd ranges = Inr ranges"
| "decode_ranges_loop payload (i # is) previousEnd ranges =
     (let start = be_get (go_slice (i * AckRangeSize) (i * AckRangeSize + 8) payload);
          end = be_get (go_slice (i * AckRangeSize + 8) (i * AckRangeSize + 16) payload) in
      if start \<ge> end then Inl AckRangeEmptyOrInverted
      else if start < previousEnd then Inl AckRangesOverlap
      else decode_ranges_loop payload is end (ranges @ [(start, end)]))"

definition DecodeAckRanges :: "bytes \<Rightarrow> u64 \<Rightarrow> frame_error + range64 list" where
  "DecodeAckRanges payload cumulative =
     (if length payload mod AckRangeSize \<noteq> 0 then Inl AckPayloadMisaligned
      else
        (let count = length payload div AckRangeSize in
         if count > MaxAckRanges then Inl (AckTooManyRanges count)
         else decode_ranges_loop payload [0..<count] cumulative []))"

text \<open>What a decoded list promises: non-empty ranges, in order, none reaching below the
  end of the one before or below the cumulative point.\<close>

fun ranges_above :: "u64 \<Rightarrow> range64 list \<Rightarrow> bool" where
  "ranges_above c [] \<longleftrightarrow> True"
| "ranges_above c (r # rs) \<longleftrightarrow> c \<le> fst r \<and> fst r < snd r \<and> ranges_above (snd r) rs"

definition ack_ranges_valid :: "u64 \<Rightarrow> range64 list \<Rightarrow> bool" where
  "ack_ranges_valid c rs \<longleftrightarrow> length rs \<le> MaxAckRanges \<and> ranges_above c rs"

section \<open>Header round trip\<close>

lemma header_bytes_length: "wf_header h \<Longrightarrow> length (header_bytes h) = 46"
  by (simp add: header_bytes_def wf_header_def)

lemma header_fields_header_bytes:
  assumes "wf_header h"
  shows "header_fields (header_bytes h @ rest) = h"
    and "(header_bytes h @ rest) ! 0 = Magic0"
    and "(header_bytes h @ rest) ! Suc 0 = Magic1"
    and "(header_bytes h @ rest) ! 2 = hVersion h"
    and "(header_bytes h @ rest) ! 43 = 0"
    and "(header_bytes h @ rest) ! 44 = 0"
    and "(header_bytes h @ rest) ! 45 = 0"
  using assms
  by (simp_all add: header_bytes_def header_fields_def wf_header_def go_slice_def nth_append take_Cons' drop_Cons' nth_Cons')

lemma take_Suc_nth: "n < length xs \<Longrightarrow> take (Suc n) xs = take n xs @ go_slice n (Suc n) xs"
  using take_append_go_slice [of n "Suc n" xs] by simp

lemma go_slice_one: "n < length xs \<Longrightarrow> go_slice n (Suc n) xs = [xs ! n]"
  by (simp add: go_slice_def Cons_nth_drop_Suc [symmetric])

lemma take_46_layout:
  assumes "46 \<le> length (src :: bytes)"
  shows "take 46 src = [src ! 0, src ! 1, src ! 2, src ! 3] @ go_slice 4 6 src @ go_slice 6 22 src
     @ go_slice 22 30 src @ go_slice 30 38 src @ go_slice 38 42 src
     @ [src ! 42] @ [src ! 43, src ! 44, src ! 45]"
proof -
  have head: "take 4 src = [src ! 0, src ! 1, src ! 2, src ! 3]"
    using assms by (cases src; cases "tl src"; cases "tl (tl src)"; cases "tl (tl (tl src))") auto
  have tail: "go_slice 42 46 src = [src ! 42] @ [src ! 43, src ! 44, src ! 45]"
  proof -
    have "go_slice 42 46 src = go_slice 42 43 src @ go_slice 43 44 src @ go_slice 44 45 src @ go_slice 45 46 src"
      by (simp add: go_slice_append)
    then show ?thesis
      using assms go_slice_one [of 42 src] go_slice_one [of 43 src] go_slice_one [of 44 src]
        go_slice_one [of 45 src] by simp
  qed
  have "take 46 src = take 4 src @ go_slice 4 6 src @ go_slice 6 22 src @ go_slice 22 30 src
     @ go_slice 30 38 src @ go_slice 38 42 src @ go_slice 42 46 src"
    by (simp add: go_slice_append take_append_go_slice)
  then show ?thesis by (simp only: head tail)
qed

lemma header_bytes_header_fields:
  assumes "46 \<le> length src" "src ! 0 = Magic0" "src ! 1 = Magic1"
    and "src ! 43 = 0" "src ! 44 = 0" "src ! 45 = 0"
  shows "header_bytes (header_fields src) = take 46 src"
proof -
  have "be_put 2 (be_get (go_slice 4 6 src) :: u16) = go_slice 4 6 src"
    by (rule be_put_get_16) (use assms in simp)
  moreover have "be_put 8 (be_get (go_slice 22 30 src) :: u64) = go_slice 22 30 src"
    by (rule be_put_get_64) (use assms in simp)
  moreover have "be_put 8 (be_get (go_slice 30 38 src) :: u64) = go_slice 30 38 src"
    by (rule be_put_get_64) (use assms in simp)
  moreover have "be_put 4 (be_get (go_slice 38 42 src) :: u32) = go_slice 38 42 src"
    by (rule be_put_get_32) (use assms in simp)
  ultimately show ?thesis
    using assms by (simp add: take_46_layout header_bytes_def header_fields_def)
qed

lemma Encode_ok_iff:
  "Encode h dst = Inr out \<longleftrightarrow>
     46 \<le> length dst \<and> Validate h = None \<and> out = header_bytes h @ drop 46 dst"
  by (auto simp: Encode_def Validate_def HeaderSize_def)

lemma DecodeHeader_ok_iff:
  "DecodeHeader src = Inr h \<longleftrightarrow>
     46 \<le> length src \<and> src ! 0 = Magic0 \<and> src ! 1 = Magic1 \<and> h = header_fields src
     \<and> Validate h = None \<and> src ! 43 = 0 \<and> src ! 44 = 0 \<and> src ! 45 = 0"
proof -
  have "src ! 2 = Version" if "Validate (header_fields src) = None"
    using that by (auto simp: Validate_def header_fields_def split: if_splits)
  then show ?thesis
    by (auto simp: DecodeHeader_def HeaderSize_def Let_def split: option.splits if_splits)
qed

lemma DecodeHeader_Encode:
  "wf_header h \<Longrightarrow> Encode h dst = Inr out \<Longrightarrow> DecodeHeader out = Inr h"
  by (auto simp: Encode_ok_iff DecodeHeader_ok_iff header_fields_header_bytes header_bytes_length)

lemma DecodeHeader_header_bytes:
  "wf_header h \<Longrightarrow> Validate h = None \<Longrightarrow> DecodeHeader (header_bytes h @ rest) = Inr h"
  by (simp add: DecodeHeader_ok_iff header_fields_header_bytes header_bytes_length)

lemma Encode_DecodeHeader:
  "DecodeHeader src = Inr h \<Longrightarrow> wf_header h \<and> Encode h src = Inr src"
  by (auto simp: Encode_ok_iff DecodeHeader_ok_iff header_bytes_header_fields)
     (simp add: wf_header_def header_fields_def)

lemma Validate_payload_bound: "Validate h = None \<Longrightarrow> unat (hPayloadLen h) \<le> MaxPayload"
  by (auto simp: Validate_def split: if_splits)

lemma DecodeHeader_take: "DecodeHeader (take 46 src) = DecodeHeader src"
proof (cases "46 \<le> length src")
  case True
  have "header_fields (take 46 src) = header_fields src"
    by (simp add: header_fields_def go_slice_def min_def drop_take)
  moreover have "i < 46 \<Longrightarrow> take 46 src ! i = src ! i" for i by simp
  ultimately show ?thesis using True by (simp add: DecodeHeader_def HeaderSize_def Let_def cong: option.case_cong)
qed simp

section \<open>Frame round trip\<close>

definition wf_frame :: "frame \<Rightarrow> bool" where
  "wf_frame f \<longleftrightarrow> wf_header (fHeader f) \<and> hPayloadLen (fHeader f) = of_nat (length (fPayload f))"

text \<open>The codec the datagram substrate uses: one frame in one buffer.\<close>

definition encode_frame :: "frame \<Rightarrow> frame_error + bytes" where
  "encode_frame f = (case AppendFrame [] f of (b, None) \<Rightarrow> Inr b | (_, Some e) \<Rightarrow> Inl e)"

lemma AppendFrame_ok_iff:
  assumes "wf_frame f"
  shows "AppendFrame dst f = (out, None) \<longleftrightarrow>
    length (fPayload f) \<le> MaxPayload \<and> Validate (fHeader f) = None
    \<and> out = dst @ header_bytes (fHeader f) @ fPayload f"
proof -
  have h: "(fHeader f)\<lparr>hPayloadLen := of_nat (length (fPayload f))\<rparr> = fHeader f"
    using assms by (cases "fHeader f") (simp add: wf_frame_def)
  show ?thesis
    using Encode_ok_iff [of "fHeader f" "replicate 46 0"]
    by (cases "Encode (fHeader f) (replicate 46 0)") (auto simp: AppendFrame_def Let_def h HeaderSize_def)
qed

lemma AppendFrame_error_keeps_dst: "AppendFrame dst f = (out, Some e) \<Longrightarrow> out = dst"
  by (auto simp: AppendFrame_def Let_def split: sum.splits if_splits)

lemma encode_frame_ok_iff:
  assumes "wf_frame f"
  shows "encode_frame f = Inr b \<longleftrightarrow> length (fPayload f) \<le> MaxPayload
    \<and> Validate (fHeader f) = None \<and> b = header_bytes (fHeader f) @ fPayload f"
  using AppendFrame_ok_iff [OF assms, of "[]" b]
  by (auto simp: encode_frame_def split: prod.splits option.splits)

lemma payload_len_unat: "wf_frame f \<Longrightarrow> length (fPayload f) \<le> MaxPayload \<Longrightarrow>
  unat (hPayloadLen (fHeader f)) = length (fPayload f)"
  by (simp add: wf_frame_def MaxPayload_def unat_of_nat)

lemma ParseFrame_encode_frame:
  assumes wf: "wf_frame f" and ok: "encode_frame f = Inr b"
  shows "ParseFrame b = Inr f"
proof -
  have h: "wf_header (fHeader f)" using wf by (simp add: wf_frame_def)
  have b: "b = header_bytes (fHeader f) @ fPayload f" "Validate (fHeader f) = None"
      "length (fPayload f) \<le> MaxPayload"
    using encode_frame_ok_iff [OF wf] ok by auto
  show ?thesis
    using b h payload_len_unat [OF wf] DecodeHeader_header_bytes [OF h b(2), of "[]"]
    by (simp add: ParseFrame_def HeaderSize_def header_bytes_length)
qed

lemma encode_frame_ParseFrame:
  assumes ok: "ParseFrame b = Inr f"
  shows "wf_frame f \<and> encode_frame f = Inr b"
proof -
  have len: "46 \<le> length b" and d: "DecodeHeader b = Inr (fHeader f)"
    and pl: "fPayload f = drop 46 b" "length (drop 46 b) = unat (hPayloadLen (fHeader f))"
    using ok by (auto simp: ParseFrame_def HeaderSize_def DecodeHeader_take Let_def
        split: if_splits sum.splits)
  have v: "Validate (fHeader f) = None" using d unfolding DecodeHeader_ok_iff by blast
  have wf: "wf_frame f"
    using Encode_DecodeHeader [OF d] pl by (simp add: wf_frame_def)
  have "header_bytes (fHeader f) = take 46 b"
    using d by (auto simp: DecodeHeader_ok_iff header_bytes_header_fields)
  then have "encode_frame f = Inr b"
    using encode_frame_ok_iff [OF wf, of b] v pl Validate_payload_bound [OF v] by simp
  with wf show ?thesis by simp
qed

interpretation frame_codec: canonical_codec encode_frame ParseFrame wf_frame
  by unfold_locales (auto dest: ParseFrame_encode_frame encode_frame_ParseFrame)

lemma ReadFull_append: "ReadFull (length xs) (xs @ ys) = Inr (xs, ys)"
  by (simp add: ReadFull_def)

lemma ReadFrame_encode_frame:
  assumes wf: "wf_frame f" and ok: "encode_frame f = Inr b"
  shows "ReadFrame (b @ rest) = Inr (f, rest)"
proof -
  have h: "wf_header (fHeader f)" using wf by (simp add: wf_frame_def)
  have b: "b = header_bytes (fHeader f) @ fPayload f" "Validate (fHeader f) = None"
      "length (fPayload f) \<le> MaxPayload"
    using encode_frame_ok_iff [OF wf] ok by auto
  have d: "DecodeHeader (header_bytes (fHeader f)) = Inr (fHeader f)"
    using DecodeHeader_header_bytes [OF h b(2), of "[]"] by simp
  have "ReadFull HeaderSize (b @ rest) = Inr (header_bytes (fHeader f), fPayload f @ rest)"
    using ReadFull_append [of "header_bytes (fHeader f)"] h b
    by (simp add: header_bytes_length HeaderSize_def)
  then show ?thesis
    using d payload_len_unat [OF wf b(3)] ReadFull_append [of "fPayload f" rest]
    by (simp add: ReadFrame_def)
qed

text \<open>Reading frames one after another, as the receive loop of a stream lane does.\<close>

fun read_frames :: "nat \<Rightarrow> bytes \<Rightarrow> frame list \<times> frame_error option" where
  "read_frames 0 r = ([], None)"
| "read_frames (Suc n) r =
     (case ReadFrame r of
        Inl e \<Rightarrow> ([], Some e)
      | Inr (f, r') \<Rightarrow> (case read_frames n r' of (fs, e) \<Rightarrow> (f # fs, e)))"

fun append_frames :: "bytes \<Rightarrow> frame list \<Rightarrow> bytes \<times> frame_error option" where
  "append_frames dst [] = (dst, None)"
| "append_frames dst (f # fs) =
     (case AppendFrame dst f of
        (d, Some e) \<Rightarrow> (d, Some e)
      | (d, None) \<Rightarrow> append_frames d fs)"

lemma AppendFrame_prefix:
  assumes "wf_frame f" "AppendFrame dst f = (out, None)"
  obtains b where "encode_frame f = Inr b" "out = dst @ b"
  using assms AppendFrame_ok_iff [OF assms(1)] encode_frame_ok_iff [OF assms(1)] by auto

lemma read_frames_append_frames:
  assumes "\<forall>f\<in>set fs. wf_frame f" "append_frames dst fs = (out, None)"
  shows "\<exists>b. out = dst @ b \<and> read_frames (length fs) (b @ rest) = (fs, None)"
  using assms
proof (induction fs arbitrary: dst)
  case Nil
  then show ?case by simp
next
  case (Cons f fs)
  from Cons.prems obtain d where d: "AppendFrame dst f = (d, None)" "append_frames d fs = (out, None)"
    by (auto split: prod.splits option.splits)
  have f: "wf_frame f" using Cons.prems by simp
  obtain b where b: "encode_frame f = Inr b" "d = dst @ b"
    using AppendFrame_prefix [OF f d(1)] by blast
  obtain c where c: "out = d @ c" "read_frames (length fs) (c @ rest) = (fs, None)"
    using Cons.IH [OF _ d(2)] Cons.prems(1) by auto
  have "out = dst @ (b @ c) \<and> read_frames (length (f # fs)) ((b @ c) @ rest) = (f # fs, None)"
    using b c ReadFrame_encode_frame [OF f b(1), of "c @ rest"] by simp
  then show ?case by blast
qed

section \<open>Acknowledgement ranges are a canonical encoding\<close>

definition flat_ranges :: "range64 list \<Rightarrow> bytes" where
  "flat_ranges rs = concat (map (\<lambda>r. be_put 8 (fst r) @ be_put 8 (snd r)) rs)"

lemma flat_ranges_simps [simp]:
  "flat_ranges [] = []"
  "flat_ranges (r # rs) = be_put 8 (fst r) @ be_put 8 (snd r) @ flat_ranges rs"
  by (simp_all add: flat_ranges_def)

lemma length_flat_ranges [simp]: "length (flat_ranges rs) = 16 * length rs"
  by (induction rs) auto

lemma ranges_above_nonempty: "ranges_above c rs \<Longrightarrow> r \<in> set rs \<Longrightarrow> fst r < snd r"
  by (induction c rs rule: ranges_above.induct) auto

lemma encode_ranges_loop_eq:
  "encode_ranges_loop p rs =
     (if \<forall>r\<in>set rs. fst r < snd r then Inr (p @ flat_ranges rs) else Inl AckRangeEmptyOrInverted)"
  by (induction p rs rule: encode_ranges_loop.induct) auto

lemma go_slice_mid: "length pre = n \<Longrightarrow> n + length xs = m \<Longrightarrow> go_slice n m (pre @ xs @ ys) = xs"
  by (auto simp: go_slice_def)

lemma decode_ranges_loop_eq:
  assumes "length pre = 16 * k"
  shows "if ranges_above c rs
    then decode_ranges_loop (pre @ flat_ranges rs) [k..<k + length rs] c acc = Inr (acc @ rs)
    else is_ok (decode_ranges_loop (pre @ flat_ranges rs) [k..<k + length rs] c acc) = False"
  using assms
proof (induction rs arbitrary: pre k c acc)
  case Nil
  then show ?case by simp
next
  case (Cons r rs)
  let ?p = "pre @ flat_ranges (r # rs)" and ?pre = "pre @ be_put 8 (fst r) @ be_put 8 (snd r)"
  have s: "go_slice (k * 16) (k * 16 + 8) ?p = be_put 8 (fst r)"
    using go_slice_mid [of pre "k * 16" "be_put 8 (fst r)" "k * 16 + 8"] Cons.prems by simp
  have e: "go_slice (k * 16 + 8) (k * 16 + 16) ?p = be_put 8 (snd r)"
    using go_slice_mid [of "pre @ be_put 8 (fst r)" "k * 16 + 8" "be_put 8 (snd r)" "k * 16 + 16"]
      Cons.prems by simp
  have up: "[k..<k + length (r # rs)] = k # [Suc k..<Suc k + length rs]"
    using upt_conv_Cons [of k "k + length (r # rs)"] by simp
  have "length ?pre = 16 * Suc k" using Cons.prems by simp
  note ih = Cons.IH [OF this, of "snd r" "acc @ [r]"]
  show ?case
    using ih s e unfolding up by (auto simp: Let_def AckRangeSize_def simp del: upt_Suc split: if_splits)
qed

lemma flat_ranges_surj: "length p = 16 * n \<Longrightarrow> \<exists>rs. length rs = n \<and> p = flat_ranges rs"
proof (induction n arbitrary: p)
  case 0
  then show ?case by (intro exI [of _ "[]"]) simp
next
  case (Suc n)
  obtain rs where rs: "length rs = n" "drop 16 p = flat_ranges rs"
    using Suc.IH [of "drop 16 p"] Suc.prems by auto
  have "be_put 8 (be_get (take 8 p) :: u64) = take 8 p"
    by (rule be_put_get_64) (use Suc.prems in simp)
  moreover have "be_put 8 (be_get (take 8 (drop 8 p)) :: u64) = take 8 (drop 8 p)"
    by (rule be_put_get_64) (use Suc.prems in simp)
  moreover have "take 8 p @ take 8 (drop 8 p) @ drop 16 p = p"
    by (metis append_take_drop_id drop_drop numeral_Bit0)
  ultimately show ?case
    using rs by (intro exI [of _ "(be_get (take 8 p), be_get (take 8 (drop 8 p))) # rs"]) simp
qed

lemma DecodeAckRanges_flat:
  "DecodeAckRanges (flat_ranges rs) c = Inr out \<longleftrightarrow> ack_ranges_valid c rs \<and> out = rs"
  using decode_ranges_loop_eq [of "[]" 0 c rs "[]"]
  by (auto simp: DecodeAckRanges_def AckRangeSize_def ack_ranges_valid_def Let_def split: if_splits)

lemma EncodeAckRanges_valid:
  "ack_ranges_valid c rs \<Longrightarrow> EncodeAckRanges rs = Inr p \<longleftrightarrow> p = flat_ranges rs"
  by (auto simp: EncodeAckRanges_def ack_ranges_valid_def encode_ranges_loop_eq
      dest: ranges_above_nonempty)

interpretation ack_codec: canonical_codec EncodeAckRanges "\<lambda>p. DecodeAckRanges p c" "ack_ranges_valid c"
  for c
proof
  fix a bs
  assume "ack_ranges_valid c a" "EncodeAckRanges a = Inr bs"
  then show "DecodeAckRanges bs c = Inr a"
    by (simp add: EncodeAckRanges_valid DecodeAckRanges_flat)
next
  fix bs a
  assume ok: "DecodeAckRanges bs c = Inr a"
  then have "length bs = 16 * (length bs div 16)"
    by (auto simp: DecodeAckRanges_def AckRangeSize_def split: if_splits)
  then obtain rs where "bs = flat_ranges rs" using flat_ranges_surj by blast
  with ok show "ack_ranges_valid c a \<and> EncodeAckRanges a = Inr bs"
    by (auto simp: DecodeAckRanges_flat EncodeAckRanges_valid)
qed

section \<open>Short writes\<close>

text \<open>The contract of \<^verbatim>\<open>io.Writer\<close>: it takes a prefix of what it is offered, in order.\<close>

definition writer_contract :: "'s writer \<Rightarrow> ('s \<Rightarrow> bytes) \<Rightarrow> bool" where
  "writer_contract w sent \<longleftrightarrow>
     (\<forall>s p n err s'. w s p = (n, err, s') \<longrightarrow> n \<le> length p \<and> sent s' = sent s @ take n p)"

lemma writeFull_Nil [simp]: "writeFull w s [] = (None, s)"
  by (simp add: writeFull.simps)

lemma writeFull_prefix:
  assumes "writer_contract w sent"
  shows "\<exists>k \<le> length p. sent (snd (writeFull w s p)) = sent s @ take k p
     \<and> (fst (writeFull w s p) = None \<longrightarrow> k = length p)"
  using assms
proof (induction w s p rule: writeFull.induct)
  case (1 w s p)
  obtain n err s' where w: "w s p = (n, err, s')" by (cases "w s p") auto
  then have c: "n \<le> length p" "sent s' = sent s @ take n p"
    using "1.prems" by (auto simp: writer_contract_def)
  show ?case
  proof (cases "p \<noteq> [] \<and> err = None \<and> n \<noteq> 0")
    case True
    then have eq: "writeFull w s p = writeFull w s' (drop n p)"
      using w c by (simp add: writeFull.simps [of w s p])
    obtain k where k: "k \<le> length (drop n p)"
      "sent (snd (writeFull w s' (drop n p))) = sent s' @ take k (drop n p)"
      "fst (writeFull w s' (drop n p)) = None \<longrightarrow> k = length (drop n p)"
      using "1.IH" [OF _ w [symmetric]] True c "1.prems" by auto
    then show ?thesis
      using c by (intro exI [of _ "n + k"]) (auto simp: eq take_add)
  next
    case False
    then show ?thesis
      using w c by (cases "p = []"; cases err)
        (auto simp: writeFull.simps [of w s p] intro: exI [of _ n] exI [of _ 0])
  qed
qed

section \<open>Properties\<close>

text \<open>A frame that \<^verbatim>\<open>AppendFrame\<close> accepts extends the buffer by exactly one frame, which
  \<^verbatim>\<open>ParseFrame\<close> decodes to the same frame and which \<^verbatim>\<open>ReadFrame\<close> takes off the front of a
  stream leaving whatever follows untouched.\<close>

theorem frame_roundtrip:
  assumes "wf_frame f" and "AppendFrame dst f = (out, None)"
  shows "\<exists>b. out = dst @ b \<and> ParseFrame b = Inr f \<and> (\<forall>rest. ReadFrame (b @ rest) = Inr (f, rest))"
  using AppendFrame_prefix [OF assms] frame_codec.dec_enc [OF assms(1)] ReadFrame_encode_frame [OF assms(1)]
  by metis

definition sample_frame :: frame where
  "sample_frame = \<lparr>fHeader = \<lparr>hVersion = 2, hType = 4, hFlags = 0, hSessionID = replicate 16 7,
     hFlowID = 9, hSequence = 70000, hPayloadLen = 3, hClass = 1\<rparr>, fPayload = [1, 2, 3]\<rparr>"

lemma sample_frame_ok:
  "wf_frame sample_frame" "AppendFrame [5] sample_frame = (5 # header_bytes (fHeader sample_frame) @ [1, 2, 3], None)"
  "encode_frame sample_frame = Inr (header_bytes (fHeader sample_frame) @ [1, 2, 3])"
proof -
  show wf: "wf_frame sample_frame"
    by (simp add: wf_frame_def wf_header_def sample_frame_def)
  have v: "Validate (fHeader sample_frame) = None"
    by (simp add: Validate_def sample_frame_def type_valid_def flags_valid_def reserveControlFlagValid_def
        replaceLaneFlagValid_def ackRangesFlagValid_def wire_defs)
  show "AppendFrame [5] sample_frame = (5 # header_bytes (fHeader sample_frame) @ [1, 2, 3], None)"
    using AppendFrame_ok_iff [OF wf, of "[5]"] v by (simp add: sample_frame_def MaxPayload_def)
  show "encode_frame sample_frame = Inr (header_bytes (fHeader sample_frame) @ [1, 2, 3])"
    using encode_frame_ok_iff [OF wf] v by (simp add: sample_frame_def MaxPayload_def)
qed

theorem frame_roundtrip_witness:
  "\<exists>b. 5 # header_bytes (fHeader sample_frame) @ [1, 2, 3] = [5] @ b \<and> ParseFrame b = Inr sample_frame
     \<and> (\<forall>rest. ReadFrame (b @ rest) = Inr (sample_frame, rest))"
  by (rule frame_roundtrip [OF sample_frame_ok(1,2)])

text \<open>C5: the frame encoding is canonical. Whatever bytes \<^verbatim>\<open>ParseFrame\<close> accepts are the only
  encoding of the frame it returns, so two distinct byte strings never parse to the same frame,
  and the accepted payload respects the protocol limit.\<close>

theorem frame_canonical:
  assumes "ParseFrame b = Inr f"
  shows "encode_frame f = Inr b \<and> (\<forall>b'. ParseFrame b' = Inr f \<longrightarrow> b' = b)
    \<and> length (fPayload f) \<le> MaxPayload \<and> flags_valid (fHeader f)"
proof -
  have e: "wf_frame f \<and> encode_frame f = Inr b" using assms by (rule frame_codec.enc_dec)
  then have "length (fPayload f) \<le> MaxPayload" "Validate (fHeader f) = None"
    using encode_frame_ok_iff by auto
  then show ?thesis
    using e assms frame_codec.dec_inj by (auto simp: Validate_def split: if_splits)
qed

theorem frame_canonical_witness:
  "encode_frame sample_frame = Inr (header_bytes (fHeader sample_frame) @ [1, 2, 3])
   \<and> length (fPayload sample_frame) \<le> MaxPayload \<and> flags_valid (fHeader sample_frame)"
proof -
  have "ParseFrame (header_bytes (fHeader sample_frame) @ [1, 2, 3]) = Inr sample_frame"
    by (rule frame_codec.dec_enc [OF sample_frame_ok(1,3)])
  from frame_canonical [OF this] show ?thesis by blast
qed

text \<open>C6: \<^verbatim>\<open>DecodeAckRanges\<close> accepts a payload exactly when it is the encoding of at most sixteen
  non-empty ranges that are in order, disjoint and above the cumulative point, and then it returns
  those ranges.\<close>

theorem ack_ranges_canonical:
  "DecodeAckRanges p c = Inr rs \<longleftrightarrow> ack_ranges_valid c rs \<and> EncodeAckRanges rs = Inr p"
  by (rule ack_codec.dec_iff_enc)

text \<open>Against any writer that takes prefixes in order, \<^verbatim>\<open>writeFull\<close> either reports success
  having handed over the whole buffer or fails having handed over a prefix; short writes never
  drop, repeat or reorder a byte.\<close>

theorem writeFull_in_order:
  assumes "writer_contract w sent" and "writeFull w s p = (err, s')"
  shows "\<exists>k \<le> length p. sent s' = sent s @ take k p \<and> (err = None \<longrightarrow> k = length p)"
  using writeFull_prefix [OF assms(1), of p s] assms(2) by simp

definition slow_writer :: "bytes writer" where
  "slow_writer s p = (min 3 (length p), None, s @ take 3 p)"

lemma slow_writer_contract: "writer_contract slow_writer (\<lambda>s. s)"
  by (auto simp: writer_contract_def slow_writer_def min_def)

theorem writeFull_in_order_witness:
  "writeFull slow_writer [9] [1, 2, 3, 4, 5] = (None, [9, 1, 2, 3, 4, 5])
   \<and> (\<exists>k \<le> 5. [9, 1, 2, 3, 4, 5] = [9] @ take k [1, 2, 3, 4, 5 :: u8] \<and> (None = (None :: frame_error option) \<longrightarrow> k = 5))"
proof -
  have w: "writeFull slow_writer [9] [1, 2, 3, 4, 5] = (None, [9, 1, 2, 3, 4, 5])"
    by (simp add: writeFull.simps slow_writer_def)
  show ?thesis
    using w writeFull_in_order [OF slow_writer_contract w] by simp
qed

end
