(* ===== verification/Memlimit.thy ===== *)
theory Memlimit
  imports Prelude
begin

text \<open>
  The shared byte semaphore of \<^verbatim>\<open>internal/memlimit/budget.go\<close>. A \<^verbatim>\<open>*Budget\<close> is a
  \<^verbatim>\<open>budget option\<close>: \<^verbatim>\<open>nil\<close> is the intentionally unbounded configuration. Each method is one
  critical section; the blocking \<^verbatim>\<open>Acquire\<close> is split at the points where it gives the lock
  up, and the goroutines that share a budget are a step relation over those sections. The
  broadcast channel is its generation number: closing it and making a new one moves the number on.
\<close>

section \<open>State and critical sections\<close>

record budget =
  capacity :: int
  used :: int
  peak :: int
  waiters :: int
  generation :: nat

datatype mem_error = ErrRequestTooLarge | ContextDone | ReleasePanic

definition New :: "int \<Rightarrow> budget option" where
  "New cap = (if cap \<le> 0 then None
     else Some \<lparr>capacity = cap, used = 0, peak = 0, waiters = 0, generation = 0\<rparr>)"

definition charge :: "budget \<Rightarrow> int \<Rightarrow> budget" where
  "charge b request =
     (let b1 = b\<lparr>used := used b + request\<rparr> in
      if used b1 > peak b1 then b1\<lparr>peak := used b1\<rparr> else b1)"

definition TryAcquire :: "budget option \<Rightarrow> int \<Rightarrow> budget option \<times> bool" where
  "TryAcquire b n =
     (case b of
        None \<Rightarrow> (None, True)
      | Some b0 \<Rightarrow>
          if n \<le> 0 then (Some b0, True)
          else if n > capacity b0 - used b0 then (Some b0, False)
          else (Some (charge b0 n), True))"

definition Release :: "budget option \<Rightarrow> int \<Rightarrow> mem_error + budget option" where
  "Release b n =
     (case b of
        None \<Rightarrow> Inr None
      | Some b0 \<Rightarrow>
          if n \<le> 0 then Inr (Some b0)
          else if n > used b0 then Inl ReleasePanic
          else Inr (Some (b0\<lparr>used := used b0 - n, generation := Suc (generation b0)\<rparr>)))"

text \<open>
  \<^verbatim>\<open>Acquire\<close> from its call to the first unlock, from a wake-up to the next unlock, and on
  cancellation while waiting. \<^verbatim>\<open>ctxErr\<close> is what \<^verbatim>\<open>ctx.Err()\<close> answers at the top of the loop.
\<close>

datatype acquire_outcome = Granted | Failed mem_error | Waiting nat

definition acquire_poll :: "budget \<Rightarrow> int \<Rightarrow> bool \<Rightarrow> budget \<times> acquire_outcome" where
  "acquire_poll b request ctxErr =
     (if ctxErr then (b, Failed ContextDone)
      else if request \<le> capacity b - used b then (charge b request, Granted)
      else (b\<lparr>waiters := waiters b + 1\<rparr>, Waiting (generation b)))"

definition acquire_enter :: "budget option \<Rightarrow> int \<Rightarrow> bool \<Rightarrow> budget option \<times> acquire_outcome" where
  "acquire_enter b n ctxErr =
     (case b of
        None \<Rightarrow> (None, Granted)
      | Some b0 \<Rightarrow>
          if n \<le> 0 then (Some b0, Granted)
          else if n > capacity b0 then (Some b0, Failed ErrRequestTooLarge)
          else (case acquire_poll b0 n ctxErr of (b1, o1) \<Rightarrow> (Some b1, o1)))"

definition acquire_wake :: "budget \<Rightarrow> int \<Rightarrow> bool \<Rightarrow> budget \<times> acquire_outcome" where
  "acquire_wake b request ctxErr = acquire_poll (b\<lparr>waiters := waiters b - 1\<rparr>) request ctxErr"

definition acquire_cancel :: "budget \<Rightarrow> budget \<times> acquire_outcome" where
  "acquire_cancel b = (b\<lparr>waiters := waiters b - 1\<rparr>, Failed ContextDone)"

definition Snapshot :: "budget option \<Rightarrow> int \<times> int \<times> int \<times> int" where
  "Snapshot b = (case b of None \<Rightarrow> (0, 0, 0, 0) | Some b0 \<Rightarrow> (capacity b0, used b0, peak b0, waiters b0))"

section \<open>The budget invariant\<close>

definition budget_inv :: "budget \<Rightarrow> bool" where
  "budget_inv b \<longleftrightarrow> 0 < capacity b \<and> 0 \<le> used b \<and> used b \<le> peak b \<and> peak b \<le> capacity b"

fun budget_ok :: "budget option \<Rightarrow> bool" where
  "budget_ok None \<longleftrightarrow> True"
| "budget_ok (Some b) \<longleftrightarrow> budget_inv b"

fun usage :: "budget option \<Rightarrow> int" where
  "usage None = 0"
| "usage (Some b) = used b"

definition tracked :: "budget option \<Rightarrow> bool" where
  "tracked b \<longleftrightarrow> b \<noteq> None"

lemma charge_inv: "budget_inv b \<Longrightarrow> 0 \<le> n \<Longrightarrow> n \<le> capacity b - used b \<Longrightarrow> budget_inv (charge b n)"
  by (auto simp: budget_inv_def charge_def Let_def)

lemma charge_simps [simp]:
  "used (charge b n) = used b + n" "capacity (charge b n) = capacity b"
  "waiters (charge b n) = waiters b" "generation (charge b n) = generation b"
  by (simp_all add: charge_def Let_def)

lemma New_ok: "budget_ok (New cap)"
  by (simp add: New_def budget_inv_def)

lemma TryAcquire_ok: "budget_ok b \<Longrightarrow> budget_ok (fst (TryAcquire b n))"
  by (cases b) (auto simp: TryAcquire_def charge_inv)

lemma Release_ok: "budget_ok b \<Longrightarrow> Release b n = Inr b' \<Longrightarrow> budget_ok b'"
  by (cases b) (auto simp: Release_def budget_inv_def split: if_splits)

lemma acquire_poll_ok:
  "budget_inv b \<Longrightarrow> 0 \<le> n \<Longrightarrow> budget_inv (fst (acquire_poll b n c))"
  by (auto simp: acquire_poll_def charge_inv) (auto simp: budget_inv_def)

section \<open>The interface the data path relies on\<close>

text \<open>
  What a flow that retains memory needs of the budget: a granted request is charged exactly, a
  refused one changes nothing, and bytes that are charged can be released without a panic. The
  ledger lemmas are what the reassembler and the stripe scheduler use when they return many
  charges at once.
\<close>

fun give_all :: "('b \<Rightarrow> int \<Rightarrow> 'e + 'b) \<Rightarrow> 'b \<Rightarrow> int list \<Rightarrow> 'e + 'b" where
  "give_all give b [] = Inr b"
| "give_all give b (n # ns) = (case give b n of Inl e \<Rightarrow> Inl e | Inr b' \<Rightarrow> give_all give b' ns)"

locale byte_semaphore =
  fixes acquire :: "'b \<Rightarrow> int \<Rightarrow> 'b \<times> bool"
    and give :: "'b \<Rightarrow> int \<Rightarrow> 'e + 'b"
    and charged :: "'b \<Rightarrow> int"
    and counts :: "'b \<Rightarrow> bool"
    and sound :: "'b \<Rightarrow> bool"
  assumes acquire_granted:
      "sound b \<Longrightarrow> 0 \<le> n \<Longrightarrow> acquire b n = (b', True) \<Longrightarrow>
        sound b' \<and> counts b' = counts b \<and> charged b' = charged b + (if counts b then n else 0)"
    and acquire_refused: "acquire b n = (b', False) \<Longrightarrow> b' = b"
    and give_back:
      "sound b \<Longrightarrow> 0 \<le> n \<Longrightarrow> (counts b \<Longrightarrow> n \<le> charged b) \<Longrightarrow>
        \<exists>b'. give b n = Inr b' \<and> sound b' \<and> counts b' = counts b
          \<and> charged b' = charged b - (if counts b then n else 0)"
begin

lemma acquire_then_give:
  assumes "sound b" "0 \<le> charged b" "0 \<le> n" "acquire b n = (b', True)"
  shows "\<exists>b''. give b' n = Inr b'' \<and> sound b'' \<and> charged b'' = charged b"
proof -
  have a: "sound b'" "counts b' = counts b" "charged b' = charged b + (if counts b then n else 0)"
    using acquire_granted assms by blast+
  then obtain b'' where "give b' n = Inr b''" "sound b''"
      "charged b'' = charged b' - (if counts b' then n else 0)"
    using give_back [of b' n] assms by auto
  then show ?thesis using a by (cases "counts b") auto
qed

lemma give_all_ledger:
  assumes "sound b" "\<forall>n\<in>set ns. 0 \<le> n" "counts b \<Longrightarrow> sum_list ns \<le> charged b"
  shows "\<exists>b'. give_all give b ns = Inr b' \<and> sound b' \<and> counts b' = counts b
    \<and> charged b' = charged b - (if counts b then sum_list ns else 0)"
  using assms
proof (induction ns arbitrary: b)
  case Nil
  then show ?case by simp
next
  case (Cons n ns)
  have "0 \<le> sum_list ns" using Cons.prems by (simp add: sum_list_nonneg)
  then have le: "counts b \<longrightarrow> n \<le> charged b" using Cons.prems(3) by auto
  obtain b1 where b1: "give b n = Inr b1" "sound b1" "counts b1 = counts b"
      "charged b1 = charged b - (if counts b then n else 0)"
    using give_back [of b n] Cons.prems(1,2) le by auto
  obtain b2 where "give_all give b1 ns = Inr b2" "sound b2" "counts b2 = counts b1"
      "charged b2 = charged b1 - (if counts b1 then sum_list ns else 0)"
    using Cons.IH [of b1] b1 Cons.prems by auto
  then show ?case using b1 by (cases "counts b") auto
qed

end

interpretation mem: byte_semaphore TryAcquire Release usage tracked budget_ok
proof
  fix b b' and n :: int
  assume "budget_ok b" "0 \<le> n" "TryAcquire b n = (b', True)"
  then show "budget_ok b' \<and> tracked b' = tracked b \<and> usage b' = usage b + (if tracked b then n else 0)"
    using TryAcquire_ok [of b n]
    by (cases b) (auto simp: TryAcquire_def tracked_def split: if_splits)
next
  fix b b' and n :: int
  assume "TryAcquire b n = (b', False)"
  then show "b' = b" by (cases b) (auto simp: TryAcquire_def split: if_splits)
next
  fix b and n :: int
  assume "budget_ok b" "0 \<le> n" "tracked b \<Longrightarrow> n \<le> usage b"
  then show "\<exists>b'. Release b n = Inr b' \<and> budget_ok b' \<and> tracked b' = tracked b
      \<and> usage b' = usage b - (if tracked b then n else 0)"
    by (cases b) (auto simp: Release_def tracked_def budget_inv_def)
qed

section \<open>Goroutines sharing a budget\<close>

text \<open>
  Threads are numbered. A thread is idle, or blocked in \<^verbatim>\<open>Acquire\<close> with its request and the
  generation it is waiting on; \<^verbatim>\<open>held\<close> is what each has been granted and not released.
\<close>

datatype thread = Idle | Blocked int nat

record system =
  bud :: budget
  held :: "nat \<Rightarrow> int"
  threads :: "nat \<Rightarrow> thread"
  alive :: "nat set"

definition sys_init :: "int \<Rightarrow> nat set \<Rightarrow> system" where
  "sys_init cap ts = \<lparr>bud = \<lparr>capacity = cap, used = 0, peak = 0, waiters = 0, generation = 0\<rparr>,
     held = (\<lambda>_. 0), threads = (\<lambda>_. Idle), alive = ts\<rparr>"

definition settle :: "system \<Rightarrow> nat \<Rightarrow> int \<Rightarrow> budget \<times> acquire_outcome \<Rightarrow> system" where
  "settle s t n r = (case r of
       (b, Granted) \<Rightarrow> s\<lparr>bud := b, held := (held s)(t := held s t + n), threads := (threads s)(t := Idle)\<rparr>
     | (b, Failed e) \<Rightarrow> s\<lparr>bud := b, threads := (threads s)(t := Idle)\<rparr>
     | (b, Waiting g) \<Rightarrow> s\<lparr>bud := b, threads := (threads s)(t := Blocked n g)\<rparr>)"

inductive mem_step :: "system \<Rightarrow> system \<Rightarrow> bool" where
  try_acquire:
    "t \<in> alive s \<Longrightarrow> threads s t = Idle \<Longrightarrow> 0 < n \<Longrightarrow> TryAcquire (Some (bud s)) n = (Some b, ok) \<Longrightarrow>
     mem_step s (s\<lparr>bud := b, held := (held s)(t := held s t + (if ok then n else 0))\<rparr>)"
| enter:
    "t \<in> alive s \<Longrightarrow> threads s t = Idle \<Longrightarrow> 0 < n \<Longrightarrow> acquire_enter (Some (bud s)) n c = (Some b, r) \<Longrightarrow>
     mem_step s (settle s t n (b, r))"
| wake:
    "t \<in> alive s \<Longrightarrow> threads s t = Blocked n g \<Longrightarrow> g \<noteq> generation (bud s) \<Longrightarrow>
     mem_step s (settle s t n (acquire_wake (bud s) n c))"
| cancel:
    "t \<in> alive s \<Longrightarrow> threads s t = Blocked n g \<Longrightarrow>
     mem_step s (settle s t n (acquire_cancel (bud s)))"
| release:
    "t \<in> alive s \<Longrightarrow> threads s t = Idle \<Longrightarrow> 0 < n \<Longrightarrow> n \<le> held s t \<Longrightarrow>
     Release (Some (bud s)) n = Inr (Some b) \<Longrightarrow>
     mem_step s (s\<lparr>bud := b, held := (held s)(t := held s t - n)\<rparr>)"

inductive mem_reachable :: "int \<Rightarrow> nat set \<Rightarrow> system \<Rightarrow> bool" for cap ts where
  init: "mem_reachable cap ts (sys_init cap ts)"
| step: "mem_reachable cap ts s \<Longrightarrow> mem_step s s' \<Longrightarrow> mem_reachable cap ts s'"

fun is_blocked :: "thread \<Rightarrow> bool" where
  "is_blocked Idle \<longleftrightarrow> False"
| "is_blocked (Blocked n g) \<longleftrightarrow> True"

definition stuck_sound :: "budget \<Rightarrow> thread \<Rightarrow> bool" where
  "stuck_sound b th \<longleftrightarrow> (case th of Idle \<Rightarrow> True
     | Blocked n g \<Rightarrow> 0 < n \<and> n \<le> capacity b \<and> g \<le> generation b \<and> (g = generation b \<longrightarrow> capacity b - used b < n))"

definition sys_inv :: "int \<Rightarrow> nat set \<Rightarrow> system \<Rightarrow> bool" where
  "sys_inv cap ts s \<longleftrightarrow> alive s = ts \<and> capacity (bud s) = cap \<and> budget_inv (bud s)
     \<and> (\<forall>t. 0 \<le> held s t) \<and> used (bud s) = sum (held s) ts
     \<and> (\<forall>t. stuck_sound (bud s) (threads s t))
     \<and> waiters (bud s) = (\<Sum>t\<in>ts. of_bool (is_blocked (threads s t)))"

lemma sum_fun_upd_int:
  fixes g :: "'x \<Rightarrow> int"
  assumes "finite A" "t \<in> A"
  shows "(\<Sum>u\<in>A. g ((f(t := x)) u)) = (\<Sum>u\<in>A. g (f u)) - g (f t) + g x"
proof -
  have "(\<Sum>u\<in>A. g ((f(t := x)) u)) = g x + (\<Sum>u\<in>A - {t}. g (f u))"
    by (simp add: sum.remove [OF assms] cong: sum.cong_simp)
  then show ?thesis by (simp add: sum.remove [OF assms])
qed

lemmas held_upd = sum_fun_upd_int [where g = "\<lambda>x :: int. x"]
lemmas blocked_upd = sum_fun_upd_int [where g = "\<lambda>th. of_bool (is_blocked th)"]

lemma stuck_sound_charge: "stuck_sound b th \<Longrightarrow> 0 \<le> n \<Longrightarrow> stuck_sound (charge b n) th"
  by (auto simp: stuck_sound_def split: thread.splits)

lemma stuck_sound_waiters [simp]: "stuck_sound (b\<lparr>waiters := w\<rparr>) th = stuck_sound b th"
  by (simp add: stuck_sound_def split: thread.splits)

lemma stuck_sound_release:
  "stuck_sound b th \<Longrightarrow> stuck_sound (b\<lparr>used := u, generation := Suc (generation b)\<rparr>) th"
  by (auto simp: stuck_sound_def split: thread.splits)

lemma budget_inv_waiters [simp]: "budget_inv (b\<lparr>waiters := w\<rparr>) = budget_inv b"
  by (simp add: budget_inv_def)

text \<open>One poll of the acquire loop, from a state in which the polling thread is not counted as
  a waiter, keeps the system invariant.\<close>

lemma settle_poll_inv:
  assumes fin: "finite ts" and t: "t \<in> ts" and n: "0 < n" "n \<le> capacity (bud s)"
    and inv: "sys_inv cap ts (s\<lparr>bud := b, threads := (threads s)(t := Idle)\<rparr>)"
    and b: "capacity b = capacity (bud s)"
  shows "sys_inv cap ts (settle s t n (acquire_poll b n c))"
proof -
  have i: "alive s = ts" "capacity b = cap" "budget_inv b" "\<forall>t. 0 \<le> held s t" "used b = sum (held s) ts"
    "\<forall>u. stuck_sound b (((threads s)(t := Idle)) u)"
    "waiters b = (\<Sum>u\<in>ts. of_bool (is_blocked (((threads s)(t := Idle)) u)))"
    using inv by (auto simp: sys_inv_def)
  have s: "u \<noteq> t \<Longrightarrow> stuck_sound b (threads s u)" for u using i(6) by (auto split: if_splits)
  consider "c" | "\<not> c" "n \<le> capacity b - used b" | "\<not> c" "capacity b - used b < n" by linarith
  then show ?thesis
  proof cases
    case 1
    then show ?thesis using i by (simp add: acquire_poll_def settle_def sys_inv_def)
  next
    case 2
    have "budget_inv (charge b n)" using 2 i n by (simp add: charge_inv)
    then show ?thesis
      using 2 i n s held_upd [OF fin t, of "held s" "held s t + n"]
      by (auto simp: acquire_poll_def settle_def sys_inv_def intro!: stuck_sound_charge)
         (simp add: stuck_sound_def)
  next
    case 3
    then show ?thesis
      using i n s b blocked_upd [OF fin t, of "threads s"] 
      by (auto simp: acquire_poll_def settle_def sys_inv_def) (simp add: stuck_sound_def)
  qed
qed

lemma sys_inv_init: "finite ts \<Longrightarrow> 0 < cap \<Longrightarrow> sys_inv cap ts (sys_init cap ts)"
  by (simp add: sys_inv_def sys_init_def budget_inv_def stuck_sound_def)

lemma sys_inv_idle:
  assumes "finite ts" "sys_inv cap ts s" "t \<in> ts"
  shows "sys_inv cap ts (s\<lparr>bud := (bud s)\<lparr>waiters := waiters (bud s) - of_bool (is_blocked (threads s t))\<rparr>,
    threads := (threads s)(t := Idle)\<rparr>)"
  using assms blocked_upd [OF assms(1,3), of "threads s" Idle]
  by (auto simp: sys_inv_def) (simp add: stuck_sound_def)

lemma held_le_used:
  assumes "finite ts" "sys_inv cap ts s" "t \<in> ts"
  shows "held s t \<le> used (bud s)"
  using assms member_le_sum [of t ts "held s"] by (auto simp: sys_inv_def)

lemma mem_step_inv:
  assumes "mem_step s s'" "finite ts" "sys_inv cap ts s"
  shows "sys_inv cap ts s'"
  using assms
proof (induction rule: mem_step.induct)
  case (try_acquire t s n b ok)
  then have t: "t \<in> ts" by (simp add: sys_inv_def)
  show ?case
  proof (cases ok)
    case True
    then have b: "b = charge (bud s) n" "n \<le> capacity (bud s) - used (bud s)"
      using try_acquire by (auto simp: TryAcquire_def split: if_splits)
    then show ?thesis
      using try_acquire True held_upd [OF \<open>finite ts\<close> t, of "held s" "held s t + n"]
      by (auto simp: sys_inv_def charge_inv intro!: stuck_sound_charge)
  next
    case False
    then have "b = bud s" using try_acquire by (auto simp: TryAcquire_def split: if_splits)
    then show ?thesis using try_acquire False by simp
  qed
next
  case (enter t s n c b r)
  then have t: "t \<in> ts" by (simp add: sys_inv_def)
  have idle: "(threads s)(t := Idle) = threads s" using enter by auto
  show ?case
  proof (cases "n > capacity (bud s)")
    case True
    then have "b = bud s" "r = Failed ErrRequestTooLarge"
      using enter by (auto simp: acquire_enter_def)
    then show ?thesis using enter idle by (simp add: settle_def)
  next
    case False
    then have "acquire_poll (bud s) n c = (b, r)"
      using enter by (auto simp: acquire_enter_def split: prod.splits)
    then show ?thesis
      using settle_poll_inv [of ts t n s cap "bud s" c] enter False t idle by simp
  qed
next
  case (wake t s n g c)
  then have t: "t \<in> ts" by (simp add: sys_inv_def)
  have "stuck_sound (bud s) (Blocked n g)" using wake by (metis sys_inv_def)
  then have n: "0 < n" "n \<le> capacity (bud s)" by (auto simp: stuck_sound_def)
  have "sys_inv cap ts (s\<lparr>bud := (bud s)\<lparr>waiters := waiters (bud s) - 1\<rparr>, threads := (threads s)(t := Idle)\<rparr>)"
    using sys_inv_idle [OF \<open>finite ts\<close> _ t, of cap s] wake by simp
  then show ?case
    unfolding acquire_wake_def by (intro settle_poll_inv [OF \<open>finite ts\<close> t n]) simp_all
next
  case (cancel t s n g)
  then have t: "t \<in> ts" by (simp add: sys_inv_def)
  show ?case
    using sys_inv_idle [OF \<open>finite ts\<close> _ t, of cap s] cancel by (simp add: acquire_cancel_def settle_def)
next
  case (release t s n b)
  then have t: "t \<in> ts" by (simp add: sys_inv_def)
  have b: "b = (bud s)\<lparr>used := used (bud s) - n, generation := Suc (generation (bud s))\<rparr>" "n \<le> used (bud s)"
    using release by (auto simp: Release_def split: if_splits)
  then show ?case
    using release held_upd [OF \<open>finite ts\<close> t, of "held s" "held s t - n"]
    by (auto simp: sys_inv_def budget_inv_def intro!: stuck_sound_release)
qed

lemma mem_reachable_inv:
  "mem_reachable cap ts s \<Longrightarrow> finite ts \<Longrightarrow> 0 < cap \<Longrightarrow> sys_inv cap ts s"
  by (induction rule: mem_reachable.induct) (auto intro: sys_inv_init mem_step_inv)

section \<open>Properties\<close>

text \<open>C3: in every reachable state of any number of goroutines sharing a budget, the bytes they hold
  together are what the budget counts as used, they never exceed its capacity, neither has the
  recorded peak, the waiter count is the number of goroutines blocked in \<^verbatim>\<open>Acquire\<close>, and releasing
  bytes a goroutine holds never panics.\<close>

theorem budget_hard_limit:
  assumes "mem_reachable cap ts s" and "finite ts" and "0 < cap"
  shows "used (bud s) = sum (held s) ts \<and> sum (held s) ts \<le> cap \<and> peak (bud s) \<le> cap
    \<and> waiters (bud s) = (\<Sum>t\<in>ts. of_bool (is_blocked (threads s t)))
    \<and> (\<forall>t\<in>ts. \<forall>n. n \<le> held s t \<longrightarrow> (\<exists>b. Release (Some (bud s)) n = Inr (Some b)))"
proof -
  have inv: "sys_inv cap ts s" using mem_reachable_inv assms by blast
  have "n \<le> held s t \<Longrightarrow> t \<in> ts \<Longrightarrow> \<exists>b. Release (Some (bud s)) n = Inr (Some b)" for n t
    using held_le_used [OF assms(2) inv, of t] by (auto simp: Release_def)
  then show ?thesis using inv by (auto simp: sys_inv_def budget_inv_def)
qed

definition mem_run_1 :: system where
  "mem_run_1 = (sys_init 10 {0, 1})\<lparr>bud := \<lparr>capacity = 10, used = 8, peak = 8, waiters = 0, generation = 0\<rparr>,
     held := (\<lambda>_. 0)(0 := 8)\<rparr>"

definition mem_run_2 :: system where
  "mem_run_2 = mem_run_1\<lparr>bud := \<lparr>capacity = 10, used = 8, peak = 8, waiters = 1, generation = 0\<rparr>,
     threads := (\<lambda>_. Idle)(1 := Blocked 5 0)\<rparr>"

definition mem_run_3 :: system where
  "mem_run_3 = mem_run_2\<lparr>bud := \<lparr>capacity = 10, used = 0, peak = 8, waiters = 1, generation = 1\<rparr>,
     held := (\<lambda>_. 0)(0 := 0)\<rparr>"

lemma mem_run_reachable: "mem_reachable 10 {0, 1} mem_run_2" "mem_reachable 10 {0, 1} mem_run_3"
proof -
  have "mem_step (sys_init 10 {0, 1}) mem_run_1"
    using mem_step.try_acquire [of 0 "sys_init 10 {0, 1}" 8 _ True]
    by (simp add: sys_init_def TryAcquire_def charge_def mem_run_1_def)
  then have r1: "mem_reachable 10 {0, 1} mem_run_1" by (blast intro: mem_reachable.intros)
  have "mem_step mem_run_1 mem_run_2"
    using mem_step.enter [of 1 mem_run_1 5 False]
    by (simp add: sys_init_def acquire_enter_def acquire_poll_def mem_run_1_def mem_run_2_def settle_def)
  with r1 show r2: "mem_reachable 10 {0, 1} mem_run_2" by (blast intro: mem_reachable.step)
  have "mem_step mem_run_2 mem_run_3"
    using mem_step.release [of 0 mem_run_2 8]
    by (simp add: sys_init_def Release_def mem_run_1_def mem_run_2_def mem_run_3_def)
  with r2 show "mem_reachable 10 {0, 1} mem_run_3" by (blast intro: mem_reachable.step)
qed

theorem budget_hard_limit_witness:
  "sum (held mem_run_2) {0, 1} = 8 \<and> sum (held mem_run_2) {0, 1} \<le> 10 \<and> waiters (bud mem_run_2) = 1"
  using budget_hard_limit [OF mem_run_reachable(1)]
  by (simp add: mem_run_2_def mem_run_1_def sys_init_def)

text \<open>C4: no wake-up is lost. If a goroutine is blocked in \<^verbatim>\<open>Acquire\<close> although its request now fits,
  the generation it waits on has already been closed, and when it runs it is granted.\<close>

theorem acquire_no_lost_wakeup:
  assumes "mem_reachable cap ts s" and "finite ts" and "0 < cap"
    and "threads s t = Blocked n g" and "n \<le> cap - used (bud s)"
  shows "g \<noteq> generation (bud s) \<and> snd (acquire_wake (bud s) n False) = Granted"
proof -
  have inv: "sys_inv cap ts s" using mem_reachable_inv assms by blast
  then have "stuck_sound (bud s) (Blocked n g)" using assms(4) by (metis sys_inv_def)
  moreover have "capacity (bud s) = cap" using inv by (simp add: sys_inv_def)
  ultimately show ?thesis
    using assms(5) by (auto simp: stuck_sound_def acquire_wake_def acquire_poll_def)
qed

theorem acquire_no_lost_wakeup_witness:
  "threads mem_run_3 1 = Blocked 5 0 \<and> (0 :: nat) \<noteq> generation (bud mem_run_3)
   \<and> snd (acquire_wake (bud mem_run_3) 5 False) = Granted"
  using acquire_no_lost_wakeup [OF mem_run_reachable(2), of 1 5 0]
  by (simp add: mem_run_3_def mem_run_2_def)

end
