(* ===== verification/Reassembly.thy ===== *)
theory Reassembly
  imports Memlimit Frame
begin

text \<open>
  The receive side of a striped flow, \<^verbatim>\<open>internal/multipath/reassembly.go\<close>. Lanes deliver
  segments in any order; the reassembler hands the application the contiguous byte stream and
  charges what it has to hold to the shared budget. The Go map of buffered segments is an
  association list with distinct keys; the delivery callback is a function of the application's
  own state that may report an error.
\<close>

section \<open>State\<close>

record segment =
  sSequence :: u64
  sPayload :: bytes
  sFinal :: bool
  sCharged :: bool

record reassembler =
  maxBufferedBytes :: u64
  maxBufferedFrames :: int
  rnext :: u64
  rBuffer :: "(u64 \<times> segment) list"
  rOrder :: "u64 list"
  rbytes :: u64
  finalAt :: "u64 option"
  rMemory :: "budget option"

datatype reasm_error =
    NilDelivery | FinCarriesPayload | EmptyDataSegment | ErrSequence
  | ConflictingFinalOffset | FinalPrecedesCursor | FinalTruncatesBuffered | DataExceedsFinal
  | OverlapsCursor | ConflictingDuplicate | OverlappingSegments | FinConflictsBuffered
  | ErrWindowExceeded | ErrMemoryBudget | CursorMismatch | DeliveryFailed | MemoryPanic

type_synonym 'w deliver = "'w \<Rightarrow> bytes \<Rightarrow> bool \<times> 'w"

definition NewReassembler :: "u64 \<Rightarrow> int \<Rightarrow> budget option \<Rightarrow> reassembler" where
  "NewReassembler maxBytes maxFrames mem =
     \<lparr>maxBufferedBytes = (if maxBytes = 0 then 8 * 1024 * 1024 else maxBytes),
      maxBufferedFrames = (if maxFrames \<le> 0 then 4096 else maxFrames),
      rnext = 0, rBuffer = [], rOrder = [], rbytes = 0, finalAt = None, rMemory = mem\<rparr>"

definition plen :: "segment \<Rightarrow> nat" where
  "plen s = length (sPayload s)"

definition plen64 :: "segment \<Rightarrow> u64" where
  "plen64 s = of_nat (length (sPayload s))"

definition Closed :: "reassembler \<Rightarrow> bool" where
  "Closed r \<longleftrightarrow> (case finalAt r of None \<Rightarrow> False | Some f \<Rightarrow> rnext r \<ge> f)"

text \<open>A Go map read of an absent key yields the zero value.\<close>

definition zero_segment :: segment where
  "zero_segment = \<lparr>sSequence = 0, sPayload = [], sFinal = False, sCharged = False\<rparr>"

definition at_key :: "(u64 \<times> segment) list \<Rightarrow> u64 \<Rightarrow> segment" where
  "at_key b k = (case map_of b k of None \<Rightarrow> zero_segment | Some s \<Rightarrow> s)"

definition delete_key :: "u64 \<Rightarrow> (u64 \<times> segment) list \<Rightarrow> (u64 \<times> segment) list" where
  "delete_key k b = filter (\<lambda>e. fst e \<noteq> k) b"

definition insertOrder :: "u64 list \<Rightarrow> u64 \<Rightarrow> u64 list" where
  "insertOrder ord sequence =
     (let at = search_key ord sequence in take at ord @ [sequence] @ drop at ord)"

definition removeOrder :: "u64 list \<Rightarrow> u64 \<Rightarrow> u64 list" where
  "removeOrder ord sequence =
     (let at = search_key ord sequence in
      if at < length ord \<and> ord ! at = sequence then take at ord @ drop (at + 1) ord else ord)"

section \<open>Insertion\<close>

definition checkNeighbours :: "reassembler \<Rightarrow> segment \<Rightarrow> u64 \<Rightarrow> reasm_error option" where
  "checkNeighbours r segment end =
     (let at = search_key (rOrder r) (sSequence segment);
          previous = at_key (rBuffer r) (rOrder r ! (at - 1));
          previousEnd = (if sFinal previous then sSequence previous
                         else sSequence previous + plen64 previous);
          next = at_key (rBuffer r) (rOrder r ! at) in
      if at > 0 \<and> sSequence segment < previousEnd then Some OverlappingSegments
      else if at < length (rOrder r) \<and> sSequence next < end then Some OverlappingSegments
      else if at < length (rOrder r) \<and> sFinal segment \<and> sSequence next = sSequence segment
      then Some FinConflictsBuffered
      else None)"

lemma length_delete_key:
  "map_of b k = Some s \<Longrightarrow> length (delete_key k b) < length b"
  unfolding delete_key_def by (rule length_filter_less [of "(k, s)"]) (auto dest: map_of_SomeD)

function consumeContiguous ::
  "'w deliver option \<Rightarrow> 'w \<Rightarrow> reassembler \<Rightarrow> segment \<Rightarrow> bytes \<Rightarrow>
     reassembler \<times> 'w \<times> (reasm_error + bytes \<times> bool)" where
  "consumeContiguous deliver w r current output =
     (if sSequence current \<noteq> rnext r then (r, w, Inl CursorMismatch)
      else if sFinal current then (r\<lparr>finalAt := Some (sSequence current)\<rparr>, w, Inr (output, True))
      else
        (case (case deliver of
                 None \<Rightarrow> (output @ sPayload current, False, w)
               | Some f \<Rightarrow> (case f w (sPayload current) of (e, w') \<Rightarrow> (output, e, w')))
         of (output1, err, w1) \<Rightarrow>
           (case (if sCharged current then Release (rMemory r) (int (plen current)) else Inr (rMemory r)) of
              Inl _ \<Rightarrow> (r, w1, Inl MemoryPanic)
            | Inr m \<Rightarrow>
                if err then (r\<lparr>rMemory := m\<rparr>, w1, Inl DeliveryFailed)
                else
                  (let r1 = r\<lparr>rMemory := m, rnext := rnext r + plen64 current\<rparr> in
                   case map_of (rBuffer r1) (rnext r1) of
                     Some nxt \<Rightarrow>
                       consumeContiguous deliver w1
                         (r1\<lparr>rBuffer := delete_key (rnext r1) (rBuffer r1),
                             rOrder := removeOrder (rOrder r1) (rnext r1),
                             rbytes := rbytes r1 - plen64 nxt\<rparr>)
                         nxt output1
                   | None \<Rightarrow> (r1, w1, Inr (output1, Closed r1))))))"
  by pat_completeness auto
termination
  by (relation "measure (\<lambda>(d, w, r, c, out). length (rBuffer r))") (auto simp: length_delete_key)

declare consumeContiguous.simps [simp del]

text \<open>The checks on the final offset and the receive cursor that come before any state changes:
  an answer that ends the call early, or nothing.\<close>

definition boundary_check :: "reassembler \<Rightarrow> segment \<Rightarrow> u64 \<Rightarrow> (reasm_error + bytes \<times> bool) option" where
  "boundary_check r segment end =
     (if sFinal segment then
        (case finalAt r of
           Some f \<Rightarrow>
             if sSequence segment \<noteq> f then Some (Inl ConflictingFinalOffset)
             else Some (Inr ([], Closed r))
         | None \<Rightarrow>
             if sSequence segment < rnext r then Some (Inl FinalPrecedesCursor)
             else if rOrder r \<noteq> [] \<and>
               (let lst = at_key (rBuffer r) (last (rOrder r)) in
                sSequence segment < sSequence lst + plen64 lst)
             then Some (Inl FinalTruncatesBuffered)
             else None)
      else if (case finalAt r of Some f \<Rightarrow> end > f | None \<Rightarrow> False) then Some (Inl DataExceedsFinal)
      else if end \<le> rnext r then Some (Inr ([], Closed r))
      else if sSequence segment < rnext r then Some (Inl OverlapsCursor)
      else None)"

definition hold_segment :: "reassembler \<Rightarrow> segment \<Rightarrow> reassembler \<times> (reasm_error + bytes \<times> bool)" where
  "hold_segment r segment =
     (if int (length (rBuffer r)) + 1 > maxBufferedFrames r
         \<or> rbytes r + plen64 segment > maxBufferedBytes r
      then (r, Inl ErrWindowExceeded)
      else case TryAcquire (rMemory r) (int (plen segment)) of
        (_, False) \<Rightarrow> (r, Inl ErrMemoryBudget)
      | (m, True) \<Rightarrow>
          (let r1 = r\<lparr>rMemory := m,
                rBuffer := (sSequence segment, segment\<lparr>sCharged := True\<rparr>) # rBuffer r,
                rOrder := insertOrder (rOrder r) (sSequence segment),
                rbytes := rbytes r + plen64 segment,
                finalAt := (if sFinal segment then Some (sSequence segment) else finalAt r)\<rparr>
           in (r1, Inr ([], Closed r1))))"

text \<open>The part of \<^verbatim>\<open>insert\<close> after its argument checks.\<close>

definition insert_checked ::
  "reassembler \<Rightarrow> segment \<Rightarrow> u64 \<Rightarrow> 'w deliver option \<Rightarrow> 'w \<Rightarrow>
     reassembler \<times> 'w \<times> (reasm_error + bytes \<times> bool)" where
  "insert_checked r segment end deliver w =
     (case boundary_check r segment end of
        Some answer \<Rightarrow> (r, w, answer)
      | None \<Rightarrow>
          (case map_of (rBuffer r) (sSequence segment) of
             Some existing \<Rightarrow>
               if sFinal existing = sFinal segment \<and> sPayload existing = sPayload segment
               then (r, w, Inr ([], Closed r))
               else (r, w, Inl ConflictingDuplicate)
           | None \<Rightarrow>
               (case checkNeighbours r segment end of
                  Some e \<Rightarrow> (r, w, Inl e)
                | None \<Rightarrow>
                    if sSequence segment \<noteq> rnext r
                    then (case hold_segment r segment of (r1, res) \<Rightarrow> (r1, w, res))
                    else if deliver \<noteq> None \<and> \<not> sFinal segment then
                      (case TryAcquire (rMemory r) (int (plen segment)) of
                         (_, False) \<Rightarrow> (r, w, Inl ErrMemoryBudget)
                       | (m, True) \<Rightarrow>
                           consumeContiguous deliver w (r\<lparr>rMemory := m\<rparr>) (segment\<lparr>sCharged := True\<rparr>) [])
                    else consumeContiguous deliver w r segment [])))"

definition insert_segment ::
  "reassembler \<Rightarrow> segment \<Rightarrow> 'w deliver option \<Rightarrow> 'w \<Rightarrow>
     reassembler \<times> 'w \<times> (reasm_error + bytes \<times> bool)" where
  "insert_segment r segment deliver w =
     (if sFinal segment \<and> plen segment \<noteq> 0 then (r, w, Inl FinCarriesPayload)
      else if \<not> sFinal segment \<and> plen segment = 0 then (r, w, Inl EmptyDataSegment)
      else if sSequence segment > - 1 - plen64 segment then (r, w, Inl ErrSequence)
      else insert_checked r segment (sSequence segment + plen64 segment) deliver w)"

definition Insert :: "reassembler \<Rightarrow> segment \<Rightarrow> reassembler \<times> (reasm_error + bytes \<times> bool)" where
  "Insert r segment = (case insert_segment r segment None () of (r', _, res) \<Rightarrow> (r', res))"

definition InsertTo ::
  "reassembler \<Rightarrow> segment \<Rightarrow> 'w deliver option \<Rightarrow> 'w \<Rightarrow> reassembler \<times> 'w \<times> (reasm_error + bool)" where
  "InsertTo r segment deliver w =
     (if deliver = None then (r, w, Inl NilDelivery)
      else case insert_segment r segment deliver w of
        (r', w', Inl e) \<Rightarrow> (r', w', Inl e)
      | (r', w', Inr (_, closed)) \<Rightarrow> (r', w', Inr closed))"

text \<open>\<^verbatim>\<open>Close\<close> returns every charge still held; map iteration order does not matter because the
  charges are only added up.\<close>

definition charges :: "(u64 \<times> segment) list \<Rightarrow> int list" where
  "charges b = map (\<lambda>e. if sCharged (snd e) then int (plen (snd e)) else 0) b"

definition Close :: "reassembler \<Rightarrow> mem_error + reassembler" where
  "Close r =
     (case give_all Release (rMemory r) (charges (rBuffer r)) of
        Inl e \<Rightarrow> Inl e
      | Inr m \<Rightarrow> Inr (r\<lparr>rMemory := m, rBuffer := [], rOrder := [], rbytes := 0\<rparr>))"

fun received_loop :: "reassembler \<Rightarrow> u64 list \<Rightarrow> range64 list \<Rightarrow> range64 list" where
  "received_loop r [] ranges = ranges"
| "received_loop r (start # starts) ranges =
     (let segment = at_key (rBuffer r) start; end = start + plen64 segment in
      if sFinal segment then received_loop r starts ranges
      else if ranges \<noteq> [] \<and> snd (last ranges) = start
      then received_loop r starts (butlast ranges @ [(fst (last ranges), end)])
      else received_loop r starts (ranges @ [(start, end)]))"

definition ReceivedRanges :: "reassembler \<Rightarrow> int \<Rightarrow> range64 list" where
  "ReceivedRanges r limit =
     (if limit \<le> 0 \<or> rBuffer r = [] then []
      else take (nat limit) (received_loop r (rOrder r) []))"

section \<open>The invariant\<close>

text \<open>\<^verbatim>\<open>send_of\<close> is the offset one past a segment; \<^verbatim>\<open>reasm_wf_from lo\<close> is the invariant with the
  weakest lower bound on what is buffered, which is what holds between two steps of the delivery
  loop.\<close>

definition send_of :: "segment \<Rightarrow> nat" where
  "send_of s = unat (sSequence s) + plen s"

definition seg_range :: "segment \<Rightarrow> nat set" where
  "seg_range s = {unat (sSequence s)..<send_of s}"

definition entry_ok :: "nat \<Rightarrow> u64 \<times> segment \<Rightarrow> bool" where
  "entry_ok lo e \<longleftrightarrow> sSequence (snd e) = fst e \<and> lo \<le> unat (fst e) \<and> send_of (snd e) < 2 ^ 64
     \<and> (sFinal (snd e) \<longleftrightarrow> sPayload (snd e) = []) \<and> sCharged (snd e)"

definition final_ok :: "u64 option \<Rightarrow> segment \<Rightarrow> bool" where
  "final_ok fa s \<longleftrightarrow> (case fa of None \<Rightarrow> \<not> sFinal s
     | Some f \<Rightarrow> send_of s \<le> unat f \<and> (sFinal s \<longrightarrow> sSequence s = f))"

definition disjoint_entries :: "(u64 \<times> segment) list \<Rightarrow> bool" where
  "disjoint_entries b \<longleftrightarrow>
     (\<forall>e\<in>set b. \<forall>e'\<in>set b. fst e < fst e' \<longrightarrow> send_of (snd e) \<le> unat (fst e'))"

definition buffered :: "(u64 \<times> segment) list \<Rightarrow> nat" where
  "buffered b = sum_list (map (\<lambda>e. plen (snd e)) b)"

definition reasm_wf_from :: "nat \<Rightarrow> reassembler \<Rightarrow> bool" where
  "reasm_wf_from lo r \<longleftrightarrow>
     sorted_wrt (<) (rOrder r) \<and> set (rOrder r) = fst ` set (rBuffer r)
     \<and> distinct (map fst (rBuffer r)) \<and> (\<forall>e\<in>set (rBuffer r). entry_ok lo e)
     \<and> disjoint_entries (rBuffer r) \<and> (\<forall>e\<in>set (rBuffer r). final_ok (finalAt r) (snd e))
     \<and> unat (rbytes r) = buffered (rBuffer r) \<and> rbytes r \<le> maxBufferedBytes r
     \<and> int (length (rBuffer r)) \<le> maxBufferedFrames r"

definition reasm_wf :: "reassembler \<Rightarrow> bool" where
  "reasm_wf r \<longleftrightarrow> reasm_wf_from (Suc (unat (rnext r))) r
     \<and> (\<forall>f. finalAt r = Some f \<longrightarrow> rnext r \<le> f)"

text \<open>The budget covers at least what this flow has buffered.\<close>

definition mem_covers :: "reassembler \<Rightarrow> nat \<Rightarrow> bool" where
  "mem_covers r extra \<longleftrightarrow> budget_ok (rMemory r)
     \<and> (tracked (rMemory r) \<longrightarrow> int (buffered (rBuffer r) + extra) \<le> usage (rMemory r))"

text \<open>The abstraction: the set of stream offsets the receiver holds.\<close>

definition held_bytes :: "reassembler \<Rightarrow> nat set" where
  "held_bytes r = {..<unat (rnext r)} \<union> (\<Union>e\<in>set (rBuffer r). seg_range (snd e))"

lemma entry_ok_mono: "entry_ok lo e \<Longrightarrow> lo' \<le> lo \<Longrightarrow> entry_ok lo' e"
  by (auto simp: entry_ok_def)

lemma map_of_entry: "map_of b k = Some s \<Longrightarrow> (k, s) \<in> set b"
  by (rule map_of_SomeD)

lemma set_delete_key: "set (delete_key k b) = {e \<in> set b. fst e \<noteq> k}"
  by (auto simp: delete_key_def)

lemma delete_key_split:
  assumes "distinct (map fst b)" "map_of b k = Some s"
  shows "set b = {(k, s)} \<union> set (delete_key k b)"
    and "buffered b = plen s + buffered (delete_key k b)"
    and "length b = Suc (length (delete_key k b))"
    and "distinct (map fst (delete_key k b))"
proof -
  have "e = (k, s)" if "e \<in> set b" "fst e = k" for e
  proof -
    have "map_of b (fst e) = Some (snd e)" using assms(1) that(1) by (intro map_of_is_SomeI) auto
    then show ?thesis using assms(2) that(2) by (cases e) auto
  qed
  then show "set b = {(k, s)} \<union> set (delete_key k b)"
    using map_of_entry [OF assms(2)] unfolding set_delete_key by blast
  show "distinct (map fst (delete_key k b))"
    using assms(1) by (simp add: delete_key_def distinct_map_filter)
  have "buffered b = plen s + buffered (delete_key k b) \<and> length b = Suc (length (delete_key k b))"
    using assms
  proof (induction b)
    case Nil
    then show ?case by simp
  next
    case (Cons e b)
    show ?case
    proof (cases "fst e = k")
      case True
      have "k \<notin> fst ` set b" using Cons.prems(1) True by auto
      then have "delete_key k b = b" unfolding delete_key_def by (intro filter_True) force
      then show ?thesis
        using True Cons.prems(2) by (cases e) (auto simp: delete_key_def buffered_def)
    next
      case False
      then show ?thesis
        using Cons by (cases e) (auto simp: delete_key_def buffered_def)
    qed
  qed
  then show "buffered b = plen s + buffered (delete_key k b)"
    "length b = Suc (length (delete_key k b))" by auto
qed

lemma removeOrder_filter:
  "sorted_wrt (<) xs \<Longrightarrow> x \<in> set xs \<Longrightarrow> removeOrder xs x = filter (\<lambda>y. y \<noteq> x) xs"
  using remove_at_search [of xs x] by (simp add: removeOrder_def Let_def)

lemma plen64_unat: "send_of s < 2 ^ 64 \<Longrightarrow> unat (plen64 s) = plen s"
  by (simp add: plen64_def plen_def send_of_def unat_of_nat)

lemma unat_end: "send_of s < 2 ^ 64 \<Longrightarrow> unat (sSequence s + plen64 s) = send_of s"
  by (simp add: plen64_def plen_def send_of_def unat_add_no_wrap)

section \<open>The delivery loop\<close>

definition consume_pre :: "reassembler \<Rightarrow> segment \<Rightarrow> bool" where
  "consume_pre r cur \<longleftrightarrow> reasm_wf_from (send_of cur) r \<and> sSequence cur = rnext r
     \<and> send_of cur < 2 ^ 64 \<and> (sFinal cur \<longleftrightarrow> sPayload cur = []) \<and> (sFinal cur \<longrightarrow> rBuffer r = [])
     \<and> (\<forall>f. finalAt r = Some f \<longrightarrow> send_of cur \<le> unat f \<and> (sFinal cur \<longrightarrow> sSequence cur = f))
     \<and> mem_covers r (if sCharged cur then plen cur else 0)"

text \<open>The state after one iteration: the cursor behind the delivered segment, the charge returned.\<close>

definition advance :: "reassembler \<Rightarrow> segment \<Rightarrow> budget option \<Rightarrow> reassembler" where
  "advance r cur m = r\<lparr>rMemory := m, rnext := rnext r + plen64 cur\<rparr>"

definition take_next :: "reassembler \<Rightarrow> segment \<Rightarrow> reassembler" where
  "take_next r nxt = r\<lparr>rBuffer := delete_key (rnext r) (rBuffer r),
     rOrder := removeOrder (rOrder r) (rnext r), rbytes := rbytes r - plen64 nxt\<rparr>"

lemma consume_release:
  assumes "consume_pre r cur"
  obtains m where
    "(if sCharged cur then Release (rMemory r) (int (plen cur)) else Inr (rMemory r)) = Inr m"
    "mem_covers (advance r cur m) 0" "tracked m = tracked (rMemory r)"
    "usage m = usage (rMemory r) - (if tracked (rMemory r) \<and> sCharged cur then int (plen cur) else 0)"
proof (cases "sCharged cur")
  case False
  then show thesis using that [of "rMemory r"] assms
    by (simp add: consume_pre_def mem_covers_def advance_def)
next
  case True
  have c: "budget_ok (rMemory r)" "tracked (rMemory r) \<longrightarrow> int (buffered (rBuffer r) + plen cur) \<le> usage (rMemory r)"
    using assms True by (auto simp: consume_pre_def mem_covers_def)
  then obtain m where "Release (rMemory r) (int (plen cur)) = Inr m" "budget_ok m"
      "tracked m = tracked (rMemory r)"
      "usage m = usage (rMemory r) - (if tracked (rMemory r) then int (plen cur) else 0)"
    using mem.give_back [of "rMemory r" "int (plen cur)"] by fastforce
  then show thesis using c True by (intro that [of m]) (auto simp: mem_covers_def advance_def)
qed

lemma unat_advance: "consume_pre r cur \<Longrightarrow> unat (rnext (advance r cur m)) = send_of cur"
  using unat_end [of cur] by (simp add: consume_pre_def advance_def)

lemma advance_wf:
  assumes pre: "consume_pre r cur" and nf: "\<not> sFinal cur"
    and none: "map_of (rBuffer r) (rnext (advance r cur m)) = None"
  shows "reasm_wf (advance r cur m)"
    and "held_bytes (advance r cur m) = held_bytes r \<union> seg_range cur"
proof -
  let ?n = "rnext (advance r cur m)"
  have n: "unat ?n = send_of cur" using unat_advance [OF pre] .
  have "fst e \<noteq> ?n" if "e \<in> set (rBuffer r)" for e
    using none that by (force simp: map_of_eq_None_iff)
  moreover have "send_of cur \<le> unat (fst e)" if "e \<in> set (rBuffer r)" for e
    using pre that by (auto simp: consume_pre_def reasm_wf_from_def entry_ok_def)
  ultimately have gt: "Suc (send_of cur) \<le> unat (fst e)" if "e \<in> set (rBuffer r)" for e
    using that n by (metis Suc_leI order_le_less word_unat_eq_iff)
  then have "\<forall>e\<in>set (rBuffer r). entry_ok (Suc (send_of cur)) e"
    using pre by (auto simp: consume_pre_def reasm_wf_from_def entry_ok_def)
  then show "reasm_wf (advance r cur m)"
    using pre n by (auto simp: reasm_wf_def consume_pre_def reasm_wf_from_def advance_def word_le_nat_alt)
  have "{..<send_of cur} = {..<unat (rnext r)} \<union> seg_range cur"
    using pre by (auto simp: consume_pre_def seg_range_def send_of_def)
  then show "held_bytes (advance r cur m) = held_bytes r \<union> seg_range cur"
    using n by (auto simp: held_bytes_def advance_def)
qed

lemma take_next_pre:
  assumes pre: "consume_pre r cur" and nf: "\<not> sFinal cur"
    and some: "map_of (rBuffer r) (rnext (advance r cur m)) = Some nxt"
    and mc: "mem_covers (advance r cur m) 0"
  shows "consume_pre (take_next (advance r cur m) nxt) nxt"
    and "held_bytes (take_next (advance r cur m) nxt) \<union> seg_range nxt = held_bytes r \<union> seg_range cur"
    and "buffered (rBuffer r) = plen nxt + buffered (rBuffer (take_next (advance r cur m) nxt))"
    and "sCharged nxt"
proof -
  let ?a = "advance r cur m" and ?k = "rnext (advance r cur m)"
  let ?b = "delete_key ?k (rBuffer r)"
  have k: "unat ?k = send_of cur" using unat_advance [OF pre] .
  have wf: "reasm_wf_from (send_of cur) r" using pre by (simp add: consume_pre_def)
  note d = delete_key_split [OF _ some]
  have dist: "distinct (map fst (rBuffer r))" using wf by (simp add: reasm_wf_from_def)
  have mem: "(?k, nxt) \<in> set (rBuffer r)" using some by (rule map_of_entry)
  then have e: "entry_ok (send_of cur) (?k, nxt)" and fo: "final_ok (finalAt r) nxt"
    using wf by (auto simp: reasm_wf_from_def)
  have nx: "sSequence nxt = ?k" "send_of nxt < 2 ^ 64" "sFinal nxt \<longleftrightarrow> sPayload nxt = []" "sCharged nxt"
    using e by (auto simp: entry_ok_def)
  show "sCharged nxt" by (fact nx(4))
  have above: "send_of nxt \<le> unat (fst x) \<and> ?k < fst x" if "x \<in> set ?b" for x
  proof -
    have x: "x \<in> set (rBuffer r)" "fst x \<noteq> ?k" using that by (auto simp: set_delete_key)
    then have "send_of cur \<le> unat (fst x)" using wf by (auto simp: reasm_wf_from_def entry_ok_def)
    then have "?k < fst x" using x(2) k by (metis order_le_less word_le_nat_alt)
    then show ?thesis using wf x(1) mem by (auto simp: reasm_wf_from_def disjoint_entries_def)
  qed
  have entries: "\<forall>x\<in>set ?b. entry_ok (send_of nxt) x"
    using wf above by (auto simp: reasm_wf_from_def entry_ok_def set_delete_key)
  have bytes: "buffered (rBuffer r) = plen nxt + buffered ?b"
    using d(2) [OF dist] .
  have "unat (rbytes r - plen64 nxt) = buffered ?b" "rbytes r - plen64 nxt \<le> rbytes r"
  proof -
    have "plen64 nxt \<le> rbytes r"
      using wf bytes plen64_unat [OF nx(2)] by (simp add: reasm_wf_from_def word_le_nat_alt)
    then show "unat (rbytes r - plen64 nxt) = buffered ?b" "rbytes r - plen64 nxt \<le> rbytes r"
      using wf bytes plen64_unat [OF nx(2)] by (simp_all add: unat_sub reasm_wf_from_def word_le_nat_alt)
  qed
  moreover have "sorted_wrt (<) (removeOrder (rOrder r) ?k)" "set (removeOrder (rOrder r) ?k) = fst ` set ?b"
  proof -
    have so: "sorted_wrt (<) (rOrder r)" "set (rOrder r) = fst ` set (rBuffer r)"
      using wf by (auto simp: reasm_wf_from_def)
    have "?k \<in> set (rOrder r)" using mem unfolding so(2) by (metis fst_conv image_eqI)
    then have ro: "removeOrder (rOrder r) ?k = filter (\<lambda>y. y \<noteq> ?k) (rOrder r)"
      using removeOrder_filter so(1) by blast
    show "sorted_wrt (<) (removeOrder (rOrder r) ?k)" unfolding ro using so(1) by (rule sorted_wrt_filter)
    show "set (removeOrder (rOrder r) ?k) = fst ` set ?b"
      unfolding ro set_delete_key using so(2) by auto
  qed
  moreover have "rbytes r \<le> maxBufferedBytes r" "int (length (rBuffer r)) \<le> maxBufferedFrames r"
    "disjoint_entries ?b" "\<forall>x\<in>set ?b. final_ok (finalAt r) (snd x)"
    using wf by (auto simp: reasm_wf_from_def disjoint_entries_def set_delete_key)
  ultimately have wf': "reasm_wf_from (send_of nxt) (take_next ?a nxt)"
    using entries d(3,4) [OF dist] by (auto simp: reasm_wf_from_def take_next_def advance_def)
  have empty: "?b = []" if "sFinal nxt"
  proof (rule ccontr)
    assume "?b \<noteq> []"
    then obtain x where x: "x \<in> set ?b" by (cases ?b) auto
    have f: "finalAt r = Some ?k" using fo that nx(1) by (auto simp: final_ok_def split: option.splits)
    have "final_ok (finalAt r) (snd x)" "sSequence (snd x) = fst x"
      using wf x by (auto simp: reasm_wf_from_def entry_ok_def set_delete_key)
    then have "unat (fst x) \<le> unat ?k" using f by (auto simp: final_ok_def send_of_def)
    then show False using above [OF x] by (simp add: word_less_nat_alt)
  qed
  show "consume_pre (take_next ?a nxt) nxt"
    using wf' nx empty fo mc bytes
    by (auto simp: consume_pre_def take_next_def advance_def final_ok_def mem_covers_def
        split: option.splits)
  show "buffered (rBuffer r) = plen nxt + buffered (rBuffer (take_next ?a nxt))"
    using bytes by (simp add: take_next_def advance_def)
  have "{..<send_of cur} = {..<unat (rnext r)} \<union> seg_range cur"
    using pre by (auto simp: consume_pre_def seg_range_def send_of_def)
  then show "held_bytes (take_next ?a nxt) \<union> seg_range nxt = held_bytes r \<union> seg_range cur"
    using k d(1) [OF dist] by (auto simp: held_bytes_def take_next_def advance_def)
qed

lemma consume_unfold:
  assumes pre: "consume_pre r cur"
    and m: "(if sCharged cur then Release (rMemory r) (int (plen cur)) else Inr (rMemory r)) = Inr m"
  shows "consumeContiguous deliver w r cur output =
     (if sFinal cur then (r\<lparr>finalAt := Some (sSequence cur)\<rparr>, w, Inr (output, True))
      else
        (case (case deliver of
                 None \<Rightarrow> (output @ sPayload cur, False, w)
               | Some f \<Rightarrow> (case f w (sPayload cur) of (e, w') \<Rightarrow> (output, e, w')))
         of (output1, err, w1) \<Rightarrow>
            if err then (r\<lparr>rMemory := m\<rparr>, w1, Inl DeliveryFailed)
            else (case map_of (rBuffer r) (rnext (advance r cur m)) of
                Some nxt \<Rightarrow> consumeContiguous deliver w1 (take_next (advance r cur m) nxt) nxt output1
              | None \<Rightarrow> (advance r cur m, w1, Inr (output1, Closed (advance r cur m))))))"
  using pre m
  by (subst consumeContiguous.simps)
     (auto simp: consume_pre_def Let_def advance_def take_next_def split: option.splits prod.splits)

text \<open>What the loop has produced so far: the returned buffer, or what the callback has recorded.\<close>

definition records :: "'w deliver option \<Rightarrow> ('w \<Rightarrow> bytes) \<Rightarrow> bool" where
  "records d log \<longleftrightarrow> (\<forall>f w p w'. d = Some f \<longrightarrow> f w p = (False, w') \<longrightarrow> log w' = log w @ p)"

definition emitted :: "'w deliver option \<Rightarrow> ('w \<Rightarrow> bytes) \<Rightarrow> bytes \<Rightarrow> 'w \<Rightarrow> bytes" where
  "emitted d log out w = (case d of None \<Rightarrow> out | Some _ \<Rightarrow> log w)"

definition segment_of :: "bytes \<Rightarrow> segment \<Rightarrow> bool" where
  "segment_of S s \<longleftrightarrow> send_of s \<le> length S \<and> sPayload s = go_slice (unat (sSequence s)) (send_of s) S"

definition content_of :: "bytes \<Rightarrow> reassembler \<Rightarrow> bool" where
  "content_of S r \<longleftrightarrow> unat (rnext r) \<le> length S \<and> (\<forall>e\<in>set (rBuffer r). segment_of S (snd e))"

definition flow_balance :: "reassembler \<Rightarrow> int" where
  "flow_balance r = usage (rMemory r) - (if tracked (rMemory r) then int (buffered (rBuffer r)) else 0)"

definition consume_post :: "reassembler \<Rightarrow> segment \<Rightarrow> reassembler \<Rightarrow> bool \<Rightarrow> bool" where
  "consume_post r cur r' closed \<longleftrightarrow> reasm_wf r' \<and> maxBufferedBytes r' = maxBufferedBytes r \<and> mem_covers r' 0 \<and> closed = Closed r' \<and> rnext r \<le> rnext r'
     \<and> held_bytes r' = held_bytes r \<union> seg_range cur \<and> tracked (rMemory r') = tracked (rMemory r)
     \<and> flow_balance r' = flow_balance r
         - (if tracked (rMemory r) \<and> sCharged cur then int (plen cur) else 0)"

lemma consume_loop:
  assumes "consume_pre r cur" and "consumeContiguous d w r cur out = (r', w', res)"
    and "records d log"
  shows "case res of Inl e \<Rightarrow> e = DeliveryFailed \<and> d \<noteq> None
    | Inr (o1, closed) \<Rightarrow> consume_post r cur r' closed
        \<and> (\<forall>S. content_of S r \<longrightarrow> segment_of S cur \<longrightarrow> content_of S r'
             \<and> emitted d log o1 w' = emitted d log out w @ go_slice (unat (rnext r)) (unat (rnext r')) S)"
  using assms
proof (induction "length (rBuffer r)" arbitrary: r cur w out rule: less_induct)
  case less
  note pre = less.prems(1)
  obtain m where m: "(if sCharged cur then Release (rMemory r) (int (plen cur)) else Inr (rMemory r)) = Inr m"
    and mc: "mem_covers (advance r cur m) 0" and tr: "tracked m = tracked (rMemory r)"
    and us: "usage m = usage (rMemory r) - (if tracked (rMemory r) \<and> sCharged cur then int (plen cur) else 0)"
    using consume_release [OF pre] by blast
  note unf = consume_unfold [OF pre m, of d w out]
  let ?a = "advance r cur m"
  show ?case
  proof (cases "sFinal cur")
    case True
    then have r': "r' = r\<lparr>finalAt := Some (sSequence cur)\<rparr>" "w' = w" "res = Inr (out, True)"
      using less.prems(2) unf by auto
    have "plen cur = 0" "rBuffer r = []" "sSequence cur = rnext r"
      using pre True by (auto simp: consume_pre_def plen_def)
    then show ?thesis
      using pre by (auto simp: r' consume_post_def reasm_wf_def reasm_wf_from_def consume_pre_def mem_covers_def
          Closed_def held_bytes_def seg_range_def send_of_def flow_balance_def content_of_def disjoint_entries_def)
  next
    case nf: False
    obtain o1 err w1 where step: "(case d of None \<Rightarrow> (out @ sPayload cur, False, w)
        | Some f \<Rightarrow> (case f w (sPayload cur) of (e, w') \<Rightarrow> (out, e, w'))) = (o1, err, w1)"
      by (metis prod_cases3)
    have em: "emitted d log o1 w1 = emitted d log out w @ sPayload cur" if "\<not> err"
      using step that less.prems(3)
      by (auto simp: emitted_def records_def split: option.splits prod.splits)
    have sl: "sPayload cur = go_slice (unat (rnext r)) (send_of cur) S" "send_of cur \<le> length S"
      if "segment_of S cur" for S
      using that pre by (auto simp: segment_of_def consume_pre_def)
    have n: "unat (rnext ?a) = send_of cur" using unat_advance [OF pre] .
    show ?thesis
    proof (cases err)
      case True
      then have "res = Inl DeliveryFailed" "d \<noteq> None"
        using less.prems(2) unf nf step by (auto split: option.splits)
      then show ?thesis by simp
    next
      case False
      show ?thesis
      proof (cases "map_of (rBuffer r) (rnext ?a)")
        case None
        then have r': "r' = ?a" "w' = w1" "res = Inr (o1, Closed ?a)"
          using less.prems(2) unf nf step False by auto
        have "unat (rnext r) \<le> send_of cur" using pre by (simp add: consume_pre_def send_of_def)
        then have "consume_post r cur r' (Closed ?a)"
          using advance_wf [OF pre nf None] mc tr us n
          by (auto simp: word_le_nat_alt r' consume_post_def flow_balance_def advance_def)
        moreover have "content_of S r' \<and> emitted d log o1 w' = emitted d log out w @ go_slice (unat (rnext r)) (unat (rnext r')) S"
          if "content_of S r" "segment_of S cur" for S
          using that sl [of S] em [OF False] n unfolding r' by (simp add: content_of_def advance_def)
        ultimately show ?thesis using r' by simp
      next
        case (Some nxt)
        let ?t = "take_next ?a nxt"
        note tn = take_next_pre [OF pre nf Some mc]
        have rec: "consumeContiguous d w1 ?t nxt o1 = (r', w', res)"
          using less.prems(2) unf nf step False Some by simp
        have "length (rBuffer ?t) < length (rBuffer r)"
          using length_delete_key [OF Some] by (simp add: take_next_def advance_def)
        note ih = less.hyps [OF this tn(1) rec less.prems(3)]
        have cont: "content_of S ?t \<and> segment_of S nxt" if "content_of S r" "segment_of S cur" for S
          using that sl [of S] n map_of_entry [OF Some]
          by (auto simp: content_of_def take_next_def advance_def set_delete_key)
        have nt: "rnext ?t = rnext ?a" by (simp add: take_next_def)
        have le: "unat (rnext r) \<le> send_of cur" using pre by (simp add: consume_pre_def send_of_def)
        have post: "consume_post r cur r' c" if "consume_post ?t nxt r' c" for c
          using that tn(2,3,4) tr us le n nt
          by (auto simp: consume_post_def flow_balance_def take_next_def advance_def word_le_nat_alt)
        show ?thesis
        proof (cases res)
          case (Inl e)
          then show ?thesis using ih by simp
        next
          case (Inr oc)
          obtain o2 c where oc: "oc = (o2, c)" by (cases oc)
          have p: "consume_post ?t nxt r' c" using ih Inr oc by simp
          then have ge: "send_of cur \<le> unat (rnext r')"
            using n nt by (simp add: consume_post_def word_le_nat_alt)
          have "content_of S r' \<and> emitted d log o2 w' = emitted d log out w @ go_slice (unat (rnext r)) (unat (rnext r')) S"
            if "content_of S r" "segment_of S cur" for S
            using ih cont [OF that] em [OF False] sl(1) [OF that(2)] n nt go_slice_append [OF le ge, of S]
            by (auto simp: Inr oc)
          then show ?thesis using post [OF p] Inr oc by simp
        qed
      qed
    qed
  qed
qed

section \<open>Neighbour and boundary checks\<close>

lemma at_key_entry:
  assumes "reasm_wf_from lo r" "k \<in> set (rOrder r)"
  shows "(k, at_key (rBuffer r) k) \<in> set (rBuffer r)"
proof -
  have "k \<in> fst ` set (rBuffer r)" using assms by (auto simp: reasm_wf_from_def)
  then obtain s where "map_of (rBuffer r) k = Some s"
    by (metis domD dom_map_of_conv_image_fst)
  then show ?thesis using map_of_entry by (fastforce simp: at_key_def)
qed

lemma entry_order: "reasm_wf_from lo r \<Longrightarrow> e \<in> set (rBuffer r) \<Longrightarrow> fst e \<in> set (rOrder r)"
  by (auto simp: reasm_wf_from_def)

lemma entry_facts:
  assumes "reasm_wf_from lo r" "e \<in> set (rBuffer r)"
  shows "sSequence (snd e) = fst e" "send_of (snd e) < 2 ^ 64" "sFinal (snd e) \<longleftrightarrow> sPayload (snd e) = []"
    "final_ok (finalAt r) (snd e)" "lo \<le> unat (fst e)" "sCharged (snd e)"
    "unat (sSequence (snd e) + plen64 (snd e)) = send_of (snd e)"
proof -
  have e: "entry_ok lo e" "final_ok (finalAt r) (snd e)" using assms by (auto simp: reasm_wf_from_def)
  then show "sSequence (snd e) = fst e" "send_of (snd e) < 2 ^ 64" "sFinal (snd e) \<longleftrightarrow> sPayload (snd e) = []"
    "final_ok (finalAt r) (snd e)" "lo \<le> unat (fst e)" "sCharged (snd e)"
    by (auto simp: entry_ok_def)
  then show "unat (sSequence (snd e) + plen64 (snd e)) = send_of (snd e)" using unat_end by blast
qed

lemma entry_disjoint:
  "reasm_wf_from lo r \<Longrightarrow> e \<in> set (rBuffer r) \<Longrightarrow> e' \<in> set (rBuffer r) \<Longrightarrow> fst e < fst e' \<Longrightarrow>
   send_of (snd e) \<le> unat (fst e')"
  unfolding reasm_wf_from_def disjoint_entries_def by blast

text \<open>Looking only at the two neighbours of the insertion point rules out every overlap.\<close>

lemma checkNeighbours_disjoint:
  assumes wf: "reasm_wf_from lo r" and ok: "checkNeighbours r seg end = None"
    and e: "e \<in> set (rBuffer r)"
  shows "fst e < sSequence seg \<Longrightarrow> send_of (snd e) \<le> unat (sSequence seg)"
    and "sSequence seg < fst e \<Longrightarrow> end \<le> fst e"
proof -
  let ?x = "sSequence seg"
  have srt: "sorted_wrt (<) (rOrder r)" using wf by (simp add: reasm_wf_from_def)
  obtain t d where td: "rOrder r = t @ d" "search_key (rOrder r) ?x = length t"
    "\<forall>y\<in>set t. y < ?x" "\<forall>y\<in>set d. ?x \<le> y"
    using search_key_split [OF srt, of ?x] by metis
  have mem: "fst e \<in> set t \<union> set d" using entry_order [OF wf e] td(1) by simp
  show "send_of (snd e) \<le> unat ?x" if lt: "fst e < ?x"
  proof -
    have "fst e \<in> set t" using mem lt td(4) by (metis Un_iff not_less)
    then have tne: "t \<noteq> []" by auto
    let ?p = "last t"
    have pin: "(?p, at_key (rBuffer r) ?p) \<in> set (rBuffer r)"
      using at_key_entry [OF wf] td(1) tne by simp
    note pf = entry_facts [OF wf pin, simplified]
    have idx: "rOrder r ! (length t - 1) = ?p"
      using td(1) tne by (simp add: nth_append last_conv_nth)
    have "sSequence (at_key (rBuffer r) ?p) + plen64 (at_key (rBuffer r) ?p) \<le> ?x"
      using ok tne pf(1,3) unfolding checkNeighbours_def Let_def td(2) idx
      by (auto simp: plen64_def split: if_splits)
    then have pend: "send_of (at_key (rBuffer r) ?p) \<le> unat ?x"
      using pf(7) by (simp add: word_le_nat_alt)
    show ?thesis
    proof (cases "fst e = ?p")
      case True
      have "e = (?p, at_key (rBuffer r) ?p)"
        using wf e pin True unfolding reasm_wf_from_def by (metis eq_key_imp_eq_value prod.collapse)
      then show ?thesis using pend by (metis snd_conv)
    next
      case False
      obtain i where i: "i < length t" "t ! i = fst e" using \<open>fst e \<in> set t\<close> by (auto simp: in_set_conv_nth)
      have "i \<noteq> length t - 1" using False i tne by (auto simp: last_conv_nth)
      then have "i < length t - 1" using i by linarith
      moreover have "sorted_wrt (<) t" using srt td(1) by (simp add: sorted_wrt_append)
      ultimately have "fst e < ?p"
        using i tne sorted_wrt_nth_less [of "(<)" t i "length t - 1"] by (simp add: last_conv_nth)
      then have "send_of (snd e) \<le> unat ?p"
        using entry_disjoint [OF wf e pin] by simp
      moreover have "?p < ?x" using td(3) tne by simp
      ultimately show ?thesis by (simp add: word_less_nat_alt)
    qed
  qed
  show "end \<le> fst e" if gt: "?x < fst e"
  proof -
    have ind: "fst e \<in> set d" using mem gt td(3) by (metis Un_iff less_asym)
    then obtain n ds where d: "d = n # ds" by (cases d) auto
    have nin: "(n, at_key (rBuffer r) n) \<in> set (rBuffer r)"
      using at_key_entry [OF wf] td(1) d by simp
    have idx: "rOrder r ! length t = n" "length t < length (rOrder r)" using td(1) d by simp_all
    have "\<not> sSequence (at_key (rBuffer r) n) < end"
      using ok idx(2) unfolding checkNeighbours_def Let_def td(2) idx(1) by (auto split: if_splits)
    then have "end \<le> n" using entry_facts(1) [OF wf nin] by simp
    moreover have "n \<le> fst e" using ind srt td(1) d by (auto simp: sorted_wrt_append)
    ultimately show ?thesis by simp
  qed
qed

lemma boundary_open:
  assumes wf: "reasm_wf r" and b: "boundary_check r seg (sSequence seg + plen64 seg) = None"
    and len: "send_of seg < 2 ^ 64" and fin: "sFinal seg \<longleftrightarrow> sPayload seg = []"
  shows "rnext r \<le> sSequence seg"
    and "\<forall>f. finalAt r = Some f \<longrightarrow> \<not> sFinal seg \<and> send_of seg \<le> unat f"
    and "sFinal seg \<longrightarrow> (\<forall>e\<in>set (rBuffer r). send_of (snd e) \<le> unat (sSequence seg))"
proof -
  have w: "reasm_wf_from (Suc (unat (rnext r))) r" using wf by (simp add: reasm_wf_def)
  show "rnext r \<le> sSequence seg"
    using b by (auto simp: boundary_check_def split: if_splits option.splits)
  show "\<forall>f. finalAt r = Some f \<longrightarrow> \<not> sFinal seg \<and> send_of seg \<le> unat f"
    using b unat_end [OF len]
    by (auto simp: boundary_check_def word_le_nat_alt word_less_nat_alt split: if_splits option.splits)
  show "sFinal seg \<longrightarrow> (\<forall>e\<in>set (rBuffer r). send_of (snd e) \<le> unat (sSequence seg))"
  proof (intro impI ballI)
    fix e assume f: "sFinal seg" and e: "e \<in> set (rBuffer r)"
    have eo: "fst e \<in> set (rOrder r)" using entry_order [OF w e] .
    then have ne: "rOrder r \<noteq> []" by auto
    let ?l = "last (rOrder r)"
    have lin: "(?l, at_key (rBuffer r) ?l) \<in> set (rBuffer r)" using at_key_entry [OF w] ne by simp
    have "\<not> sSequence seg < sSequence (at_key (rBuffer r) ?l) + plen64 (at_key (rBuffer r) ?l)"
      using b f ne by (auto simp: boundary_check_def Let_def split: if_splits option.splits)
    then have lend: "send_of (at_key (rBuffer r) ?l) \<le> unat (sSequence seg)"
      using entry_facts(7) [OF w lin] by (simp add: word_less_nat_alt)
    show "send_of (snd e) \<le> unat (sSequence seg)"
    proof (cases "fst e = ?l")
      case True
      have "e = (?l, at_key (rBuffer r) ?l)"
        using w e lin True unfolding reasm_wf_from_def by (metis eq_key_imp_eq_value prod.collapse)
      then show ?thesis using lend by (metis snd_conv)
    next
      case False
      have "fst e \<in> set (butlast (rOrder r))"
        using eo ne False by (metis append_butlast_last_id in_set_butlast_appendI set_ConsD append.right_neutral list.set(1) empty_iff Un_iff set_append)
      moreover have "sorted_wrt (<) (butlast (rOrder r) @ [?l])" using w ne by (simp add: reasm_wf_from_def)
      ultimately have "fst e < ?l" by (simp add: sorted_wrt_append)
      then have "send_of (snd e) \<le> unat ?l" using entry_disjoint [OF w e lin] by simp
      also have "\<dots> \<le> send_of (at_key (rBuffer r) ?l)"
        using entry_facts(1) [OF w lin] by (simp add: send_of_def)
      finally show ?thesis using lend by simp
    qed
  qed
qed

section \<open>Insertion preserves the invariant and implements set union\<close>

definition insert_post :: "reassembler \<Rightarrow> segment \<Rightarrow> reassembler \<Rightarrow> bool \<Rightarrow> bool" where
  "insert_post r seg r' closed \<longleftrightarrow> reasm_wf r' \<and> maxBufferedBytes r' = maxBufferedBytes r \<and> mem_covers r' 0 \<and> closed = Closed r'
     \<and> rnext r \<le> rnext r' \<and> held_bytes r' = held_bytes r \<union> seg_range seg
     \<and> tracked (rMemory r') = tracked (rMemory r) \<and> flow_balance r' = flow_balance r"

definition insert_content ::
  "'w deliver option \<Rightarrow> ('w \<Rightarrow> bytes) \<Rightarrow> reassembler \<Rightarrow> segment \<Rightarrow> 'w \<Rightarrow> reassembler \<Rightarrow> 'w \<Rightarrow> bytes \<Rightarrow> bool" where
  "insert_content d log r seg w r' w' out \<longleftrightarrow>
     (\<forall>S. content_of S r \<longrightarrow> segment_of S seg \<longrightarrow> content_of S r'
        \<and> emitted d log out w' = emitted d log [] w @ go_slice (unat (rnext r)) (unat (rnext r')) S)"

lemma insert_post_same:
  "reasm_wf r \<Longrightarrow> mem_covers r 0 \<Longrightarrow> seg_range seg \<subseteq> held_bytes r \<Longrightarrow> insert_post r seg r (Closed r)"
  by (auto simp: insert_post_def)

lemma insert_content_same: "insert_content d log r seg w r w []"
  by (simp add: insert_content_def)

lemma boundary_early:
  assumes wf: "reasm_wf r" and b: "boundary_check r seg (sSequence seg + plen64 seg) = Some res"
    and len: "send_of seg < 2 ^ 64" and fin: "sFinal seg \<longleftrightarrow> sPayload seg = []"
  shows "case res of Inl e \<Rightarrow> e \<notin> {CursorMismatch, MemoryPanic, DeliveryFailed}
    | Inr (out, closed) \<Rightarrow> out = [] \<and> closed = Closed r \<and> seg_range seg \<subseteq> held_bytes r"
proof -
  have "seg_range seg = {}" if "sFinal seg"
    using that fin by (simp add: seg_range_def send_of_def plen_def)
  moreover have "seg_range seg \<subseteq> held_bytes r" if "sSequence seg + plen64 seg \<le> rnext r"
    using that unat_end [OF len] by (auto simp: seg_range_def held_bytes_def word_le_nat_alt)
  ultimately show ?thesis
    using b by (auto simp: boundary_check_def Let_def split: if_splits option.splits)
qed

lemma hold_segment_post:
  assumes wf: "reasm_wf r" and mc: "mem_covers r 0" and len: "send_of seg < 2 ^ 64"
    and fin: "sFinal seg \<longleftrightarrow> sPayload seg = []"
    and b: "boundary_check r seg (sSequence seg + plen64 seg) = None"
    and new: "map_of (rBuffer r) (sSequence seg) = None"
    and nb: "checkNeighbours r seg (sSequence seg + plen64 seg) = None"
    and off: "sSequence seg \<noteq> rnext r" and small: "plen seg < 2 ^ 63" "unat (maxBufferedBytes r) < 2 ^ 63"
    and h: "hold_segment r seg = (r', res)"
  shows "case res of Inl e \<Rightarrow> e \<notin> {CursorMismatch, MemoryPanic, DeliveryFailed} \<and> r' = r
    | Inr (out, closed) \<Rightarrow> out = [] \<and> insert_post r seg r' closed \<and> insert_content d log r seg w r' w out"
proof (cases "int (length (rBuffer r)) + 1 > maxBufferedFrames r \<or> rbytes r + plen64 seg > maxBufferedBytes r
    \<or> snd (TryAcquire (rMemory r) (int (plen seg))) = False")
  case True
  then have "r' = r \<and> (res = Inl ErrWindowExceeded \<or> res = Inl ErrMemoryBudget)"
    using h by (auto simp: hold_segment_def split: prod.splits if_splits bool.splits)
  then show ?thesis by auto
next
  case False
  then obtain m where m: "TryAcquire (rMemory r) (int (plen seg)) = (m, True)"
    by (cases "TryAcquire (rMemory r) (int (plen seg))") auto
  let ?c = "seg\<lparr>sCharged := True\<rparr>" and ?k = "sSequence seg"
  let ?fa = "if sFinal seg then Some ?k else finalAt r"
  have r': "r' = r\<lparr>rMemory := m, rBuffer := (?k, ?c) # rBuffer r, rOrder := insertOrder (rOrder r) ?k,
      rbytes := rbytes r + plen64 seg, finalAt := ?fa\<rparr>" and res: "res = Inr ([], Closed r')"
    using h False m by (auto simp: hold_segment_def Let_def)
  have w: "reasm_wf_from (Suc (unat (rnext r))) r" using wf by (simp add: reasm_wf_def)
  note bo = boundary_open [OF wf b len fin]
  have c: "send_of ?c = send_of seg" "plen ?c = plen seg" "seg_range ?c = seg_range seg"
    by (simp_all add: send_of_def plen_def seg_range_def)
  have knew: "?k \<notin> fst ` set (rBuffer r)" using new by (simp add: map_of_eq_None_iff)
  have so: "sorted_wrt (<) (rOrder r)" "set (rOrder r) = fst ` set (rBuffer r)"
    using w by (auto simp: reasm_wf_from_def)
  have ord: "sorted_wrt (<) (insertOrder (rOrder r) ?k)" "set (insertOrder (rOrder r) ?k) = {?k} \<union> fst ` set (rBuffer r)"
    using insert_at_search [OF so(1), of ?k] knew so(2) by (simp_all add: insertOrder_def Let_def)
  have gt: "Suc (unat (rnext r)) \<le> unat ?k"
    using bo(1) off by (metis Suc_leI order_le_less word_less_nat_alt)
  have dis: "disjoint_entries ((?k, ?c) # rBuffer r)"
    using w checkNeighbours_disjoint [OF w nb] unat_end [OF len]
    by (auto simp: reasm_wf_from_def disjoint_entries_def c word_le_nat_alt)
  have fos: "\<forall>e\<in>set (rBuffer r). final_ok ?fa (snd e)"
  proof
    fix e assume e: "e \<in> set (rBuffer r)"
    show "final_ok ?fa (snd e)"
      using entry_facts(4) [OF w e] bo(2,3) e by (auto simp: final_ok_def split: option.splits)
  qed
  have foc: "final_ok ?fa ?c"
    using bo(2) fin by (auto simp: final_ok_def c send_of_def plen_def split: option.splits)
  have bytes: "unat (rbytes r + plen64 seg) = buffered (rBuffer r) + plen seg"
  proof -
    have "unat (rbytes r) = buffered (rBuffer r)" "rbytes r \<le> maxBufferedBytes r"
      using w by (auto simp: reasm_wf_from_def)
    then show ?thesis
      using small plen64_unat [OF len] by (simp add: unat_word_ariths word_le_nat_alt)
  qed
  have wf': "reasm_wf r'"
    using w wf gt ord dis fos foc bytes knew False len fin bo(1)
    by (auto simp: reasm_wf_def reasm_wf_from_def r' entry_ok_def c buffered_def plen_def)
  have acq: "budget_ok m" "tracked m = tracked (rMemory r)"
    "usage m = usage (rMemory r) + (if tracked (rMemory r) then int (plen seg) else 0)"
    using mem.acquire_granted [OF _ _ m] mc by (auto simp: mem_covers_def)
  have "mem_covers r' 0" "flow_balance r' = flow_balance r"
    using acq mc by (auto simp: mem_covers_def flow_balance_def r' buffered_def plen_def)
  moreover have "held_bytes r' = held_bytes r \<union> seg_range seg"
    by (auto simp: held_bytes_def r' c)
  ultimately have "insert_post r seg r' (Closed r')"
    using wf' acq by (simp add: insert_post_def r')
  moreover have "insert_content d log r seg w r' w []"
    by (auto simp: insert_content_def r' content_of_def segment_of_def c)
  ultimately show ?thesis using res by simp
qed

text \<open>Sizes a Go program can have: a slice is shorter than \<^verbatim>\<open>2^63\<close> bytes, and so is the configured
  window.\<close>

definition go_sized :: "reassembler \<Rightarrow> segment \<Rightarrow> bool" where
  "go_sized r seg \<longleftrightarrow> plen seg < 2 ^ 63 \<and> unat (maxBufferedBytes r) < 2 ^ 63 \<and> \<not> sCharged seg"

lemma cursor_segment_pre:
  assumes wf: "reasm_wf r" and mc: "mem_covers r (if sCharged seg then plen seg else 0)"
    and len: "send_of seg < 2 ^ 64" and fin: "sFinal seg \<longleftrightarrow> sPayload seg = []"
    and b: "boundary_check r seg (sSequence seg + plen64 seg) = None"
    and nb: "checkNeighbours r seg (sSequence seg + plen64 seg) = None"
    and cur: "sSequence seg = rnext r"
  shows "consume_pre r seg"
proof -
  have w: "reasm_wf_from (Suc (unat (rnext r))) r" using wf by (simp add: reasm_wf_def)
  note bo = boundary_open [OF wf b len fin]
  have above: "send_of seg \<le> unat (fst e)" if e: "e \<in> set (rBuffer r)" for e
  proof -
    have "sSequence seg < fst e" using entry_facts(5) [OF w e] cur by (simp add: word_less_nat_alt)
    then show ?thesis
      using checkNeighbours_disjoint(2) [OF w nb e] unat_end [OF len] by (simp add: word_le_nat_alt)
  qed
  then have "reasm_wf_from (send_of seg) r"
    using w by (auto simp: reasm_wf_from_def entry_ok_def)
  moreover have "rBuffer r = []" if "sFinal seg"
  proof (rule ccontr)
    assume "rBuffer r \<noteq> []"
    then obtain e where e: "e \<in> set (rBuffer r)" by (cases "rBuffer r") auto
    have "send_of (snd e) \<le> unat (sSequence seg)" using bo(3) that e by blast
    moreover have "unat (fst e) \<le> send_of (snd e)" using entry_facts(1) [OF w e] by (simp add: send_of_def)
    ultimately show False using entry_facts(5) [OF w e] cur by simp
  qed
  ultimately show ?thesis using cur len fin bo(2) mc by (auto simp: consume_pre_def)
qed

lemma charging_changes_no_check [simp]:
  "plen64 (seg\<lparr>sCharged := c\<rparr>) = plen64 seg"
  "boundary_check (r\<lparr>rMemory := m\<rparr>) (seg\<lparr>sCharged := c\<rparr>) e = boundary_check r seg e"
  "checkNeighbours (r\<lparr>rMemory := m\<rparr>) (seg\<lparr>sCharged := c\<rparr>) e = checkNeighbours r seg e"
  by (simp_all add: plen64_def checkNeighbours_def Let_def)
     (cases "finalAt r"; simp add: boundary_check_def Closed_def Let_def)

lemma insert_at_cursor_charged:
  assumes wf: "reasm_wf r" and mc: "mem_covers r 0"
    and len: "send_of seg < 2 ^ 64" and fin: "sFinal seg \<longleftrightarrow> sPayload seg = []"
    and b: "boundary_check r seg (sSequence seg + plen64 seg) = None"
    and nb: "checkNeighbours r seg (sSequence seg + plen64 seg) = None"
    and cur: "sSequence seg = rnext r" and d: "d \<noteq> None"
    and step: "(case TryAcquire (rMemory r) (int (plen seg)) of
         (_, False) \<Rightarrow> (r, w, Inl ErrMemoryBudget)
       | (m, True) \<Rightarrow> consumeContiguous d w (r\<lparr>rMemory := m\<rparr>) (seg\<lparr>sCharged := True\<rparr>) []) = (r', w', res)"
    and rec: "records d log"
  shows "case res of
      Inl e \<Rightarrow> e \<notin> {CursorMismatch, MemoryPanic} \<and> (e \<noteq> DeliveryFailed \<longrightarrow> r' = r \<and> w' = w) \<and> (e = DeliveryFailed \<longrightarrow> d \<noteq> None)
    | Inr (out, closed) \<Rightarrow> insert_post r seg r' closed \<and> insert_content d log r seg w r' w' out"
proof -
  obtain m ok where m: "TryAcquire (rMemory r) (int (plen seg)) = (m, ok)" by (cases "TryAcquire (rMemory r) (int (plen seg))")
  show ?thesis
  proof (cases ok)
    case False
    then show ?thesis using step m by auto
  next
    case True
    let ?r = "r\<lparr>rMemory := m\<rparr>" and ?s = "seg\<lparr>sCharged := True\<rparr>"
    have acq: "budget_ok m" "tracked m = tracked (rMemory r)"
      "usage m = usage (rMemory r) + (if tracked (rMemory r) then int (plen seg) else 0)"
      using mem.acquire_granted [of "rMemory r" "int (plen seg)" m] m True mc by (auto simp: mem_covers_def)
    have "reasm_wf ?r" using wf by (simp add: reasm_wf_def reasm_wf_from_def)
    moreover have "mem_covers ?r (if sCharged ?s then plen ?s else 0)"
      using acq mc by (auto simp: mem_covers_def plen_def)
    moreover have "send_of ?s < 2 ^ 64" "sFinal ?s \<longleftrightarrow> sPayload ?s = []" "sSequence ?s = rnext ?r"
      using len fin cur by (simp_all add: send_of_def plen_def)
    moreover have "boundary_check ?r ?s (sSequence ?s + plen64 ?s) = None"
      using b by simp
    moreover have "checkNeighbours ?r ?s (sSequence ?s + plen64 ?s) = None"
      using nb by simp
    ultimately have "consume_pre ?r ?s" using cursor_segment_pre [of ?r ?s] by blast
    moreover have "consumeContiguous d w ?r ?s [] = (r', w', res)" using step m True by simp
    ultimately have loop: "case res of Inl e \<Rightarrow> e = DeliveryFailed \<and> d \<noteq> None
      | Inr (o1, closed) \<Rightarrow> consume_post ?r ?s r' closed
          \<and> (\<forall>S. content_of S ?r \<longrightarrow> segment_of S ?s \<longrightarrow> content_of S r'
             \<and> emitted d log o1 w' = emitted d log [] w @ go_slice (unat (rnext ?r)) (unat (rnext r')) S)"
      by (rule consume_loop [OF _ _ rec])
    have "insert_post r seg r' c" if "consume_post ?r ?s r' c" for c
      using that acq
      by (auto simp: consume_post_def insert_post_def held_bytes_def seg_range_def send_of_def plen_def flow_balance_def)
    moreover have "content_of S ?r = content_of S r" "segment_of S ?s = segment_of S seg" for S
      by (simp_all add: content_of_def segment_of_def send_of_def plen_def)
    ultimately show ?thesis using loop by (auto simp: insert_content_def split: sum.splits)
  qed
qed

lemma insert_segment_sound:
  assumes wf: "reasm_wf r" and mc: "mem_covers r 0" and gs: "go_sized r seg"
    and ins: "insert_segment r seg d w = (r', w', res)" and rec: "records d log"
  shows "case res of
      Inl e \<Rightarrow> e \<notin> {CursorMismatch, MemoryPanic} \<and> (e \<noteq> DeliveryFailed \<longrightarrow> r' = r \<and> w' = w) \<and> (e = DeliveryFailed \<longrightarrow> d \<noteq> None)
    | Inr (out, closed) \<Rightarrow> insert_post r seg r' closed \<and> insert_content d log r seg w r' w' out"
proof (cases "(sFinal seg \<longleftrightarrow> sPayload seg = []) \<and> sSequence seg \<le> - 1 - plen64 seg")
  case False
  then have "r' = r \<and> w' = w \<and> (\<exists>e. res = Inl e \<and> e \<in> {FinCarriesPayload, EmptyDataSegment, ErrSequence})"
    using ins by (auto simp: insert_segment_def Let_def plen_def split: if_splits)
  then show ?thesis by auto
next
  case True
  let ?stop = "sSequence seg + plen64 seg"
  have fin: "sFinal seg \<longleftrightarrow> sPayload seg = []" using True by simp
  have len: "send_of seg < 2 ^ 64"
    using True gs word_le_sub_max [of "plen seg" "sSequence seg"]
    by (simp add: go_sized_def send_of_def plen64_def plen_def)
  have unf: "insert_segment r seg d w = insert_checked r seg ?stop d w"
  proof -
    have "\<not> (sFinal seg \<and> plen seg \<noteq> 0)" "\<not> (\<not> sFinal seg \<and> plen seg = 0)"
      "\<not> sSequence seg > - 1 - plen64 seg"
      using True by (auto simp: plen_def)
    then show ?thesis unfolding insert_segment_def by (simp only: if_False)
  qed
  note ins' = ins [unfolded unf insert_checked_def]
  show ?thesis
  proof (cases "boundary_check r seg ?stop")
    case (Some answer)
    then show ?thesis
      using boundary_early [OF wf Some len fin] ins' Some insert_post_same [OF wf mc] insert_content_same [of d log r seg w]
      by (auto split: sum.splits)
  next
    case b: None
    show ?thesis
    proof (cases "map_of (rBuffer r) (sSequence seg)")
      case (Some x)
      have x: "(sSequence seg, x) \<in> set (rBuffer r)" using Some by (rule map_of_entry)
      have "seg_range seg \<subseteq> held_bytes r" if "sPayload x = sPayload seg"
      proof -
        have "sSequence x = sSequence seg" using wf x by (auto simp: reasm_wf_def reasm_wf_from_def entry_ok_def)
        then have "seg_range seg = seg_range x" using that by (simp add: seg_range_def send_of_def plen_def)
        then show ?thesis using x by (auto simp: held_bytes_def)
      qed
      then show ?thesis
        using ins' b Some insert_post_same [OF wf mc] insert_content_same [of d log r seg w] by (auto split: if_splits)
    next
      case new: None
      show ?thesis
      proof (cases "checkNeighbours r seg ?stop")
        case (Some e)
        then have "e \<in> {OverlappingSegments, FinConflictsBuffered}"
          by (auto simp: checkNeighbours_def Let_def split: if_splits)
        then show ?thesis using ins' b new Some by auto
      next
        case nb: None
        consider "sSequence seg \<noteq> rnext r"
          | "sSequence seg = rnext r" "d \<noteq> None \<and> \<not> sFinal seg"
          | "sSequence seg = rnext r" "\<not> (d \<noteq> None \<and> \<not> sFinal seg)" by blast
        then show ?thesis
        proof cases
          case 1
          then have h: "hold_segment r seg = (r', res)" and w': "w' = w"
            using ins' b new nb by (auto split: prod.splits)
          show ?thesis
            using hold_segment_post [OF wf mc len fin b new nb 1 _ _ h, of d log w] gs w'
            by (auto simp: go_sized_def split: sum.splits)
        next
          case 2
          then show ?thesis
            using insert_at_cursor_charged [OF wf mc len fin b nb 2(1) _ _ rec] ins' b new nb
            by auto
        next
          case 3
          have "consumeContiguous d w r seg [] = (r', w', res)" using ins' b new nb 3 by auto
          moreover have "consume_pre r seg"
            using cursor_segment_pre [OF wf _ len fin b nb 3(1)] mc gs by (simp add: go_sized_def)
          ultimately show ?thesis
            using consume_loop [OF _ _ rec] gs
            by (fastforce simp: consume_post_def insert_post_def insert_content_def go_sized_def split: sum.splits)
        qed
      qed
    qed
  qed
qed

section \<open>Ranges reported to the sender\<close>

lemma gapped_ranges_above: "gapped c rs \<Longrightarrow> c' \<le> c \<Longrightarrow> ranges_above c' rs"
proof (induction rs arbitrary: c c')
  case Nil
  then show ?case by simp
next
  case (Cons r rs)
  have "gapped (snd r) rs" using Cons.prems(1) by (auto simp: gapped_def)
  then show ?case using Cons.IH [of "snd r" "snd r"] Cons.prems by (auto simp: gapped_def)
qed

lemma gapped_take: "gapped c rs \<Longrightarrow> gapped c (take n rs)"
  by (auto simp: gapped_def sorted_wrt_take dest: in_set_takeD)

lemma gapped_snoc:
  assumes "gapped c (rs @ [r])"
  shows "gapped c rs" "\<forall>x\<in>set rs. snd x < fst r" "c < fst r" "fst r < snd r"
  using assms by (auto simp: gapped_def sorted_wrt_append)

lemma received_loop_spec:
  assumes wf: "reasm_wf_from lo r" and ord: "set starts \<subseteq> set (rOrder r)" "sorted_wrt (<) starts"
    and c: "unat c < lo" and acc: "gapped c acc" and sep: "\<forall>x\<in>set acc. \<forall>k\<in>set starts. snd x \<le> k"
  shows "gapped c (received_loop r starts acc)
    \<and> range_bytes (received_loop r starts acc)
        = range_bytes acc \<union> (\<Union>k\<in>set starts. seg_range (at_key (rBuffer r) k))"
  using assms(2-)
proof (induction starts arbitrary: acc)
  case Nil
  then show ?case by simp
next
  case (Cons k ks)
  let ?s = "at_key (rBuffer r) k" and ?e = "k + plen64 (at_key (rBuffer r) k)"
  have kin: "(k, ?s) \<in> set (rBuffer r)" using at_key_entry [OF wf] Cons.prems(1) by simp
  note f = entry_facts [OF wf kin, simplified]
  have e: "unat ?e = send_of ?s" using f(1,7) by simp
  have later: "?e \<le> k'" if k': "k' \<in> set ks" for k'
  proof -
    have "k < k'" using Cons.prems(2) k' by simp
    moreover have "(k', at_key (rBuffer r) k') \<in> set (rBuffer r)"
      using at_key_entry [OF wf] Cons.prems(1) k' by auto
    ultimately show ?thesis using entry_disjoint [OF wf kin] e by (fastforce simp: word_le_nat_alt)
  qed
  have ks: "set ks \<subseteq> set (rOrder r)" "sorted_wrt (<) ks" using Cons.prems by auto
  have sr: "seg_range ?s = {unat k..<unat ?e}" using f(1) e by (simp add: seg_range_def)
  consider (fin) "sFinal ?s" | (join) "\<not> sFinal ?s" "acc \<noteq> []" "snd (last acc) = k"
    | (new) "\<not> sFinal ?s" "acc = [] \<or> snd (last acc) \<noteq> k" by blast
  then show ?case
  proof cases
    case fin
    then have "seg_range ?s = {}" using f(3) by (simp add: seg_range_def send_of_def plen_def)
    then show ?thesis using Cons.IH [OF ks c Cons.prems(4)] Cons.prems(5) fin by (simp add: Let_def)
  next
    case join
    then obtain a b where ab: "acc = b @ [(a, k)]" by (cases acc rule: rev_cases) auto
    note g = gapped_snoc [OF Cons.prems(4) [unfolded ab]]
    have "k < ?e" using join(1) f(3) e by (auto simp: send_of_def f(1) plen_def word_less_nat_alt)
    then have g': "gapped c (b @ [(a, ?e)])"
      using Cons.prems(4) ab by (auto simp: gapped_def sorted_wrt_append)
    have "\<forall>x\<in>set (b @ [(a, ?e)]). \<forall>k'\<in>set ks. snd x \<le> k'"
      using later Cons.prems(5) ab by auto
    from Cons.IH [OF ks c g' this] show ?thesis
      using join ab g(4) sr \<open>k < ?e\<close>
      by (auto simp: Let_def range_bytes_def word_less_nat_alt)
  next
    case new
    have "k < ?e" using new(1) f(3) e by (auto simp: send_of_def f(1) plen_def word_less_nat_alt)
    have ck: "c < k" using f(5) c by (simp add: word_less_nat_alt)
    have lt: "snd x < k" if x: "x \<in> set acc" for x
    proof -
      have "snd (last acc) < k" if "acc \<noteq> []" using new(2) that Cons.prems(5) by (auto simp: order_le_less)
      moreover have "acc = butlast acc @ [last acc]" if "acc \<noteq> []" using that by simp
      ultimately show ?thesis
        using x gapped_snoc [of c "butlast acc" "last acc"] Cons.prems(4)
        by (metis (no_types) Un_iff empty_iff empty_set less_trans list.set(1) list.set_intros(1) set_ConsD set_append)
    qed
    then have g': "gapped c (acc @ [(k, ?e)])"
      using Cons.prems(4) \<open>k < ?e\<close> ck by (auto simp: gapped_def sorted_wrt_append)
    have "\<forall>x\<in>set (acc @ [(k, ?e)]). \<forall>k'\<in>set ks. snd x \<le> k'"
      using later Cons.prems(5) by auto
    from Cons.IH [OF ks c g' this] show ?thesis
      using new sr by (auto simp: Let_def range_bytes_def)
  qed
qed

lemma received_loop_length: "length (received_loop r ks acc) \<le> length acc + length ks"
proof (induction ks arbitrary: acc)
  case (Cons k ks)
  let ?e = "k + plen64 (at_key (rBuffer r) k)"
  have "acc \<noteq> [] \<Longrightarrow> length (received_loop r ks (butlast acc @ [(fst (last acc), ?e)])) \<le> length acc + length ks"
    using Cons.IH [of "butlast acc @ [(fst (last acc), ?e)]"] by (cases acc) auto
  then show ?case
    using Cons.IH [of acc] Cons.IH [of "acc @ [(k, ?e)]"] by (auto simp: Let_def)
qed simp

lemma ReceivedRanges_spec:
  assumes "reasm_wf r"
  shows "gapped (rnext r) (ReceivedRanges r n)"
    and "range_bytes (ReceivedRanges r n) \<subseteq> held_bytes r - {..<unat (rnext r)}"
    and "int (length (rOrder r)) \<le> n \<Longrightarrow> range_bytes (ReceivedRanges r n) = held_bytes r - {..<unat (rnext r)}"
proof -
  have wf: "reasm_wf_from (Suc (unat (rnext r))) r" using assms by (simp add: reasm_wf_def)
  let ?all = "received_loop r (rOrder r) []"
  have all: "gapped (rnext r) ?all" "range_bytes ?all = (\<Union>k\<in>set (rOrder r). seg_range (at_key (rBuffer r) k))"
    using received_loop_spec [OF wf subset_refl, of "rnext r" "[]"] wf
    by (auto simp: gapped_def range_bytes_def reasm_wf_from_def)
  have ent: "e = (fst e, at_key (rBuffer r) (fst e))" if "e \<in> set (rBuffer r)" for e
    using at_key_entry [OF wf entry_order [OF wf that]] that wf unfolding reasm_wf_from_def
    by (metis eq_key_imp_eq_value prod.collapse)
  have "(\<Union>k\<in>set (rOrder r). seg_range (at_key (rBuffer r) k)) = (\<Union>e\<in>set (rBuffer r). seg_range (snd e))"
    using ent wf by (auto simp: reasm_wf_from_def)
  moreover have "seg_range (snd e) \<inter> {..<unat (rnext r)} = {}" if "e \<in> set (rBuffer r)" for e
    using entry_facts(1,5) [OF wf that] by (auto simp: seg_range_def)
  ultimately have held: "range_bytes ?all = held_bytes r - {..<unat (rnext r)}"
    using all(2) by (auto simp: held_bytes_def)
  show "gapped (rnext r) (ReceivedRanges r n)"
    using gapped_take [OF all(1)] by (auto simp: ReceivedRanges_def gapped_def)
  have "range_bytes (take m ?all) \<subseteq> range_bytes ?all" for m
    by (auto simp: range_bytes_def dest: in_set_takeD)
  then show "range_bytes (ReceivedRanges r n) \<subseteq> held_bytes r - {..<unat (rnext r)}"
    using held by (auto simp: ReceivedRanges_def range_bytes_def)
  show "range_bytes (ReceivedRanges r n) = held_bytes r - {..<unat (rnext r)}"
    if n: "int (length (rOrder r)) \<le> n"
  proof (cases "rBuffer r = []")
    case True
    then show ?thesis by (simp add: ReceivedRanges_def held_bytes_def range_bytes_def)
  next
    case False
    then have "rOrder r \<noteq> []" using wf by (auto simp: reasm_wf_from_def)
    then have "0 < n" using n by (cases "rOrder r") auto
    moreover have "length ?all \<le> nat n" using received_loop_length [of r "rOrder r" "[]"] n by simp
    ultimately show ?thesis using held False by (simp add: ReceivedRanges_def)
  qed
qed

section \<open>Properties\<close>

text \<open>A run of arrivals: an arrival the reassembler refuses leaves it as it was.\<close>

fun run_inserts :: "reassembler \<Rightarrow> segment list \<Rightarrow> reassembler \<times> bytes" where
  "run_inserts r [] = (r, [])"
| "run_inserts r (seg # segs) =
     (case Insert r seg of
        (r', Inl e) \<Rightarrow> run_inserts r' segs
      | (r', Inr (out, closed)) \<Rightarrow> (case run_inserts r' segs of (r'', rest) \<Rightarrow> (r'', out @ rest)))"

lemma next_not_held:
  assumes "reasm_wf r"
  shows "unat (rnext r) \<notin> held_bytes r"
proof
  assume "unat (rnext r) \<in> held_bytes r"
  then obtain e where e: "e \<in> set (rBuffer r)" "unat (rnext r) \<in> seg_range (snd e)"
    by (auto simp: held_bytes_def)
  have "reasm_wf_from (Suc (unat (rnext r))) r" using assms by (simp add: reasm_wf_def)
  from entry_facts(1,5) [OF this e(1)] e(2) show False by (simp add: seg_range_def)
qed

lemma next_is_least: "reasm_wf r \<Longrightarrow> unat (rnext r) = (LEAST n. n \<notin> held_bytes r)"
  using next_not_held [of r]
  by (intro Least_equality [symmetric]) (auto simp: not_less [symmetric] held_bytes_def)

lemma Insert_sound:
  assumes "reasm_wf r" "mem_covers r 0" "go_sized r seg" "Insert r seg = (r', res)"
  shows "case res of Inl e \<Rightarrow> r' = r \<and> e \<notin> {CursorMismatch, MemoryPanic, DeliveryFailed}
    | Inr (out, closed) \<Rightarrow> insert_post r seg r' closed
        \<and> (\<forall>S. content_of S r \<longrightarrow> segment_of S seg \<longrightarrow>
             content_of S r' \<and> out = go_slice (unat (rnext r)) (unat (rnext r')) S)"
proof -
  obtain w' where "insert_segment r seg None () = (r', w', res)"
    using assms(4) by (auto simp: Insert_def split: prod.splits)
  moreover have "records None (\<lambda>_ :: unit. [])" by (simp add: records_def)
  ultimately show ?thesis
    using insert_segment_sound [OF assms(1-3)]
    by (fastforce simp: insert_content_def emitted_def split: sum.splits)
qed

lemma run_inserts_prefix:
  assumes "reasm_wf r" "mem_covers r 0" "content_of S r"
    and "\<forall>seg\<in>set segs. go_sized r seg \<and> segment_of S seg" and "run_inserts r segs = (r', out)"
  shows "reasm_wf r' \<and> rnext r \<le> rnext r' \<and> out = go_slice (unat (rnext r)) (unat (rnext r')) S
    \<and> flow_balance r' = flow_balance r \<and> mem_covers r' 0 \<and> unat (rnext r') \<le> length S"
  using assms
proof (induction segs arbitrary: r out)
  case Nil
  then show ?case by (simp add: content_of_def)
next
  case (Cons seg segs)
  obtain r1 res where ins: "Insert r seg = (r1, res)" by (cases "Insert r seg")
  note snd = Insert_sound [OF Cons.prems(1,2) _ ins]
  show ?case
  proof (cases res)
    case (Inl e)
    then have "r1 = r" using snd Cons.prems(4) by simp
    then show ?thesis using Cons ins Inl by simp
  next
    case (Inr oc)
    obtain o1 c where oc: "oc = (o1, c)" by (cases oc)
    have p: "insert_post r seg r1 c" and ct: "content_of S r1" "o1 = go_slice (unat (rnext r)) (unat (rnext r1)) S"
      using snd Cons.prems(3,4) Inr oc by auto
    have gs: "\<forall>seg\<in>set segs. go_sized r1 seg \<and> segment_of S seg"
      using Cons.prems(4) p by (auto simp: go_sized_def insert_post_def)
    obtain rest where rest: "run_inserts r1 segs = (r', rest)" "out = o1 @ rest"
      using Cons.prems(5) ins Inr oc by (auto split: prod.splits)
    have ih: "reasm_wf r' \<and> rnext r1 \<le> rnext r' \<and> rest = go_slice (unat (rnext r1)) (unat (rnext r')) S
      \<and> flow_balance r' = flow_balance r1 \<and> mem_covers r' 0 \<and> unat (rnext r') \<le> length S"
      using Cons.IH [OF _ _ ct(1) gs rest(1)] p by (simp add: insert_post_def)
    then show ?thesis
      using p ct(2) rest(2) go_slice_append [of "unat (rnext r)" "unat (rnext r1)" "unat (rnext r')" S]
      by (auto simp: insert_post_def word_le_nat_alt)
  qed
qed

lemma New_reasm:
  assumes "budget_ok m"
  shows "reasm_wf (NewReassembler b f m)" "mem_covers (NewReassembler b f m) 0"
    "content_of S (NewReassembler b f m)" "held_bytes (NewReassembler b f m) = {}"
  using assms by (auto simp: reasm_wf_def reasm_wf_from_def NewReassembler_def disjoint_entries_def buffered_def
      mem_covers_def content_of_def held_bytes_def tracked_def) (cases m; auto simp: budget_inv_def)

text \<open>C1: whatever order, duplication or overlap the lanes deliver segments of one byte stream in,
  what a fresh reassembler has handed to the application is exactly the prefix of that stream up to
  its cursor: nothing is reordered, repeated or skipped.\<close>

theorem reassembly_delivers_prefix:
  assumes "budget_ok m" and "unat b < 2 ^ 63"
    and "\<forall>seg\<in>set segs. plen seg < 2 ^ 63 \<and> \<not> sCharged seg \<and> segment_of S seg"
    and "run_inserts (NewReassembler b f m) segs = (r, out)"
  shows "out = take (unat (rnext r)) S \<and> unat (rnext r) \<le> length S \<and> reasm_wf r"
proof -
  let ?r = "NewReassembler b f m"
  have "\<forall>seg\<in>set segs. go_sized ?r seg \<and> segment_of S seg"
    using assms(2,3) by (auto simp: go_sized_def NewReassembler_def)
  from run_inserts_prefix [OF New_reasm(1-3) [OF assms(1)] this assms(4)] show ?thesis
    by (simp add: NewReassembler_def go_slice_zero)
qed

definition demo_stream :: bytes where "demo_stream = [10, 20, 30, 40, 50]"

definition demo_segments :: "segment list" where
  "demo_segments =
     [\<lparr>sSequence = 3, sPayload = [40, 50], sFinal = False, sCharged = False\<rparr>,
      \<lparr>sSequence = 5, sPayload = [], sFinal = True, sCharged = False\<rparr>,
      \<lparr>sSequence = 3, sPayload = [40, 50], sFinal = False, sCharged = False\<rparr>,
      \<lparr>sSequence = 0, sPayload = [10, 20], sFinal = False, sCharged = False\<rparr>,
      \<lparr>sSequence = 1, sPayload = [20, 30], sFinal = False, sCharged = False\<rparr>,
      \<lparr>sSequence = 2, sPayload = [30], sFinal = False, sCharged = False\<rparr>]"

lemma demo_run: "snd (run_inserts (NewReassembler 0 0 (New 100)) demo_segments) = demo_stream"
  by code_simp

lemma demo_sized:
  "budget_ok (New 100)" "\<forall>seg\<in>set demo_segments. plen seg < 2 ^ 63 \<and> \<not> sCharged seg \<and> segment_of demo_stream seg"
  by (simp_all add: New_ok demo_segments_def demo_stream_def plen_def segment_of_def send_of_def go_slice_def)

theorem reassembly_delivers_prefix_witness:
  "\<exists>r. run_inserts (NewReassembler 0 0 (New 100)) demo_segments = (r, demo_stream)
     \<and> demo_stream = take (unat (rnext r)) demo_stream \<and> unat (rnext r) \<le> length demo_stream \<and> reasm_wf r"
proof -
  let ?run = "run_inserts (NewReassembler 0 0 (New 100)) demo_segments"
  have r: "?run = (fst ?run, demo_stream)" using demo_run by (metis prod.collapse)
  show ?thesis using reassembly_delivers_prefix [OF demo_sized(1) _ demo_sized(2) r] r by auto
qed

text \<open>C2: \<^verbatim>\<open>Insert\<close> implements set union. An accepted segment adds exactly its offsets to what the
  receiver holds, the cursor is always the least offset not held, so a stream whose every offset has
  been accepted has been delivered to its end; a refused segment changes nothing at all.\<close>

theorem insert_refines_union:
  assumes "reasm_wf r" and "mem_covers r 0" and "go_sized r seg" and "Insert r seg = (r', res)"
  shows "case res of
      Inl e \<Rightarrow> r' = r \<and> e \<noteq> CursorMismatch \<and> e \<noteq> MemoryPanic
    | Inr (out, closed) \<Rightarrow> reasm_wf r' \<and> held_bytes r' = held_bytes r \<union> seg_range seg
        \<and> unat (rnext r') = (LEAST n. n \<notin> held_bytes r') \<and> closed = Closed r'"
  using Insert_sound [OF assms] next_is_least
  by (auto simp: insert_post_def split: sum.splits)

theorem insert_refines_union_witness:
  "held_bytes (fst (Insert (NewReassembler 0 0 (New 100)) (hd demo_segments))) = {3, 4}
   \<and> rnext (fst (Insert (NewReassembler 0 0 (New 100)) (hd demo_segments))) = 0"
proof -
  let ?r = "NewReassembler 0 0 (New 100)" and ?s = "hd demo_segments"
  have ins: "Insert ?r ?s = (fst (Insert ?r ?s), Inr ([], False))"
    by code_simp
  have gs: "go_sized ?r ?s"
    by (simp add: go_sized_def NewReassembler_def demo_segments_def plen_def)
  have h: "held_bytes (fst (Insert ?r ?s)) = held_bytes ?r \<union> seg_range ?s"
    and n: "unat (rnext (fst (Insert ?r ?s))) = (LEAST n. n \<notin> held_bytes (fst (Insert ?r ?s)))"
    using insert_refines_union [OF New_reasm(1,2) [OF demo_sized(1)] gs ins] by auto
  have "seg_range ?s = {3, 4}"
    by (auto simp: seg_range_def send_of_def plen_def demo_segments_def)
  then have held: "held_bytes (fst (Insert ?r ?s)) = {3, 4}" using h New_reasm(4) [OF demo_sized(1)] by simp
  have "(LEAST n. n \<notin> {3, 4 :: nat}) = 0" by (rule Least_equality) auto
  then show ?thesis using held n by (simp add: unat_eq_0)
qed

text \<open>With a delivery callback, the application has received exactly the newly contiguous slice of
  the stream, and the shared budget counts for this flow precisely the bytes still buffered: what was
  charged for the delivered segments has been given back.\<close>

theorem insertTo_delivers_and_settles:
  assumes "reasm_wf r" and "mem_covers r 0" and "go_sized r seg"
    and "records (Some f) log" and "InsertTo r seg (Some f) w = (r', w', Inr closed)"
    and "content_of S r" and "segment_of S seg"
  shows "log w' = log w @ go_slice (unat (rnext r)) (unat (rnext r')) S
    \<and> usage (rMemory r') - usage (rMemory r)
        = (if tracked (rMemory r) then int (buffered (rBuffer r')) - int (buffered (rBuffer r)) else 0)"
proof -
  obtain out where ins: "insert_segment r seg (Some f) w = (r', w', Inr (out, closed))"
    using assms(5) by (auto simp: InsertTo_def split: prod.splits sum.splits)
  have "insert_post r seg r' closed" "insert_content (Some f) log r seg w r' w' out"
    using insert_segment_sound [OF assms(1-3) ins assms(4)] by auto
  then show ?thesis
    using assms(6,7) by (auto simp: insert_post_def insert_content_def emitted_def flow_balance_def)
qed

theorem insertTo_delivers_and_settles_witness:
  "\<exists>r' w'. InsertTo (NewReassembler 0 0 (New 100)) (demo_segments ! 3) (Some (\<lambda>w p. (False, w @ p))) [7]
      = (r', w', Inr False) \<and> w' = [7] @ [10, 20] \<and> usage (rMemory r') = 0"
proof -
  let ?r = "NewReassembler 0 0 (New 100)" and ?s = "demo_segments ! 3" and ?f = "\<lambda>w p. (False, w @ p :: bytes)"
  let ?t = "InsertTo ?r ?s (Some ?f) [7]"
  have res: "snd (snd ?t) = Inr False" and nx: "rnext (fst ?t) = 2" and bf: "rBuffer (fst ?t) = []"
    by code_simp+
  have t: "?t = (fst ?t, fst (snd ?t), Inr False)" using res by (metis prod.collapse)
  have gs: "go_sized ?r ?s"
    by (simp add: go_sized_def NewReassembler_def demo_segments_def plen_def)
  have seg: "segment_of demo_stream ?s"
    by (simp add: segment_of_def demo_segments_def demo_stream_def send_of_def plen_def go_slice_def)
  have rc: "records (Some ?f) (\<lambda>w. w)" by (simp add: records_def)
  have "fst (snd ?t) = [7] @ go_slice (unat (rnext ?r)) (unat (rnext (fst ?t))) demo_stream
    \<and> usage (rMemory (fst ?t)) - usage (rMemory ?r) = (if tracked (rMemory ?r) then
        int (buffered (rBuffer (fst ?t))) - int (buffered (rBuffer ?r)) else 0)"
    using insertTo_delivers_and_settles [OF New_reasm(1,2) [OF demo_sized(1)] gs rc t New_reasm(3) [OF demo_sized(1)] seg] .
  then have "fst (snd ?t) = [7] @ [10, 20] \<and> usage (rMemory (fst ?t)) = 0"
    using nx bf by (simp add: NewReassembler_def New_def demo_stream_def go_slice_def buffered_def)
  then show ?thesis using t by blast
qed

text \<open>Closing a flow gives back exactly what it still had charged; the release can never exceed
  what was acquired, so it never panics.\<close>

theorem close_returns_charges:
  assumes "reasm_wf r" and "mem_covers r 0"
  shows "\<exists>r'. Close r = Inr r' \<and> rBuffer r' = [] \<and> usage (rMemory r') = flow_balance r"
proof -
  have all: "\<forall>e\<in>set (rBuffer r). sCharged (snd e)"
    using assms(1) by (auto simp: reasm_wf_def reasm_wf_from_def entry_ok_def)
  then have "charges (rBuffer r) = map (\<lambda>e. int (plen (snd e))) (rBuffer r)"
    by (auto simp: charges_def)
  then have "sum_list (charges (rBuffer r)) = int (buffered (rBuffer r))"
    by (simp add: buffered_def sum_list_int)
  moreover have "\<forall>n\<in>set (charges (rBuffer r)). 0 \<le> n" by (auto simp: charges_def)
  ultimately obtain m where "give_all Release (rMemory r) (charges (rBuffer r)) = Inr m"
      "usage m = usage (rMemory r) - (if tracked (rMemory r) then int (buffered (rBuffer r)) else 0)"
    using mem.give_all_ledger [of "rMemory r" "charges (rBuffer r)"] assms(2) by (fastforce simp: mem_covers_def)
  then show ?thesis by (simp add: Close_def flow_balance_def)
qed

theorem close_returns_charges_witness:
  "\<exists>r'. Close (fst (Insert (NewReassembler 0 0 (New 100)) (hd demo_segments))) = Inr r'
     \<and> rBuffer r' = [] \<and> usage (rMemory r') = 0"
proof -
  let ?r = "NewReassembler 0 0 (New 100)" and ?s = "hd demo_segments"
  have ins: "Insert ?r ?s = (fst (Insert ?r ?s), Inr ([], False))" by code_simp
  have gs: "go_sized ?r ?s"
    by (simp add: go_sized_def NewReassembler_def demo_segments_def plen_def)
  have p: "insert_post ?r ?s (fst (Insert ?r ?s)) False"
    using Insert_sound [OF New_reasm(1,2) [OF demo_sized(1)] gs ins] by simp
  moreover have "flow_balance ?r = 0"
    by (simp add: flow_balance_def NewReassembler_def New_def buffered_def)
  ultimately have "flow_balance (fst (Insert ?r ?s)) = 0" by (simp add: insert_post_def)
  then show ?thesis using close_returns_charges [of "fst (Insert ?r ?s)"] p by (simp add: insert_post_def)
qed

text \<open>The ranges reported to the sender are non-empty, in order, separated by gaps and above the
  cursor; they name only bytes the receiver holds, and all of them when the report is not cut short.\<close>

theorem received_ranges_exact:
  assumes "reasm_wf r"
  shows "gapped (rnext r) (ReceivedRanges r n)
    \<and> range_bytes (ReceivedRanges r n) \<subseteq> held_bytes r - {..<unat (rnext r)}
    \<and> (int (length (rOrder r)) \<le> n \<longrightarrow> range_bytes (ReceivedRanges r n) = held_bytes r - {..<unat (rnext r)})"
  using ReceivedRanges_spec [OF assms] by blast

theorem received_ranges_exact_witness:
  "ReceivedRanges (fst (run_inserts (NewReassembler 0 0 (New 100)) (take 1 demo_segments))) 16 = [(3, 5)]
   \<and> gapped 0 [(3, 5)]"
proof -
  let ?r = "fst (run_inserts (NewReassembler 0 0 (New 100)) (take 1 demo_segments))"
  have v: "ReceivedRanges ?r 16 = [(3, 5)]" "rnext ?r = 0" by code_simp+
  have "\<forall>seg\<in>set (take 1 demo_segments). go_sized (NewReassembler 0 0 (New 100)) seg \<and> segment_of demo_stream seg"
    using demo_sized(2) by (auto simp: go_sized_def NewReassembler_def dest: in_set_takeD)
  then have "reasm_wf ?r"
    using run_inserts_prefix [OF New_reasm(1-3) [OF demo_sized(1)]] by (metis prod.collapse)
  from received_ranges_exact [OF this, of 16] show ?thesis using v by simp
qed

end
