(* ===== verification/AckTracker.thy ===== *)
theory AckTracker
  imports Prelude "HOL-Library.Product_Lexorder"
begin

text \<open>
  \<^verbatim>\<open>internal/pep/acktrack.go\<close>: the sender's record of which bytes of a striped
  stream the peer has acknowledged. The tracker keeps a cumulative point and sorted,
  merged ranges above it. Its abstraction is the set \<^verbatim>\<open>acked\<close> of acknowledged
  offsets; the interface \<^verbatim>\<open>ack_ledger\<close> states every operation over that set. The
  condition variable is a broadcast counter, so that a lost wake-up is expressible;
  the blocking \<^verbatim>\<open>Wait\<close> and \<^verbatim>\<open>WaitChange\<close> are one iteration of their loops.
\<close>

section \<open>State and operations\<close>

datatype ack_error = ErrAckTrackerClosed | ErrContext

record ackTracker =
  cumulative :: u64
  aranges :: "range64 list"
  aclosed :: bool
  agen :: u64
  broadcasts :: nat

definition newAckTracker :: ackTracker where
  "newAckTracker = \<lparr>cumulative = 0, aranges = [], aclosed = False, agen = 0, broadcasts = 0\<rparr>"

definition broadcast :: "ackTracker \<Rightarrow> ackTracker" where
  "broadcast t = t\<lparr>broadcasts := broadcasts t + 1\<rparr>"

text \<open>\<^verbatim>\<open>merged\<close> is never empty in the loop; its last element may be widened in place.\<close>

fun merge_loop :: "range64 list \<Rightarrow> range64 list \<Rightarrow> range64 list" where
  "merge_loop merged [] = merged"
| "merge_loop merged (r # rs) =
     (if fst r \<le> snd (last merged)
      then merge_loop
             (if snd r > snd (last merged) then butlast merged @ [(fst (last merged), snd r)] else merged) rs
      else merge_loop (merged @ [r]) rs)"

text \<open>Ties of the comparison are equal pairs, so the unstable sort has one result.\<close>

definition mergeLocked :: "ackTracker \<Rightarrow> ackTracker" where
  "mergeLocked t =
     (if length (aranges t) < 2 then t
      else (let rs = sort (aranges t) in t\<lparr>aranges := merge_loop [hd rs] (tl rs)\<rparr>))"

text \<open>One pass over the ranges: the new cumulative point, what is kept, whether anything moved.\<close>

fun compact_pass :: "u64 \<Rightarrow> range64 list \<Rightarrow> u64 \<times> range64 list \<times> bool" where
  "compact_pass c [] = (c, [], False)"
| "compact_pass c (r # rs) =
     (if snd r \<le> c then (case compact_pass c rs of (c', kept, _) \<Rightarrow> (c', kept, True))
      else if fst r \<le> c then (case compact_pass (snd r) rs of (c', kept, _) \<Rightarrow> (c', kept, True))
      else (case compact_pass c rs of (c', kept, progress) \<Rightarrow> (c', r # kept, progress)))"

lemma compact_pass_shrinks:
  "compact_pass c rs = (c', kept, progress) \<Longrightarrow>
     length kept \<le> length rs \<and> (progress \<longrightarrow> length kept < length rs)"
  by (induction c rs arbitrary: c' kept progress rule: compact_pass.induct)
     (force split: if_splits prod.splits)+

function compact_loop :: "u64 \<Rightarrow> range64 list \<Rightarrow> u64 \<times> range64 list" where
  "compact_loop c rs =
     (case compact_pass c rs of
        (c', kept, progress) \<Rightarrow> if progress then compact_loop c' kept else (c', kept))"
  by pat_completeness auto
termination
  by (relation "measure (\<lambda>(c, rs). length rs)") (auto dest: compact_pass_shrinks [OF sym])

declare compact_loop.simps [simp del]

definition compactLocked :: "ackTracker \<Rightarrow> ackTracker" where
  "compactLocked t =
     (case compact_pass (cumulative t) (aranges t) of
        (c, kept, _) \<Rightarrow>
          (case compact_loop c kept of (c', kept') \<Rightarrow> t\<lparr>cumulative := c', aranges := kept'\<rparr>))"

fun covered_scan :: "range64 list \<Rightarrow> u64 \<Rightarrow> u64 \<Rightarrow> bool" where
  "covered_scan [] start stop = False"
| "covered_scan (r # rs) start stop =
     (if fst r > start then False
      else if snd r > start then (if snd r \<ge> stop then True else covered_scan rs (snd r) stop)
      else covered_scan rs start stop)"

definition coveredLocked :: "ackTracker \<Rightarrow> u64 \<Rightarrow> u64 \<Rightarrow> bool" where
  "coveredLocked t start stop =
     (if stop \<le> start then True
      else if stop \<le> cumulative t then True
      else covered_scan (aranges t) (if start < cumulative t then cumulative t else start) stop)"

definition Covered :: "ackTracker \<Rightarrow> u64 \<Rightarrow> u64 \<Rightarrow> bool" where
  "Covered t start stop = coveredLocked t start stop"

definition Advance :: "ackTracker \<Rightarrow> u64 \<Rightarrow> ackTracker" where
  "Advance t sequence =
     (if sequence \<le> cumulative t then t
      else (let t' = compactLocked (t\<lparr>cumulative := sequence\<rparr>) in
            broadcast (t'\<lparr>agen := agen t' + 1\<rparr>)))"

fun add_loop :: "ackTracker \<Rightarrow> bool \<Rightarrow> range64 list \<Rightarrow> ackTracker \<times> bool" where
  "add_loop t changed [] = (t, changed)"
| "add_loop t changed (r # rs) =
     (if snd r \<le> fst r \<or> snd r \<le> cumulative t then add_loop t changed rs
      else add_loop (t\<lparr>aranges := aranges t @ [r]\<rparr>) (changed \<or> \<not> coveredLocked t (fst r) (snd r)) rs)"

definition Add :: "ackTracker \<Rightarrow> range64 list \<Rightarrow> ackTracker \<times> bool" where
  "Add t ranges =
     (if ranges = [] then (t, False)
      else (case add_loop t False ranges of
              (t1, changed) \<Rightarrow>
                (let t2 = compactLocked (mergeLocked t1) in
                 if changed then (broadcast (t2\<lparr>agen := agen t2 + 1\<rparr>), True) else (t2, False))))"

text \<open>
  One iteration of the blocking loops, under the lock: \<^verbatim>\<open>None\<close> is the call of
  \<^verbatim>\<open>cond.Wait\<close>, and \<^verbatim>\<open>ctx_done\<close> is whether the context has ended. When it ends, the
  registered callback broadcasts.
\<close>

definition Wait_poll :: "ackTracker \<Rightarrow> bool \<Rightarrow> u64 \<Rightarrow> u64 \<Rightarrow> (ack_error + unit) option" where
  "Wait_poll t ctx_done start stop =
     (if coveredLocked t start stop then Some (Inr ())
      else if aclosed t then Some (Inl ErrAckTrackerClosed)
      else if ctx_done then Some (Inl ErrContext)
      else None)"

definition WaitChange_poll :: "ackTracker \<Rightarrow> bool \<Rightarrow> u64 \<Rightarrow> (u64 \<times> ack_error option) option" where
  "WaitChange_poll t ctx_done since =
     (if agen t \<noteq> since then Some (agen t, None)
      else if aclosed t then Some (agen t, Some ErrAckTrackerClosed)
      else if ctx_done then Some (agen t, Some ErrContext)
      else None)"

definition ack_Close :: "ackTracker \<Rightarrow> ackTracker" where
  "ack_Close t = broadcast (t\<lparr>aclosed := True\<rparr>)"

definition Touch :: "ackTracker \<Rightarrow> ackTracker" where
  "Touch t = broadcast (t\<lparr>agen := agen t + 1\<rparr>)"

record ackSnapshot =
  scumulative :: u64
  sranges :: "range64 list"

definition ack_Snapshot :: "ackTracker \<Rightarrow> ackSnapshot" where
  "ack_Snapshot t = \<lparr>scumulative = cumulative t, sranges = aranges t\<rparr>"

fun highest_loop :: "u64 \<Rightarrow> range64 list \<Rightarrow> u64" where
  "highest_loop hi [] = hi"
| "highest_loop hi (r # rs) = highest_loop (if snd r > hi then snd r else hi) rs"

definition highest :: "ackSnapshot \<Rightarrow> u64" where
  "highest s = highest_loop (scumulative s) (sranges s)"

definition covers :: "ackSnapshot \<Rightarrow> u64 \<Rightarrow> u64 \<Rightarrow> bool" where
  "covers s start stop =
     (if stop \<le> start \<or> stop \<le> scumulative s then True
      else covered_scan (sranges s) (if start < scumulative s then scumulative s else start) stop)"

section \<open>The acknowledged set\<close>

definition acked :: "ackTracker \<Rightarrow> nat set" where
  "acked t = {..<unat (cumulative t)} \<union> range_bytes (aranges t)"

definition ack_wf :: "ackTracker \<Rightarrow> bool" where
  "ack_wf t \<longleftrightarrow> gapped (cumulative t) (aranges t)"

definition span :: "u64 \<Rightarrow> u64 \<Rightarrow> nat set" where
  "span start stop = {unat start..<unat stop}"

definition separated :: "range64 list \<Rightarrow> bool" where
  "separated rs \<longleftrightarrow> sorted_wrt (\<lambda>a b. snd a < fst b) rs \<and> (\<forall>r\<in>set rs. fst r < snd r)"

lemma gapped_separated: "gapped c rs \<longleftrightarrow> separated rs \<and> (\<forall>r\<in>set rs. c < fst r)"
  by (auto simp: gapped_def separated_def)

lemma range_bytes_simps [simp]:
  "range_bytes [] = {}"
  "range_bytes (r # rs) = {unat (fst r)..<unat (snd r)} \<union> range_bytes rs"
  "range_bytes (rs @ rs') = range_bytes rs \<union> range_bytes rs'"
  by (auto simp: range_bytes_def)

lemma separated_Cons:
  "separated (r # rs) \<longleftrightarrow> fst r < snd r \<and> (\<forall>x\<in>set rs. snd r < fst x) \<and> separated rs"
  by (auto simp: separated_def)

lemma covered_scan_sound:
  "covered_scan rs start stop \<Longrightarrow> span start stop \<subseteq> range_bytes rs"
proof (induction rs start stop rule: covered_scan.induct)
  case (2 r rs start stop)
  show ?case
  proof (cases "snd r > start \<and> snd r < stop")
    case True
    then have "span (snd r) stop \<subseteq> range_bytes rs" "fst r \<le> start"
      using 2 by (auto split: if_splits)
    then show ?thesis by (auto simp: span_def word_le_nat_alt subset_iff) (meson not_less)
  next
    case False
    then show ?thesis using 2
      by (auto simp: span_def word_le_nat_alt word_less_nat_alt subset_iff split: if_splits)
  qed
qed simp

lemma separated_below:
  "\<forall>x\<in>set rs. b < fst x \<Longrightarrow> k \<le> unat b \<Longrightarrow> k \<notin> range_bytes rs"
  by (fastforce simp: range_bytes_def word_less_nat_alt)

lemma covered_scan_complete:
  assumes "separated rs" and "start < stop" and "span start stop \<subseteq> range_bytes rs"
  shows "covered_scan (rs @ extra) start stop"
  using assms
proof (induction rs arbitrary: start)
  case Nil
  then show ?case by (auto simp: span_def word_less_nat_alt)
next
  case (Cons r rs)
  have sep: "fst r < snd r" "\<forall>x\<in>set rs. snd r < fst x" "separated rs"
    using Cons.prems(1) by (auto simp: separated_Cons)
  have start_in: "unat start \<in> range_bytes (r # rs)"
    using Cons.prems(2,3) by (auto simp: span_def word_less_nat_alt)
  have first: "fst r \<le> start"
  proof (rule ccontr)
    assume "\<not> fst r \<le> start"
    then have "unat start < unat (fst r)" by (simp add: word_le_nat_alt)
    moreover have "unat start \<notin> range_bytes rs"
      using separated_below [OF sep(2)] calculation sep(1) by (simp add: word_less_nat_alt)
    ultimately show False using start_in by simp
  qed
  show ?case
  proof (cases "snd r > start")
    case True
    have "stop \<le> snd r"
    proof (rule ccontr)
      assume "\<not> stop \<le> snd r"
      then have "unat (snd r) \<in> span start stop" using True
        by (simp add: span_def word_le_nat_alt word_less_nat_alt)
      then have "unat (snd r) \<in> range_bytes rs" using Cons.prems(3) by auto
      then show False using separated_below [OF sep(2)] by simp
    qed
    then show ?thesis using first True by simp
  next
    case False
    then have "span start stop \<subseteq> range_bytes rs"
      using Cons.prems(3) by (auto simp: span_def word_less_nat_alt)
    then show ?thesis using Cons.IH [OF sep(3) Cons.prems(2)] first False by simp
  qed
qed

lemma covered_scan_tail:
  assumes "gapped c (aranges t)" and "cumulative t = c"
  shows "coveredLocked (t\<lparr>aranges := aranges t @ extra\<rparr>) start stop \<Longrightarrow> range_bytes extra \<subseteq> acked t
           \<Longrightarrow> span start stop \<subseteq> acked t"
    and "span start stop \<subseteq> acked t \<Longrightarrow> coveredLocked (t\<lparr>aranges := aranges t @ extra\<rparr>) start stop"
proof -
  let ?s = "if start < c then c else start"
  have sep: "separated (aranges t)" and low: "\<forall>r\<in>set (aranges t). c < fst r"
    using assms(1) by (auto simp: gapped_separated)
  { assume cov: "coveredLocked (t\<lparr>aranges := aranges t @ extra\<rparr>) start stop"
      and ex: "range_bytes extra \<subseteq> acked t"
    show "span start stop \<subseteq> acked t"
    proof (cases "stop \<le> start \<or> stop \<le> c")
      case True
      then show ?thesis using assms(2) by (auto simp: span_def acked_def word_le_nat_alt)
    next
      case False
      then have "span ?s stop \<subseteq> range_bytes (aranges t @ extra)"
        using cov assms(2) covered_scan_sound [of "aranges t @ extra" ?s stop]
        by (simp add: coveredLocked_def split: if_splits)
      then have "span ?s stop \<subseteq> acked t" using ex by (auto simp: acked_def)
      moreover have "span start stop \<subseteq> {..<unat c} \<union> span ?s stop"
        by (auto simp: span_def word_less_nat_alt)
      ultimately show ?thesis using assms(2) by (auto simp: acked_def)
    qed }
  assume sub: "span start stop \<subseteq> acked t"
  show "coveredLocked (t\<lparr>aranges := aranges t @ extra\<rparr>) start stop"
  proof (cases "stop \<le> start \<or> stop \<le> c")
    case True
    then show ?thesis using assms(2) by (auto simp: coveredLocked_def)
  next
    case False
    then have lt: "?s < stop" by auto
    have "span ?s stop \<subseteq> span start stop - {..<unat c}"
      by (auto simp: span_def word_less_nat_alt)
    then have "span ?s stop \<subseteq> range_bytes (aranges t)" using sub assms(2) by (auto simp: acked_def)
    from covered_scan_complete [OF sep lt this, of extra] False
    show ?thesis using assms(2) by (simp add: coveredLocked_def split: if_splits)
  qed
qed

lemma coveredLocked_iff: "ack_wf t \<Longrightarrow> coveredLocked t start stop \<longleftrightarrow> span start stop \<subseteq> acked t"
  using covered_scan_tail [OF _ refl, where t = t and extra = "[]"] by (auto simp: ack_wf_def)

section \<open>Merging and compaction\<close>

lemma merge_loop_spec:
  assumes "m \<noteq> []" "separated m" "\<forall>r\<in>set rs. fst r < snd r \<and> fst (last m) \<le> fst r"
    and "sorted_wrt (\<lambda>a b. fst a \<le> fst b) rs"
  shows "separated (merge_loop m rs) \<and> range_bytes (merge_loop m rs) = range_bytes m \<union> range_bytes rs"
  using assms
proof (induction rs arbitrary: m)
  case Nil
  then show ?case by simp
next
  case (Cons r rs)
  obtain b l where m: "m = b @ [l]" using Cons.prems(1) by (metis append_butlast_last_id)
  have r: "fst r < snd r" "fst l \<le> fst r" and rest: "\<forall>x\<in>set rs. fst x < snd x \<and> fst r \<le> fst x"
    using Cons.prems m by auto
  consider (inside) "fst r \<le> snd l" "snd r \<le> snd l" | (widen) "fst r \<le> snd l" "snd l < snd r"
    | (new) "snd l < fst r" by force
  then show ?case
  proof cases
    case inside
    moreover have "\<forall>x\<in>set rs. fst x < snd x \<and> fst (last m) \<le> fst x" using rest r m by auto
    ultimately have "separated (merge_loop m rs) \<and> range_bytes (merge_loop m rs) = range_bytes m \<union> range_bytes rs"
      using Cons.IH [of m] Cons.prems by simp
    moreover have "{unat (fst r)..<unat (snd r)} \<subseteq> range_bytes m"
      using inside r m by (auto simp: word_le_nat_alt)
    ultimately show ?thesis using inside m by auto
  next
    case widen
    let ?m = "b @ [(fst l, snd r)]"
    have "separated ?m" using Cons.prems(2) m r by (auto simp: separated_def sorted_wrt_append)
    moreover have "\<forall>x\<in>set rs. fst x < snd x \<and> fst (last ?m) \<le> fst x" using rest r by auto
    ultimately have "separated (merge_loop ?m rs)
        \<and> range_bytes (merge_loop ?m rs) = range_bytes ?m \<union> range_bytes rs"
      using Cons.IH [of ?m] Cons.prems(4) by simp
    moreover have "range_bytes ?m = range_bytes m \<union> {unat (fst r)..<unat (snd r)}"
      using widen r m by (auto simp: word_le_nat_alt word_less_nat_alt)
    ultimately show ?thesis using widen m by auto
  next
    case new
    have "separated (m @ [r])"
      using Cons.prems(2) m r new by (auto simp: separated_def sorted_wrt_append intro: less_trans)
    then show ?thesis using Cons.IH [of "m @ [r]"] Cons.prems(4) rest new m by auto
  qed
qed

lemma sort_ranges_fst: "sorted_wrt (\<lambda>a b. fst a \<le> fst b) (sort rs)" for rs :: "range64 list"
  by (rule sorted_wrt_mono_rel [OF _ sorted_sort]) (auto simp: less_eq_prod_def)

lemma range_bytes_set: "set rs = set rs' \<Longrightarrow> range_bytes rs = range_bytes rs'"
  by (simp add: range_bytes_def)

lemma mergeLocked_spec:
  assumes "\<forall>r\<in>set (aranges t). fst r < snd r"
  shows "separated (aranges (mergeLocked t))" "acked (mergeLocked t) = acked t"
    "cumulative (mergeLocked t) = cumulative t"
proof -
  consider "aranges t = []" | r where "aranges t = [r]" | "length (aranges t) \<ge> 2"
    by (cases "aranges t"; cases "tl (aranges t)") auto
  then have "separated (aranges (mergeLocked t)) \<and> acked (mergeLocked t) = acked t"
  proof cases
    case 3
    define rs where "rs = sort (aranges t)"
    have rs: "set rs = set (aranges t)" "sorted_wrt (\<lambda>a b. fst a \<le> fst b) rs"
      using sort_ranges_fst [of "aranges t"] unfolding rs_def by auto
    obtain h r where hr: "rs = h # r" using 3 rs(1) by (cases rs; cases "aranges t") auto
    have "separated (merge_loop [h] r) \<and> range_bytes (merge_loop [h] r) = range_bytes [h] \<union> range_bytes r"
      using merge_loop_spec [of "[h]" r] rs assms hr by (auto simp: separated_def)
    moreover have "range_bytes rs = range_bytes (aranges t)" by (rule range_bytes_set [OF rs(1)])
    ultimately show ?thesis using 3 hr by (simp add: mergeLocked_def rs_def [symmetric] acked_def Let_def)
  qed (use assms in \<open>simp_all add: mergeLocked_def separated_def\<close>)
  then show "separated (aranges (mergeLocked t))" "acked (mergeLocked t) = acked t"
    "cumulative (mergeLocked t) = cumulative t"
    by (auto simp: mergeLocked_def Let_def)
qed

lemma compact_pass_spec:
  assumes "compact_pass c rs = (c', kept, progress)" "separated rs"
  shows "separated kept \<and> set kept \<subseteq> set rs \<and> c \<le> c'
    \<and> {..<unat c'} \<union> range_bytes kept = {..<unat c} \<union> range_bytes rs
    \<and> (\<not> progress \<longrightarrow> c' = c \<and> kept = rs \<and> (\<forall>r\<in>set rs. c < fst r))"
  using assms
proof (induction c rs arbitrary: c' kept progress rule: compact_pass.induct)
  case (2 c r rs)
  note sep = "2.prems"(2) [unfolded separated_Cons]
  consider (below) "snd r \<le> c" | (touch) "c < snd r" "fst r \<le> c" | (above) "c < fst r" "c < snd r"
    using sep by force
  then show ?case
  proof cases
    case below
    then obtain p where "compact_pass c rs = (c', kept, p)" and progress
      using "2.prems"(1) by (cases "compact_pass c rs") auto
    then show ?thesis using "2.IH"(1) [OF below, of c' kept p] sep below by (auto simp: word_le_nat_alt)
  next
    case touch
    then obtain p where "compact_pass (snd r) rs = (c', kept, p)" and progress
      using "2.prems"(1) by (cases "compact_pass (snd r) rs") (auto simp: not_le [symmetric])
    then have ih: "separated kept \<and> set kept \<subseteq> set rs \<and> snd r \<le> c'
        \<and> {..<unat c'} \<union> range_bytes kept = {..<unat (snd r)} \<union> range_bytes rs"
      using "2.IH"(2) [of c' kept p] sep touch by (auto simp: not_le)
    have "{..<unat (snd r)} = {..<unat c} \<union> {unat (fst r)..<unat (snd r)}"
      using touch by (auto simp: word_le_nat_alt word_less_nat_alt)
    then show ?thesis using ih touch \<open>progress\<close> by auto
  next
    case above
    then obtain k where k: "compact_pass c rs = (c', k, progress)" "kept = r # k"
      using "2.prems"(1) by (cases "compact_pass c rs") (auto simp: not_le [symmetric])
    then have ih: "separated k \<and> set k \<subseteq> set rs \<and> c \<le> c'
        \<and> {..<unat c'} \<union> range_bytes k = {..<unat c} \<union> range_bytes rs
        \<and> (\<not> progress \<longrightarrow> c' = c \<and> k = rs \<and> (\<forall>r\<in>set rs. c < fst r))"
      using "2.IH"(3) [of c' k progress] sep above by (auto simp: not_le)
    then show ?thesis using k(2) sep above by (auto simp: separated_Cons)
  qed
qed simp

lemma compact_loop_spec:
  assumes "compact_loop c rs = (c', kept)" "separated rs"
  shows "gapped c' kept \<and> c \<le> c' \<and> {..<unat c'} \<union> range_bytes kept = {..<unat c} \<union> range_bytes rs"
  using assms
proof (induction c rs rule: compact_loop.induct)
  case (1 c rs)
  obtain c1 k1 p where p: "compact_pass c rs = (c1, k1, p)" by (cases "compact_pass c rs")
  note spec = compact_pass_spec [OF p "1.prems"(2)]
  show ?case
  proof (cases p)
    case True
    then have "compact_loop c1 k1 = (c', kept)" using "1.prems"(1) p by (simp add: compact_loop.simps [of c])
    then show ?thesis using "1.IH" [OF p [symmetric] refl True] spec by force
  next
    case False
    then show ?thesis using "1.prems" p spec by (auto simp: compact_loop.simps [of c] gapped_separated)
  qed
qed

lemma compactLocked_spec:
  assumes "separated (aranges t)"
  shows "ack_wf (compactLocked t)" "acked (compactLocked t) = acked t"
    "cumulative t \<le> cumulative (compactLocked t)"
proof -
  obtain c1 k1 p where p: "compact_pass (cumulative t) (aranges t) = (c1, k1, p)"
    by (cases "compact_pass (cumulative t) (aranges t)")
  obtain c2 k2 where l: "compact_loop c1 k1 = (c2, k2)" by (cases "compact_loop c1 k1")
  note a = compact_pass_spec [OF p assms] and b = compact_loop_spec [OF l]
  show "ack_wf (compactLocked t)" "acked (compactLocked t) = acked t"
    "cumulative t \<le> cumulative (compactLocked t)"
    using a b by (auto simp: compactLocked_def p l ack_wf_def acked_def)
qed

lemma locked_frame [simp]:
  "agen (mergeLocked t) = agen t" "aclosed (mergeLocked t) = aclosed t" "broadcasts (mergeLocked t) = broadcasts t"
  "agen (compactLocked t) = agen t" "aclosed (compactLocked t) = aclosed t"
  "broadcasts (compactLocked t) = broadcasts t"
  by (simp_all add: mergeLocked_def compactLocked_def Let_def split: prod.splits)


section \<open>Operations over the acknowledged set\<close>

lemma broadcast_simps [simp]:
  "cumulative (broadcast t) = cumulative t" "aranges (broadcast t) = aranges t" "aclosed (broadcast t) = aclosed t"
  "agen (broadcast t) = agen t" "broadcasts (broadcast t) = Suc (broadcasts t)"
  by (simp_all add: broadcast_def)

lemma acked_update [simp]:
  "acked (t\<lparr>agen := g\<rparr>) = acked t" "acked (t\<lparr>aclosed := b\<rparr>) = acked t" "acked (broadcast t) = acked t"
  "ack_wf (t\<lparr>agen := g\<rparr>) = ack_wf t" "ack_wf (t\<lparr>aclosed := b\<rparr>) = ack_wf t" "ack_wf (broadcast t) = ack_wf t"
  by (simp_all add: acked_def ack_wf_def)

lemma coveredLocked_update [simp]:
  "coveredLocked (t\<lparr>agen := g\<rparr>) = coveredLocked t" "coveredLocked (t\<lparr>aclosed := b\<rparr>) = coveredLocked t"
  "coveredLocked (broadcast t) = coveredLocked t"
  by (simp_all add: coveredLocked_def fun_eq_iff)

lemma new_acked [simp]: "ack_wf newAckTracker" "acked newAckTracker = {}"
  by (simp_all add: newAckTracker_def ack_wf_def acked_def gapped_def)

lemma Advance_spec:
  assumes "ack_wf t"
  shows "ack_wf (Advance t s)" "acked (Advance t s) = acked t \<union> {..<unat s}"
proof -
  have sep: "separated (aranges (t\<lparr>cumulative := s\<rparr>))" using assms by (simp add: ack_wf_def gapped_separated)
  have "acked (t\<lparr>cumulative := s\<rparr>) = acked t \<union> {..<unat s}" if "cumulative t < s"
    using that by (auto simp: acked_def word_less_nat_alt)
  moreover have "acked t = acked t \<union> {..<unat s}" if "s \<le> cumulative t"
    using that by (auto simp: acked_def word_le_nat_alt)
  ultimately show "ack_wf (Advance t s)" "acked (Advance t s) = acked t \<union> {..<unat s}"
    using assms compactLocked_spec [OF sep] by (auto simp: Advance_def Let_def not_le)
qed

text \<open>
  The loop of \<^verbatim>\<open>Add\<close> tests each range against the set before it and the ranges the
  same call has already appended, unsorted. While no range was news the appended
  ones are covered, so the scan still decides coverage.
\<close>

lemma add_loop_spec:
  assumes "add_loop (t\<lparr>aranges := aranges t @ pre\<rparr>) changed rs = (t', changed')" "ack_wf t"
    and "\<forall>r\<in>set pre. fst r < snd r" "\<not> changed \<longleftrightarrow> range_bytes pre \<subseteq> acked t"
  shows "\<exists>post. t' = t\<lparr>aranges := aranges t @ post\<rparr> \<and> (\<forall>r\<in>set post. fst r < snd r)
    \<and> acked t \<union> range_bytes post = acked t \<union> range_bytes pre \<union> range_bytes rs
    \<and> (\<not> changed' \<longleftrightarrow> range_bytes post \<subseteq> acked t)"
  using assms
proof (induction rs arbitrary: pre changed)
  case Nil
  then show ?case by auto
next
  case (Cons r rs)
  let ?t = "t\<lparr>aranges := aranges t @ pre\<rparr>"
  show ?case
  proof (cases "snd r \<le> fst r \<or> snd r \<le> cumulative t")
    case True
    have "{unat (fst r)..<unat (snd r)} \<subseteq> acked t"
      using True by (auto simp: acked_def word_le_nat_alt)
    moreover have "add_loop ?t changed rs = (t', changed')" using Cons.prems(1) True by simp
    ultimately show ?thesis using Cons.IH [OF _ Cons.prems(2-4)] by (auto simp: Un_assoc)
  next
    case False
    let ?c = "changed \<or> \<not> coveredLocked ?t (fst r) (snd r)"
    have step: "add_loop (t\<lparr>aranges := aranges t @ (pre @ [r])\<rparr>) ?c rs = (t', changed')"
      using Cons.prems(1) False by simp
    have news: "\<not> ?c \<longleftrightarrow> range_bytes (pre @ [r]) \<subseteq> acked t"
      using covered_scan_tail [OF _ refl, where t = t and extra = pre] Cons.prems(2,4)
      by (auto simp: ack_wf_def span_def)
    have "\<forall>x\<in>set (pre @ [r]). fst x < snd x" using Cons.prems(3) False by (simp add: not_le)
    from Cons.IH [OF step Cons.prems(2) this news] show ?thesis by (simp add: Un_assoc)
  qed
qed

lemma Add_spec:
  assumes "ack_wf t" "Add t rs = (t', changed)"
  shows "ack_wf t'" "acked t' = acked t \<union> range_bytes rs" "changed \<longleftrightarrow> \<not> range_bytes rs \<subseteq> acked t"
    "aclosed t' = aclosed t" "agen t' = agen t + of_bool changed"
    "broadcasts t' = broadcasts t + of_bool changed"
proof -
  have "ack_wf t' \<and> acked t' = acked t \<union> range_bytes rs \<and> (changed \<longleftrightarrow> \<not> range_bytes rs \<subseteq> acked t)
    \<and> aclosed t' = aclosed t \<and> agen t' = agen t + of_bool changed
    \<and> broadcasts t' = broadcasts t + of_bool changed"
  proof (cases "rs = []")
    case True
    then show ?thesis using assms by (auto simp: Add_def)
  next
    case False
    obtain t1 c1 where l: "add_loop t False rs = (t1, c1)" by (cases "add_loop t False rs")
    then obtain post where post: "t1 = t\<lparr>aranges := aranges t @ post\<rparr>" "\<forall>r\<in>set post. fst r < snd r"
      "acked t \<union> range_bytes post = acked t \<union> range_bytes rs" "\<not> c1 \<longleftrightarrow> range_bytes post \<subseteq> acked t"
      using add_loop_spec [of t "[]" False rs t1 c1] assms(1) by auto
    have ne: "\<forall>r\<in>set (aranges t1). fst r < snd r"
      using post(1,2) assms(1) by (auto simp: ack_wf_def gapped_def)
    have grow: "\<not> c1 \<longleftrightarrow> range_bytes rs \<subseteq> acked t" using post(3,4) by blast
    have "acked t1 = acked t \<union> range_bytes rs" using post(1,3) by (auto simp: acked_def)
    then show ?thesis
      using assms(2) False l mergeLocked_spec [OF ne] compactLocked_spec [of "mergeLocked t1"] grow post(1)
      by (auto simp: Add_def Let_def split: if_splits)
  qed
  then show "ack_wf t'" "acked t' = acked t \<union> range_bytes rs" "changed \<longleftrightarrow> \<not> range_bytes rs \<subseteq> acked t"
    "aclosed t' = aclosed t" "agen t' = agen t + of_bool changed"
    "broadcasts t' = broadcasts t + of_bool changed"
    by blast+
qed


section \<open>The ledger interface\<close>

text \<open>
  What the sender's acknowledgement watcher relies on. The laws speak of the set of
  acknowledged offsets only, so the order, repetition and grouping of the peer's
  reports cannot be observed through \<^verbatim>\<open>covered\<close>.
\<close>

datatype ack_event = Cumulative u64 | Selective "range64 list"

fun event_bytes :: "ack_event \<Rightarrow> nat set" where
  "event_bytes (Cumulative s) = {..<unat s}"
| "event_bytes (Selective rs) = range_bytes rs"

locale ack_ledger =
  fixes advance :: "'t \<Rightarrow> u64 \<Rightarrow> 't"
    and add :: "'t \<Rightarrow> range64 list \<Rightarrow> 't \<times> bool"
    and covered :: "'t \<Rightarrow> u64 \<Rightarrow> u64 \<Rightarrow> bool"
    and abs :: "'t \<Rightarrow> nat set"
    and inv :: "'t \<Rightarrow> bool"
  assumes advance_inv: "inv t \<Longrightarrow> inv (advance t s)"
    and advance_abs: "inv t \<Longrightarrow> abs (advance t s) = abs t \<union> {..<unat s}"
    and add_inv: "inv t \<Longrightarrow> inv (fst (add t rs))"
    and add_abs: "inv t \<Longrightarrow> abs (fst (add t rs)) = abs t \<union> range_bytes rs"
    and add_news: "inv t \<Longrightarrow> snd (add t rs) \<longleftrightarrow> \<not> range_bytes rs \<subseteq> abs t"
    and covered_iff: "inv t \<Longrightarrow> covered t a b \<longleftrightarrow> span a b \<subseteq> abs t"
begin

primrec apply_event :: "'t \<Rightarrow> ack_event \<Rightarrow> 't" where
  "apply_event t (Cumulative s) = advance t s"
| "apply_event t (Selective rs) = fst (add t rs)"

lemma apply_event_abs:
  "inv t \<Longrightarrow> inv (apply_event t e) \<and> abs (apply_event t e) = abs t \<union> event_bytes e"
  by (cases e) (simp_all add: advance_inv advance_abs add_inv add_abs)

lemma replay_abs:
  "inv t \<Longrightarrow> inv (foldl apply_event t es) \<and> abs (foldl apply_event t es) = abs t \<union> (\<Union>e\<in>set es. event_bytes e)"
proof (induction es arbitrary: t)
  case (Cons e es)
  then show ?case using apply_event_abs [of t e] by (auto simp: Un_assoc)
qed simp

lemma replay_covered:
  "inv t \<Longrightarrow> covered (foldl apply_event t es) a b \<longleftrightarrow> span a b \<subseteq> abs t \<union> (\<Union>e\<in>set es. event_bytes e)"
  by (simp add: covered_iff replay_abs)

lemma replay_order_irrelevant:
  "inv t \<Longrightarrow> (\<Union>e\<in>set es. event_bytes e) = (\<Union>e\<in>set es'. event_bytes e) \<Longrightarrow>
     covered (foldl apply_event t es) a b = covered (foldl apply_event t es') a b"
  by (simp add: replay_covered)

lemma covered_stable: "inv t \<Longrightarrow> covered t a b \<Longrightarrow> covered (foldl apply_event t es) a b"
  by (auto simp: covered_iff replay_covered)

lemma repeated_report_no_news: "inv t \<Longrightarrow> \<not> snd (add (fst (add t rs)) rs)"
  by (simp add: add_news add_inv add_abs)

end

interpretation acks: ack_ledger Advance Add coveredLocked acked ack_wf
proof
  fix t rs assume "ack_wf t"
  then show "ack_wf (fst (Add t rs))" "acked (fst (Add t rs)) = acked t \<union> range_bytes rs"
    "snd (Add t rs) \<longleftrightarrow> \<not> range_bytes rs \<subseteq> acked t"
    using Add_spec [of t rs "fst (Add t rs)" "snd (Add t rs)"] by simp_all
qed (simp_all add: Advance_spec coveredLocked_iff)

text \<open>The peer's reports applied in order.\<close>

fun ack_event_step :: "ackTracker \<Rightarrow> ack_event \<Rightarrow> ackTracker" where
  "ack_event_step t (Cumulative s) = Advance t s"
| "ack_event_step t (Selective rs) = fst (Add t rs)"

lemma ack_event_step_ledger: "ack_event_step = acks.apply_event"
proof (intro ext)
  show "ack_event_step t e = acks.apply_event t e" for t e
    by (cases e) simp_all
qed

definition track :: "ack_event list \<Rightarrow> ackTracker" where
  "track es = foldl ack_event_step newAckTracker es"

lemma track_spec: "ack_wf (track es)" "acked (track es) = (\<Union>e\<in>set es. event_bytes e)"
  using acks.replay_abs [of newAckTracker es] by (simp_all add: track_def ack_event_step_ledger)

text \<open>
  After any sequence of cumulative and selective acknowledgements, in any order and
  with any overlap or repetition, \<^verbatim>\<open>Covered\<close> answers exactly whether every byte of the
  range was acknowledged by some report.
\<close>

theorem covered_exact:
  "Covered (track es) start stop \<longleftrightarrow>
     (\<forall>k. unat start \<le> k \<and> k < unat stop \<longrightarrow> (\<exists>e\<in>set es. k \<in> event_bytes e))"
proof -
  have "Covered (track es) start stop \<longleftrightarrow> span start stop \<subseteq> (\<Union>e\<in>set es. event_bytes e)"
    by (simp add: Covered_def coveredLocked_iff track_spec)
  then show ?thesis by (auto simp: span_def subset_iff)
qed

theorem covered_exact_witness:
  "Covered (track [Selective [(8, 12), (4, 6)], Cumulative 3, Selective [(3, 4), (6, 8)]]) 0 12
   \<and> \<not> Covered (track [Selective [(8, 12), (4, 6)], Cumulative 3]) 0 12"
proof
  have "\<exists>e\<in>set [Selective [(8, 12), (4, 6)], Cumulative 3, Selective [(3, 4), (6, 8)]]. k \<in> event_bytes e"
    if "unat (0 :: u64) \<le> k \<and> k < unat (12 :: u64)" for k
    using that by auto
  then show "Covered (track [Selective [(8, 12), (4, 6)], Cumulative 3, Selective [(3, 4), (6, 8)]]) 0 12"
    using covered_exact by blast
  show "\<not> Covered (track [Selective [(8, 12), (4, 6)], Cumulative 3]) 0 12" by code_simp
qed

text \<open>
  \<^verbatim>\<open>Add\<close> reports a change exactly when a range names a byte that was not yet
  acknowledged; only then does the generation move, and the state stays in normal
  form: sorted ranges with a gap between neighbours and above the cumulative point.
\<close>

theorem add_reports_news:
  assumes "ack_wf t" "Add t rs = (t', changed)"
  shows "ack_wf t' \<and> acked t' = acked t \<union> range_bytes rs
    \<and> (changed \<longleftrightarrow> acked t' \<noteq> acked t) \<and> agen t' = agen t + of_bool changed"
  using Add_spec [OF assms] by auto

theorem add_reports_news_witness:
  "\<exists>t'. Add (track [Cumulative 4, Selective [(6, 9)]]) [(7, 9), (4, 6)] = (t', True)
     \<and> cumulative t' = 9 \<and> aranges t' = [] \<and> acked t' \<noteq> acked (track [Cumulative 4, Selective [(6, 9)]])"
proof -
  let ?t = "track [Cumulative 4, Selective [(6, 9)]]" and ?rs = "[(7, 9), (4, 6)] :: range64 list"
  have run: "Add ?t ?rs = (fst (Add ?t ?rs), True)" "cumulative (fst (Add ?t ?rs)) = 9"
    "aranges (fst (Add ?t ?rs)) = []"
    by code_simp+
  have "acked (fst (Add ?t ?rs)) \<noteq> acked ?t" using add_reports_news [OF track_spec(1) run(1)] by blast
  then show ?thesis using run by blast
qed

section \<open>Waiting\<close>

text \<open>
  The operations other goroutines perform while a sender is blocked. A context that
  ends broadcasts through its registered callback.
\<close>

datatype ack_op = OpAdvance u64 | OpAdd "range64 list" | OpClose | OpTouch | OpCancel

fun ack_op_step :: "ack_op \<Rightarrow> ackTracker \<times> bool \<Rightarrow> ackTracker \<times> bool" where
  "ack_op_step (OpAdvance s) (t, ctx_done) = (Advance t s, ctx_done)"
| "ack_op_step (OpAdd rs) (t, ctx_done) = (fst (Add t rs), ctx_done)"
| "ack_op_step OpClose (t, ctx_done) = (ack_Close t, ctx_done)"
| "ack_op_step OpTouch (t, ctx_done) = (Touch t, ctx_done)"
| "ack_op_step OpCancel (t, ctx_done) = (broadcast t, True)"

lemma Advance_no_broadcast:
  "broadcasts (Advance t s) = broadcasts t \<Longrightarrow> Advance t s = t"
  by (auto simp: Advance_def Let_def split: if_splits)

lemma Add_no_broadcast:
  assumes "ack_wf t" "broadcasts (fst (Add t rs)) = broadcasts t"
  shows "acked (fst (Add t rs)) = acked t \<and> agen (fst (Add t rs)) = agen t \<and> ack_wf (fst (Add t rs))
    \<and> aclosed (fst (Add t rs)) = aclosed t"
proof -
  note spec = Add_spec [OF assms(1), of rs "fst (Add t rs)" "snd (Add t rs)", simplified]
  have "\<not> snd (Add t rs)" using spec(6) assms(2) by (cases "snd (Add t rs)") simp_all
  then show ?thesis using spec by auto
qed

lemma ack_op_wf: "ack_wf t \<Longrightarrow> ack_op_step op (t, d) = (t', d') \<Longrightarrow> ack_wf t'"
  by (cases op) (auto simp: Advance_spec acks.add_inv ack_Close_def Touch_def)

text \<open>
  No wake-up is lost. A goroutine blocked in \<^verbatim>\<open>Wait\<close> or \<^verbatim>\<open>WaitChange\<close> sleeps on the
  condition variable; whatever operation makes its loop able to return also broadcasts.
\<close>

theorem wait_no_lost_wakeup:
  assumes "ack_wf t" "ack_op_step op (t, d) = (t', d')"
    and "Wait_poll t d start stop = None \<and> Wait_poll t' d' start stop \<noteq> None
       \<or> WaitChange_poll t d since = None \<and> WaitChange_poll t' d' since \<noteq> None"
  shows "broadcasts t' > broadcasts t"
proof (cases op)
  case (OpAdvance s)
  then show ?thesis
    using assms Advance_no_broadcast [of t s]
    by (cases "s \<le> cumulative t") (auto simp: Advance_def Let_def)
next
  case (OpAdd rs)
  show ?thesis
  proof (rule ccontr)
    assume no: "\<not> ?thesis"
    have "broadcasts t' = broadcasts t"
      using no Add_spec(6) [OF assms(1), of rs "fst (Add t rs)" "snd (Add t rs)"] OpAdd assms(2) by auto
    then have "acked t' = acked t \<and> agen t' = agen t \<and> ack_wf t' \<and> aclosed t' = aclosed t \<and> d' = d"
      using Add_no_broadcast [OF assms(1)] OpAdd assms(2) by auto
    then show False
      using assms(1,3) by (auto simp: Wait_poll_def WaitChange_poll_def coveredLocked_iff split: if_splits)
  qed
qed (use assms in \<open>auto simp: ack_Close_def Touch_def\<close>)

theorem wait_no_lost_wakeup_witness:
  "Wait_poll (track [Cumulative 4]) False 4 9 = None
   \<and> Wait_poll (fst (Add (track [Cumulative 4]) [(4, 9)])) False 4 9 = Some (Inr ())
   \<and> broadcasts (fst (Add (track [Cumulative 4]) [(4, 9)])) > broadcasts (track [Cumulative 4])"
proof -
  have run: "Wait_poll (track [Cumulative 4]) False 4 9 = None"
    "Wait_poll (fst (Add (track [Cumulative 4]) [(4, 9)])) False 4 9 = Some (Inr ())"
    by code_simp+
  then show ?thesis
    using wait_no_lost_wakeup [OF track_spec(1), of "OpAdd [(4, 9)]" "[Cumulative 4]" False _ False 4 9] by simp
qed

section \<open>Snapshots\<close>

lemma covers_snapshot: "covers (ack_Snapshot t) = coveredLocked t"
  by (simp add: covers_def ack_Snapshot_def coveredLocked_def fun_eq_iff)

lemma highest_loop_max: "hi \<le> highest_loop hi rs \<and> (\<forall>r\<in>set rs. snd r \<le> highest_loop hi rs)"
proof (induction hi rs rule: highest_loop.induct)
  case (2 hi r rs)
  then show ?case by (cases "snd r > hi") auto
qed simp

lemma highest_loop_mem: "highest_loop hi rs = hi \<or> (\<exists>r\<in>set rs. highest_loop hi rs = snd r)"
  by (induction hi rs rule: highest_loop.induct) (auto split: if_splits)

text \<open>
  A snapshot answers \<^verbatim>\<open>covers\<close> exactly as the tracker does at the moment it was taken,
  and \<^verbatim>\<open>highest\<close> is one past the greatest acknowledged byte (zero when there is none).
\<close>

theorem snapshot_exact:
  assumes "ack_wf t"
  shows "(covers (ack_Snapshot t) start stop \<longleftrightarrow> span start stop \<subseteq> acked t)
    \<and> acked t \<subseteq> {..<unat (highest (ack_Snapshot t))}
    \<and> (highest (ack_Snapshot t) \<noteq> 0 \<longrightarrow> unat (highest (ack_Snapshot t)) - 1 \<in> acked t)"
proof -
  let ?h = "highest (ack_Snapshot t)"
  have max: "cumulative t \<le> ?h" "\<forall>r\<in>set (aranges t). snd r \<le> ?h"
    using highest_loop_max [of "cumulative t" "aranges t"] by (auto simp: highest_def ack_Snapshot_def)
  have mem: "?h = cumulative t \<or> (\<exists>r\<in>set (aranges t). ?h = snd r)"
    using highest_loop_mem [of "cumulative t" "aranges t"] by (auto simp: highest_def ack_Snapshot_def)
  have "unat ?h - 1 \<in> acked t" if "?h \<noteq> 0"
  proof -
    have pos: "unat ?h > 0" using that by (simp add: unat_gt_0)
    show ?thesis
    proof (cases "?h = cumulative t")
      case True
      then show ?thesis using pos by (simp add: acked_def)
    next
      case False
      then obtain r where r: "r \<in> set (aranges t)" "?h = snd r" using mem by blast
      then have "fst r < snd r" using assms by (auto simp: ack_wf_def gapped_def)
      then show ?thesis using r pos
        by (auto simp: acked_def range_bytes_def word_less_nat_alt intro!: bexI [of _ r])
    qed
  qed
  moreover have "acked t \<subseteq> {..<unat ?h}"
    using max by (fastforce simp: acked_def range_bytes_def word_le_nat_alt)
  ultimately show ?thesis using assms by (simp add: covers_snapshot coveredLocked_iff)
qed

theorem snapshot_exact_witness:
  "covers (ack_Snapshot (track [Cumulative 4, Selective [(6, 9)]])) 6 9
   \<and> highest (ack_Snapshot (track [Cumulative 4, Selective [(6, 9)]])) = 9
   \<and> 8 \<in> acked (track [Cumulative 4, Selective [(6, 9)]])"
proof -
  have h: "highest (ack_Snapshot (track [Cumulative 4, Selective [(6, 9)]])) = 9" by code_simp
  have c: "covers (ack_Snapshot (track [Cumulative 4, Selective [(6, 9)]])) 6 9" by code_simp
  show ?thesis
    using snapshot_exact [OF track_spec(1), of "[Cumulative 4, Selective [(6, 9)]]" 6 9] h c by simp
qed

end
