(* ===== verification/AckPath.thy ===== *)
theory AckPath
  imports Frame Reassembly AckTracker
begin

text \<open>
  The acknowledgement path of a multipath flow, \<^verbatim>\<open>internal/pep/mpflow.go\<close>: the receiver
  publishes what its reassembler holds, writes it into ACK frames, and the sender of the
  data validates a received ACK before it credits any byte. The theory ties the frame
  codec, the reassembler and the acknowledgement tracker together: what the sender
  counts as delivered is what the receiver really holds.
\<close>

section \<open>The receiving side\<close>

text \<open>The fields of \<^verbatim>\<open>multipathFlow\<close> the ACK writer reads and writes.\<close>

record ackWriter =
  wSession :: bytes
  wFlow :: u64
  wClass :: u8
  wAckRanges :: bool
  pendingRanges :: "range64 list"

definition publishReceivedRanges :: "ackWriter \<Rightarrow> reassembler \<Rightarrow> ackWriter" where
  "publishReceivedRanges f r =
     (if \<not> wAckRanges f then f
      else f\<lparr>pendingRanges := ReceivedRanges r (int MaxAckRanges)\<rparr>)"

definition takeReceivedRanges :: "ackWriter \<Rightarrow> u64 \<Rightarrow> range64 list \<times> ackWriter" where
  "takeReceivedRanges f c =
     (let fresh = filter (\<lambda>r. fst r \<ge> c) (pendingRanges f) in (fresh, f\<lparr>pendingRanges := fresh\<rparr>))"

text \<open>The frame \<^verbatim>\<open>writeACK\<close> builds, before it is offered to the healthy lanes in turn.\<close>

definition ack_payload :: "ackWriter \<Rightarrow> u64 \<Rightarrow> bool \<Rightarrow> bytes \<times> u16 \<times> ackWriter" where
  "ack_payload f seq final =
     (if \<not> final \<and> wAckRanges f then
        (case takeReceivedRanges f seq of
           (ranges, f') \<Rightarrow>
             (case EncodeAckRanges ranges of
                Inl _ \<Rightarrow> ([], 0, f')
              | Inr encoded \<Rightarrow> if length encoded > 0 then (encoded, FlagAckRanges, f') else ([], 0, f')))
      else ([], 0, f))"

definition ack_frame :: "ackWriter \<Rightarrow> u64 \<Rightarrow> u16 \<Rightarrow> bool \<Rightarrow> frame \<times> ackWriter" where
  "ack_frame f seq direction final =
     (let flags = (if final then direction OR FlagAckFinal else direction) in
      case ack_payload f seq final of
        (payload, extra, f') \<Rightarrow>
          (\<lparr>fHeader = \<lparr>hVersion = Version, hType = TypeAck, hFlags = flags OR extra, hSessionID = wSession f,
              hFlowID = wFlow f, hSequence = seq, hPayloadLen = 0, hClass = wClass f\<rparr>,
            fPayload = payload\<rparr>, f'))"

datatype ack_write_error = NoHealthyLane | LaneWriteFailed nat

text \<open>Lanes are tried in order; each one that rejects the frame is failed. \<^verbatim>\<open>write\<close> is the transport.\<close>

fun ack_lane_loop :: "(nat \<Rightarrow> frame \<Rightarrow> bool) \<Rightarrow> frame \<Rightarrow> nat list \<Rightarrow> ack_write_error \<Rightarrow> nat list
    \<Rightarrow> nat list \<times> (ack_write_error + nat)" where
  "ack_lane_loop write fr [] lastErr failed = (failed, Inl lastErr)"
| "ack_lane_loop write fr (lane # lanes) lastErr failed =
     (if write lane fr then (failed, Inr lane)
      else ack_lane_loop write fr lanes (LaneWriteFailed lane) (failed @ [lane]))"

definition writeACK :: "(nat \<Rightarrow> frame \<Rightarrow> bool) \<Rightarrow> nat list \<Rightarrow> ackWriter \<Rightarrow> u64 \<Rightarrow> u16 \<Rightarrow> bool
    \<Rightarrow> ackWriter \<times> nat list \<times> (ack_write_error + nat)" where
  "writeACK write lanes f seq direction final =
     (case ack_frame f seq direction final of
        (fr, f') \<Rightarrow> (f', ack_lane_loop write fr lanes NoHealthyLane []))"

section \<open>The sending side\<close>

datatype ack_recv_error =
    AckOtherFlow
  | AckWrongDirection
  | AckRangesError frame_error
  | AckUnexpectedPayload
  | AckFinalMismatch
  | ErrLocalApplicationClose
  | AckExceedsSent u64 u64
  | AckRangeExceedsSent

text \<open>
  The replay and acknowledgement fields of \<^verbatim>\<open>multipathFlow\<close>. \<^verbatim>\<open>ackTrack\<close> is absent for a
  flow that is not self-paced. The suspicion marks of lanes and the rescue hint are
  cleared by progress; \<^verbatim>\<open>finalAckReady\<close> is the one-slot channel \<^verbatim>\<open>finalAck\<close>.
\<close>

record ackSender =
  aSession :: bytes
  aFlow :: u64
  sendAckFlag :: u16
  finSequence :: u64
  localAbortSent :: bool
  highestSent :: u64
  sacked :: u64
  ackTrack :: "ackTracker option"
  closeFrame :: "frame option"
  lastAckProgress :: int
  acksIn :: nat
  suspected :: "nat set"
  rescueHint :: "nat option"
  finalAckReady :: bool

definition acknowledgeCoverage ::
  "ackSender \<Rightarrow> int \<Rightarrow> u64 \<Rightarrow> bool \<Rightarrow> range64 list \<Rightarrow> ackSender \<times> (ack_recv_error + bool)" where
  "acknowledgeCoverage f now seq final ranges =
     (if seq > highestSent f then (f, Inl (AckExceedsSent seq (highestSent f)))
      else if \<exists>r\<in>set ranges. snd r > highestSent f then (f, Inl AckRangeExceedsSent)
      else
        (let advanced = seq > sacked f;
             f1 = (if advanced then f\<lparr>sacked := seq\<rparr> else f);
             (f2, advanced2) =
               (case ackTrack f1 of
                  None \<Rightarrow> (f1, advanced)
                | Some t \<Rightarrow>
                    (case Add (Advance t seq) ranges of
                       (t', added) \<Rightarrow> (f1\<lparr>ackTrack := Some t'\<rparr>, added \<or> advanced)));
             f3 = (if final \<and> (case closeFrame f2 of Some c \<Rightarrow> hSequence (fHeader c) \<le> seq | None \<Rightarrow> False)
                   then f2\<lparr>closeFrame := None\<rparr> else f2);
             f4 = (if advanced2 then f3\<lparr>lastAckProgress := now\<rparr> else f3)
         in (f4, Inr advanced2)))"

definition noteSent :: "ackSender \<Rightarrow> u64 \<Rightarrow> nat \<Rightarrow> ackSender" where
  "noteSent f seq n =
     (if seq + of_nat n > highestSent f then f\<lparr>highestSent := seq + of_nat n\<rparr> else f)"

definition ack_ranges_of :: "frame \<Rightarrow> ack_recv_error + range64 list" where
  "ack_ranges_of fr =
     (if hFlags (fHeader fr) AND FlagAckRanges \<noteq> 0 then
        (case DecodeAckRanges (fPayload fr) (hSequence (fHeader fr)) of
           Inl e \<Rightarrow> Inl (AckRangesError e)
         | Inr ranges \<Rightarrow> Inr ranges)
      else if length (fPayload fr) \<noteq> 0 then Inl AckUnexpectedPayload
      else Inr [])"

definition note_progress :: "ackSender \<Rightarrow> nat option \<Rightarrow> nat option \<Rightarrow> bool \<Rightarrow> ackSender" where
  "note_progress f hint lane progress =
     (case lane of
        Some l \<Rightarrow>
          if progress then
            (let f1 = f\<lparr>suspected := suspected f - {l}\<rparr> in
             if hint = Some l \<and> rescueHint f1 = hint then f1\<lparr>rescueHint := None\<rparr> else f1)
          else f
      | None \<Rightarrow> f)"

definition receiveACK :: "ackSender \<Rightarrow> int \<Rightarrow> nat option \<Rightarrow> frame \<Rightarrow> ackSender \<times> ack_recv_error option" where
  "receiveACK f now lane fr =
     (let h = fHeader fr; hint = rescueHint f in
      if hSessionID h \<noteq> aSession f \<or> hFlowID h \<noteq> aFlow f then (f, Some AckOtherFlow)
      else
        (let f0 = f\<lparr>acksIn := acksIn f + 1\<rparr>; final = (hFlags h AND FlagAckFinal \<noteq> 0) in
         if hFlags h AND sendAckFlag f = 0 then (f0, Some AckWrongDirection)
         else case ack_ranges_of fr of
           Inl e \<Rightarrow> (f0, Some e)
         | Inr ranges \<Rightarrow>
             if final \<and> hSequence h \<noteq> finSequence f then (f0, Some AckFinalMismatch)
             else if final \<and> localAbortSent f then (f0, Some ErrLocalApplicationClose)
             else case acknowledgeCoverage f0 now (hSequence h) final ranges of
               (f1, Inl e) \<Rightarrow> (f1, Some e)
             | (f1, Inr progress) \<Rightarrow>
                 (let f2 = note_progress f1 hint lane progress in
                  (if final then f2\<lparr>finalAckReady := True\<rparr> else f2, None))))"

section \<open>What the ACK frame says\<close>

text \<open>
  A publication made when the reassembler was \<^verbatim>\<open>r0\<close> and sent later with the cumulative
  point of \<^verbatim>\<open>r\<close>; \<^verbatim>\<open>r\<close> holds at least what \<^verbatim>\<open>r0\<close> held.
\<close>

definition published :: "ackWriter \<Rightarrow> reassembler \<Rightarrow> reassembler \<Rightarrow> bool" where
  "published f r0 r \<longleftrightarrow> reasm_wf r0 \<and> reasm_wf r \<and> held_bytes r0 \<subseteq> held_bytes r
     \<and> wAckRanges f \<and> length (wSession f) = 16 \<and> wClass f \<le> ClassBulk
     \<and> pendingRanges f = ReceivedRanges r0 (int MaxAckRanges)"

lemma gapped_filter: "gapped c rs \<Longrightarrow> gapped c (filter P rs)"
  by (auto simp: gapped_def sorted_wrt_filter)

lemma gapped_raise: "gapped c rs \<Longrightarrow> \<forall>r\<in>set rs. d < fst r \<Longrightarrow> gapped d rs"
  by (auto simp: gapped_def)

text \<open>A published range that starts below the cursor has been passed by it entirely.\<close>

lemma passed_range:
  assumes pub: "published f r0 r" and x: "x \<in> set (pendingRanges f)" and low: "fst x < rnext r"
  shows "snd x \<le> rnext r"
proof (rule ccontr)
  assume "\<not> snd x \<le> rnext r"
  then have "unat (rnext r) \<in> range_bytes (pendingRanges f)"
    using x low by (auto simp: range_bytes_def word_le_nat_alt word_less_nat_alt intro!: bexI [of _ x])
  then have "unat (rnext r) \<in> held_bytes r"
    using pub ReceivedRanges_spec(2) [of r0 "int MaxAckRanges"] by (auto simp: published_def)
  then show False using next_not_held pub by (auto simp: published_def)
qed

lemma fresh_ranges_valid:
  assumes "published f r0 r"
  shows "ack_ranges_valid (rnext r) (filter (\<lambda>x. fst x \<ge> rnext r) (pendingRanges f))"
proof -
  let ?fresh = "filter (\<lambda>x. fst x \<ge> rnext r) (pendingRanges f)"
  have pend: "pendingRanges f = ReceivedRanges r0 (int MaxAckRanges)" and wf: "reasm_wf r0" "reasm_wf r"
    using assms by (auto simp: published_def)
  have g: "gapped (rnext r0) (pendingRanges f)" using ReceivedRanges_spec(1) [OF wf(1)] pend by simp
  have "rnext r < fst x" if x: "x \<in> set ?fresh" for x
  proof -
    have "fst x \<noteq> rnext r"
    proof
      assume eq: "fst x = rnext r"
      have "fst x < snd x" using g x by (auto simp: gapped_def)
      then have "unat (rnext r) \<in> range_bytes (pendingRanges f)"
        using x eq by (auto simp: range_bytes_def word_less_nat_alt intro!: bexI [of _ x])
      then show False
        using ReceivedRanges_spec(2) [OF wf(1), of "int MaxAckRanges"] pend assms next_not_held [OF wf(2)]
        by (auto simp: published_def)
    qed
    then show ?thesis using x by auto
  qed
  then have "ranges_above (rnext r) ?fresh"
    using gapped_ranges_above [OF gapped_raise [OF gapped_filter [OF g]]] by blast
  moreover have "length (pendingRanges f) \<le> MaxAckRanges" unfolding pend by (auto simp: ReceivedRanges_def)
  then have "length ?fresh \<le> MaxAckRanges" using le_trans [OF length_filter_le] by blast
  ultimately show ?thesis by (simp add: ack_ranges_valid_def)
qed

lemma fresh_range_bytes:
  assumes "published f r0 r"
  shows "{..<unat (rnext r)} \<union> range_bytes (filter (\<lambda>x. fst x \<ge> rnext r) (pendingRanges f))
       = {..<unat (rnext r)} \<union> range_bytes (pendingRanges f)"
proof -
  have "{unat (fst x)..<unat (snd x)} \<subseteq> {..<unat (rnext r)}"
    if "x \<in> set (pendingRanges f)" "\<not> fst x \<ge> rnext r" for x
    using passed_range [OF assms that(1)] that(2) by (auto simp: word_le_nat_alt not_le word_less_nat_alt)
  then show ?thesis by (fastforce simp: range_bytes_def)
qed

lemma published_bytes:
  assumes "published f r0 r"
  shows "{..<unat (rnext r)} \<union> range_bytes (pendingRanges f) \<subseteq> held_bytes r"
    and "length (rOrder r0) \<le> MaxAckRanges \<Longrightarrow>
      held_bytes r0 \<subseteq> {..<unat (rnext r)} \<union> range_bytes (pendingRanges f)"
proof -
  have wf: "reasm_wf r0" "reasm_wf r" and sub: "held_bytes r0 \<subseteq> held_bytes r"
    and pend: "pendingRanges f = ReceivedRanges r0 (int MaxAckRanges)"
    using assms by (auto simp: published_def)
  have "{..<unat (rnext r)} \<subseteq> held_bytes r" by (simp add: held_bytes_def)
  then show "{..<unat (rnext r)} \<union> range_bytes (pendingRanges f) \<subseteq> held_bytes r"
    using ReceivedRanges_spec(2) [OF wf(1), of "int MaxAckRanges"] sub unfolding pend by blast
  assume "length (rOrder r0) \<le> MaxAckRanges"
  then have eq: "range_bytes (pendingRanges f) = held_bytes r0 - {..<unat (rnext r0)}"
    using ReceivedRanges_spec(3) [OF wf(1)] pend by simp
  have "unat (rnext r0) \<le> unat (rnext r)"
  proof (rule ccontr)
    assume "\<not> ?thesis"
    then have "unat (rnext r) \<in> held_bytes r0" by (simp add: held_bytes_def)
    then have "unat (rnext r) \<in> held_bytes r" using sub by blast
    then show False using next_not_held [OF wf(2)] by blast
  qed
  then have "{..<unat (rnext r0)} \<subseteq> {..<unat (rnext r)}" by simp
  then show "held_bytes r0 \<subseteq> {..<unat (rnext r)} \<union> range_bytes (pendingRanges f)"
    unfolding eq by (metis Diff_partition Diff_subset_conv Un_Diff_cancel Un_assoc Un_upper2 sup.absorb_iff2)
qed

definition ack_direction :: "u16 \<Rightarrow> bool" where
  "ack_direction d \<longleftrightarrow> d = FlagAckUp \<or> d = FlagAckDown"

lemma ack_flag_bits:
  assumes "ack_direction d" "x = 0 \<or> x = FlagAckRanges"
  shows "(d OR x) AND FlagAckFinal = 0" "(d OR x) AND FlagAckRanges = x" "(d OR x) AND d \<noteq> 0"
    "(d OR x) AND NOT knownFlags = 0" "(d OR x) AND FlagReserveControl = 0" "(d OR x) AND FlagReplaceLane = 0"
  using assms by (auto simp: ack_direction_def wire_defs)


lemma ack_payload_published:
  assumes "published f r0 r"
  defines "fresh \<equiv> filter (\<lambda>x. fst x \<ge> rnext r) (pendingRanges f)"
  shows "ack_payload f (rnext r) False
    = (flat_ranges fresh, if fresh = [] then 0 else FlagAckRanges, f\<lparr>pendingRanges := fresh\<rparr>)"
proof -
  have "EncodeAckRanges fresh = Inr (flat_ranges fresh)"
    using EncodeAckRanges_valid [OF fresh_ranges_valid [OF assms(1)]] by (simp add: fresh_def)
  moreover have "wAckRanges f" using assms(1) by (simp add: published_def)
  ultimately show ?thesis by (simp add: ack_payload_def takeReceivedRanges_def Let_def fresh_def)
qed

text \<open>The frame as the wire carries it: \<^verbatim>\<open>AppendFrame\<close> fills in the payload length.\<close>

definition sized :: "frame \<Rightarrow> frame" where
  "sized fr = fr\<lparr>fHeader := (fHeader fr)\<lparr>hPayloadLen := of_nat (length (fPayload fr))\<rparr>\<rparr>"

lemma AppendFrame_sized: "AppendFrame dst (sized fr) = AppendFrame dst fr"
  by (simp add: AppendFrame_def sized_def Let_def split: sum.splits)

lemma ack_frame_on_wire:
  assumes pub: "published f r0 r" and dir: "ack_direction d"
    and fr: "ack_frame f (rnext r) d False = (fr, f')"
  shows "\<exists>bs. AppendFrame [] fr = (bs, None) \<and> ParseFrame bs = Inr (sized fr)"
    and "ack_ranges_of (sized fr) = Inr (filter (\<lambda>x. fst x \<ge> rnext r) (pendingRanges f))"
    and "hSequence (fHeader (sized fr)) = rnext r" "hSessionID (fHeader (sized fr)) = wSession f"
    "hFlowID (fHeader (sized fr)) = wFlow f" "hFlags (fHeader (sized fr)) AND d \<noteq> 0"
    "hFlags (fHeader (sized fr)) AND FlagAckFinal = 0"
proof -
  define fresh where "fresh = filter (\<lambda>x. fst x \<ge> rnext r) (pendingRanges f)"
  define x :: u16 where "x = (if fresh = [] then 0 else FlagAckRanges)"
  have frame: "fr = \<lparr>fHeader = \<lparr>hVersion = Version, hType = TypeAck, hFlags = d OR x, hSessionID = wSession f,
              hFlowID = wFlow f, hSequence = rnext r, hPayloadLen = 0, hClass = wClass f\<rparr>,
            fPayload = flat_ranges fresh\<rparr>"
    using fr ack_payload_published [OF pub] by (auto simp: ack_frame_def fresh_def x_def)
  have "x = 0 \<or> x = FlagAckRanges" by (simp add: x_def)
  note bits = ack_flag_bits [OF dir this]
  have valid: "ack_ranges_valid (rnext r) fresh" unfolding fresh_def by (rule fresh_ranges_valid [OF pub])
  have small: "length (flat_ranges fresh) \<le> MaxPayload"
    using valid by (simp add: ack_ranges_valid_def wire_defs)
  have wf: "wf_frame (sized fr)"
    using pub by (simp add: wf_frame_def wf_header_def sized_def frame published_def)
  have len: "\<not> unat (hPayloadLen (fHeader (sized fr))) > MaxPayload"
    using payload_len_unat [OF wf] small by (simp add: sized_def frame)
  have "flags_valid (fHeader (sized fr))"
    using bits by (simp add: flags_valid_def reserveControlFlagValid_def replaceLaneFlagValid_def
        ackRangesFlagValid_def sized_def frame)
  then have "Validate (fHeader (sized fr)) = None"
    using len pub by (simp add: Validate_def type_valid_def sized_def frame published_def wire_defs not_less)
  then obtain bs where bs: "AppendFrame [] (sized fr) = (bs, None)"
    using AppendFrame_ok_iff [OF wf, of "[]"] small by (auto simp: frame sized_def)
  have "ParseFrame bs = Inr (sized fr)" using bs
    by (intro ParseFrame_encode_frame [OF wf]) (simp add: encode_frame_def)
  then show "\<exists>bs. AppendFrame [] fr = (bs, None) \<and> ParseFrame bs = Inr (sized fr)"
    using bs by (auto simp: AppendFrame_sized)
  have "DecodeAckRanges (flat_ranges fresh) (rnext r) = Inr fresh"
    using ack_codec.dec_enc [OF valid] EncodeAckRanges_valid [OF valid] by simp
  then show "ack_ranges_of (sized fr) = Inr (filter (\<lambda>x. fst x \<ge> rnext r) (pendingRanges f))"
    using bits(2) by (cases "fresh = []") (simp_all add: ack_ranges_of_def sized_def frame fresh_def [symmetric] x_def FlagAckRanges_def)
  show "hSequence (fHeader (sized fr)) = rnext r" "hSessionID (fHeader (sized fr)) = wSession f"
    "hFlowID (fHeader (sized fr)) = wFlow f" "hFlags (fHeader (sized fr)) AND d \<noteq> 0"
    "hFlags (fHeader (sized fr)) AND FlagAckFinal = 0"
    using bits by (simp_all add: sized_def frame)
qed

section \<open>What the sender credits\<close>

definition sender_ok :: "ackSender \<Rightarrow> bool" where
  "sender_ok s \<longleftrightarrow> sacked s \<le> highestSent s
     \<and> (\<forall>t. ackTrack s = Some t \<longrightarrow> ack_wf t \<and> acked t \<subseteq> {..<unat (highestSent s)})"

lemma acknowledgeCoverage_ok:
  assumes "acknowledgeCoverage s now seq final ranges = (s', Inr progress)"
  shows "seq \<le> highestSent s" "\<forall>r\<in>set ranges. snd r \<le> highestSent s" "highestSent s' = highestSent s"
    "sacked s' = max (sacked s) seq"
    "ackTrack s' = map_option (\<lambda>t. fst (Add (Advance t seq) ranges)) (ackTrack s)"
  using assms
  by (auto simp: acknowledgeCoverage_def Let_def max_def not_less split: if_splits option.splits prod.splits)

lemma acknowledgeCoverage_err:
  "acknowledgeCoverage s now seq final ranges = (s', Inl e) \<Longrightarrow>
     s' = s \<and> (seq > highestSent s \<or> (\<exists>r\<in>set ranges. snd r > highestSent s))"
  by (auto simp: acknowledgeCoverage_def Let_def split: if_splits option.splits prod.splits)


lemma note_progress_simps [simp]:
  "highestSent (note_progress s h l p) = highestSent s" "sacked (note_progress s h l p) = sacked s"
  "ackTrack (note_progress s h l p) = ackTrack s"
  by (auto simp: note_progress_def Let_def split: option.splits)

lemma sender_ok_frame [simp]:
  "sender_ok (note_progress s h l p) = sender_ok s" "sender_ok (s\<lparr>acksIn := n\<rparr>) = sender_ok s"
  "sender_ok (s\<lparr>finalAckReady := b\<rparr>) = sender_ok s"
  by (simp_all add: sender_ok_def)

text \<open>A flow ten bytes of which were sent, and two acknowledgements: one of bytes it sent, one not.\<close>

definition demo_sender :: ackSender where
  "demo_sender = \<lparr>aSession = replicate 16 7, aFlow = 3, sendAckFlag = FlagAckUp, finSequence = 0,
     localAbortSent = False, highestSent = 10, sacked = 0, ackTrack = Some newAckTracker, closeFrame = None,
     lastAckProgress = 0, acksIn = 0, suspected = {}, rescueHint = None, finalAckReady = False\<rparr>"




lemma demo_sender_ok: "sender_ok demo_sender"
  by (simp add: sender_ok_def demo_sender_def)




text \<open>
  C7: the acknowledgement loop is sound and complete. Let a receiver publish its ranges when its
  reassembler was \<^verbatim>\<open>r0\<close> and write the ACK later, when it is \<^verbatim>\<open>r\<close>. The frame always encodes,
  is parsed to itself by the peer, is accepted by its \<^verbatim>\<open>receiveACK\<close>, and then the bytes
  the sender counts as acknowledged have grown only by bytes the receiver holds, and by all it held
  at publication when that was at most sixteen segments.
\<close>

theorem ack_loop_sound:
  assumes pub: "published f r0 r" and dir: "ack_direction d"
    and s: "sender_ok s" "ackTrack s = Some t" "aSession s = wSession f" "aFlow s = wFlow f" "sendAckFlag s = d"
    and sent: "held_bytes r \<subseteq> {..<unat (highestSent s)}"
    and fr: "ack_frame f (rnext r) d False = (fr, f')"
  shows "\<exists>bs fr' s' t'. AppendFrame [] fr = (bs, None) \<and> ParseFrame bs = Inr fr'
    \<and> receiveACK s now lane fr' = (s', None) \<and> ackTrack s' = Some t'
    \<and> acked t \<subseteq> acked t' \<and> acked t' \<subseteq> acked t \<union> held_bytes r
    \<and> (length (rOrder r0) \<le> MaxAckRanges \<longrightarrow> held_bytes r0 \<subseteq> acked t')"
proof -
  define fresh where "fresh = filter (\<lambda>x. fst x \<ge> rnext r) (pendingRanges f)"
  let ?s = "s\<lparr>acksIn := acksIn s + 1\<rparr>" and ?fr = "sized fr"
  note wire = ack_frame_on_wire [OF pub dir fr, folded fresh_def]
  have bytes: "{..<unat (rnext r)} \<union> range_bytes fresh = {..<unat (rnext r)} \<union> range_bytes (pendingRanges f)"
    unfolding fresh_def by (rule fresh_range_bytes [OF pub])
  have in_sent: "{..<unat (rnext r)} \<union> range_bytes fresh \<subseteq> {..<unat (highestSent s)}"
    using published_bytes(1) [OF pub] sent unfolding bytes by blast
  have seq: "\<not> rnext r > highestSent s" using in_sent by (auto simp: word_less_nat_alt not_less)
  have ends: "\<not> (\<exists>x\<in>set fresh. snd x > highestSent s)"
  proof
    assume "\<exists>x\<in>set fresh. snd x > highestSent s"
    then obtain x where x: "x \<in> set fresh" "snd x > highestSent s" by blast
    have "fst x < snd x"
      using fresh_ranges_valid [OF pub] x(1)
      by (auto simp: fresh_def ack_ranges_valid_def dest: ranges_above_nonempty)
    then have "unat (snd x) - 1 \<in> range_bytes fresh"
      using x by (auto simp: range_bytes_def word_less_nat_alt intro!: bexI [of _ x])
    then show False using in_sent x(2) by (auto simp: word_less_nat_alt)
  qed
  obtain s1 p where cov: "acknowledgeCoverage ?s now (rnext r) False fresh = (s1, Inr p)"
    using seq ends acknowledgeCoverage_err [of ?s now "rnext r" False fresh]
    by (cases "acknowledgeCoverage ?s now (rnext r) False fresh"; cases "snd (acknowledgeCoverage ?s now (rnext r) False fresh)")
       auto
  have rec: "receiveACK s now lane ?fr = (note_progress s1 (rescueHint s) lane p, None)"
    using wire s cov by (simp add: receiveACK_def Let_def)
  let ?t = "fst (Add (Advance t (rnext r)) fresh)"
  have "ackTrack s1 = Some ?t" using acknowledgeCoverage_ok(5) [OF cov] s(2) by simp
  moreover have "acked ?t = acked t \<union> ({..<unat (rnext r)} \<union> range_bytes (pendingRanges f))"
    using s(1,2) bytes by (simp add: sender_ok_def acks.add_abs Advance_spec Un_assoc)
  ultimately show ?thesis
    using wire(1) rec published_bytes [OF pub]
    by (metis Un_assoc Un_mono Un_upper1 note_progress_simps(3) order_refl sup.coboundedI2)
qed


definition demo_receiver :: reassembler where
  "demo_receiver = fst (run_inserts (NewReassembler 0 0 (New 100)) (take 1 demo_segments))"

definition demo_writer :: ackWriter where
  "demo_writer = \<lparr>wSession = replicate 16 7, wFlow = 3, wClass = ClassBulk, wAckRanges = True,
     pendingRanges = [(3, 5)]\<rparr>"

lemma demo_receiver_wf: "reasm_wf demo_receiver" "held_bytes demo_receiver = {3, 4}"
proof -
  let ?run = "run_inserts (NewReassembler 0 0 (New 100)) (take 1 demo_segments)"
  have "\<forall>seg\<in>set (take 1 demo_segments). go_sized (NewReassembler 0 0 (New 100)) seg \<and> segment_of demo_stream seg"
    using demo_sized(2) by (auto simp: go_sized_def NewReassembler_def dest: in_set_takeD)
  then show wf: "reasm_wf demo_receiver"
    using run_inserts_prefix [OF New_reasm(1-3) [OF demo_sized(1)]] unfolding demo_receiver_def by (metis prod.collapse)
  have v: "ReceivedRanges demo_receiver 16 = [(3, 5)]" "rnext demo_receiver = 0" "length (rOrder demo_receiver) = 1"
    by code_simp+
  have "range_bytes [(3, 5)] = held_bytes demo_receiver"
    using ReceivedRanges_spec(3) [OF wf, of 16] v by simp
  moreover have "range_bytes [(3, 5)] = {3, 4}" by (auto simp: range_bytes_def)
  ultimately show "held_bytes demo_receiver = {3, 4}" by simp
qed

theorem ack_loop_sound_witness:
  "\<exists>bs fr' s' t'. AppendFrame [] (fst (ack_frame demo_writer 0 FlagAckUp False)) = (bs, None)
    \<and> ParseFrame bs = Inr fr' \<and> receiveACK demo_sender 5 (Some 1) fr' = (s', None) \<and> ackTrack s' = Some t'
    \<and> acked t' = {3, 4}"
proof -
  have v: "ReceivedRanges demo_receiver 16 = [(3, 5)]" "rnext demo_receiver = 0" "length (rOrder demo_receiver) = 1"
    by code_simp+
  have pub: "published demo_writer demo_receiver demo_receiver"
    using demo_receiver_wf v by (simp add: published_def demo_writer_def MaxAckRanges_def)
  have s: "ackTrack demo_sender = Some newAckTracker" "aSession demo_sender = wSession demo_writer"
    "aFlow demo_sender = wFlow demo_writer" "sendAckFlag demo_sender = FlagAckUp" "highestSent demo_sender = 10"
    by (simp_all add: demo_sender_def demo_writer_def)
  have sent: "held_bytes demo_receiver \<subseteq> {..<unat (highestSent demo_sender)}"
    using demo_receiver_wf s by simp
  have "ack_direction FlagAckUp" by (simp add: ack_direction_def)
  from ack_loop_sound [OF pub this demo_sender_ok s(1-4) sent prod.collapse [symmetric], of 5 "Some 1"]
  obtain bs fr' s' t' where run: "AppendFrame [] (fst (ack_frame demo_writer 0 FlagAckUp False)) = (bs, None)"
    "ParseFrame bs = Inr fr'" "receiveACK demo_sender 5 (Some 1) fr' = (s', None)" "ackTrack s' = Some t'"
    and t': "acked t' \<subseteq> acked newAckTracker \<union> held_bytes demo_receiver"
      "length (rOrder demo_receiver) \<le> MaxAckRanges \<longrightarrow> held_bytes demo_receiver \<subseteq> acked t'"
    unfolding v(2) by blast
  have "acked t' = {3, 4}" using t' v(3) demo_receiver_wf(2) by (auto simp: MaxAckRanges_def)
  with run show ?thesis by blast
qed

end
