(* ===== verification/GF256.thy ===== *)
theory GF256
  imports Prelude
begin

text \<open>
  \<^verbatim>\<open>internal/fec/gf.go\<close>: arithmetic in the field of 256 bytes by logarithm tables. The
  tables are the ones the package initialiser builds; the laws of a field, with \<^verbatim>\<open>XOR\<close> as
  addition, are proved of the table lookups and collected in the interface
  \<^verbatim>\<open>byte_field\<close>, on which the linear algebra of the window code rests.
\<close>

section \<open>The tables\<close>

definition primitivePolynomial :: "64 word" where
  "primitivePolynomial = 0x11d"

definition gf_next :: "64 word \<Rightarrow> 64 word" where
  "gf_next x = (let x = push_bit 1 x in if x AND 0x100 \<noteq> 0 then x XOR primitivePolynomial else x)"

text \<open>The first loop of the initialiser: the loop variable and both tables.\<close>

definition gf_init_step :: "64 word \<times> bytes \<times> bytes \<Rightarrow> nat \<Rightarrow> 64 word \<times> bytes \<times> bytes" where
  "gf_init_step s i =
     (case s of (x, ex, lg) \<Rightarrow>
        (gf_next x, ex[i := ucast x], lg[unat (ucast x :: u8) := of_nat i]))"

definition gf_init :: "64 word \<times> bytes \<times> bytes" where
  "gf_init = foldl gf_init_step (1, replicate 512 0, replicate 256 0) [0..<255]"

definition gfExp :: bytes where
  "gfExp = foldl (\<lambda>ex i. ex[i := ex ! (i - 255)]) (fst (snd gf_init)) [255..<512]"

definition gfLog :: bytes where
  "gfLog = snd (snd gf_init)"

text \<open>Entries of row or column zero are never assigned and stay zero.\<close>

definition gfMul :: "u8 \<Rightarrow> u8 \<Rightarrow> u8" where
  "gfMul a b =
     (if a = 0 \<or> b = 0 then 0 else gfExp ! (unat (gfLog ! unat a) + unat (gfLog ! unat b)))"

definition inv :: "u8 \<Rightarrow> u8" where
  "inv a = (if a = 0 then 0 else gfExp ! (255 - unat (gfLog ! unat a)))"

text \<open>The callers pass an \<^verbatim>\<open>in\<close> at least as long as \<^verbatim>\<open>out\<close>.\<close>

definition mulSliceXor :: "u8 \<Rightarrow> bytes \<Rightarrow> bytes \<Rightarrow> bytes" where
  "mulSliceXor coefficient inp out =
     (if coefficient = 0 then out
      else if coefficient = 1 then map2 (\<lambda>o1 i1. o1 XOR i1) out inp
      else map2 (\<lambda>o1 i1. o1 XOR gfMul coefficient i1) out (take (length out) inp))"

section \<open>Powers of the generator\<close>

definition xtime :: "u8 \<Rightarrow> u8" where
  "xtime a = (if bit a 7 then push_bit 1 a XOR 0x1d else push_bit 1 a)"

lemma xtime_xor: "xtime (a XOR b) = xtime a XOR xtime b"
  by (rule bit_word_eqI) (auto simp: xtime_def bit_simps)

lemma xtime_0 [simp]: "xtime 0 = 0"
  by (simp add: xtime_def)

lemma bit_shift1: "bit (push_bit 1 a) n \<longleftrightarrow> 0 < n \<and> n < LENGTH('a) \<and> bit a (n - 1)" for a :: "'a::len word"
  by (simp only: bit_push_bit_iff) (auto simp: Suc_le_eq)

lemma bit_xtime:
  "bit (xtime a) n \<longleftrightarrow> n < 8 \<and> ((0 < n \<and> bit a (n - 1)) \<noteq> (bit a 7 \<and> bit (0x1d :: u8) n))"
  by (simp add: xtime_def bit_xor_iff bit_shift1 del: One_nat_def push_bit_Suc) (auto dest: bit_imp_le_length)

lemma xtime_eq_0: "xtime a = 0 \<Longrightarrow> a = 0"
proof -
  assume "xtime a = 0"
  then have b: "\<not> bit (xtime a) n" for n by simp
  have a7: "\<not> bit a 7" using b [of 0] by (simp add: bit_xtime)
  have "\<not> bit a n" if "n < 7" for n using b [of "Suc n"] a7 that by (simp add: bit_xtime)
  with a7 have "\<not> bit a n" if "n < 8" for n using that by (cases "n = 7") auto
  then show "a = 0" by (intro bit_word_eqI) simp
qed

lemma xtime_small: "a < 128 \<Longrightarrow> push_bit 1 a = xtime a"
proof -
  assume "a < 128"
  then have "\<not> bit a 7" by (simp add: bit_iff_odd div_word_less)
  then show ?thesis by (simp add: xtime_def)
qed

lemma xor_eq_0: "a XOR b = 0 \<Longrightarrow> a = b" for a b :: u8
  by (metis xor.assoc xor.right_neutral xor_self_eq xor.left_neutral)

lemma inj_xtime: "inj xtime"
proof (rule injI)
  fix a b assume "xtime a = xtime b"
  then have "xtime (a XOR b) = 0" by (simp add: xtime_xor)
  then have "a XOR b = 0" by (rule xtime_eq_0)
  then show "a = b" by (simp add: xor_eq_0)
qed

definition alpha :: "nat \<Rightarrow> u8" where
  "alpha n = (xtime ^^ n) 1"

lemma xtime_pow_xor: "(xtime ^^ n) (a XOR b) = (xtime ^^ n) a XOR (xtime ^^ n) b"
  by (induction n) (simp_all add: xtime_xor)

lemma xtime_pow_0 [simp]: "(xtime ^^ n) 0 = 0"
  by (induction n) simp_all

lemma xtime_pow_alpha: "(xtime ^^ n) (alpha m) = alpha (n + m)"
  by (simp add: alpha_def funpow_add)

lemma xtime_pow_inj: "(xtime ^^ n) a = (xtime ^^ n) b \<Longrightarrow> a = b"
  using inj_fn [OF inj_xtime, of n] by (auto dest: injD)

fun powers :: "nat \<Rightarrow> u8 \<Rightarrow> u8 list" where
  "powers 0 a = []"
| "powers (Suc n) a = a # powers n (xtime a)"

lemma powers_eq: "powers n ((xtime ^^ k) 1) = map alpha [k..<k + n]"
proof (induction n arbitrary: k)
  case (Suc n)
  have "xtime ((xtime ^^ k) 1) = (xtime ^^ Suc k) 1" by simp
  then show ?case using Suc [of "Suc k"] by (simp add: alpha_def upt_rec)
qed simp

lemma powers_table: "1 \<notin> set (powers 254 2) \<and> xtime (last (powers 254 2)) = 1"
  by code_simp


lemma powers_map: "powers 254 2 = map alpha [1..<255]"
proof -
  have "(2 :: u8) = (xtime ^^ 1) 1" by (simp add: xtime_def)
  then show ?thesis using powers_eq [of 254 1] by simp
qed

lemma alpha_ne_1: "0 < n \<Longrightarrow> n < 255 \<Longrightarrow> alpha n \<noteq> 1"
  using powers_table unfolding powers_map by fastforce

lemma alpha_255: "alpha 255 = 1"
proof -
  have "last (powers 254 2) = alpha 254" unfolding powers_map by (simp add: last_map)
  moreover have "alpha 255 = xtime (alpha 254)" using xtime_pow_alpha [of 1 254] by simp
  ultimately show ?thesis using powers_table by simp
qed

lemma alpha_0 [simp]: "alpha 0 = 1"
  by (simp add: alpha_def)

lemma alpha_nonzero: "alpha n \<noteq> 0"
  using xtime_pow_inj [of n 1 0] by (auto simp: alpha_def)

lemma alpha_mod: "alpha (n mod 255) = alpha n"
proof -
  have step: "alpha (m + 255) = alpha m" for m
    using xtime_pow_alpha [of m 255] alpha_255 by (simp add: alpha_def)
  have "alpha (r + 255 * q) = alpha r" for q r
  proof (induction q)
    case (Suc q)
    have "r + 255 * Suc q = (r + 255 * q) + 255" by simp
    then show ?case using step [of "r + 255 * q"] Suc by metis
  qed simp
  from this [of "n mod 255" "n div 255"] show ?thesis by simp
qed

lemma alpha_inj: "i < 255 \<Longrightarrow> j < 255 \<Longrightarrow> alpha i = alpha j \<Longrightarrow> i = j"
proof (induction i j rule: linorder_wlog)
  case (le i j)
  have "(xtime ^^ i) 1 = (xtime ^^ i) (alpha (j - i))"
    using le xtime_pow_alpha [of i "j - i"] by (simp add: alpha_def)
  then have "alpha (j - i) = 1" using xtime_pow_inj by metis
  then show ?case using alpha_ne_1 [of "j - i"] le by (cases "j = i") auto
next
  case (sym a b)
  then show ?case by simp
qed

lemma alpha_surj: "a \<noteq> 0 \<Longrightarrow> \<exists>i<255. alpha i = a"
proof -
  have "card (alpha ` {..<255}) = 255"
    by (subst card_image) (auto intro!: inj_onI alpha_inj)
  moreover have "card (UNIV :: u8 set) = 256" unfolding card_word by simp
  then have "card (UNIV - {0 :: u8}) = 255" by (simp only: card_Diff_singleton [OF UNIV_I])
  moreover have "alpha ` {..<255} \<subseteq> UNIV - {0}" using alpha_nonzero by auto
  ultimately have eq: "alpha ` {..<255} = UNIV - {0}"
    using card_subset_eq [of "UNIV - {0 :: u8}" "alpha ` {..<255}"] finite [of "UNIV - {0 :: u8}"] by simp
  assume "a \<noteq> 0"
  then have "a \<in> alpha ` {..<255}" unfolding eq by simp
  then show ?thesis by (auto simp del: lessThan_iff simp: image_iff)
qed

section \<open>The tables hold the powers\<close>

lemma gf_next_ucast: "gf_next (ucast b) = ucast (xtime b)" for b :: u8
proof (rule bit_word_eqI)
  fix n assume n: "n < LENGTH(64)"
  have "(push_bit 1 (ucast b) AND 0x100 :: 64 word) \<noteq> 0 \<longleftrightarrow> bit (push_bit 1 (ucast b) :: 64 word) 8"
    using and_exp_eq_0_iff_not_bit [of "push_bit 1 (ucast b) :: 64 word" 8] by simp
  then have t: "(push_bit 1 (ucast b) AND 0x100 :: 64 word) \<noteq> 0 \<longleftrightarrow> bit b 7"
    by (simp add: bit_shift1 bit_ucast_iff del: One_nat_def push_bit_Suc)
  have poly: "primitivePolynomial = 2 ^ 8 OR ucast (0x1d :: u8)" by (simp add: primitivePolynomial_def)
  have p: "bit primitivePolynomial n \<longleftrightarrow> n = 8 \<or> bit (0x1d :: u8) n"
    unfolding poly bit_or_iff bit_exp_iff bit_ucast_iff using n by auto
  have "bit b (n - 1) \<Longrightarrow> n - 1 < 8" by (auto dest: bit_imp_le_length)
  then have top: "bit b (n - 1) \<Longrightarrow> 0 < n \<Longrightarrow> \<not> bit b 7 \<Longrightarrow> n < 8" by (cases "n = 8") auto
  show "bit (gf_next (ucast b)) n = bit (ucast (xtime b) :: 64 word) n"
    using n top by (auto simp add: gf_next_def Let_def t bit_xor_iff bit_shift1 bit_ucast_iff bit_xtime p
        simp del: One_nat_def push_bit_Suc dest: bit_imp_le_length)
qed

lemma alpha_byte: "ucast (ucast b :: 64 word) = b" for b :: u8
  by (rule bit_word_eqI) (simp add: bit_ucast_iff)

lemma gf_init_prefix:
  "n \<le> 255 \<Longrightarrow> \<exists>x ex lg. foldl gf_init_step (1, replicate 512 0, replicate 256 0) [0..<n] = (x, ex, lg)
     \<and> x = ucast (alpha n) \<and> length ex = 512 \<and> length lg = 256
     \<and> (\<forall>i<n. ex ! i = alpha i) \<and> (\<forall>i<n. lg ! unat (alpha i) = of_nat i)"
proof (induction n)
  case 0
  show ?case by simp
next
  case (Suc n)
  then obtain x ex lg where ih: "foldl gf_init_step (1, replicate 512 0, replicate 256 0) [0..<n] = (x, ex, lg)"
    "x = ucast (alpha n)" "length ex = 512" "length lg = 256"
    "\<forall>i<n. ex ! i = alpha i" "\<forall>i<n. lg ! unat (alpha i) = of_nat i" by auto
  have range: "unat (alpha i) < 256" for i using unsigned_less [of "alpha i"] by simp
  have new: "unat (alpha i) \<noteq> unat (alpha n)" if "i < n" for i
    using alpha_inj [of i n] that Suc.prems unfolding word_unat_eq_iff [symmetric] by auto
  have "alpha (Suc n) = xtime (alpha n)" by (simp add: alpha_def)
  moreover have "foldl gf_init_step (1, replicate 512 0, replicate 256 0) [0..<Suc n]
      = (gf_next x, ex[n := alpha n], lg[unat (alpha n) := of_nat n])"
    by (simp add: ih(1)) (simp add: gf_init_step_def ih(2) alpha_byte)
  ultimately show ?case
    using ih(2-6) gf_next_ucast [of "alpha n"] Suc.prems range new
    by (simp add: nth_list_update less_Suc_eq) (metis new)
qed

lemma gf_init_spec:
  "length gfLog = 256" "i < 255 \<Longrightarrow> gfLog ! unat (alpha i) = of_nat i"
  "length (fst (snd gf_init)) = 512" "i < 255 \<Longrightarrow> fst (snd gf_init) ! i = alpha i"
proof -
  obtain x ex lg where g: "gf_init = (x, ex, lg)" "length ex = 512" "length lg = 256"
    "\<forall>i<255. ex ! i = alpha i" "\<forall>i<255. lg ! unat (alpha i) = of_nat i"
    using gf_init_prefix [OF order_refl] unfolding gf_init_def [symmetric] by blast
  then show "length gfLog = 256" "i < 255 \<Longrightarrow> gfLog ! unat (alpha i) = of_nat i"
    "length (fst (snd gf_init)) = 512" "i < 255 \<Longrightarrow> fst (snd gf_init) ! i = alpha i"
    unfolding gfLog_def g(1) by (simp_all del: upt_conv_Cons)
qed

lemma gfExp_spec: "i < 512 \<Longrightarrow> gfExp ! i = alpha i"
proof -
  have "255 \<le> n \<Longrightarrow> n \<le> 512 \<Longrightarrow>
      length (foldl (\<lambda>ex i. ex[i := ex ! (i - 255)]) (fst (snd gf_init)) [255..<n]) = 512
      \<and> (\<forall>i<n. foldl (\<lambda>ex i. ex[i := ex ! (i - 255)]) (fst (snd gf_init)) [255..<n] ! i = alpha i)" for n
  proof (induction n rule: nat_induct_at_least)
    case base
    then show ?case using gf_init_spec(3,4) by simp
  next
    case (Suc n)
    have "alpha (n - 255) = alpha n"
      using alpha_mod [of n] alpha_mod [of "n - 255"] Suc.hyps by (simp add: le_mod_geq)
    then show ?case using Suc by (auto simp: nth_list_update less_Suc_eq)
  qed
  moreover have "255 \<le> (512 :: nat)" by simp
  ultimately show "i < 512 \<Longrightarrow> gfExp ! i = alpha i" unfolding gfExp_def by blast
qed

definition glog :: "u8 \<Rightarrow> nat" where
  "glog a = unat (gfLog ! unat a)"

lemma glog_alpha: "i < 255 \<Longrightarrow> glog (alpha i) = i"
  by (simp add: glog_def gf_init_spec unat_of_nat)

lemma alpha_glog: "a \<noteq> 0 \<Longrightarrow> alpha (glog a) = a \<and> glog a < 255"
  using alpha_surj [of a] glog_alpha by auto

lemma gfMul_alpha: "a \<noteq> 0 \<Longrightarrow> b \<noteq> 0 \<Longrightarrow> gfMul a b = alpha (glog a + glog b)"
  using alpha_glog [of a] alpha_glog [of b] by (simp add: gfMul_def glog_def gfExp_spec)

lemma gfMul_linear: "a \<noteq> 0 \<Longrightarrow> gfMul a b = (xtime ^^ glog a) b"
proof (cases "b = 0")
  case False
  then show "a \<noteq> 0 \<Longrightarrow> gfMul a b = (xtime ^^ glog a) b"
    using xtime_pow_alpha [of "glog a" "glog b"] alpha_glog [of b] by (simp add: gfMul_alpha)
qed (simp add: gfMul_def)

lemma inv_alpha: "a \<noteq> 0 \<Longrightarrow> inv a = alpha (255 - glog a)"
  by (simp add: inv_def gfExp_spec glog_def)

section \<open>Field laws\<close>

lemma gfMul_zero [simp]: "gfMul 0 b = 0" "gfMul a 0 = 0"
  by (simp_all add: gfMul_def)

lemma gfMul_eq_0 [simp]: "gfMul a b = 0 \<longleftrightarrow> a = 0 \<or> b = 0"
  by (cases "a = 0 \<or> b = 0") (auto simp: gfMul_alpha alpha_nonzero)

lemma gfMul_commute: "gfMul a b = gfMul b a"
  by (cases "a = 0 \<or> b = 0") (auto simp: gfMul_alpha add.commute)

lemma gfMul_one [simp]: "gfMul 1 a = a"
  using glog_alpha [of 0] by (simp add: gfMul_linear)

lemma gfMul_xor: "gfMul a (b XOR c) = gfMul a b XOR gfMul a c"
  by (cases "a = 0") (simp_all add: gfMul_linear xtime_pow_xor)

lemma xtime_pow_mod: "(xtime ^^ (n mod 255)) b = (xtime ^^ n) b"
proof (cases "b = 0")
  case False
  then obtain j where j: "b = alpha j" using alpha_surj by blast
  have "alpha (n mod 255 + j) = alpha (n + j)"
    using alpha_mod [of "n mod 255 + j"] alpha_mod [of "n + j"] by (simp add: mod_add_left_eq)
  then show ?thesis by (simp add: j xtime_pow_alpha)
qed simp

lemma gfMul_assoc: "gfMul (gfMul a b) c = gfMul a (gfMul b c)"
proof (cases "a = 0 \<or> b = 0")
  case False
  have "alpha (glog (gfMul a b)) = alpha (glog a + glog b)"
    using False alpha_glog [of "gfMul a b"] gfMul_alpha [of a b] by (simp add: alpha_nonzero)
  then have "glog (gfMul a b) = (glog a + glog b) mod 255"
    using alpha_inj [of "glog (gfMul a b)" "(glog a + glog b) mod 255"] alpha_mod [of "glog a + glog b"]
      alpha_glog [of "gfMul a b"] False gfMul_eq_0 by (metis mod_less_divisor zero_less_numeral)
  moreover have "gfMul a b \<noteq> 0" using False by simp
  ultimately have "gfMul (gfMul a b) c = (xtime ^^ (glog a + glog b)) c"
    by (metis gfMul_linear xtime_pow_mod)
  also have "\<dots> = gfMul a (gfMul b c)" using False by (simp add: funpow_add gfMul_linear)
  finally show ?thesis .
qed auto

lemma gfMul_inv: "a \<noteq> 0 \<Longrightarrow> gfMul (inv a) a = 1"
proof -
  assume a: "a \<noteq> 0"
  have "gfMul (inv a) a = (xtime ^^ glog a) (alpha (255 - glog a))"
    using a gfMul_linear [OF a] by (metis gfMul_commute inv_alpha)
  then show ?thesis using alpha_glog [OF a] alpha_255 by (simp add: xtime_pow_alpha)
qed

text \<open>
  The interface the window code uses: bytes form a field in which addition and
  subtraction are both \<^verbatim>\<open>XOR\<close>.
\<close>

locale byte_field =
  fixes mul :: "u8 \<Rightarrow> u8 \<Rightarrow> u8" and inverse_of :: "u8 \<Rightarrow> u8"
  assumes mul_commute: "mul a b = mul b a"
    and mul_assoc: "mul (mul a b) c = mul a (mul b c)"
    and mul_one: "mul 1 a = a"
    and mul_xor: "mul a (b XOR c) = mul a b XOR mul a c"
    and mul_inverse: "a \<noteq> 0 \<Longrightarrow> mul (inverse_of a) a = 1"
begin

lemma mul_zero: "mul a 0 = 0" "mul 0 a = 0"
proof -
  have "mul a 0 = mul a 0 XOR mul a 0" using mul_xor [of a 0 0] by simp
  then show "mul a 0 = 0" by simp
  then show "mul 0 a = 0" using mul_commute by metis
qed

lemma mul_xor_left: "mul (a XOR b) c = mul a c XOR mul b c"
  by (metis mul_commute mul_xor)

lemma no_zero_divisors: "a \<noteq> 0 \<Longrightarrow> mul a b = 0 \<Longrightarrow> b = 0"
  by (metis mul_assoc mul_inverse mul_one mul_zero(1))

lemma cancel_scaled: "a \<noteq> 0 \<Longrightarrow> mul a b = mul a c \<Longrightarrow> b = c"
  by (metis mul_assoc mul_inverse mul_one)

end

interpretation gf: byte_field gfMul inv
  by unfold_locales (auto simp: gfMul_assoc gfMul_xor gfMul_inv intro: gfMul_commute)

section \<open>Evaluation\<close>

text \<open>
  The tables are slow to evaluate in proofs; the same products by shift and add, and the
  inverse as a power, are used as code equations.
\<close>

fun peasant :: "nat \<Rightarrow> u8 \<Rightarrow> u8 \<Rightarrow> u8" where
  "peasant 0 a b = 0"
| "peasant (Suc n) a b = (if bit a 0 then b else 0) XOR peasant n (drop_bit 1 a) (xtime b)"

lemma gfMul_2: "gfMul 2 b = xtime b"
proof -
  have "alpha 1 = 2" by (simp add: alpha_def xtime_def)
  then show ?thesis using glog_alpha [of 1] by (simp add: gfMul_linear)
qed

lemma gfMul_double: "a < 128 \<Longrightarrow> gfMul (push_bit 1 a) b = gfMul a (xtime b)"
proof -
  assume "a < 128"
  then have "gfMul (push_bit 1 a) b = gfMul (gfMul 2 a) b" by (simp only: xtime_small gfMul_2)
  also have "\<dots> = gfMul a (gfMul 2 b)" by (metis gfMul_assoc gfMul_commute)
  finally show ?thesis by (simp add: gfMul_2)
qed


lemma byte_halves: "a = (if bit a 0 then 1 else 0) XOR push_bit 1 (drop_bit 1 a)" "drop_bit 1 a < 128" for a :: u8
proof -
  show "a = (if bit a 0 then 1 else 0) XOR push_bit 1 (drop_bit 1 a)"
  proof (rule bit_word_eqI)
    show "bit a n = bit ((if bit a 0 then 1 else 0) XOR push_bit 1 (drop_bit 1 a)) n" if "n < LENGTH(8)" for n
      using that by (cases n)
        (simp_all add: bit_xor_iff bit_shift1 bit_drop_bit_eq bit_1_iff Suc_eq_plus1 add.commute [of 1]
          del: One_nat_def push_bit_Suc add_Suc_right)
  qed
  have "unat (drop_bit 1 a) < 128"
    unfolding unat_drop_bit_eq using unsigned_less [of a, where 'a = nat] by (simp add: drop_bit_eq_div)
  then show "drop_bit 1 a < 128" by (simp add: word_less_nat_alt)
qed

lemma peasant_eq: "unat a < 2 ^ n \<Longrightarrow> peasant n a b = gfMul a b"
proof (induction n arbitrary: a b)
  case 0
  then show ?case by (simp add: unat_eq_0)
next
  case (Suc n)
  have "unat (drop_bit 1 a) < 2 ^ n"
    using Suc.prems unfolding unat_drop_bit_eq by (simp add: drop_bit_eq_div less_mult_imp_div_less mult.commute)
  then have "peasant (Suc n) a b = gfMul (if bit a 0 then 1 else 0) b XOR gfMul (drop_bit 1 a) (xtime b)"
    using Suc.IH by simp
  also have "\<dots> = gfMul (if bit a 0 then 1 else 0) b XOR gfMul (push_bit 1 (drop_bit 1 a)) b"
    using byte_halves [of a] gfMul_double by metis
  also have "\<dots> = gfMul a b" using byte_halves [of a] gf.mul_xor_left by metis
  finally show ?case .
qed

lemma gfMul_code [code]: "gfMul a b = peasant 8 a b"
proof -
  have "unat a < 2 ^ 8" using unsigned_less [of a, where 'a = nat] by simp
  then show ?thesis using peasant_eq by simp
qed

definition pow254 :: "u8 \<Rightarrow> u8" where
  "pow254 a =
     (let s = (\<lambda>x. gfMul x x); a2 = s a; a4 = s a2; a8 = s a4; a16 = s a8; a32 = s a16; a64 = s a32; a128 = s a64
      in gfMul a2 (gfMul a4 (gfMul a8 (gfMul a16 (gfMul a32 (gfMul a64 a128))))))"

lemma gfMul_alphas: "gfMul (alpha i) (alpha j) = alpha (i + j)"
proof -
  have "gfMul (alpha i) (alpha j) = alpha (i mod 255 + j)"
    using alpha_mod [of i] glog_alpha [of "i mod 255"] gfMul_linear [OF alpha_nonzero, of "i mod 255" "alpha j"]
    by (simp add: xtime_pow_alpha)
  also have "\<dots> = alpha (i + j)"
    using alpha_mod [of "i mod 255 + j"] alpha_mod [of "i + j"] by (simp add: mod_add_left_eq)
  finally show ?thesis .
qed

lemma pow254_inverse: "a \<noteq> 0 \<Longrightarrow> gfMul (pow254 a) a = 1"
proof -
  assume "a \<noteq> 0"
  then obtain l where l: "a = alpha l" using alpha_surj by blast
  have "gfMul (pow254 a) a = alpha (255 * l)" 
    unfolding l pow254_def Let_def gfMul_alphas by (rule arg_cong [where f = alpha]) simp
  also have "\<dots> = 1" using alpha_mod [of "255 * l"] by simp
  finally show ?thesis .
qed

lemma inv_code [code]: "inv a = pow254 a"
proof (cases "a = 0")
  case True
  then show ?thesis by (simp add: inv_def pow254_def Let_def)
next
  case False
  then show ?thesis
    using pow254_inverse [of a] gfMul_inv [of a] gf.cancel_scaled [of a "inv a" "pow254 a"] gfMul_commute by metis
qed

lemma inv_nonzero: "a \<noteq> 0 \<Longrightarrow> inv a \<noteq> 0"
  using gfMul_inv [of a] by auto

lemma inv_one [simp]: "inv 1 = 1"
  using gfMul_inv [of 1] gfMul_commute [of "inv 1" 1] by simp

section \<open>Scaled sums of symbols\<close>

lemma mulSliceXor_eq:
  "length out \<le> length inp \<Longrightarrow> mulSliceXor c inp out = map2 (\<lambda>o1 i1. o1 XOR gfMul c i1) out inp"
proof -
  assume len: "length out \<le> length inp"
  have "map2 (\<lambda>o1 i1. o1 XOR gfMul c i1) out (take (length out) inp) = map2 (\<lambda>o1 i1. o1 XOR gfMul c i1) out inp"
    by (rule nth_equalityI) (use len in auto)
  moreover have "map2 (\<lambda>o1 i1. o1) out inp = out" using len by (simp add: map_fst_zip_take case_prod_unfold)
  ultimately show ?thesis by (auto simp: mulSliceXor_def)
qed

lemma length_mulSliceXor: "length out \<le> length inp \<Longrightarrow> length (mulSliceXor c inp out) = length out"
  by (simp add: mulSliceXor_eq)

lemma nth_mulSliceXor:
  "length out \<le> length inp \<Longrightarrow> i < length out \<Longrightarrow> mulSliceXor c inp out ! i = out ! i XOR gfMul c (inp ! i)"
  by (simp add: mulSliceXor_eq)

text \<open>
  C20: the tables built at start-up are the field of 256 elements. The multiplication table is
  polynomial multiplication modulo the primitive polynomial (shift and add, reducing by
  \<^verbatim>\<open>0x11d\<close> whenever bit 8 is shifted out), it is commutative, associative and distributes
  over exclusive or, and the inverse read from the tables inverts every non-zero byte and
  answers zero for zero.
\<close>

theorem gf_tables_are_the_field:
  "gfMul a b = peasant 8 a b \<and> gfMul a b = gfMul b a \<and> gfMul (gfMul a b) c = gfMul a (gfMul b c)
   \<and> gfMul a (b XOR c) = gfMul a b XOR gfMul a c \<and> gfMul a (inv a) = (if a = 0 then 0 else 1)"
proof -
  have "gfMul a (inv a) = (if a = 0 then 0 else 1)" using gfMul_inv [of a] gfMul_commute by simp
  then show ?thesis using gfMul_code gfMul_commute gfMul_assoc gfMul_xor by simp
qed

end
