(* ===== verification/FecEncoder.thy ===== *)
theory FecEncoder
  imports GF256
begin

text \<open>
  \<^verbatim>\<open>internal/fec/window.go\<close>, the sending half: symbols as zero-extended vectors over the
  byte field, the generated coefficients, and the ring of recent source symbols from which
  repairs are built. The result used by the decoder is \<^verbatim>\<open>repair_equation\<close>: a repair is the
  linear combination of the symbols it names.
\<close>

section \<open>Vectors\<close>

definition MaxShards :: int where "MaxShards = 256"
definition MaxRepairWindow :: int where "MaxRepairWindow = MaxShards"
definition MinDecoderWidth :: int where "MinDecoderWidth = 2 * MaxRepairWindow"

definition ensure :: "bytes \<Rightarrow> nat \<Rightarrow> bytes" where
  "ensure data n = (if length data \<ge> n then data else data @ replicate (n - length data) 0)"

text \<open>\<^verbatim>\<open>out\<close> is updated in place over the common prefix; the rest of it is untouched.\<close>

definition addScaled :: "u8 \<Rightarrow> bytes \<Rightarrow> bytes \<Rightarrow> bytes" where
  "addScaled coefficient inp out =
     (let n = min (length inp) (length out) in mulSliceXor coefficient (take n inp) (take n out) @ drop n out)"

definition scaleBytes :: "u8 \<Rightarrow> bytes \<Rightarrow> bytes" where
  "scaleBytes factor b = (if factor = 1 then b else map (gfMul factor) b)"

function round_up_loop :: "nat \<Rightarrow> int \<Rightarrow> nat" where
  "round_up_loop sz n = (if 0 < sz \<and> int sz < n then round_up_loop (2 * sz) n else sz)"
  by pat_completeness auto
termination
  by (relation "measure (\<lambda>(sz, n). nat n - sz)") auto

declare round_up_loop.simps [simp del]

definition roundUpPowerOfTwo :: "int \<Rightarrow> nat" where
  "roundUpPowerOfTwo n = round_up_loop 1 n"

definition windowCoefficient :: "u32 \<Rightarrow> nat \<Rightarrow> u8" where
  "windowCoefficient rid index =
     (let x = rid * 2654435761 + of_nat index * 2246822519;
          x = x XOR drop_bit 15 x;
          x = x * 2654435761;
          x = x XOR drop_bit 13 x;
          x = x * 2246822519;
          x = x XOR drop_bit 16 x
      in ucast (x mod 255) + 1)"

definition WindowCoefficients :: "u32 \<Rightarrow> int \<Rightarrow> bytes" where
  "WindowCoefficients rid count = (if count \<le> 0 then [] else map (windowCoefficient rid) [0..<nat count])"

lemma length_ensure [simp]: "length (ensure data n) = max n (length data)"
  by (auto simp: ensure_def)

lemma byte_at_ensure [simp]: "byte_at (ensure data n) = byte_at data"
  by (simp add: ensure_def)

lemma byte_at_zeros [simp]: "byte_at (replicate n 0) k = 0"
  by (simp add: byte_at_def)

lemma length_addScaled [simp]: "length (addScaled c inp out) = length out"
  by (simp add: addScaled_def Let_def length_mulSliceXor)

lemma byte_at_addScaled:
  "length inp \<le> length out \<Longrightarrow> byte_at (addScaled c inp out) k = byte_at out k XOR gfMul c (byte_at inp k)"
  by (auto simp: addScaled_def Let_def byte_at_def nth_append nth_mulSliceXor length_mulSliceXor)

lemma length_scaleBytes [simp]: "length (scaleBytes f b) = length b"
  by (simp add: scaleBytes_def)

lemma byte_at_scaleBytes: "byte_at (scaleBytes f b) k = gfMul f (byte_at b k)"
  by (simp add: scaleBytes_def byte_at_def)

lemma nth_scaleBytes: "i < length b \<Longrightarrow> scaleBytes f b ! i = gfMul f (b ! i)"
  by (simp add: scaleBytes_def)

lemma ucast_mod_255: "(ucast (x mod 255) :: u8) + 1 \<noteq> 0" for x :: u32
proof
  assume "(ucast (x mod 255) :: u8) + 1 = 0"
  then have "(ucast (x mod 255) :: u8) = - 1" by (simp add: eq_neg_iff_add_eq_0)
  then have "unat (ucast (x mod 255) :: u8) = 255" by (simp add: unsigned_minus_1_eq_mask mask_eq_exp_minus_1)
  moreover have "unat (x mod 255) < 255" by (simp add: unat_mod)
  ultimately show False by (simp add: unsigned_ucast_eq take_bit_nat_eq_self)
qed

lemma windowCoefficient_nonzero: "windowCoefficient rid index \<noteq> 0"
  by (simp add: windowCoefficient_def Let_def ucast_mod_255)

section \<open>The encoder\<close>

record RepairSymbol =
  RID :: u32
  First :: u32
  Count :: int
  Vector :: bytes

record WindowEncoder =
  ring :: "bytes list"
  emask :: u32
  efirst :: u32
  enext :: u32
  held :: nat

fun keep_loop :: "WindowEncoder \<Rightarrow> nat \<Rightarrow> u32 \<Rightarrow> nat list \<Rightarrow> bytes list \<Rightarrow> bytes list" where
  "keep_loop e sz first [] r = r"
| "keep_loop e sz first (i # is) r =
     (let esi = first + of_nat i in
      keep_loop e sz first is (r[unat (esi AND of_nat (sz - 1)) := ring e ! unat (esi AND emask e)]))"

definition SetCapacity :: "WindowEncoder \<Rightarrow> int \<Rightarrow> WindowEncoder" where
  "SetCapacity e capacity =
     (let capacity = (if capacity > MaxRepairWindow then MaxRepairWindow else capacity);
          sz = roundUpPowerOfTwo capacity in
      if sz = length (ring e) then e
      else
        (let keep = (if held e > sz then sz else held e);
             first = enext e - of_nat keep in
         e\<lparr>ring := keep_loop e sz first [0..<keep] (replicate sz []),
           emask := of_nat (sz - 1), efirst := first, held := keep\<rparr>))"

definition NewWindowEncoder :: "int \<Rightarrow> WindowEncoder" where
  "NewWindowEncoder capacity =
     SetCapacity \<lparr>ring = [], emask = 0, efirst = 0, enext = 0, held = 0\<rparr> capacity"

definition enc_Add :: "WindowEncoder \<Rightarrow> bytes \<Rightarrow> WindowEncoder \<times> u32" where
  "enc_Add e vector =
     (let esi = enext e;
          e1 = e\<lparr>enext := enext e + 1, ring := (ring e)[unat (esi AND emask e) := vector]\<rparr> in
      (if held e < length (ring e) then e1\<lparr>held := held e + 1\<rparr> else e1\<lparr>efirst := efirst e + 1\<rparr>, esi))"

definition ring_at :: "WindowEncoder \<Rightarrow> u32 \<Rightarrow> bytes" where
  "ring_at e esi = ring e ! unat (esi AND emask e)"

fun repair_len :: "WindowEncoder \<Rightarrow> u32 \<Rightarrow> nat list \<Rightarrow> nat \<Rightarrow> nat" where
  "repair_len e first [] vlen = vlen"
| "repair_len e first (i # is) vlen =
     (let n = length (ring_at e (first + of_nat i)) in repair_len e first is (if n > vlen then n else vlen))"

fun repair_sum :: "WindowEncoder \<Rightarrow> u32 \<Rightarrow> u32 \<Rightarrow> nat list \<Rightarrow> bytes \<Rightarrow> bytes" where
  "repair_sum e rid first [] vector = vector"
| "repair_sum e rid first (i # is) vector =
     repair_sum e rid first is (addScaled (windowCoefficient rid i) (ring_at e (first + of_nat i)) vector)"

definition enc_Repair :: "WindowEncoder \<Rightarrow> u32 \<Rightarrow> int \<Rightarrow> RepairSymbol option" where
  "enc_Repair e rid count =
     (if held e = 0 then None
      else
        (let count = (if count \<le> 0 \<or> count > int (held e) then int (held e) else count);
             count = (if count > MaxRepairWindow then MaxRepairWindow else count);
             first = enext e - of_int count;
             vlen = repair_len e first [0..<nat count] 0 in
         Some \<lparr>RID = rid, First = first, Count = count,
           Vector = repair_sum e rid first [0..<nat count] (replicate vlen 0)\<rparr>))"

section \<open>Linear combinations\<close>

text \<open>Sums in the byte field, over lists of terms.\<close>

definition xsum :: "u8 list \<Rightarrow> u8" where
  "xsum xs = foldr (XOR) xs 0"

lemma xsum_simps [simp]: "xsum [] = 0" "xsum (x # xs) = x XOR xsum xs" "xsum (xs @ ys) = xsum xs XOR xsum ys"
proof -
  show "xsum [] = 0" "xsum (x # xs) = x XOR xsum xs" for x xs by (simp_all add: xsum_def)
  then show "xsum (xs @ ys) = xsum xs XOR xsum ys" by (induction xs) (simp_all add: xor.assoc)
qed

lemma xsum_xor: "xsum (map (\<lambda>x. f x XOR g x) xs) = xsum (map f xs) XOR xsum (map g xs)"
  by (induction xs) (simp_all add: xor.assoc xor.left_commute)

lemma xsum_mul: "xsum (map (\<lambda>x. gfMul c (f x)) xs) = gfMul c (xsum (map f xs))"
  by (induction xs) (simp_all add: gfMul_xor)

lemma xsum_zero: "(\<And>x. x \<in> set xs \<Longrightarrow> f x = 0) \<Longrightarrow> xsum (map f xs) = 0"
  by (induction xs) auto

lemma xsum_single: "distinct xs \<Longrightarrow> a \<in> set xs \<Longrightarrow> (\<And>x. x \<in> set xs \<Longrightarrow> x \<noteq> a \<Longrightarrow> f x = 0) \<Longrightarrow> xsum (map f xs) = f a"
proof (induction xs)
  case (Cons x xs)
  then show ?case
  proof (cases "x = a")
    case True
    then have "xsum (map f xs) = 0" using Cons.prems by (intro xsum_zero) auto
    then show ?thesis using True by simp
  qed auto
qed simp

lemma xsum_change:
  assumes "distinct xs" "a \<in> set xs" "\<And>x. x \<in> set xs \<Longrightarrow> x \<noteq> a \<Longrightarrow> g x = f x"
  shows "xsum (map g xs) = xsum (map f xs) XOR f a XOR g a"
proof -
  have "xsum (map g xs) XOR xsum (map f xs) = xsum (map (\<lambda>x. g x XOR f x) xs)" by (simp add: xsum_xor)
  also have "\<dots> = g a XOR f a" using assms by (intro xsum_single) auto
  finally have "(xsum (map g xs) XOR xsum (map f xs)) XOR xsum (map f xs) = (g a XOR f a) XOR xsum (map f xs)" by simp
  then show ?thesis by (simp add: xor.assoc xor.commute xor.left_commute)
qed

lemma xsum_cong: "(\<And>x. x \<in> set xs \<Longrightarrow> f x = g x) \<Longrightarrow> xsum (map f xs) = xsum (map g xs)"
  by (metis map_cong)

text \<open>
  What a repair asserts of the source symbols \<^verbatim>\<open>src\<close>: byte for byte it is the combination
  of the symbols of its window, none of which is longer than it.
\<close>

definition repair_holds :: "(u32 \<Rightarrow> bytes) \<Rightarrow> RepairSymbol \<Rightarrow> bool" where
  "repair_holds src r \<longleftrightarrow>
     (\<forall>k. byte_at (Vector r) k =
        xsum (map (\<lambda>i. gfMul (windowCoefficient (RID r) i) (byte_at (src (First r + of_nat i)) k)) [0..<nat (Count r)]))
     \<and> (\<forall>i<nat (Count r). length (src (First r + of_nat i)) \<le> length (Vector r))"

lemma repair_len_max:
  "vlen \<le> repair_len e first is vlen \<and> (\<forall>i\<in>set is. length (ring_at e (first + of_nat i)) \<le> repair_len e first is vlen)"
proof (induction e first "is" vlen rule: repair_len.induct)
  case (2 e first i "is" vlen)
  then show ?case by (cases "length (ring_at e (first + of_nat i)) > vlen") (auto simp: Let_def)
qed simp

lemma repair_sum_spec:
  "\<forall>i\<in>set is. length (ring_at e (first + of_nat i)) \<le> length v \<Longrightarrow>
     length (repair_sum e rid first is v) = length v
     \<and> byte_at (repair_sum e rid first is v) k = byte_at v k XOR
        xsum (map (\<lambda>i. gfMul (windowCoefficient rid i) (byte_at (ring_at e (first + of_nat i)) k)) is)"
proof (induction e rid first "is" v rule: repair_sum.induct)
  case (2 e rid first i "is" v)
  then show ?case by (simp add: byte_at_addScaled xor.assoc)
qed simp

section \<open>The ring holds the newest symbols\<close>

text \<open>
  The history of the stream is the list of all symbols added; identifiers count from zero
  and wrap at \<^verbatim>\<open>2^32\<close>.
\<close>

definition enc_ok :: "bytes list \<Rightarrow> WindowEncoder \<Rightarrow> bool" where
  "enc_ok hist e \<longleftrightarrow>
     (\<exists>b\<le>8. length (ring e) = 2 ^ b) \<and> emask e = of_nat (length (ring e) - 1)
     \<and> enext e = of_nat (length hist) \<and> held e \<le> length hist \<and> held e \<le> length (ring e)
     \<and> efirst e = enext e - of_nat (held e)
     \<and> (\<forall>i<held e. ring_at e (of_nat (length hist - held e + i)) = hist ! (length hist - held e + i))"

lemma mask_index: "unat ((w :: u32) AND of_nat (2 ^ b - 1)) = unat w mod 2 ^ b" if "b \<le> 31"
proof -
  have "(of_nat (2 ^ b - 1) :: u32) = mask b" by (simp add: mask_eq_exp_minus_1 of_nat_diff)
  then show ?thesis unfolding take_bit_eq_mask [symmetric]
    by (simp only: take_bit_eq_mask [symmetric] unsigned_take_bit_eq) (simp add: take_bit_eq_mod)
qed


lemma unat_add_mod: "b \<le> 31 \<Longrightarrow> unat (w + of_nat j :: u32) mod 2 ^ b = (unat w + j) mod 2 ^ b"
proof -
  assume "b \<le> 31"
  then have "(2 :: nat) ^ b dvd 2 ^ 32" by (intro le_imp_power_dvd) simp
  then show ?thesis by (simp add: unat_word_ariths unat_of_nat mod_mod_cancel mod_add_right_eq)
qed

lemma unat_of_nat_mod: "b \<le> 31 \<Longrightarrow> unat (of_nat m :: u32) mod 2 ^ b = m mod 2 ^ b"
  using unat_add_mod [of b 0 m] by simp

lemma near_residues: "m < n \<Longrightarrow> n - m < L \<Longrightarrow> m mod L \<noteq> n mod L" for m n L :: nat
  by (metis dvd_imp_le diff_is_0_eq' leD less_imp_le_nat mod_eq_dvd_iff_nat not_le zero_less_diff)

lemma round_up_power:
  assumes "n \<le> 256" "a \<le> 8"
  shows "\<exists>b\<le>8. round_up_loop (2 ^ a) n = 2 ^ b \<and> (n \<le> 2 ^ b)"
  using assms(2)
proof (induction "8 - a" arbitrary: a)
  case 0
  then have "a = 8" by simp
  then show ?case using assms(1) by (auto simp: round_up_loop.simps [of 256])
next
  case (Suc m)
  then have a: "m = 8 - Suc a" "Suc a \<le> 8" by auto
  from Suc.hyps(1) [OF this] have "\<exists>b\<le>8. round_up_loop (2 * 2 ^ a) n = 2 ^ b \<and> n \<le> 2 ^ b" by simp
  then show ?case using Suc.prems by (auto simp: round_up_loop.simps [of "2 ^ a"] not_less)
qed

lemma roundUp_power: "n \<le> 256 \<Longrightarrow> \<exists>b\<le>8. roundUpPowerOfTwo n = 2 ^ b \<and> (n \<le> 2 ^ b)"
  using round_up_power [of n 0] by (simp add: roundUpPowerOfTwo_def)

lemma keep_loop_spec:
  assumes b: "b \<le> 8" "sz = 2 ^ b" and "keep \<le> sz" "k \<le> keep" "length r = sz"
    and "\<And>j. j < k \<Longrightarrow> r ! ((unat first + j) mod sz) = ring_at e (first + of_nat j)"
  shows "length (keep_loop e sz first [k..<keep] r) = sz
    \<and> (\<forall>j<keep. keep_loop e sz first [k..<keep] r ! ((unat first + j) mod sz) = ring_at e (first + of_nat j))"
  using assms(3-)
proof (induction "keep - k" arbitrary: k r)
  case 0
  then show ?case by simp
next
  case (Suc m)
  let ?i = "(unat first + k) mod sz"
  let ?r = "r[?i := ring_at e (first + of_nat k)]"
  have idx: "unat ((first + of_nat k) AND of_nat (sz - 1)) = ?i"
    using b mask_index [of b "first + of_nat k"] unat_add_mod [of b first k] by simp
  have step: "keep_loop e sz first [k..<keep] r = keep_loop e sz first [Suc k..<keep] ?r"
    using Suc.hyps(2) idx by (simp add: upt_conv_Cons ring_at_def [symmetric] Let_def)
  have "?r ! ((unat first + j) mod sz) = ring_at e (first + of_nat j)" if "j < Suc k" for j
  proof (cases "j = k")
    case True
    then show ?thesis using Suc.prems(3) b by simp
  next
    case False
    then have "(unat first + j) mod sz \<noteq> ?i"
      using near_residues [of "unat first + j" "unat first + k" sz] that Suc.hyps(2) Suc.prems(1) by simp
    then show ?thesis using Suc.prems(4) that False by simp
  qed
  then show ?case
    using Suc.hyps(1) [of "Suc k" ?r] Suc.hyps(2) Suc.prems step by auto
qed

lemma enc_ok_ring:
  assumes "enc_ok hist e" "m < length hist" "length hist - held e \<le> m"
  shows "ring_at e (of_nat m) = hist ! m"
proof -
  have "m - (length hist - held e) < held e" "length hist - held e + (m - (length hist - held e)) = m"
    using assms(2,3) by auto
  then show ?thesis using assms(1) unfolding enc_ok_def by metis
qed

lemma SetCapacity_ok:
  assumes ok: "enc_ok hist e \<or> e = \<lparr>ring = [], emask = 0, efirst = 0, enext = 0, held = 0\<rparr> \<and> hist = []"
  shows "enc_ok hist (SetCapacity e capacity)"
proof -
  define cap where "cap = (if capacity > MaxRepairWindow then MaxRepairWindow else capacity)"
  have "cap \<le> 256" by (simp add: cap_def MaxRepairWindow_def MaxShards_def)
  from roundUp_power [OF this] obtain b where b: "b \<le> 8" "roundUpPowerOfTwo cap = 2 ^ b" by blast
  let ?sz = "2 ^ b :: nat"
  define keep where "keep = min (held e) ?sz"
  let ?first = "enext e - of_nat keep"
  let ?ring = "keep_loop e ?sz ?first [0..<keep] (replicate ?sz [])"
  have nxt: "enext e = of_nat (length hist)" and le: "held e \<le> length hist" using ok by (auto simp: enc_ok_def)
  have first: "?first = of_nat (length hist - keep)"
    using nxt le by (simp add: keep_def of_nat_diff)
  have kept: "ring_at e (of_nat (length hist - keep + j)) = hist ! (length hist - keep + j)" if "j < keep" for j
  proof -
    have "enc_ok hist e" using ok that by (auto simp: keep_def)
    then show ?thesis using that le by (intro enc_ok_ring) (auto simp: keep_def)
  qed
  have loop: "length ?ring = ?sz" "\<And>j. j < keep \<Longrightarrow> ?ring ! ((unat ?first + j) mod ?sz) = ring_at e (?first + of_nat j)"
    using keep_loop_spec [OF b(1) refl, of keep 0 "replicate ?sz []" ?first e] by (auto simp: keep_def)
  show ?thesis
  proof (cases "?sz = length (ring e)")
    case True
    then have "SetCapacity e capacity = e" "enc_ok hist e"
      using ok b by (auto simp: SetCapacity_def Let_def cap_def [symmetric])
    then show ?thesis by simp
  next
    case False
    let ?e = "e\<lparr>ring := ?ring, emask := of_nat (?sz - 1), efirst := ?first, held := keep\<rparr>"
    have new: "SetCapacity e capacity = ?e"
      using False b by (simp add: SetCapacity_def Let_def cap_def [symmetric] keep_def min_def)
    have at: "ring_at ?e (of_nat (length hist - keep + j)) = hist ! (length hist - keep + j)" if "j < keep" for j
    proof -
      have "ring_at ?e (?first + of_nat j) = ?ring ! ((unat ?first + j) mod ?sz)"
        using b mask_index [of b "?first + of_nat j"] unat_add_mod [of b ?first j] by (simp add: ring_at_def)
      also have "\<dots> = ring_at e (?first + of_nat j)" by (rule loop(2) [OF that])
      also have "?first + of_nat j = of_nat (length hist - keep + j)" by (simp add: first)
      finally show ?thesis using kept [OF that] by simp
    qed
    show ?thesis unfolding new enc_ok_def using b(1) loop(1) nxt le at by (auto simp: keep_def)
  qed
qed

lemma NewWindowEncoder_ok: "enc_ok [] (NewWindowEncoder capacity)"
  unfolding NewWindowEncoder_def by (rule SetCapacity_ok) simp

lemma enc_Add_ok:
  assumes ok: "enc_ok hist e" and add: "enc_Add e v = (e', esi)"
  shows "enc_ok (hist @ [v]) e'" "esi = of_nat (length hist)"
proof -
  obtain b where b: "b \<le> 8" "length (ring e) = 2 ^ b" using ok by (auto simp: enc_ok_def)
  let ?n = "length hist" and ?L = "2 ^ b :: nat"
  have e: "emask e = of_nat (?L - 1)" "enext e = of_nat ?n" "held e \<le> ?n" "held e \<le> ?L"
    "efirst e = enext e - of_nat (held e)"
    using ok b by (auto simp: enc_ok_def)
  have idx: "unat (of_nat m AND emask e) = m mod ?L" for m
    using b mask_index [of b "of_nat m"] unat_of_nat_mod [of b m] e(1) by simp
  let ?ring = "(ring e)[?n mod ?L := v]"
  have at: "?ring ! (m mod ?L) = (hist @ [v]) ! m" if "m \<le> ?n" "?n - m < ?L" "?n - held e \<le> m" for m
  proof (cases "m = ?n")
    case True
    then show ?thesis using b by simp
  next
    case False
    then have "m mod ?L \<noteq> ?n mod ?L" using near_residues [of m ?n ?L] that by simp
    moreover have "ring_at e (of_nat m) = hist ! m" using False that by (intro enc_ok_ring [OF ok]) auto
    ultimately show ?thesis using False that by (simp add: ring_at_def idx nth_append)
  qed
  show "esi = of_nat ?n" using add e(2) by (simp add: enc_Add_def Let_def split: if_splits)
  show "enc_ok (hist @ [v]) e'"
  proof (cases "held e < ?L")
    case True
    then have "e' = e\<lparr>enext := enext e + 1, ring := ?ring, held := held e + 1\<rparr>"
      using add b idx e(2) by (auto simp: enc_Add_def Let_def)
    moreover have "(ring e)[?n mod ?L := v] ! unat (of_nat (length (hist @ [v]) - Suc (held e) + i) AND emask e)
        = (hist @ [v]) ! (length (hist @ [v]) - Suc (held e) + i)" if "i < Suc (held e)" for i
      unfolding idx using that True e(3) by (intro at) auto
    ultimately show ?thesis
      using True b e(1-3,5) by (simp add: enc_ok_def ring_at_def)
  next
    case False
    then have "e' = e\<lparr>enext := enext e + 1, ring := ?ring, efirst := efirst e + 1\<rparr>" "held e = ?L"
      using add b idx e(2,4) by (auto simp: enc_Add_def Let_def)
    moreover have "(ring e)[?n mod ?L := v] ! unat (of_nat (length (hist @ [v]) - ?L + i) AND emask e)
        = (hist @ [v]) ! (length (hist @ [v]) - ?L + i)" if "i < ?L" for i
      unfolding idx using that \<open>held e = ?L\<close> e(3) by (intro at) auto
    ultimately show ?thesis
      using b e(1-3,5) by (simp add: enc_ok_def ring_at_def)
  qed
qed

definition src_of :: "bytes list \<Rightarrow> u32 \<Rightarrow> bytes" where
  "src_of hist esi = (if unat esi < length hist then hist ! unat esi else [])"

lemma src_of_nth: "length hist \<le> 2 ^ 32 \<Longrightarrow> m < length hist \<Longrightarrow> src_of hist (of_nat m) = hist ! m"
  by (simp add: src_of_def unat_of_nat)

lemma enc_Repair_sound:
  assumes ok: "enc_ok hist e" and rep: "enc_Repair e rid count = Some r" and len: "length hist \<le> 2 ^ 32"
  shows "repair_holds (src_of hist) r" "0 < Count r" "Count r \<le> 256" "nat (Count r) \<le> length hist"
    "First r = of_nat (length hist - nat (Count r))" "RID r = rid" "nat (Count r) \<le> held e"
proof -
  define c where "c = nat (Count r)"
  let ?is = "[0..<c]"
  have h: "held e \<noteq> 0" "held e \<le> length hist" "enext e = of_nat (length hist)"
    using rep ok by (auto simp: enc_Repair_def enc_ok_def split: if_splits)
  have pos: "0 < Count r" "Count r \<le> 256" "Count r \<le> int (held e)"
    using rep h(1) by (auto simp: enc_Repair_def MaxRepairWindow_def MaxShards_def Let_def split: if_splits)
  then have c: "Count r = int c" "0 < c" "c \<le> held e" by (simp_all add: c_def)
  have "First r = enext e - of_int (Count r)" "RID r = rid"
    "Vector r = repair_sum e rid (First r) ?is (replicate (repair_len e (First r) ?is 0) 0)"
    using rep h(1) unfolding enc_Repair_def Let_def c_def by (auto split: if_splits)
  then have r: "First r = enext e - of_nat c" "RID r = rid"
    "Vector r = repair_sum e rid (First r) ?is (replicate (repair_len e (First r) ?is 0) 0)"
    using c(1) by simp_all
  show first: "First r = of_nat (length hist - nat (Count r))"
    using r(1) h c by (simp add: of_nat_diff)
  show "0 < Count r" "Count r \<le> 256" "RID r = rid" "nat (Count r) \<le> length hist" "nat (Count r) \<le> held e"
    using pos h c r by auto
  have at: "ring_at e (First r + of_nat i) = src_of hist (First r + of_nat i)" if "i < c" for i
  proof -
    have "First r + of_nat i = of_nat (length hist - c + i)" using first c by simp
    moreover have "ring_at e (of_nat (length hist - c + i)) = hist ! (length hist - c + i)"
      using that c h by (intro enc_ok_ring [OF ok]) auto
    moreover have "length hist - c + i < length hist" using that c h by simp
    ultimately show ?thesis using src_of_nth [OF len] by metis
  qed
  have lens: "\<forall>i\<in>set ?is. length (ring_at e (First r + of_nat i)) \<le> length (replicate (repair_len e (First r) ?is 0) (0::u8))"
    using repair_len_max [of 0 e "First r" ?is] by simp
  note spec = repair_sum_spec [OF lens, of rid]
  show "repair_holds (src_of hist) r"
    unfolding repair_holds_def c_def [symmetric]
  proof (intro conjI allI impI)
    fix k
    have "byte_at (Vector r) k = xsum (map (\<lambda>i. gfMul (windowCoefficient rid i) (byte_at (ring_at e (First r + of_nat i)) k)) ?is)"
      using spec [of k] r(3) by (simp add: byte_at_zeros)
    also have "\<dots> = xsum (map (\<lambda>i. gfMul (windowCoefficient (RID r) i) (byte_at (src_of hist (First r + of_nat i)) k)) ?is)"
      using at r(2) by (intro xsum_cong) simp
    finally show "byte_at (Vector r) k
        = xsum (map (\<lambda>i. gfMul (windowCoefficient (RID r) i) (byte_at (src_of hist (First r + of_nat i)) k)) ?is)" .
  next
    fix i assume "i < c"
    then show "length (src_of hist (First r + of_nat i)) \<le> length (Vector r)"
      using lens spec [of 0] r(3) at by auto
  qed
qed

end
