(* ===== verification/FecDecoder.thy ===== *)
theory FecDecoder
  imports FecEncoder
begin

text \<open>
  \<^verbatim>\<open>internal/fec/window.go\<close>, the receiving half: a sliding window of symbol slots and one
  linear system over the byte field in reduced row echelon form. Identifiers wrap at
  \<^verbatim>\<open>2^32\<close> and are compared by signed difference, as in the source.
\<close>

section \<open>State\<close>

record decoderSlot =
  sEsi :: u32
  sVector :: bytes
  sLive :: bool
  sKnown :: bool

record windowRow =
  pivot :: u32
  coef :: bytes
  rdata :: bytes

record WindowDecoder =
  slots :: "decoderSlot list"
  dmask :: u32
  dlo :: u32
  dhigh :: u32
  origin :: u32
  started :: bool
  rows :: "windowRow list"
  recovered :: u64
  lost :: u64
  discarded :: u64

record Delivery =
  Recovered :: "(u32 \<times> bytes) list"
  Lost :: "u32 list"

definition no_delivery :: Delivery where
  "no_delivery = \<lparr>Recovered = [], Lost = []\<rparr>"

definition empty_slot :: decoderSlot where
  "empty_slot = \<lparr>sEsi = 0, sVector = [], sLive = False, sKnown = False\<rparr>"

text \<open>\<^verbatim>\<open>int32(a-b) < 0\<close>: \<^verbatim>\<open>a\<close> is before \<^verbatim>\<open>b\<close> on the circle of identifiers.\<close>

definition before :: "u32 \<Rightarrow> u32 \<Rightarrow> bool" where
  "before a b \<longleftrightarrow> sint (a - b) < 0"

lemma before_iff: "before a b \<longleftrightarrow> unat (a - b) \<ge> 2 ^ 31"
proof -
  have "before a b \<longleftrightarrow> bit (a - b) 31"
    using bit_last_iff [of "a - b"] by (simp add: before_def)
  also have "\<dots> \<longleftrightarrow> bit (unat (a - b)) 31" by (simp add: bit_unsigned_iff)
  also have "\<dots> \<longleftrightarrow> odd (unat (a - b) div 2 ^ 31)" by (rule bit_iff_odd)
  also have "\<dots> \<longleftrightarrow> unat (a - b) \<ge> 2 ^ 31"
  proof -
    have "unat (a - b) < 2 * 2 ^ 31" using unsigned_less [of "a - b", where 'a = nat] by simp
    then have "unat (a - b) div 2 ^ 31 = (if unat (a - b) \<ge> 2 ^ 31 then 1 else 0)"
      by (auto simp: le_div_geq)
    then show ?thesis by simp
  qed
  finally show ?thesis .
qed

lemma before_Suc: "before a b \<Longrightarrow> unat (b - (a + 1)) < unat (b - a)"
proof -
  assume "before a b"
  then have "a \<noteq> b" by (auto simp: before_def)
  then have "b - a \<noteq> 0" by simp
  then have "unat (b - a - 1) < unat (b - a)" using measure_unat [of "b - a"] by simp
  then show ?thesis by (simp add: algebra_simps)
qed

text \<open>\<^verbatim>\<open>for esi := lo; int32(esi-high) < 0; esi++\<close>\<close>

function esis :: "u32 \<Rightarrow> u32 \<Rightarrow> u32 list" where
  "esis esi high = (if before esi high then esi # esis (esi + 1) high else [])"
  by pat_completeness auto
termination
  by (relation "measure (\<lambda>(esi, high). unat (high - esi))") (auto intro: before_Suc)

declare esis.simps [simp del]

section \<open>The linear system\<close>

fun leading_loop :: "u32 \<Rightarrow> bytes \<Rightarrow> u32 list \<Rightarrow> u32 \<times> nat \<Rightarrow> u32 \<times> nat" where
  "leading_loop m cf [] acc = acc"
| "leading_loop m cf (esi # es) (p, n) =
     (if cf ! unat (esi AND m) = 0 then leading_loop m cf es (p, n)
      else leading_loop m cf es (if n = 0 then esi else p, n + 1))"

definition leading :: "WindowDecoder \<Rightarrow> bytes \<Rightarrow> u32 \<times> nat" where
  "leading d cf = leading_loop (dmask d) cf (esis (dlo d) (dhigh d)) (0, 0)"

definition row_substitute :: "nat \<Rightarrow> bytes \<Rightarrow> windowRow \<Rightarrow> windowRow" where
  "row_substitute index vector r =
     (let c = coef r ! index in
      if c = 0 then r
      else r\<lparr>rdata := addScaled c vector (ensure (rdata r) (length vector)), coef := (coef r)[index := 0]\<rparr>)"

definition substitute :: "WindowDecoder \<Rightarrow> Delivery \<Rightarrow> u32 \<Rightarrow> bytes \<Rightarrow> bool \<Rightarrow> WindowDecoder \<times> Delivery" where
  "substitute d out esi vector rec =
     (let index = unat (esi AND dmask d); s = slots d ! index in
      if sLive s \<and> sKnown s \<and> sEsi s = esi then (d, out)
      else
        (let d1 = d\<lparr>slots := (slots d)[index := \<lparr>sEsi = esi, sVector = vector, sLive = True, sKnown = True\<rparr>]\<rparr>;
             (d2, out2) =
               (if rec then (d1\<lparr>recovered := recovered d1 + 1\<rparr>, out\<lparr>Recovered := Recovered out @ [(esi, vector)]\<rparr>)
                else (d1, out))
         in (d2\<lparr>rows := map (row_substitute index vector) (rows d2)\<rparr>, out2)))"

lemma substitute_rows_length [simp]: "length (rows (fst (substitute d out esi v rec))) = length (rows d)"
  by (simp add: substitute_def Let_def)

lemma substitute_len: "(d', out') = substitute d out esi v rec \<Longrightarrow> length (rows d') = length (rows d)"
  by (metis fst_conv substitute_rows_length)

definition remove_at :: "nat \<Rightarrow> 'a list \<Rightarrow> 'a list" where
  "remove_at i xs = take i xs @ drop (i + 1) xs"

lemma length_remove_at: "i < length xs \<Longrightarrow> length (remove_at i xs) = length xs - 1"
  by (simp add: remove_at_def)

function harvest_scan :: "WindowDecoder \<Rightarrow> Delivery \<Rightarrow> nat \<Rightarrow> bool \<Rightarrow> WindowDecoder \<times> Delivery \<times> bool" where
  "harvest_scan d out i progress =
     (if i < length (rows d) then
        (let r = rows d ! i in
         case leading d (coef r) of
           (p, count) \<Rightarrow>
             if count = 0 then harvest_scan (d\<lparr>rows := remove_at i (rows d)\<rparr>) out i progress
             else if count > 1 then harvest_scan d out (i + 1) progress
             else (case substitute (d\<lparr>rows := remove_at i (rows d)\<rparr>) out p (rdata r) True of
                     (d', out') \<Rightarrow> harvest_scan d' out' i True))
      else (d, out, progress))"
  by pat_completeness auto
termination
  by (relation "measure (\<lambda>(d, out, i, progress). length (rows d) - i)")
     (auto simp: length_remove_at dest!: substitute_len)

declare harvest_scan.simps [simp del]

lemma harvest_scan_length:
  "harvest_scan d out i progress = (d', out', progress') \<Longrightarrow>
     length (rows d') \<le> length (rows d) \<and> (progress' \<longrightarrow> progress \<or> length (rows d') < length (rows d))"
proof (induction d out i progress rule: harvest_scan.induct)
  case (1 d out i progress)
  show ?case
  proof (cases "i < length (rows d)")
    case False
    then show ?thesis using "1.prems" by (simp add: harvest_scan.simps [of d])
  next
    case True
    let ?d = "d\<lparr>rows := remove_at i (rows d)\<rparr>" and ?r = "rows d ! i"
    obtain p n where l: "leading d (coef ?r) = (p, n)" by (cases "leading d (coef ?r)")
    obtain d2 out2 where s: "substitute ?d out p (rdata ?r) True = (d2, out2)"
      by (cases "substitute ?d out p (rdata ?r) True")
    have len: "length (rows d2) = length (rows d) - 1"
      using substitute_rows_length [of ?d out p "rdata ?r" True] s True by (simp add: length_remove_at)
    consider "n = 0" | "n > 1" | "n = 1" by linarith
    then show ?thesis
    proof cases
      case 1
      then show ?thesis using "1.IH"(1) [OF True refl l [symmetric]] "1.prems" True l
        by (auto simp: harvest_scan.simps [of d] length_remove_at)
    next
      case 2
      then show ?thesis using "1.IH"(2) [OF True refl l [symmetric]] "1.prems" True l
        by (auto simp: harvest_scan.simps [of d])
    next
      case 3
      then show ?thesis using "1.IH"(3) [OF True refl l [symmetric] _ _ s [symmetric]] "1.prems" True l s len
        by (auto simp: harvest_scan.simps [of d])
    qed
  qed
qed

function harvest :: "WindowDecoder \<Rightarrow> Delivery \<Rightarrow> WindowDecoder \<times> Delivery" where
  "harvest d out =
     (case harvest_scan d out 0 False of
        (d', out', progress) \<Rightarrow> if progress then harvest d' out' else (d', out'))"
  by pat_completeness auto
termination
  by (relation "measure (\<lambda>(d, out). length (rows d))") (auto dest: harvest_scan_length [OF sym])

declare harvest.simps [simp del]

fun known_loop :: "WindowDecoder \<Rightarrow> u32 list \<Rightarrow> bytes \<Rightarrow> bytes \<Rightarrow> bytes \<times> bytes" where
  "known_loop d [] cf data = (cf, data)"
| "known_loop d (esi # es) cf data =
     (let index = unat (esi AND dmask d); s = slots d ! index in
      if cf ! index = 0 then known_loop d es cf data
      else if sLive s \<and> sKnown s
      then known_loop d es (cf[index := 0]) (addScaled (cf ! index) (sVector s) (ensure data (length (sVector s))))
      else known_loop d es cf data)"

fun reduce_loop :: "u32 \<Rightarrow> windowRow list \<Rightarrow> bytes \<Rightarrow> bytes \<Rightarrow> bytes \<times> bytes" where
  "reduce_loop m [] cf data = (cf, data)"
| "reduce_loop m (r # rs) cf data =
     (let c = cf ! unat (pivot r AND m) in
      if c = 0 then reduce_loop m rs cf data
      else reduce_loop m rs (mulSliceXor c (coef r) cf) (addScaled c (rdata r) (ensure data (length (rdata r)))))"

definition clear_pivot :: "nat \<Rightarrow> windowRow \<Rightarrow> windowRow \<Rightarrow> windowRow" where
  "clear_pivot index row r =
     (let c = coef r ! index in
      if c = 0 then r
      else r\<lparr>rdata := addScaled c (rdata row) (ensure (rdata r) (length (rdata row))),
             coef := mulSliceXor c (coef row) (coef r)\<rparr>)"

definition insert_row :: "WindowDecoder \<Rightarrow> bytes \<Rightarrow> bytes \<Rightarrow> Delivery \<Rightarrow> WindowDecoder \<times> Delivery" where
  "insert_row d cf0 data0 out =
     (case known_loop d (esis (dlo d) (dhigh d)) cf0 data0 of
        (cf1, data1) \<Rightarrow>
          (case reduce_loop (dmask d) (rows d) cf1 data1 of
             (cf2, data2) \<Rightarrow>
               (case leading d cf2 of
                  (p, count) \<Rightarrow>
                    if count = 0 then (d\<lparr>discarded := discarded d + 1\<rparr>, out)
                    else
                      (let index = unat (p AND dmask d); f = inv (cf2 ! index);
                           cf3 = (if f \<noteq> 1 then scaleBytes f cf2 else cf2);
                           data3 = (if f \<noteq> 1 then scaleBytes f data2 else data2);
                           row = \<lparr>pivot = p, coef = cf3, rdata = data3\<rparr> in
                       harvest (d\<lparr>rows := map (clear_pivot index row) (rows d) @ [row]\<rparr>) out))))"

section \<open>The window\<close>

definition evict :: "WindowDecoder \<Rightarrow> Delivery \<Rightarrow> u32 \<Rightarrow> WindowDecoder \<times> Delivery" where
  "evict d out esi =
     (let index = unat (esi AND dmask d); s = slots d ! index; isheld = (sLive s \<and> sEsi s = esi);
          (d1, out1) =
            (if \<not> (isheld \<and> sKnown s) \<and> \<not> before esi (origin d)
             then (d\<lparr>lost := lost d + 1\<rparr>, out\<lparr>Lost := Lost out @ [esi]\<rparr>) else (d, out));
          d2 = (if isheld then d1\<lparr>slots := (slots d1)[index := empty_slot]\<rparr> else d1);
          dropped = filter (\<lambda>r. coef r ! index \<noteq> 0) (rows d2)
      in (d2\<lparr>rows := filter (\<lambda>r. coef r ! index = 0) (rows d2),
             discarded := discarded d2 + of_nat (length dropped)\<rparr>, out1))"

lemma evict_bounds [simp]:
  "dlo (fst (evict d out esi)) = dlo d" "dhigh (fst (evict d out esi)) = dhigh d"
  "dmask (fst (evict d out esi)) = dmask d" "origin (fst (evict d out esi)) = origin d"
  "started (fst (evict d out esi)) = started d" "length (slots (fst (evict d out esi))) = length (slots d)"
  by (simp_all add: evict_def Let_def split: prod.splits)

text \<open>
  The walk of \<^verbatim>\<open>admit\<close>: evictions from \<^verbatim>\<open>lo\<close> up to \<^verbatim>\<open>walked\<close> while the window is too wide.
\<close>

function admit_walk :: "WindowDecoder \<Rightarrow> Delivery \<Rightarrow> u32 \<Rightarrow> u32 \<Rightarrow> WindowDecoder \<times> Delivery" where
  "admit_walk d out width walked =
     (if dhigh d - dlo d > width \<and> before (dlo d) walked then
        (case evict d out (dlo d) of
           (d1, out1) \<Rightarrow> admit_walk (d1\<lparr>dlo := dlo d1 + 1\<rparr>) out1 width walked)
      else (d, out))"
  by pat_completeness auto
termination
proof (relation "measure (\<lambda>(d, out, width, walked). unat (walked - dlo d))", goal_cases)
  case (2 d out width walked d1 out1)
  then have "dlo d1 = dlo d" using evict_bounds(1) [of d out "dlo d"] by (metis fst_conv)
  then show ?case using 2 before_Suc [of "dlo d" walked] by simp
qed simp

declare admit_walk.simps [simp del]

definition admit :: "WindowDecoder \<Rightarrow> Delivery \<Rightarrow> u32 \<Rightarrow> WindowDecoder \<times> Delivery \<times> bool" where
  "admit d out esi =
     (let width = of_nat (length (slots d)) in
      if \<not> started d then
        (d\<lparr>started := True, origin := esi, dhigh := esi + 1, dlo := esi + 1 - width\<rparr>, out, True)
      else if before esi (dlo d) then (d, out, False)
      else if \<not> before esi (dhigh d) then
        (case admit_walk (d\<lparr>dhigh := esi + 1\<rparr>) out width (dlo d + width) of
           (d1, out1) \<Rightarrow>
             (if dhigh d1 - dlo d1 > width then d1\<lparr>dlo := dhigh d1 - width\<rparr> else d1, out1, True))
      else (d, out, True))"

definition witness :: "WindowDecoder \<Rightarrow> u32 \<Rightarrow> WindowDecoder" where
  "witness d esi =
     (if started d \<and> before esi (origin d) \<and> \<not> before esi (dlo d) then d\<lparr>origin := esi\<rparr> else d)"

fun resize_slots :: "WindowDecoder \<Rightarrow> u32 \<Rightarrow> u32 list \<Rightarrow> decoderSlot list \<Rightarrow> decoderSlot list" where
  "resize_slots d m [] sl = sl"
| "resize_slots d m (esi # es) sl =
     (let s = slots d ! unat (esi AND dmask d) in
      resize_slots d m es (if sLive s \<and> sEsi s = esi then sl[unat (esi AND m) := s] else sl))"

fun resize_coef :: "WindowDecoder \<Rightarrow> u32 \<Rightarrow> bytes \<Rightarrow> u32 list \<Rightarrow> bytes \<Rightarrow> bytes" where
  "resize_coef d m old [] cf = cf"
| "resize_coef d m old (esi # es) cf =
     resize_coef d m old es (cf[unat (esi AND m) := old ! unat (esi AND dmask d)])"

definition resize :: "WindowDecoder \<Rightarrow> int \<Rightarrow> WindowDecoder" where
  "resize d width =
     (let sz = roundUpPowerOfTwo width; m = of_nat (sz - 1); es = esis (dlo d) (dhigh d);
          sl = (if started d then resize_slots d m es (replicate sz empty_slot) else replicate sz empty_slot);
          rs = map (\<lambda>r. r\<lparr>coef := resize_coef d m (coef r) es (replicate sz 0)\<rparr>) (rows d);
          d1 = d\<lparr>rows := rs, slots := sl, dmask := m\<rparr>
      in if started d then d1\<lparr>dlo := dhigh d - of_nat sz\<rparr> else d1)"

definition NewWindowDecoder :: WindowDecoder where
  "NewWindowDecoder =
     resize \<lparr>slots = [], dmask = 0, dlo = 0, dhigh = 0, origin = 0, started = False, rows = [],
       recovered = 0, lost = 0, discarded = 0\<rparr> MinDecoderWidth"

section \<open>Arrivals\<close>

definition dec_Source :: "WindowDecoder \<Rightarrow> u32 \<Rightarrow> bytes \<Rightarrow> WindowDecoder \<times> Delivery" where
  "dec_Source d esi vector =
     (case admit d no_delivery esi of
        (d1, out, ok) \<Rightarrow>
          if \<not> ok then (d1, out)
          else
            (let d2 = witness d1 esi; s = slots d2 ! unat (esi AND dmask d2) in
             if sLive s \<and> sKnown s \<and> sEsi s = esi then (d2, out)
             else (case substitute d2 out esi vector False of (d3, out3) \<Rightarrow> harvest d3 out3)))"

fun repair_coef :: "WindowDecoder \<Rightarrow> RepairSymbol \<Rightarrow> nat list \<Rightarrow> bytes \<Rightarrow> bytes" where
  "repair_coef d r [] cf = cf"
| "repair_coef d r (i # is) cf =
     (let esi = First r + of_nat i in
      if before esi (dlo d) \<or> \<not> before esi (dhigh d) then repair_coef d r is cf
      else repair_coef d r is (cf[unat (esi AND dmask d) := windowCoefficient (RID r) i]))"

definition dec_Repair :: "WindowDecoder \<Rightarrow> RepairSymbol \<Rightarrow> WindowDecoder \<times> Delivery" where
  "dec_Repair d r =
     (if Count r \<le> 0 \<or> Vector r = [] then (d, no_delivery)
      else if Count r > MaxRepairWindow then (d\<lparr>discarded := discarded d + 1\<rparr>, no_delivery)
      else
        (case admit d no_delivery (First r + of_int (Count r - 1)) of
           (d1, out, ok) \<Rightarrow>
             if \<not> ok then (d1, out)
             else
               (let d2 = witness d1 (First r) in
                if before (First r) (dlo d2) then (d2\<lparr>discarded := discarded d2 + 1\<rparr>, out)
                else insert_row d2 (repair_coef d2 r [0..<nat (Count r)] (replicate (length (slots d2)) 0))
                       (Vector r) out)))"

end
