(* ===== verification/FecLimits.thy ===== *)
theory FecLimits
  imports FecSound
begin

text \<open>
  How far the decoder of \<^verbatim>\<open>internal/fec/window.go\<close> goes. On in-order arrivals it solves for
  everything its equations determine. With a source symbol that arrives after a repair
  covering it, it can report a wrong symbol: the last theorem computes which one.
\<close>

section \<open>A late source symbol\<close>

lemma new_decoder:
  "NewWindowDecoder = \<lparr>slots = replicate 512 empty_slot, dmask = 511, dlo = 0, dhigh = 0, origin = 0,
     started = False, rows = [], recovered = 0, lost = 0, discarded = 0\<rparr>"
proof -
  have sz: "roundUpPowerOfTwo MinDecoderWidth = 512"
    by (simp add: roundUpPowerOfTwo_def MinDecoderWidth_def MaxRepairWindow_def MaxShards_def round_up_loop.simps)
  show ?thesis by (simp add: NewWindowDecoder_def resize_def sz Let_def)
qed

lemma known_loop_dead:
  "dmask d = 511 \<Longrightarrow> \<forall>j<512. \<not> sLive (slots d ! j) \<Longrightarrow> known_loop d es cf data = (cf, data)"
proof (induction d es cf data rule: known_loop.induct)
  case (2 d e es cf data)
  have "unat (e AND dmask d) = idx e" by (simp add: "2.prems"(1) idx_def)
  then show ?case using 2 by (simp add: Let_def)
qed simp

text \<open>The window that ends just after the two identifiers \<^verbatim>\<open>f\<close> and \<^verbatim>\<open>f + 1\<close>.\<close>

lemma leading_tail:
  assumes "dmask d = 511" "dhigh d = f + 2" "dlo d = f + 2 - 512"
    and "\<And>j. j < 512 \<Longrightarrow> j \<noteq> idx f \<Longrightarrow> j \<noteq> idx (f + 1) \<Longrightarrow> cf ! j = 0" "cf ! idx (f + 1) \<noteq> 0"
  shows "leading d cf = (if cf ! idx f \<noteq> 0 then (f, 2) else (f + 1, 1))"
proof -
  let ?lo = "f + 2 - 512"
  have "?lo + of_nat 512 = f + 2" by simp
  then have "esis ?lo (f + 2) = map (\<lambda>i. ?lo + of_nat i) [0..<512]" using esis_window [of 512 ?lo] by (simp add: add.commute)
  also have "[0..<512] = [0..<510] @ [510..<512]" using upt_add_eq_append [of 0 510 2] by simp
  also have "[510..<512] = [510, 511 :: nat]" by (simp add: upt_rec)
  finally have es: "esis ?lo (f + 2) = map (\<lambda>i. ?lo + of_nat i) [0..<510] @ [f, f + 1]" by simp
  have "cf ! idx (?lo + of_nat i) = 0" if i: "i < 510" for i
  proof -
    have w: "unat (of_nat n :: u32) = n" if "n < 512" for n using that by (simp add: unat_of_nat)
    have in_w: "?lo + of_nat n - ?lo < 512" if "n < 512" for n using w [OF that] that by (simp add: word_less_nat_alt)
    have ne: "?lo + of_nat i \<noteq> ?lo + of_nat n" if "n < 512" "i \<noteq> n" for n
      using w [of i] w [OF that(1)] that(2) i by auto
    have no: "idx (?lo + of_nat i) \<noteq> idx (?lo + of_nat n)" if "n < 512" "i \<noteq> n" for n
      using idx_inj [OF in_w in_w, of i n] ne [OF that] that(1) i by auto
    have at: "?lo + of_nat 510 = f" "?lo + of_nat 511 = f + 1" by simp_all
    show ?thesis using no [of 510] no [of 511] assms(4) i unfolding at by (simp add: idx_less)
  qed
  then have "filter (\<lambda>e. cf ! idx e \<noteq> 0) (esis ?lo (f + 2)) = filter (\<lambda>e. cf ! idx e \<noteq> 0) [f, f + 1]"
    unfolding es by (simp add: filter_empty_conv)
  then show ?thesis
    using assms(5) unfolding leading_def leading_loop_filter assms(1-3) idx_def [symmetric] by (simp add: Let_def)
qed


lemma late_repair_state:
  assumes c: "Count r = 2" "Vector r \<noteq> []" and f: "First r = f"
  defines "c0 \<equiv> windowCoefficient (RID r) 0"
  shows "\<exists>d cf. dec_Repair NewWindowDecoder r
      = (d\<lparr>rows := [\<lparr>pivot = f, coef = scaleBytes (inv c0) cf, rdata = scaleBytes (inv c0) (Vector r)\<rparr>]\<rparr>, no_delivery)
    \<and> dmask d = 511 \<and> dhigh d = f + 2 \<and> dlo d = f + 2 - 512 \<and> started d \<and> length (slots d) = 512
    \<and> (\<forall>j<512. \<not> sLive (slots d ! j)) \<and> length cf = 512
    \<and> cf ! idx f = c0 \<and> cf ! idx (f + 1) = windowCoefficient (RID r) 1
    \<and> (\<forall>j<512. j \<noteq> idx f \<longrightarrow> j \<noteq> idx (f + 1) \<longrightarrow> cf ! j = 0)"
proof -
  define d0 where "d0 = NewWindowDecoder\<lparr>started := True, origin := f + 1, dhigh := f + 1 + 1, dlo := f + 1 + 1 - 512\<rparr>"
  define d where "d = witness d0 f"
  define cf where "cf = repair_coef d r [0..<2] (replicate 512 0)"
  let ?row = "\<lparr>pivot = f, coef = scaleBytes (inv c0) cf, rdata = scaleBytes (inv c0) (Vector r)\<rparr>"
  have len: "length (slots NewWindowDecoder) = 512" by (simp add: new_decoder)
  have ad: "admit NewWindowDecoder no_delivery (First r + of_int (Count r - 1)) = (d0, no_delivery, True)"
    using c(1) f NewWindowDecoder_ok(2) len by (simp add: admit_def Let_def d0_def)
  have dd: "dmask d = 511" "dhigh d = f + 2" "dlo d = f + 2 - 512" "started d" "rows d = []"
    "slots d = replicate 512 empty_slot"
    by (simp_all add: d_def d0_def new_decoder)
  have dead: "\<forall>j<512. \<not> sLive (slots d ! j)" by (simp add: dd empty_slot_def)
  have "f + of_nat i - dlo d < 512" if "i < 2" for i
    using that by (auto simp: dd less_2_cases_iff word_less_nat_alt)
  then have span: "\<forall>i\<in>set [0..<2]. First r + of_nat i - dlo d < 512" using f by simp
  have ids: "idx f \<noteq> idx (f + 1)"
    using idx_inj [of f "dlo d" "f + 1"] by (auto simp: dd word_less_nat_alt)
  have two: "[0..<2] = [0, 1 :: nat]" by (simp add: upt_rec)
  have high: "dhigh d = dlo d + 512" by (simp add: dd)
  have cf: "length cf = 512" "cf ! idx f = c0" "cf ! idx (f + 1) = windowCoefficient (RID r) 1"
    "\<And>j. j < 512 \<Longrightarrow> j \<noteq> idx f \<Longrightarrow> j \<noteq> idx (f + 1) \<Longrightarrow> cf ! j = 0"
    using repair_coef_spec [OF dd(1) high _ span, of "replicate 512 0"] f ids
    unfolding cf_def c0_def two by auto
  have nz: "c0 \<noteq> 0" "windowCoefficient (RID r) 1 \<noteq> 0" by (simp_all add: c0_def windowCoefficient_nonzero)
  have lead: "leading d cf = (f, 2)"
    using leading_tail [OF dd(1-3), of cf] cf nz by simp
  have lead': "leading (d\<lparr>rows := [?row]\<rparr>) (coef ?row) = (f, 2)"
    using leading_tail [of "d\<lparr>rows := [?row]\<rparr>" f "coef ?row"] dd(1-3) cf nz inv_nonzero by (simp add: nth_scaleBytes)
  have scan1: "harvest_scan (d\<lparr>rows := [?row]\<rparr>) no_delivery 1 False = (d\<lparr>rows := [?row]\<rparr>, no_delivery, False)"
    by (simp add: harvest_scan.simps)
  have scan: "harvest_scan (d\<lparr>rows := [?row]\<rparr>) no_delivery 0 False = (d\<lparr>rows := [?row]\<rparr>, no_delivery, False)"
    using lead' scan1 by (subst harvest_scan.simps) simp
  have ix: "unat (f AND dmask d) = idx f" by (simp add: dd idx_def)
  have "insert_row d cf (Vector r) no_delivery = (d\<lparr>rows := [?row]\<rparr>, no_delivery)"
    unfolding insert_row_def known_loop_dead [OF dd(1) dead] using lead scan cf(2) ix
    by (simp add: dd(5) Let_def scale_if harvest.simps)
  moreover have "\<not> before f (dlo d)" by (simp add: dd before_iff)
  ultimately have "dec_Repair NewWindowDecoder r = (d\<lparr>rows := [?row]\<rparr>, no_delivery)"
    using c f unfolding dec_Repair_def ad
    by (simp add: d_def [symmetric] cf_def Let_def MaxRepairWindow_def MaxShards_def dd(6))
  then show ?thesis using dd dead cf by (intro exI [of _ d] exI [of _ cf]) auto
qed

lemma isolating_combination_trivial:
  assumes ok: "sys_ok src C lo sl rs" and many: "\<forall>r\<in>set rs. many r" and j: "j < 512"
    and others: "\<forall>k<512. k \<noteq> j \<longrightarrow> xsum (map (\<lambda>i. gfMul (lam i) (coef (rs ! i) ! k)) [0..<length rs]) = 0"
  shows "xsum (map (\<lambda>i. gfMul (lam i) (coef (rs ! i) ! j)) [0..<length rs]) = 0"
proof (rule xsum_zero)
  fix i assume "i \<in> set [0..<length rs]"
  then have i: "i < length rs" by simp
  let ?comb = "\<lambda>k. xsum (map (\<lambda>i. gfMul (lam i) (coef (rs ! i) ! k)) [0..<length rs])"
  have at_pivot: "?comb (idx (pivot (rs ! m))) = lam m" if m: "m < length rs" for m
  proof -
    have "?comb (idx (pivot (rs ! m))) = gfMul (lam m) (coef (rs ! m) ! idx (pivot (rs ! m)))"
      using ok m by (intro xsum_single) (auto simp: sys_ok_def reduced_def)
    then show ?thesis using ok m by (simp add: sys_ok_def row_ok_def gfMul_commute [of _ 1])
  qed
  show "gfMul (lam i) (coef (rs ! i) ! j) = 0"
  proof (cases "idx (pivot (rs ! i)) = j")
    case False
    then have "lam i = 0" using at_pivot [OF i] others by simp
    then show ?thesis by simp
  next
    case True
    obtain k where k: "k < 512" "k \<noteq> j" "coef (rs ! i) ! k \<noteq> 0"
      using many i j unfolding many_def by (metis nth_mem)
    have "lam m = 0" if "m < length rs" "m \<noteq> i" for m
    proof -
      have "coef (rs ! i) ! idx (pivot (rs ! m)) = 0" using ok that i by (auto simp: sys_ok_def reduced_def)
      moreover have "coef (rs ! i) ! j = 1" using ok i True by (auto simp: sys_ok_def row_ok_def)
      ultimately have "idx (pivot (rs ! m)) \<noteq> j" by auto
      then show ?thesis using at_pivot [OF that(1)] others by simp
    qed
    then have "?comb k = gfMul (lam i) (coef (rs ! i) ! k)" using i by (intro xsum_single) auto
    then have "gfMul (lam i) (coef (rs ! i) ! k) = 0" using others k by simp
    then have "lam i = 0" using k(3) by simp
    then show ?thesis by simp
  qed
qed

text \<open>
  C18: nothing the receiver could solve for is left unsolved. After any in-order arrivals, a
  linear combination of the equations the decoder still holds that involves one unknown
  involves a second one, so none of them isolates a symbol.
\<close>

theorem decoder_leaves_nothing_solvable:
  assumes "in_order {} received" "\<forall>a\<in>set received. truthful src a" "decode NewWindowDecoder received = (d, recs)"
    and "j < 512" "xsum (map (\<lambda>i. gfMul (lam i) (coef (rows d ! i) ! j)) [0..<length (rows d)]) \<noteq> 0"
  shows "\<exists>k<512. k \<noteq> j \<and> xsum (map (\<lambda>i. gfMul (lam i) (coef (rows d ! i) ! k)) [0..<length (rows d)]) \<noteq> 0"
proof -
  obtain C where "dec_ok src C d" using decode_ok [OF NewWindowDecoder_ok(1) assms(1-3)] by blast
  then have ok: "sys_ok src C (dlo d) (slots d) (rows d)" and many: "\<forall>r\<in>set (rows d). many r"
    by (auto simp: dec_ok_def)
  show ?thesis using isolating_combination_trivial [OF ok many assms(4), of lam] assms(5) by blast
qed

text \<open>A repair over two symbols, of three bytes and of two, and what it was made from.\<close>

definition demo_repair :: RepairSymbol where
  "demo_repair = \<lparr>RID = 7, First = 0, Count = 2, Vector = [32, 64, 96]\<rparr>"

definition demo_src :: "u32 \<Rightarrow> bytes" where
  "demo_src e = (if e = 0 then [1, 2, 3] else if e = 1 then [10, 20, 30] else [])"

lemma demo_coefficients: "windowCoefficient 7 0 = 111" "windowCoefficient 7 1 = 214"
  by code_simp+

lemma demo_products:
  "gfMul 111 1 XOR gfMul 214 10 = 32" "gfMul 111 2 XOR gfMul 214 20 = 64" "gfMul 111 3 XOR gfMul 214 30 = 96"
  "gfMul (gfMul (GF256.inv 111) 214) 10 = 15"
  by code_simp+

lemma demo_repair_holds: "repair_holds demo_src demo_repair"
proof -
  have two: "[0..<2] = [0, 1 :: nat]" by (simp add: upt_rec)
  have "byte_at [32, 64, 96] k = gfMul 111 (byte_at [1, 2, 3] k) XOR gfMul 214 (byte_at [10, 20, 30] k)" for k
    using demo_products(1-3) by (auto simp: byte_at_def less_Suc_eq numeral_3_eq_3)
  then show ?thesis
    using demo_coefficients by (simp add: repair_holds_def demo_repair_def demo_src_def two less_Suc_eq numeral_2_eq_2)
qed

theorem decoder_leaves_nothing_solvable_witness:
  "\<exists>d. decode NewWindowDecoder [ARepair demo_repair] = (d, []) \<and> length (rows d) = 1
     \<and> coef (rows d ! 0) ! 0 \<noteq> 0 \<and> (\<exists>k<512. k \<noteq> 0 \<and> coef (rows d ! 0) ! k \<noteq> 0)"
proof -
  obtain d cf where st: "dec_Repair NewWindowDecoder demo_repair
      = (d\<lparr>rows := [\<lparr>pivot = 0, coef = scaleBytes (GF256.inv 111) cf, rdata = scaleBytes (GF256.inv 111) [32, 64, 96]\<rparr>]\<rparr>,
         no_delivery)" "length cf = 512" "cf ! 0 = 111"
    using late_repair_state [of demo_repair 0] demo_coefficients by (auto simp: demo_repair_def idx_def)
  let ?d = "d\<lparr>rows := [\<lparr>pivot = 0, coef = scaleBytes (GF256.inv 111) cf, rdata = scaleBytes (GF256.inv 111) [32, 64, 96]\<rparr>]\<rparr>"
  have dec: "decode NewWindowDecoder [ARepair demo_repair] = (?d, [])" using st(1) by (simp add: no_delivery_def)
  have at0: "coef (rows ?d ! 0) ! 0 \<noteq> 0" using st(2,3) inv_nonzero [of 111] by (simp add: nth_scaleBytes)
  have "\<exists>k<512. k \<noteq> 0 \<and> xsum (map (\<lambda>i. gfMul 1 (coef (rows ?d ! i) ! k)) [0..<length (rows ?d)]) \<noteq> 0"
    by (rule decoder_leaves_nothing_solvable [OF _ _ dec, of demo_src])
       (use at0 demo_repair_holds in \<open>simp_all add: demo_repair_def\<close>)
  then show ?thesis using dec at0 by (intro exI [of _ ?d]) simp
qed

text \<open>
  C19: when a source symbol arrives after a repair that covers it, the decoder can report a
  wrong symbol. Given a true repair over two symbols and then, late, the first of them, it
  reports for the second symbol not the symbol but a multiple of it: the quotient of the two
  coefficients times every byte. Substituting the pivot of a row leaves the row with a
  coefficient other than one, and the constant term is taken for the symbol as it is.
\<close>

theorem late_source_misrecovers:
  assumes "repair_holds src r" "Count r = 2" "Vector r \<noteq> []" "First r = f"
  shows "\<exists>d w. decode NewWindowDecoder [ARepair r, ASource f (src f)] = (d, [(f + 1, w)])
    \<and> (\<forall>k. byte_at w k =
         gfMul (gfMul (inv (windowCoefficient (RID r) 0)) (windowCoefficient (RID r) 1)) (byte_at (src (f + 1)) k))"
proof -
  let ?c0 = "windowCoefficient (RID r) 0" and ?c1 = "windowCoefficient (RID r) 1"
  obtain d cf where st: "dec_Repair NewWindowDecoder r
      = (d\<lparr>rows := [\<lparr>pivot = f, coef = scaleBytes (inv ?c0) cf, rdata = scaleBytes (inv ?c0) (Vector r)\<rparr>]\<rparr>, no_delivery)"
    "dmask d = 511" "dhigh d = f + 2" "dlo d = f + 2 - 512" "started d" "length (slots d) = 512"
    "\<forall>j<512. \<not> sLive (slots d ! j)" "length cf = 512" "cf ! idx f = ?c0" "cf ! idx (f + 1) = ?c1"
    "\<forall>j<512. j \<noteq> idx f \<longrightarrow> j \<noteq> idx (f + 1) \<longrightarrow> cf ! j = 0"
    using late_repair_state [OF assms(2-4)] by blast
  define row where "row = \<lparr>pivot = f, coef = scaleBytes (inv ?c0) cf, rdata = scaleBytes (inv ?c0) (Vector r)\<rparr>"
  define d1 where "d1 = witness (d\<lparr>rows := [row]\<rparr>) f"
  have nz: "?c0 \<noteq> 0" "?c1 \<noteq> 0" by (simp_all add: windowCoefficient_nonzero)
  have ids: "idx f \<noteq> idx (f + 1)" using idx_inj [of f "dlo d" "f + 1"] by (auto simp: st(4) word_less_nat_alt)
  have one: "coef row ! idx f = 1" using st(8,9) nz by (simp add: row_def nth_scaleBytes gfMul_inv)
  define w where "w = addScaled 1 (src f) (ensure (rdata row) (length (src f)))"
  define row' where "row' = row\<lparr>rdata := w, coef := (coef row)[idx f := 0]\<rparr>"
  have sub_row: "row_substitute (idx f) (src f) row = row'"
    using one by (simp add: row_substitute_def row'_def w_def)
  let ?slot = "\<lparr>sEsi = f, sVector = src f, sLive = True, sKnown = True\<rparr>"
  let ?d2 = "d1\<lparr>slots := (slots d)[idx f := ?slot], rows := [row']\<rparr>"
  have d1: "dmask d1 = 511" "dhigh d1 = f + 2" "dlo d1 = f + 2 - 512" "slots d1 = slots d" "rows d1 = [row]"
    by (simp_all add: d1_def st)
  have ix: "unat (f AND dmask d1) = idx f" by (simp add: d1 idx_def)
  have ad: "admit (d\<lparr>rows := [row]\<rparr>) no_delivery f = (d\<lparr>rows := [row]\<rparr>, no_delivery, True)"
    using st(3-5) before_window [of 2 f] by (simp add: admit_def Let_def before_iff [of f "f - 510"])
  have sub: "substitute d1 no_delivery f (src f) False = (?d2, no_delivery)"
    using st(7) sub_row unfolding substitute_def Let_def ix by (simp add: d1)
  have lead: "leading ?d2 (coef row') = (f + 1, 1)"
    using leading_tail [of ?d2 f "coef row'"] d1 st(8,10,11) ids nz inv_nonzero
    by (simp add: row'_def row_def nth_scaleBytes)
  define d3 where "d3 = ?d2\<lparr>slots := (slots ?d2)[idx (f + 1) := \<lparr>sEsi = f + 1, sVector = w, sLive = True, sKnown = True\<rparr>],
      recovered := recovered ?d2 + 1, rows := []\<rparr>"
  have ix1: "unat ((f + 1) AND dmask d1) = idx (f + 1)" by (simp add: d1 idx_def)
  have sub1: "substitute (?d2\<lparr>rows := []\<rparr>) no_delivery (f + 1) w True = (d3, no_delivery\<lparr>Recovered := [(f + 1, w)]\<rparr>)"
    using st(7) ids ix1 by (simp add: substitute_def Let_def d3_def no_delivery_def)
  have end_scan: "harvest_scan d3 out 0 p = (d3, out, p)" for out p by (simp add: harvest_scan.simps d3_def)
  have scan: "harvest_scan ?d2 no_delivery 0 False = (d3, no_delivery\<lparr>Recovered := [(f + 1, w)]\<rparr>, True)"
    using lead sub1 end_scan by (subst harvest_scan.simps) (simp add: remove_at_def row'_def)
  have harv: "harvest ?d2 no_delivery = (d3, no_delivery\<lparr>Recovered := [(f + 1, w)]\<rparr>)"
    using scan end_scan by (subst harvest.simps) (simp add: harvest.simps)
  have "dec_Source (d\<lparr>rows := [row]\<rparr>) f (src f) = (d3, no_delivery\<lparr>Recovered := [(f + 1, w)]\<rparr>)"
    unfolding dec_Source_def ad using st(7) sub harv by (simp add: d1_def [symmetric] Let_def ix d1(4))
  then have "decode NewWindowDecoder [ARepair r, ASource f (src f)] = (d3, [(f + 1, w)])"
    using st(1) by (simp add: row_def)
  moreover have "byte_at w k = gfMul (gfMul (inv ?c0) ?c1) (byte_at (src (f + 1)) k)" for k
  proof -
    have "byte_at (Vector r) k = gfMul ?c0 (byte_at (src f) k) XOR gfMul ?c1 (byte_at (src (f + 1)) k)"
      using assms by (simp add: repair_holds_def upt_rec)
    then have "byte_at (rdata row) k
        = byte_at (src f) k XOR gfMul (gfMul (inv ?c0) ?c1) (byte_at (src (f + 1)) k)"
      using nz by (simp add: row_def byte_at_scaleBytes gfMul_xor gfMul_assoc [symmetric] gfMul_inv)
    then show ?thesis by (simp add: w_def byte_at_addScaled xor.commute xor.left_commute)
  qed
  ultimately show ?thesis by blast
qed

text \<open>The second symbol of the demonstration is reported as 15, 30, 17 and not 10, 20, 30.\<close>

theorem late_source_misrecovers_witness:
  "\<exists>d w. decode NewWindowDecoder [ARepair demo_repair, ASource 0 [1, 2, 3]] = (d, [(1, w)])
     \<and> byte_at w 0 = 15 \<and> byte_at (demo_src 1) 0 = 10"
proof -
  obtain d w where "decode NewWindowDecoder [ARepair demo_repair, ASource 0 (demo_src 0)] = (d, [(0 + 1, w)])"
    and "byte_at w 0 = gfMul (gfMul (GF256.inv (windowCoefficient (RID demo_repair) 0)) (windowCoefficient (RID demo_repair) 1))
         (byte_at (demo_src (0 + 1)) 0)"
    using late_source_misrecovers [OF demo_repair_holds, of 0] by (auto simp: demo_repair_def)
  then show ?thesis
    using demo_coefficients demo_products(4) by (auto simp: demo_src_def demo_repair_def byte_at_def)
qed

end
