(* ===== verification/Stripe.thy ===== *)
theory Stripe
  imports Prelude
begin

text \<open>
  \<^verbatim>\<open>internal/stripe/stripe.go\<close>: the self-pacing scheduler that hands chunks of one byte
  stream to lanes. A chunk is a heap object that the ready set and the table of outstanding
  chunks may both point to, so the model keeps a store of chunks and the two structures
  hold addresses. Every critical section is one function; the blocking calls are one
  iteration of their loops. The condition variables are broadcast counters, the releases
  made to the shared memory budget are recorded in the order they happen. Byte offsets and
  byte counts are natural numbers. The callbacks of \<^verbatim>\<open>Config\<close> (retention, windows,
  reliability, clock) are arguments: their answers during one critical section. The
  iteration order of the Go map of outstanding chunks is an argument, too.
\<close>

section \<open>State\<close>

record Config =
  ChunkSize :: int
  LaneWindow :: int
  MaxOutstanding :: int
  MaxOutstandingBytes :: int
  ReliableReissueBurst :: int

record Callbacks =
  Retention :: "int option"
  RetransmitAfter :: "int option"
  ReliableLane :: "(u64 \<Rightarrow> bool) option"
  WindowsLane :: "(u64 \<Rightarrow> nat \<Rightarrow> int) option"
  WindowsTotal :: int
  WindowsOutstanding :: "(u64 \<Rightarrow> nat \<Rightarrow> int) option"
  Now :: int

definition DefaultConfig :: Config where
  "DefaultConfig = \<lparr>ChunkSize = 64 * 1024, LaneWindow = 4, MaxOutstanding = 64,
     MaxOutstandingBytes = 16 * 1024 * 1024, ReliableReissueBurst = 0\<rparr>"

definition applyDefaults :: "Config \<Rightarrow> Config" where
  "applyDefaults c =
     (let d = DefaultConfig;
          c = (if ChunkSize c \<le> 0 then c\<lparr>ChunkSize := ChunkSize d\<rparr> else c);
          c = (if LaneWindow c \<le> 0 then c\<lparr>LaneWindow := LaneWindow d\<rparr> else c);
          c = (if MaxOutstanding c \<le> 0 then c\<lparr>MaxOutstanding := MaxOutstanding d\<rparr> else c);
          c = (if MaxOutstanding c < LaneWindow c then c\<lparr>MaxOutstanding := LaneWindow c\<rparr> else c) in
      if MaxOutstandingBytes c \<le> 0 then c\<lparr>MaxOutstandingBytes := MaxOutstandingBytes d\<rparr> else c)"

record Chunk =
  cReliable :: bool
  cOffset :: nat
  cData :: bytes
  cFinal :: bool
  cUrgent :: bool
  cAttempt :: u64
  cReservation :: int

definition End :: "Chunk \<Rightarrow> nat" where
  "End c = cOffset c + length (cData c)"

text \<open>The zero time, which disables a deadline, is \<^const>\<open>None\<close>.\<close>

record attempt =
  aId :: u64
  aLane :: u64
  aDeadline :: "int option"
  aReliable :: bool
  aWritten :: bool

record outstanding =
  oChunk :: nat
  oAttempts :: "attempt list"

record SchedStats =
  ChunksIssued :: nat
  ChunksRetransmit :: nat
  ChunksCompleted :: nat
  BytesIssued :: nat
  BytesRetransmit :: nat
  LaneFailures :: nat
  SourceBytes :: nat
  PeakOutstanding :: nat
  CompletedByLaneID :: "u64 \<Rightarrow> nat"

datatype read_error = ReadEOF | ReadFailed string
datatype sched_error = ErrClosed | ErrContext string | ErrSource string

record Scheduler =
  sCfg :: Config
  sHeap :: "Chunk list"
  sNext :: nat
  sPending :: "nat list"
  sLive :: "(nat \<times> outstanding) list"
  sLoad :: "u64 \<Rightarrow> nat"
  sBytes :: "u64 \<Rightarrow> nat"
  sQueued :: "u64 \<Rightarrow> nat"
  sTotal :: nat
  sAttempt :: u64
  sEof :: bool
  sErr :: "string option"
  sClosed :: bool
  sFinished :: bool
  sStats :: SchedStats
  sReleases :: "int list"
  sReady :: nat
  sProduced :: nat

definition NewScheduler :: "Config \<Rightarrow> Scheduler" where
  "NewScheduler cfg = \<lparr>sCfg = applyDefaults cfg, sHeap = [], sNext = 0, sPending = [], sLive = [],
     sLoad = (\<lambda>_. 0), sBytes = (\<lambda>_. 0), sQueued = (\<lambda>_. 0), sTotal = 0, sAttempt = 0,
     sEof = False, sErr = None, sClosed = False, sFinished = False,
     sStats = \<lparr>ChunksIssued = 0, ChunksRetransmit = 0, ChunksCompleted = 0, BytesIssued = 0,
       BytesRetransmit = 0, LaneFailures = 0, SourceBytes = 0, PeakOutstanding = 0,
       CompletedByLaneID = (\<lambda>_. 0)\<rparr>,
     sReleases = [], sReady = 0, sProduced = 0\<rparr>"

abbreviation chunk_at :: "Scheduler \<Rightarrow> nat \<Rightarrow> Chunk" where
  "chunk_at s p \<equiv> sHeap s ! p"

abbreviation set_chunk :: "nat \<Rightarrow> Chunk \<Rightarrow> Scheduler \<Rightarrow> Scheduler" where
  "set_chunk p c s \<equiv> s\<lparr>sHeap := (sHeap s)[p := c]\<rparr>"

definition Broadcast :: "Scheduler \<Rightarrow> Scheduler" where
  "Broadcast s = s\<lparr>sReady := Suc (sReady s)\<rparr>"

definition SignalProducer :: "Scheduler \<Rightarrow> Scheduler" where
  "SignalProducer s = s\<lparr>sProduced := Suc (sProduced s)\<rparr>"

fun set_attempts :: "nat \<Rightarrow> attempt list \<Rightarrow> (nat \<times> outstanding) list \<Rightarrow> (nat \<times> outstanding) list" where
  "set_attempts k as [] = []"
| "set_attempts k as ((j, out) # rest) =
     (if j = k then (j, out\<lparr>oAttempts := as\<rparr>) # rest else (j, out) # set_attempts k as rest)"

fun slices_Delete :: "nat \<Rightarrow> 'a list \<Rightarrow> 'a list" where
  "slices_Delete i [] = []"
| "slices_Delete 0 (x # xs) = xs"
| "slices_Delete (Suc i) (x # xs) = x # slices_Delete i xs"

section \<open>Accounting\<close>

definition releaseQueuedLocked :: "Scheduler \<Rightarrow> u64 \<Rightarrow> nat \<Rightarrow> Scheduler" where
  "releaseQueuedLocked s lane n =
     (if sQueued s lane \<ge> n then s\<lparr>sQueued := (sQueued s)(lane := sQueued s lane - n)\<rparr>
      else s\<lparr>sQueued := (sQueued s)(lane := 0)\<rparr>)"

definition releaseLaneLocked :: "Scheduler \<Rightarrow> u64 \<Rightarrow> nat \<Rightarrow> bool \<Rightarrow> Scheduler" where
  "releaseLaneLocked s lane n queued =
     (let s = (if sLoad s lane > 0 then s\<lparr>sLoad := (sLoad s)(lane := sLoad s lane - 1)\<rparr> else s);
          s = (if queued then releaseQueuedLocked s lane n else s);
          (s, n) = (if sBytes s lane \<ge> n then (s\<lparr>sBytes := (sBytes s)(lane := sBytes s lane - n)\<rparr>, n)
                    else (s\<lparr>sBytes := (sBytes s)(lane := 0)\<rparr>, sBytes s lane)) in
      if sTotal s \<ge> n then s\<lparr>sTotal := sTotal s - n\<rparr> else s\<lparr>sTotal := 0\<rparr>)"

fun releaseLanes :: "Scheduler \<Rightarrow> nat \<Rightarrow> attempt list \<Rightarrow> Scheduler" where
  "releaseLanes s n [] = s"
| "releaseLanes s n (a # as) = releaseLanes (releaseLaneLocked s (aLane a) n (\<not> aWritten a)) n as"

definition releaseChunkLocked :: "Scheduler \<Rightarrow> nat \<Rightarrow> Scheduler" where
  "releaseChunkLocked s p =
     (if cReservation (chunk_at s p) = 0 then s
      else (set_chunk p ((chunk_at s p)\<lparr>cReservation := 0\<rparr>) s)
             \<lparr>sReleases := sReleases s @ [cReservation (chunk_at s p)]\<rparr>)"

definition retainedBytes :: "Scheduler \<Rightarrow> nat" where
  "retainedBytes s = foldl (\<lambda>total p. total + length (cData (chunk_at s p))) (sTotal s) (sPending s)"

definition readAheadLimit :: "Scheduler \<Rightarrow> int option \<Rightarrow> int" where
  "readAheadLimit s retention =
     (case retention of
        None \<Rightarrow> MaxOutstandingBytes (sCfg s)
      | Some want \<Rightarrow>
          if want \<le> 0 \<or> want > MaxOutstandingBytes (sCfg s) then MaxOutstandingBytes (sCfg s) else want)"

definition finishedLocked :: "Scheduler \<Rightarrow> string option" where
  "finishedLocked s = (if sErr s \<noteq> None \<and> sPending s = [] \<and> sLive s = [] then sErr s else None)"

definition doneLocked :: "Scheduler \<Rightarrow> bool" where
  "doneLocked s \<longleftrightarrow> sEof s \<and> sPending s = [] \<and> sLive s = []"

definition signalIfDoneLocked :: "Scheduler \<Rightarrow> Scheduler" where
  "signalIfDoneLocked s = (if doneLocked s then s\<lparr>sFinished := True\<rparr> else s)"

section \<open>The producer\<close>

definition produce_blocked :: "Scheduler \<Rightarrow> int option \<Rightarrow> bool" where
  "produce_blocked s retention \<longleftrightarrow>
     \<not> sClosed s
     \<and> (int (length (sPending s)) + int (length (sLive s)) \<ge> MaxOutstanding (sCfg s)
        \<or> int (retainedBytes s) \<ge> readAheadLimit s retention)"

definition produce_acquire_failed :: "Scheduler \<Rightarrow> string \<Rightarrow> Scheduler" where
  "produce_acquire_failed s err =
     (if \<not> sClosed s then Broadcast (s\<lparr>sErr := Some err, sEof := True\<rparr>) else s)"

definition markEOFLocked :: "Scheduler \<Rightarrow> Scheduler" where
  "markEOFLocked s =
     (let s = s\<lparr>sEof := True\<rparr> in
      if sPending s \<noteq> [] then
        (let p = last (sPending s) in set_chunk p ((chunk_at s p)\<lparr>cFinal := True\<rparr>) s)
      else
        s\<lparr>sHeap := sHeap s @ [\<lparr>cReliable = False, cOffset = sNext s, cData = [], cFinal = True,
             cUrgent = False, cAttempt = 0, cReservation = 0\<rparr>],
          sPending := sPending s @ [length (sHeap s)]\<rparr>)"

text \<open>
  The producer after one read: \<^verbatim>\<open>buf\<close> holds the bytes read, \<^verbatim>\<open>err\<close> the error of the read. The
  flag says whether the loop goes on. The reservation of one chunk was acquired before.
\<close>

definition produce_read :: "Scheduler \<Rightarrow> bytes \<Rightarrow> read_error option \<Rightarrow> Scheduler \<times> bool" where
  "produce_read s buf err =
     (let reservation = ChunkSize (sCfg s) in
      if sClosed s then (s\<lparr>sReleases := sReleases s @ [reservation]\<rparr>, False)
      else
        (let s = (if buf \<noteq> [] then
                    s\<lparr>sHeap := sHeap s @ [\<lparr>cReliable = False, cOffset = sNext s, cData = buf, cFinal = False,
                         cUrgent = False, cAttempt = 0, cReservation = reservation\<rparr>],
                      sNext := sNext s + length buf,
                      sStats := (sStats s)\<lparr>SourceBytes := SourceBytes (sStats s) + length buf\<rparr>,
                      sPending := sPending s @ [length (sHeap s)]\<rparr>
                  else s\<lparr>sReleases := sReleases s @ [reservation]\<rparr>) in
         case err of
           None \<Rightarrow> (Broadcast s, True)
         | Some ReadEOF \<Rightarrow> (Broadcast (signalIfDoneLocked (markEOFLocked s)), False)
         | Some (ReadFailed e) \<Rightarrow> (Broadcast (signalIfDoneLocked (s\<lparr>sErr := Some e, sEof := True\<rparr>)), False)))"

section \<open>Handing out chunks\<close>

definition laneRetransmits :: "Callbacks \<Rightarrow> u64 \<Rightarrow> bool" where
  "laneRetransmits cb lane = (case ReliableLane cb of None \<Rightarrow> True | Some f \<Rightarrow> f lane)"

definition retransmitAfter :: "Callbacks \<Rightarrow> int" where
  "retransmitAfter cb = (case RetransmitAfter cb of None \<Rightarrow> 0 | Some d \<Rightarrow> d)"

definition laneHasAttempt :: "outstanding \<Rightarrow> u64 \<Rightarrow> bool" where
  "laneHasAttempt out lane \<longleftrightarrow> (\<exists>a\<in>set (oAttempts out). aLane a = lane)"

definition laneHasReliableAttempt :: "outstanding \<Rightarrow> u64 \<Rightarrow> bool" where
  "laneHasReliableAttempt out lane \<longleftrightarrow> (\<exists>a\<in>set (oAttempts out). aLane a = lane \<and> aReliable a)"

text \<open>\<^verbatim>\<open>windowBytes\<close> is the bound passed by the caller, not positive when there is none.\<close>

definition hasRoomLocked :: "Scheduler \<Rightarrow> Callbacks \<Rightarrow> u64 \<Rightarrow> int \<Rightarrow> nat \<Rightarrow> bool" where
  "hasRoomLocked s cb lane windowBytes n =
     (if sTotal s = 0 then True
      else
        (let n = (if n = 0 then 1 else n); queued = sQueued s lane in
         if WindowsLane cb \<noteq> None \<and> WindowsTotal cb > 0 \<and> int (sTotal s + n) > WindowsTotal cb then False
         else if (case (WindowsLane cb, WindowsOutstanding cb) of
                    (Some _, Some f) \<Rightarrow> f lane (sBytes s lane) > 0 \<and> int (sBytes s lane + n) > f lane (sBytes s lane)
                  | _ \<Rightarrow> False) then False
         else if queued = 0 then True
         else if windowBytes > 0 \<and> int (queued + n) > windowBytes then False
         else if (case WindowsLane cb of
                    None \<Rightarrow> False
                  | Some f \<Rightarrow> f lane queued > 0 \<and> int (queued + n) > f lane queued) then False
         else True))"

fun take_scan :: "Scheduler \<Rightarrow> Callbacks \<Rightarrow> u64 \<Rightarrow> int \<Rightarrow> nat \<Rightarrow> nat list \<Rightarrow> (nat \<times> nat) option" where
  "take_scan s cb lane windowBytes i [] = None"
| "take_scan s cb lane windowBytes i (p # ps) =
     (if \<not> hasRoomLocked s cb lane windowBytes (length (cData (chunk_at s p))) \<and> \<not> cUrgent (chunk_at s p) then None
      else if (case map_of (sLive s) (cOffset (chunk_at s p)) of
                 None \<Rightarrow> False | Some out \<Rightarrow> laneHasReliableAttempt out lane)
        then take_scan s cb lane windowBytes (Suc i) ps
      else Some (i, p))"

definition next_attempt :: "u64 \<Rightarrow> u64" where
  "next_attempt n = (if n + 1 = 0 then n + 1 + 1 else n + 1)"

definition note_peak :: "Scheduler \<Rightarrow> Scheduler" where
  "note_peak s =
     (if length (sLive s) > PeakOutstanding (sStats s)
      then s\<lparr>sStats := (sStats s)\<lparr>PeakOutstanding := length (sLive s)\<rparr>\<rparr> else s)"

text \<open>The part of \<^verbatim>\<open>takeReadyLocked\<close> after the scan: entry \<^verbatim>\<open>i\<close> of the ready set, chunk \<^verbatim>\<open>p\<close>.\<close>

definition dispatch :: "Scheduler \<Rightarrow> Callbacks \<Rightarrow> u64 \<Rightarrow> nat \<Rightarrow> nat \<Rightarrow> Scheduler \<times> Chunk" where
  "dispatch s cb lane i p =
     (let c = chunk_at s p; n = length (cData c);
          s = s\<lparr>sPending := slices_Delete i (sPending s)\<rparr>;
          (s, prior) =
            (case map_of (sLive s) (cOffset c) of
               None \<Rightarrow>
                 (s\<lparr>sLive := sLive s @ [(cOffset c, \<lparr>oChunk = p, oAttempts = []\<rparr>)],
                    sStats := (sStats s)\<lparr>ChunksIssued := ChunksIssued (sStats s) + 1,
                      BytesIssued := BytesIssued (sStats s) + n\<rparr>\<rparr>, [])
             | Some out \<Rightarrow>
                 (s\<lparr>sStats := (sStats s)\<lparr>ChunksRetransmit := ChunksRetransmit (sStats s) + 1,
                      BytesRetransmit := BytesRetransmit (sStats s) + n\<rparr>\<rparr>, oAttempts out));
          deadline = (if retransmitAfter cb > 0 then Some (Now cb + retransmitAfter cb) else None);
          ident = next_attempt (sAttempt s);
          rel = laneRetransmits cb lane;
          a = \<lparr>aId = ident, aLane = lane, aDeadline = deadline, aReliable = rel, aWritten = False\<rparr>;
          c' = c\<lparr>cUrgent := False\<rparr>;
          s = set_chunk p c' (s\<lparr>sAttempt := ident, sLive := set_attempts (cOffset c) (prior @ [a]) (sLive s)\<rparr>);
          s = s\<lparr>sLoad := (sLoad s)(lane := sLoad s lane + 1), sBytes := (sBytes s)(lane := sBytes s lane + n),
                sQueued := (sQueued s)(lane := sQueued s lane + n), sTotal := sTotal s + n\<rparr>;
          s = note_peak s in
      (SignalProducer s, c'\<lparr>cReliable := rel, cReservation := 0, cAttempt := ident\<rparr>))"

definition takeReadyLocked :: "Scheduler \<Rightarrow> Callbacks \<Rightarrow> u64 \<Rightarrow> int \<Rightarrow> (Scheduler \<times> Chunk) option" where
  "takeReadyLocked s cb lane windowBytes =
     (case take_scan s cb lane windowBytes 0 (sPending s) of
        None \<Rightarrow> None
      | Some (i, p) \<Rightarrow> Some (dispatch s cb lane i p))"

datatype next_result = NextChunk Chunk | NextError sched_error | NextDone | NextWait

text \<open>One iteration of \<^verbatim>\<open>Next\<close>; \<^verbatim>\<open>NextWait\<close> is a wait on the ready condition.\<close>

definition Next_poll :: "Scheduler \<Rightarrow> Callbacks \<Rightarrow> string option \<Rightarrow> u64 \<Rightarrow> int \<Rightarrow> Scheduler \<times> next_result" where
  "Next_poll s cb ctxErr lane windowBytes =
     (if sClosed s then (s, NextError ErrClosed)
      else case ctxErr of
        Some e \<Rightarrow> (s, NextError (ErrContext e))
      | None \<Rightarrow>
          if int (sLoad s lane) < LaneWindow (sCfg s) then
            (case takeReadyLocked s cb lane windowBytes of
               Some (s', c) \<Rightarrow> (s', NextChunk c)
             | None \<Rightarrow>
                 (case finishedLocked s of
                    Some e \<Rightarrow> (s, NextError (ErrSource e))
                  | None \<Rightarrow> if doneLocked s then (s, NextDone) else (s, NextWait)))
          else (s, NextWait))"

section \<open>Completion, failure and recovery\<close>

definition pendingHas :: "Scheduler \<Rightarrow> nat \<Rightarrow> bool" where
  "pendingHas s off \<longleftrightarrow> (\<exists>p\<in>set (sPending s). cOffset (chunk_at s p) = off)"

fun find_pending :: "Scheduler \<Rightarrow> nat \<Rightarrow> nat \<Rightarrow> nat list \<Rightarrow> (nat \<times> nat) option" where
  "find_pending s off i [] = None"
| "find_pending s off i (p # ps) =
     (if cOffset (chunk_at s p) \<noteq> off then find_pending s off (Suc i) ps else Some (i, p))"

definition removePendingLocked :: "Scheduler \<Rightarrow> nat \<Rightarrow> Scheduler \<times> nat option" where
  "removePendingLocked s off =
     (case find_pending s off 0 (sPending s) of
        None \<Rightarrow> (s, None)
      | Some (i, p) \<Rightarrow> (s\<lparr>sPending := slices_Delete i (sPending s)\<rparr>, Some p))"

fun insert_pending :: "Scheduler \<Rightarrow> nat \<Rightarrow> nat list \<Rightarrow> nat list" where
  "insert_pending s p [] = [p]"
| "insert_pending s p (q # qs) =
     (if cOffset (chunk_at s q) < cOffset (chunk_at s p) then q # insert_pending s p qs else p # q # qs)"

definition requeueLocked :: "Scheduler \<Rightarrow> nat \<Rightarrow> Scheduler" where
  "requeueLocked s p =
     (if pendingHas s (cOffset (chunk_at s p)) then s
      else
        (let s = set_chunk p ((chunk_at s p)\<lparr>cUrgent := True\<rparr>) s in
         s\<lparr>sPending := insert_pending s p (sPending s)\<rparr>))"

text \<open>The argument of the callbacks is a dispatched chunk: its offset and its attempt matter.\<close>

definition Complete :: "Scheduler \<Rightarrow> u64 \<Rightarrow> Chunk option \<Rightarrow> Scheduler" where
  "Complete s lane arg =
     (case arg of
        None \<Rightarrow> s
      | Some c \<Rightarrow>
          (let off = cOffset c;
               entry = map_of (sLive s) off;
               s = (case entry of
                      None \<Rightarrow> s
                    | Some out \<Rightarrow>
                        (let s = releaseLanes s (length (cData (chunk_at s (oChunk out)))) (oAttempts out) in
                         s\<lparr>sLive := filter (\<lambda>(j, _). j \<noteq> off) (sLive s),
                           sStats := (sStats s)\<lparr>ChunksCompleted := ChunksCompleted (sStats s) + 1,
                             CompletedByLaneID := (CompletedByLaneID (sStats s))(lane := CompletedByLaneID (sStats s) lane + 1)\<rparr>\<rparr>));
               (s, dropped) = removePendingLocked s off in
           case (entry, dropped) of
             (None, None) \<Rightarrow> s
           | (Some out, _) \<Rightarrow> Broadcast (SignalProducer (signalIfDoneLocked (releaseChunkLocked s (oChunk out))))
           | (None, Some p) \<Rightarrow> Broadcast (SignalProducer (signalIfDoneLocked (releaseChunkLocked s p)))))"

fun find_attempt :: "u64 \<Rightarrow> u64 \<Rightarrow> attempt list \<Rightarrow> (attempt \<times> attempt list) option" where
  "find_attempt lane ident [] = None"
| "find_attempt lane ident (a # as) =
     (if aId a \<noteq> ident \<or> aLane a \<noteq> lane
      then (case find_attempt lane ident as of None \<Rightarrow> None | Some (b, rest) \<Rightarrow> Some (b, a # rest))
      else Some (a, as))"

definition dropAttemptLocked :: "Scheduler \<Rightarrow> nat \<Rightarrow> outstanding \<Rightarrow> u64 \<Rightarrow> u64 \<Rightarrow> Scheduler option" where
  "dropAttemptLocked s off out lane ident =
     (case find_attempt lane ident (oAttempts out) of
        None \<Rightarrow> None
      | Some (a, rest) \<Rightarrow>
          Some (releaseLaneLocked (s\<lparr>sLive := set_attempts off rest (sLive s)\<rparr>) (aLane a)
                  (length (cData (chunk_at s (oChunk out)))) (\<not> aWritten a)))"

definition Fail :: "Scheduler \<Rightarrow> u64 \<Rightarrow> Chunk option \<Rightarrow> Scheduler" where
  "Fail s lane arg =
     (case arg of
        None \<Rightarrow> s
      | Some c \<Rightarrow>
          (case map_of (sLive s) (cOffset c) of
             None \<Rightarrow> s
           | Some out \<Rightarrow>
               (case dropAttemptLocked s (cOffset c) out lane (cAttempt c) of
                  None \<Rightarrow> s
                | Some s \<Rightarrow>
                    (let s = s\<lparr>sStats := (sStats s)\<lparr>LaneFailures := LaneFailures (sStats s) + 1\<rparr>\<rparr>;
                         left = (case map_of (sLive s) (cOffset c) of None \<Rightarrow> [] | Some out \<Rightarrow> oAttempts out) in
                     Broadcast (if left = [] then requeueLocked s (oChunk out) else s)))))"

definition dropLaneAttemptsLocked :: "Scheduler \<Rightarrow> nat \<Rightarrow> outstanding \<Rightarrow> u64 \<Rightarrow> Scheduler" where
  "dropLaneAttemptsLocked s off out lane =
     (let s = releaseLanes s (length (cData (chunk_at s (oChunk out)))) (filter (\<lambda>a. aLane a = lane) (oAttempts out)) in
      s\<lparr>sLive := set_attempts off (filter (\<lambda>a. aLane a \<noteq> lane) (oAttempts out)) (sLive s)\<rparr>)"

definition retire_lane_entry :: "u64 \<Rightarrow> Scheduler \<Rightarrow> nat \<Rightarrow> Scheduler" where
  "retire_lane_entry lane s off =
     (case map_of (sLive s) off of
        None \<Rightarrow> s
      | Some out \<Rightarrow>
          if \<not> laneHasAttempt out lane then s
          else
            (let s = s\<lparr>sStats := (sStats s)\<lparr>LaneFailures := LaneFailures (sStats s) + 1\<rparr>\<rparr>;
                 s = dropLaneAttemptsLocked s off out lane in
             if filter (\<lambda>a. aLane a \<noteq> lane) (oAttempts out) = [] then requeueLocked s (oChunk out) else s))"

definition RetireLane :: "Scheduler \<Rightarrow> u64 \<Rightarrow> nat list \<Rightarrow> Scheduler" where
  "RetireLane s lane order =
     (let s = foldl (retire_lane_entry lane) s order in
      Broadcast (s\<lparr>sLoad := (sLoad s)(lane := 0), sBytes := (sBytes s)(lane := 0), sQueued := (sQueued s)(lane := 0)\<rparr>))"

definition retires :: "int option \<Rightarrow> attempt \<Rightarrow> bool" where
  "retires deadline a \<longleftrightarrow>
     \<not> aReliable a \<and> aWritten a
     \<and> (case deadline of
          None \<Rightarrow> True
        | Some t \<Rightarrow> (case aDeadline a of None \<Rightarrow> False | Some d \<Rightarrow> \<not> t < d))"

definition retireUnreliableAttemptsLocked :: "Scheduler \<Rightarrow> nat \<Rightarrow> outstanding \<Rightarrow> int option \<Rightarrow> Scheduler \<times> attempt list \<times> bool" where
  "retireUnreliableAttemptsLocked s off out deadline =
     (let gone = filter (retires deadline) (oAttempts out);
          kept = filter (\<lambda>a. \<not> retires deadline a) (oAttempts out);
          s = releaseLanes s (length (cData (chunk_at s (oChunk out)))) gone in
      (s\<lparr>sLive := set_attempts off kept (sLive s)\<rparr>, kept, gone \<noteq> []))"

definition reissue_below_entry :: "nat \<Rightarrow> Scheduler \<times> nat \<Rightarrow> nat \<Rightarrow> Scheduler \<times> nat" where
  "reissue_below_entry bound sn off =
     (let (s, reissued) = sn in
      case map_of (sLive s) off of
        None \<Rightarrow> (s, reissued)
      | Some out \<Rightarrow>
          let c = chunk_at s (oChunk out) in
          if End c > bound \<or> oAttempts out = [] then (s, reissued)
          else if pendingHas s (cOffset c) then (s, reissued)
          else
            (let (s, kept, _) = retireUnreliableAttemptsLocked s off out None in
             if (\<exists>a\<in>set kept. aReliable a) then (s, reissued)
             else if kept \<noteq> [] then (s, reissued)
             else (requeueLocked s (oChunk out), reissued + 1)))"

definition ReissueUnacknowledgedBelow :: "Scheduler \<Rightarrow> nat \<Rightarrow> nat list \<Rightarrow> Scheduler \<times> nat" where
  "ReissueUnacknowledgedBelow s bound order =
     (let (s, reissued) = foldl (reissue_below_entry bound) (s, 0) order in
      (if reissued > 0 then Broadcast s else s, reissued))"

definition expires :: "int \<Rightarrow> attempt \<Rightarrow> bool" where
  "expires now a \<longleftrightarrow> (case aDeadline a of None \<Rightarrow> False | Some d \<Rightarrow> \<not> now < d)"

definition expired_entry :: "int \<Rightarrow> Scheduler \<times> nat list \<Rightarrow> nat \<Rightarrow> Scheduler \<times> nat list" where
  "expired_entry now sc off =
     (let (s, candidates) = sc in
      case map_of (sLive s) off of
        None \<Rightarrow> (s, candidates)
      | Some out \<Rightarrow>
          if oAttempts out = [] \<or> pendingHas s (cOffset (chunk_at s (oChunk out))) then (s, candidates)
          else
            (let (s, kept, retired) = retireUnreliableAttemptsLocked s off out (Some now) in
             if kept = [] \<and> retired then (s, candidates @ [off])
             else if \<not> (\<exists>a\<in>set kept. expires now a) then (s, candidates)
             else if (\<exists>a\<in>set kept. aReliable a)
               then (if length kept > 1 then (s, candidates) else (s, candidates @ [off]))
             else if kept \<noteq> [] then (s, candidates)
             else (s, candidates @ [off])))"

definition reissue_candidate :: "int \<Rightarrow> int \<Rightarrow> Scheduler \<times> nat \<times> nat \<Rightarrow> nat \<Rightarrow> Scheduler \<times> nat \<times> nat" where
  "reissue_candidate now after st off =
     (let (s, reissued, reliableReissued) = st in
      case map_of (sLive s) off of
        None \<Rightarrow> (s, reissued, reliableReissued)
      | Some out \<Rightarrow>
          let rel = (oAttempts out \<noteq> [] \<and> aReliable (hd (oAttempts out)));
              burst = ReliableReissueBurst (sCfg s) in
          if rel \<and> burst > 0 \<and> int reliableReissued \<ge> burst then (s, reissued, reliableReissued)
          else
            (let reliableReissued = (if rel \<and> burst > 0 then reliableReissued + 1 else reliableReissued);
                 s = (case oAttempts out of
                        [] \<Rightarrow> s
                      | a # as \<Rightarrow> s\<lparr>sLive := set_attempts off (a\<lparr>aDeadline := Some (now + after)\<rparr> # as) (sLive s)\<rparr>) in
             (requeueLocked s (oChunk out), reissued + 1, reliableReissued)))"

text \<open>
  \<^verbatim>\<open>sort.Slice\<close> orders the candidates by the offset of their chunk, which is the key they are
  held under.
\<close>

definition ReissueExpired :: "Scheduler \<Rightarrow> Callbacks \<Rightarrow> nat list \<Rightarrow> Scheduler \<times> nat" where
  "ReissueExpired s cb order =
     (let after = retransmitAfter cb in
      if after \<le> 0 then (s, 0)
      else
        (let (s, candidates) = foldl (expired_entry (Now cb)) (s, []) order;
             (s, reissued, _) = foldl (reissue_candidate (Now cb) after) (s, 0, 0) (sort candidates) in
         (if reissued > 0 then Broadcast s else s, reissued)))"

fun mark_written :: "u64 \<Rightarrow> u64 \<Rightarrow> attempt list \<Rightarrow> attempt list option" where
  "mark_written lane ident [] = None"
| "mark_written lane ident (a # as) =
     (if aId a \<noteq> ident \<or> aLane a \<noteq> lane \<or> aWritten a
      then map_option ((#) a) (mark_written lane ident as)
      else Some (a\<lparr>aWritten := True\<rparr> # as))"

definition Wrote :: "Scheduler \<Rightarrow> u64 \<Rightarrow> Chunk option \<Rightarrow> Scheduler" where
  "Wrote s lane arg =
     (case arg of
        None \<Rightarrow> s
      | Some c \<Rightarrow>
          (case map_of (sLive s) (cOffset c) of
             None \<Rightarrow> s
           | Some out \<Rightarrow>
               (case mark_written lane (cAttempt c) (oAttempts out) of
                  None \<Rightarrow> s
                | Some as \<Rightarrow>
                    Broadcast (releaseQueuedLocked (s\<lparr>sLive := set_attempts (cOffset c) as (sLive s)\<rparr>) lane
                      (length (cData (chunk_at s (oChunk out))))))))"

definition LaneOutstanding :: "Scheduler \<Rightarrow> u64 \<Rightarrow> nat \<times> nat \<times> nat" where
  "LaneOutstanding s lane = (sLoad s lane, sBytes s lane, sQueued s lane)"

definition Pending :: "Scheduler \<Rightarrow> nat \<times> nat" where
  "Pending s = (length (sPending s), sTotal s)"

definition sched_Close :: "Scheduler \<Rightarrow> Scheduler" where
  "sched_Close s =
     (if sClosed s then s
      else
        (let s = s\<lparr>sClosed := True\<rparr>;
             seen = remdups (sPending s @ map (oChunk \<circ> snd) (sLive s));
             s = foldl releaseChunkLocked s seen in
         SignalProducer (Broadcast (s\<lparr>sPending := [], sLive := []\<rparr>))))"

end
