(* ===== verification/StripeSafe.thy ===== *)
theory StripeSafe
  imports Stripe "HOL-Library.Multiset"
begin

text \<open>
  Correctness of the scheduler of \<^verbatim>\<open>internal/stripe/stripe.go\<close>: the books it keeps per lane
  are exact, every byte of the source is delivered, ready or in flight at any moment, the
  ready set is ordered with recovery work in front, reservations are returned exactly
  once. The last section shows how the end-of-stream mark can land on a chunk that is not
  the last one.
\<close>

section \<open>Attempts in flight\<close>

fun flights :: "Chunk list \<Rightarrow> (nat \<times> outstanding) list \<Rightarrow> (nat \<times> attempt) multiset" where
  "flights H [] = {#}"
| "flights H ((k, out) # L) =
     image_mset (Pair (length (cData (H ! oChunk out)))) (mset (oAttempts out)) + flights H L"

definition counts :: "Scheduler \<Rightarrow> (nat \<times> attempt) multiset \<Rightarrow> bool" where
  "counts s F \<longleftrightarrow>
     (\<forall>l. sLoad s l = size {#x \<in># F. aLane (snd x) = l#})
     \<and> (\<forall>l. sBytes s l = sum_mset (image_mset fst {#x \<in># F. aLane (snd x) = l#}))
     \<and> (\<forall>l. sQueued s l = sum_mset (image_mset fst {#x \<in># F. aLane (snd x) = l \<and> \<not> aWritten (snd x)#}))
     \<and> sTotal s = sum_mset (image_mset fst F)"

lemma releaseQueued_fields [simp]:
  "sCfg (releaseQueuedLocked s l n) = sCfg s" "sHeap (releaseQueuedLocked s l n) = sHeap s"
  "sNext (releaseQueuedLocked s l n) = sNext s" "sPending (releaseQueuedLocked s l n) = sPending s"
  "sLive (releaseQueuedLocked s l n) = sLive s" "sLoad (releaseQueuedLocked s l n) = sLoad s"
  "sBytes (releaseQueuedLocked s l n) = sBytes s" "sTotal (releaseQueuedLocked s l n) = sTotal s"
  "sEof (releaseQueuedLocked s l n) = sEof s" "sErr (releaseQueuedLocked s l n) = sErr s"
  "sClosed (releaseQueuedLocked s l n) = sClosed s" "sFinished (releaseQueuedLocked s l n) = sFinished s"
  "sReleases (releaseQueuedLocked s l n) = sReleases s" "sStats (releaseQueuedLocked s l n) = sStats s"
  by (simp_all add: releaseQueuedLocked_def)

lemma releaseLane_fields [simp]:
  "sCfg (releaseLaneLocked s l n q) = sCfg s" "sHeap (releaseLaneLocked s l n q) = sHeap s"
  "sNext (releaseLaneLocked s l n q) = sNext s" "sPending (releaseLaneLocked s l n q) = sPending s"
  "sLive (releaseLaneLocked s l n q) = sLive s" "sEof (releaseLaneLocked s l n q) = sEof s"
  "sErr (releaseLaneLocked s l n q) = sErr s" "sClosed (releaseLaneLocked s l n q) = sClosed s"
  "sFinished (releaseLaneLocked s l n q) = sFinished s" "sReleases (releaseLaneLocked s l n q) = sReleases s"
  "sStats (releaseLaneLocked s l n q) = sStats s"
  by (simp_all add: releaseLaneLocked_def Let_def)

lemma releaseLanes_fields [simp]:
  "sCfg (releaseLanes s n as) = sCfg s" "sHeap (releaseLanes s n as) = sHeap s"
  "sNext (releaseLanes s n as) = sNext s" "sPending (releaseLanes s n as) = sPending s"
  "sLive (releaseLanes s n as) = sLive s" "sEof (releaseLanes s n as) = sEof s"
  "sErr (releaseLanes s n as) = sErr s" "sClosed (releaseLanes s n as) = sClosed s"
  "sFinished (releaseLanes s n as) = sFinished s" "sReleases (releaseLanes s n as) = sReleases s"
  "sStats (releaseLanes s n as) = sStats s"
  by (induction s n as rule: releaseLanes.induct) simp_all

lemma counts_releaseLane:
  assumes "counts s (add_mset (n, a) F)"
  shows "counts (releaseLaneLocked s (aLane a) n (\<not> aWritten a)) F"
  using assms by (auto simp: counts_def releaseLaneLocked_def releaseQueuedLocked_def Let_def)

lemma counts_releaseLanes:
  "counts s (image_mset (Pair n) (mset as) + F) \<Longrightarrow> counts (releaseLanes s n as) F"
  by (induction s n as rule: releaseLanes.induct) (simp_all add: counts_releaseLane)

lemma counts_cong:
  "sLoad s' = sLoad s \<Longrightarrow> sBytes s' = sBytes s \<Longrightarrow> sQueued s' = sQueued s \<Longrightarrow> sTotal s' = sTotal s \<Longrightarrow>
   counts s' F = counts s F"
  by (simp add: counts_def)

lemma flights_cong:
  "(\<And>k out. (k, out) \<in> set L \<Longrightarrow> cData (H' ! oChunk out) = cData (H ! oChunk out)) \<Longrightarrow> flights H' L = flights H L"
proof (induction H L rule: flights.induct)
  case (2 H k out L)
  have "cData (H' ! oChunk out) = cData (H ! oChunk out)" using "2.prems" [of k out] by simp
  moreover have "flights H' L = flights H L" by (rule "2.IH") (use "2.prems" in auto)
  ultimately show ?case by simp
qed simp

lemma keys_set_attempts [simp]: "map fst (set_attempts k as L) = map fst L"
  by (induction k as L rule: set_attempts.induct) auto

lemma fst_set_attempts [simp]: "fst ` set (set_attempts k as L) = fst ` set L"
  by (metis keys_set_attempts list.set_map)

lemma map_of_set_attempts:
  "map_of (set_attempts k as L) j = (if j = k then map_option (\<lambda>out. out\<lparr>oAttempts := as\<rparr>) (map_of L k) else map_of L j)"
  by (induction k as L rule: set_attempts.induct) auto

text \<open>One entry of the table of outstanding chunks against the rest.\<close>

lemma flights_entry:
  assumes "map_of L k = Some out"
  obtains R where
    "flights H L = image_mset (Pair (length (cData (H ! oChunk out)))) (mset (oAttempts out)) + R"
    "\<And>as. flights H (set_attempts k as L) = image_mset (Pair (length (cData (H ! oChunk out)))) (mset as) + R"
    "distinct (map fst L) \<Longrightarrow> flights H (filter (\<lambda>(j, _). j \<noteq> k) L) = R"
proof -
  have "\<exists>R. flights H L = image_mset (Pair (length (cData (H ! oChunk out)))) (mset (oAttempts out)) + R
      \<and> (\<forall>as. flights H (set_attempts k as L) = image_mset (Pair (length (cData (H ! oChunk out)))) (mset as) + R)
      \<and> (distinct (map fst L) \<longrightarrow> flights H (filter (\<lambda>(j, _). j \<noteq> k) L) = R)"
    using assms
  proof (induction H L rule: flights.induct)
    case (2 H j o' L)
    show ?case
    proof (cases "j = k")
      case True
      have "filter (\<lambda>(j, _). j \<noteq> k) L = L" if "k \<notin> fst ` set L"
        using that by (auto simp: filter_id_conv image_iff)
      then show ?thesis using 2 True by (intro exI [of _ "flights H L"]) auto
    next
      case False
      let ?me = "image_mset (Pair (length (cData (H ! oChunk o')))) (mset (oAttempts o'))"
      obtain R where "flights H L = image_mset (Pair (length (cData (H ! oChunk out)))) (mset (oAttempts out)) + R
        \<and> (\<forall>as. flights H (set_attempts k as L) = image_mset (Pair (length (cData (H ! oChunk out)))) (mset as) + R)
        \<and> (distinct (map fst L) \<longrightarrow> flights H (filter (\<lambda>(j, _). j \<noteq> k) L) = R)"
        using 2 False by auto
      then show ?thesis using False by (intro exI [of _ "?me + R"]) (auto simp: ac_simps)
    qed
  qed simp
  then show ?thesis using that by blast
qed

section \<open>The invariant\<close>

abbreviation off :: "Scheduler \<Rightarrow> nat \<Rightarrow> nat" where
  "off s p \<equiv> cOffset (chunk_at s p)"

abbreviation keys :: "Scheduler \<Rightarrow> nat set" where
  "keys s \<equiv> fst ` set (sLive s)"

text \<open>The store is the source stream cut into chunks; only an end mark is empty.\<close>

definition layout :: "Scheduler \<Rightarrow> bool" where
  "layout s \<longleftrightarrow>
     (\<forall>p<length (sHeap s). off s p = length (concat (map cData (take p (sHeap s)))))
     \<and> sNext s = length (concat (map cData (sHeap s)))
     \<and> (\<forall>p<length (sHeap s). cData (chunk_at s p) = [] \<longrightarrow> Suc p = length (sHeap s) \<and> sEof s)"

definition table_ok :: "Scheduler \<Rightarrow> bool" where
  "table_ok s \<longleftrightarrow> distinct (map fst (sLive s))
     \<and> (\<forall>(k, out)\<in>set (sLive s). oChunk out < length (sHeap s) \<and> off s (oChunk out) = k)"

text \<open>
  The ready set is in stream order; its urgent entries are those that were dispatched
  before, and they precede the fresh ones.
\<close>

definition ready_ok :: "Scheduler \<Rightarrow> bool" where
  "ready_ok s \<longleftrightarrow> sorted_wrt (<) (sPending s)
     \<and> (\<forall>p\<in>set (sPending s). p < length (sHeap s)
          \<and> (cUrgent (chunk_at s p) \<longleftrightarrow> off s p \<in> keys s)
          \<and> (off s p \<notin> keys s \<longrightarrow> (\<forall>(k, out)\<in>set (sLive s). oChunk out < p)))"

text \<open>An outstanding chunk no lane carries is ready, the exceptions being in \<^verbatim>\<open>X\<close>.\<close>

definition idle_ok :: "nat set \<Rightarrow> Scheduler \<Rightarrow> bool" where
  "idle_ok X s \<longleftrightarrow> (\<forall>(k, out)\<in>set (sLive s). oAttempts out = [] \<longrightarrow> k \<in> X \<or> oChunk out \<in> set (sPending s))"

definition kept :: "nat set \<Rightarrow> Scheduler \<Rightarrow> bool" where
  "kept D s \<longleftrightarrow> (\<forall>p<length (sHeap s). off s p \<in> D \<or> off s p \<in> keys s \<or> p \<in> set (sPending s))"

text \<open>After \<^verbatim>\<open>n\<close> reservations: what is not released is what retained chunks hold.\<close>

definition money :: "nat \<Rightarrow> Scheduler \<Rightarrow> bool" where
  "money n s \<longleftrightarrow>
     sum_list (sReleases s) + sum_list (map cReservation (sHeap s)) = int n * ChunkSize (sCfg s)
     \<and> (\<forall>p<length (sHeap s). cReservation (chunk_at s p) =
          (if cData (chunk_at s p) \<noteq> [] \<and> (off s p \<in> keys s \<or> p \<in> set (sPending s)) then ChunkSize (sCfg s) else 0))"

definition sched_ok :: "nat set \<Rightarrow> nat set \<Rightarrow> nat \<Rightarrow> Scheduler \<Rightarrow> bool" where
  "sched_ok X D n s \<longleftrightarrow> layout s \<and> table_ok s \<and> ready_ok s \<and> idle_ok X s \<and> money n s \<and> 0 < ChunkSize (sCfg s)
     \<and> (sClosed s \<or> counts s (flights (sHeap s) (sLive s)) \<and> kept D s)
     \<and> (sFinished s \<longrightarrow> sEof s \<and> sPending s = [] \<and> sLive s = [])"

lemmas ok_defs = layout_def table_ok_def ready_ok_def idle_ok_def kept_def money_def counts_def

lemma ok_frame [simp]:
  "sched_ok X D n (s\<lparr>sStats := st\<rparr>) = sched_ok X D n s" "sched_ok X D n (Broadcast s) = sched_ok X D n s"
  "sched_ok X D n (SignalProducer s) = sched_ok X D n s" "sched_ok X D n (s\<lparr>sErr := e\<rparr>) = sched_ok X D n s"
  by (simp_all add: sched_ok_def ok_defs Broadcast_def SignalProducer_def)

lemma layout_mono: "layout s \<Longrightarrow> p < q \<Longrightarrow> q < length (sHeap s) \<Longrightarrow> off s p < off s q"
proof -
  assume a: "layout s" "p < q" "q < length (sHeap s)"
  have "take (Suc p) (sHeap s) = take p (sHeap s) @ [chunk_at s p]" using a by (simp add: take_Suc_conv_app_nth)
  moreover have "p < length (sHeap s)" "Suc p \<noteq> length (sHeap s)" using a by auto
  then have "cData (chunk_at s p) \<noteq> []" using a(1) unfolding layout_def by blast
  ultimately have "off s p < length (concat (map cData (take (Suc p) (sHeap s))))" using a by (simp add: layout_def)
  also have "\<dots> \<le> length (concat (map cData (take q (sHeap s))))"
  proof -
    have "take q (sHeap s) = take (Suc p) (sHeap s) @ drop (Suc p) (take q (sHeap s))"
      using a(2) by (metis Suc_leI append_take_drop_id min.absorb1 take_take)
    then show ?thesis by (metis concat_append le_add1 length_append map_append)
  qed
  finally show ?thesis using a by (simp add: layout_def)
qed

lemma layout_inj: "layout s \<Longrightarrow> p < length (sHeap s) \<Longrightarrow> q < length (sHeap s) \<Longrightarrow> off s p = off s q \<Longrightarrow> p = q"
  using layout_mono [of s p q] layout_mono [of s q p] by (cases p q rule: linorder_cases) auto

lemma layout_below:
  "layout s \<Longrightarrow> p < length (sHeap s) \<Longrightarrow> cData (chunk_at s p) \<noteq> [] \<Longrightarrow> off s p < sNext s"
proof -
  assume a: "layout s" "p < length (sHeap s)" "cData (chunk_at s p) \<noteq> []"
  have "sHeap s = take p (sHeap s) @ chunk_at s p # drop (Suc p) (sHeap s)" using a(2) by (rule id_take_nth_drop)
  then have "concat (map cData (sHeap s))
      = concat (map cData (take p (sHeap s))) @ cData (chunk_at s p) @ concat (map cData (drop (Suc p) (sHeap s)))"
    by (metis concat.simps(2) concat_append list.simps(9) map_append)
  then show ?thesis using a unfolding layout_def by simp
qed

lemma table_entry:
  "table_ok s \<Longrightarrow> (k, out) \<in> set (sLive s) \<longleftrightarrow> map_of (sLive s) k = Some out"
  by (auto simp: table_ok_def map_of_is_SomeI dest: map_of_SomeD)

lemma live_entry_facts:
  assumes "sched_ok X D n s" "map_of (sLive s) k = Some out"
  shows "oChunk out < length (sHeap s)" "off s (oChunk out) = k" "k \<in> keys s"
  using assms map_of_SomeD [OF assms(2)] by (force simp: sched_ok_def table_ok_def)+

text \<open>An entry's attempts are replaced and the books brought up to date.\<close>

lemma set_attempts_mem:
  "(j, o') \<in> set (set_attempts k as L) \<Longrightarrow> distinct (map fst L) \<Longrightarrow>
     (j \<noteq> k \<and> (j, o') \<in> set L) \<or> (j = k \<and> (\<exists>out. (k, out) \<in> set L \<and> o' = out\<lparr>oAttempts := as\<rparr>))"
  by (induction k as L rule: set_attempts.induct) (auto split: if_splits simp: image_iff)

lemma ok_edit:
  assumes ok: "sched_ok X D n s" and e: "map_of (sLive s) k = Some out"
    and same: "sHeap s' = sHeap s" "sNext s' = sNext s" "sPending s' = sPending s" "sEof s' = sEof s"
      "sClosed s' = sClosed s" "sFinished s' = sFinished s" "sReleases s' = sReleases s" "sCfg s' = sCfg s"
    and live: "sLive s' = set_attempts k as (sLive s)"
    and books: "\<And>R. counts s (image_mset (Pair (length (cData (chunk_at s (oChunk out))))) (mset (oAttempts out)) + R) \<Longrightarrow>
       counts s' (image_mset (Pair (length (cData (chunk_at s (oChunk out))))) (mset as) + R)"
  shows "sched_ok (if as = [] then insert k X else X) D n s'"
proof -
  obtain R where R: "flights (sHeap s) (sLive s) = image_mset (Pair (length (cData (chunk_at s (oChunk out))))) (mset (oAttempts out)) + R"
    "flights (sHeap s) (set_attempts k as (sLive s)) = image_mset (Pair (length (cData (chunk_at s (oChunk out))))) (mset as) + R"
    using flights_entry [OF e] by metis
  have k: "keys s' = keys s" by (simp add: live)
  have d: "distinct (map fst (sLive s))" using ok by (simp add: sched_ok_def table_ok_def)
  have mem: "\<exists>o1. (j, o1) \<in> set (sLive s) \<and> oChunk o' = oChunk o1 \<and> (if j = k then oAttempts o' = as else o' = o1)"
    if "(j, o') \<in> set (sLive s')" for j o'
    using set_attempts_mem [OF that [unfolded live] d] by auto
  have "layout s'" "money n s'" "sClosed s' \<or> kept D s'" using ok k same by (auto simp: sched_ok_def ok_defs)
  moreover have "table_ok s'"
  proof -
    have "oChunk o1 < length (sHeap s) \<and> off s (oChunk o1) = j" if "(j, o1) \<in> set (sLive s)" for j o1
      using ok that by (auto simp: sched_ok_def table_ok_def)
    then have "oChunk o' < length (sHeap s') \<and> off s' (oChunk o') = j" if "(j, o') \<in> set (sLive s')" for j o'
      using mem [OF that] same by metis
    then show ?thesis using d by (auto simp: table_ok_def live)
  qed
  moreover have "ready_ok s'"
  proof -
    have "oChunk o' < p" if "p \<in> set (sPending s)" "off s p \<notin> keys s" "(j, o') \<in> set (sLive s')" for p j o'
      using mem [OF that(3)] that(1,2) ok by (fastforce simp: sched_ok_def ready_ok_def)
    then show ?thesis using ok k by (auto simp: sched_ok_def ready_ok_def same)
  qed
  moreover have "idle_ok (if as = [] then insert k X else X) s'"
  proof -
    have "j \<in> (if as = [] then insert k X else X) \<or> oChunk o' \<in> set (sPending s)"
      if "(j, o') \<in> set (sLive s')" "oAttempts o' = []" for j o'
      using mem [OF that(1)] that(2) ok by (cases "j = k") (fastforce simp: sched_ok_def idle_ok_def)+
    then show ?thesis unfolding idle_ok_def same by blast
  qed
  moreover have "sClosed s' \<or> counts s' (flights (sHeap s') (sLive s'))"
    using ok books [of R] R by (auto simp: sched_ok_def same live)
  moreover have "sFinished s' \<longrightarrow> sEof s' \<and> sPending s' = [] \<and> sLive s' = []"
    using ok e by (auto simp: sched_ok_def same live)
  ultimately show ?thesis using ok same(8) unfolding sched_ok_def by auto
qed

lemma set_insert_pending [simp]: "set (insert_pending s p qs) = insert p (set qs)"
  by (induction s p qs rule: insert_pending.induct) auto

lemma sorted_insert_pending:
  "layout s \<Longrightarrow> p < length (sHeap s) \<Longrightarrow> \<forall>q\<in>set qs. q < length (sHeap s) \<Longrightarrow> p \<notin> set qs \<Longrightarrow>
     sorted_wrt (<) qs \<Longrightarrow> sorted_wrt (<) (insert_pending s p qs)"
proof (induction s p qs rule: insert_pending.induct)
  case (2 s p q qs)
  have "off s q < off s p \<longleftrightarrow> q < p"
    using layout_mono [of s p q] layout_mono [of s q p] "2.prems"(1-4) by (cases p q rule: linorder_cases) auto
  then show ?case using 2 by auto
qed simp

lemma pendingHas_iff:
  assumes "sched_ok X D n s" "p < length (sHeap s)"
  shows "pendingHas s (off s p) \<longleftrightarrow> p \<in> set (sPending s)"
  using assms layout_inj [of s _ p] by (auto simp: pendingHas_def sched_ok_def ready_ok_def)

text \<open>Flags of a chunk change without touching its place in the stream.\<close>

lemma nth_update_same: "f c = f (H ! p) \<Longrightarrow> f (H[p := c] ! q) = f (H ! q)"
  by (metis nth_list_update_eq nth_list_update_neq list_update_beyond linorder_not_less)

lemma map_update_same: "f c = f (H ! p) \<Longrightarrow> map f (H[p := c]) = map f H"
  by (rule nth_equalityI) (simp_all add: nth_update_same)

lemma layout_flags:
  assumes "layout s" "sHeap s' = (sHeap s)[p := c]" "sNext s' = sNext s" "sEof s \<longrightarrow> sEof s'"
    "cData c = cData (chunk_at s p)" "cOffset c = off s p"
  shows "layout s'"
proof -
  have eq: "map cData ((sHeap s)[p := c]) = map cData (sHeap s)" using assms(5) by (rule map_update_same)
  moreover have "map cData (take q ((sHeap s)[p := c])) = map cData (take q (sHeap s))" for q
    using eq by (simp add: take_map [symmetric])
  ultimately show ?thesis
    using assms nth_update_same [of cData c "sHeap s" p] nth_update_same [of cOffset c "sHeap s" p]
    unfolding layout_def by auto
qed

lemma flights_flags:
  "cData c = cData (H ! p) \<Longrightarrow> flights (H[p := c]) L = flights H L"
  by (rule flights_cong) (rule nth_update_same)

lemma ok_requeue:
  assumes ok: "sched_ok X D n s" and e: "map_of (sLive s) k = Some out"
  shows "sched_ok (X - {k}) D n (requeueLocked s (oChunk out))"
proof -
  let ?p = "oChunk out"
  note p = live_entry_facts [OF ok e]
  have idle: "oAttempts o' = [] \<longrightarrow> j \<in> X - {k} \<or> oChunk o' \<in> insert ?p (set (sPending s))"
    if "(j, o') \<in> set (sLive s)" for j o'
    using that ok e table_entry [of s j o'] by (cases "j = k") (auto simp: sched_ok_def idle_ok_def)
  show ?thesis
  proof (cases "?p \<in> set (sPending s)")
    case True
    then have "requeueLocked s ?p = s" using pendingHas_iff [OF ok p(1)] by (simp add: requeueLocked_def)
    then show ?thesis using ok idle True by (auto simp: sched_ok_def idle_ok_def insert_absorb)
  next
    case False
    define c where "c = (chunk_at s ?p)\<lparr>cUrgent := True\<rparr>"
    define s1 where "s1 = set_chunk ?p c s"
    have r: "requeueLocked s ?p = s1\<lparr>sPending := insert_pending s1 ?p (sPending s1)\<rparr>"
      using pendingHas_iff [OF ok p(1)] False by (simp add: requeueLocked_def s1_def c_def Let_def)
    have at: "chunk_at s1 q = (if q = ?p then c else chunk_at s q)" for q using p(1) by (simp add: s1_def)
    have lay: "layout s1" by (rule layout_flags [of s _ ?p c]) (use ok in \<open>auto simp: sched_ok_def s1_def c_def\<close>)
    let ?s = "s1\<lparr>sPending := insert_pending s1 ?p (sPending s1)\<rparr>"
    have o: "off s1 q = off s q" for q by (simp add: at c_def)
    have u: "cUrgent (chunk_at s1 q) \<longleftrightarrow> q = ?p \<or> cUrgent (chunk_at s q)" for q by (simp add: at c_def)
    have f: "sLive s1 = sLive s" "sPending s1 = sPending s" "length (sHeap s1) = length (sHeap s)" by (simp_all add: s1_def)
    have "layout ?s" using lay by (simp add: layout_def)
    moreover have "table_ok ?s" using ok o by (auto simp: sched_ok_def table_ok_def s1_def)
    moreover have "sorted_wrt (<) (insert_pending s1 ?p (sPending s1))"
      by (rule sorted_insert_pending [OF lay]) (use ok p(1) False in \<open>auto simp: s1_def sched_ok_def ready_ok_def\<close>)
    then have "ready_ok ?s"
      using ok p by (auto simp: sched_ok_def ready_ok_def o u f)
    moreover have "idle_ok (X - {k}) ?s" using idle by (auto simp: idle_ok_def s1_def)
    moreover have "money n ?s"
    proof -
      have "map cReservation (sHeap s1) = map cReservation (sHeap s)"
        unfolding s1_def by (simp add: map_update_same c_def)
      then show ?thesis using ok o p(2,3) at by (auto simp: sched_ok_def money_def c_def s1_def)
    qed
    moreover have "sClosed ?s \<or> counts ?s (flights (sHeap ?s) (sLive ?s)) \<and> kept D ?s"
      using ok o flights_flags [of c "sHeap s" ?p] by (auto simp: sched_ok_def counts_def kept_def s1_def c_def)
    moreover have "sLive s \<noteq> []" using e by auto
    ultimately show ?thesis unfolding r using ok by (auto simp: sched_ok_def s1_def)
  qed
qed

section \<open>Operations on attempts\<close>

lemma find_attempt_mset:
  "find_attempt lane ident as = Some (a, rest) \<Longrightarrow> mset as = add_mset a (mset rest) \<and> aLane a = lane \<and> aId a = ident"
  by (induction lane ident as arbitrary: a rest rule: find_attempt.induct) (auto split: if_splits option.splits)

lemma ok_releaseLanes:
  assumes "sched_ok X D n s" "map_of (sLive s) k = Some out" "mset (oAttempts out) = mset gone + mset left"
  shows "sched_ok (if left = [] then insert k X else X) D n
    ((releaseLanes s (length (cData (chunk_at s (oChunk out)))) gone)\<lparr>sLive := set_attempts k left (sLive s)\<rparr>)"
proof (rule ok_edit [OF assms(1,2)])
  fix R
  let ?n = "length (cData (chunk_at s (oChunk out)))"
  let ?s = "(releaseLanes s ?n gone)\<lparr>sLive := set_attempts k left (sLive s)\<rparr>"
  assume "counts s (image_mset (Pair ?n) (mset (oAttempts out)) + R)"
  then have "counts (releaseLanes s ?n gone) (image_mset (Pair ?n) (mset left) + R)"
    unfolding assms(3) by (intro counts_releaseLanes) (simp add: ac_simps)
  then show "counts ?s (image_mset (Pair ?n) (mset left) + R)" by (simp add: counts_def)
qed simp_all

lemma counts_frame [simp]:
  "counts (s\<lparr>sLive := L\<rparr>) F = counts s F" "counts (s\<lparr>sPending := P\<rparr>) F = counts s F"
  "counts (s\<lparr>sStats := st\<rparr>) F = counts s F"
  by (simp_all add: counts_def)

lemma Fail_ok:
  assumes ok: "sched_ok {} D n s"
  shows "sched_ok {} D n (Fail s lane arg)"
proof -
  have "sched_ok {} D n (Fail s lane (Some c))" for c
  proof (cases "map_of (sLive s) (cOffset c)")
    case None
    then show ?thesis using ok by (simp add: Fail_def)
  next
    case e: (Some out)
    show ?thesis
    proof (cases "find_attempt lane (cAttempt c) (oAttempts out)")
      case None
      then show ?thesis using ok e by (simp add: Fail_def dropAttemptLocked_def)
    next
      case (Some ar)
      obtain a rest where f: "find_attempt lane (cAttempt c) (oAttempts out) = Some (a, rest)" using Some by (cases ar) auto
      define s1 where "s1 = releaseLaneLocked (s\<lparr>sLive := set_attempts (cOffset c) rest (sLive s)\<rparr>) (aLane a)
        (length (cData (chunk_at s (oChunk out)))) (\<not> aWritten a)"
      have ok1: "sched_ok (if rest = [] then {cOffset c} else {}) D n s1"
        by (rule ok_edit [OF ok e])
           (use find_attempt_mset [OF f] in \<open>auto simp: s1_def intro!: counts_releaseLane\<close>)
      have live: "map_of (sLive s1) (cOffset c) = Some (out\<lparr>oAttempts := rest\<rparr>)" by (simp add: s1_def map_of_set_attempts e)
      have "Fail s lane (Some c) = Broadcast
          (if rest = [] then requeueLocked (s1\<lparr>sStats := (sStats s1)\<lparr>LaneFailures := LaneFailures (sStats s1) + 1\<rparr>\<rparr>) (oChunk out)
           else s1\<lparr>sStats := (sStats s1)\<lparr>LaneFailures := LaneFailures (sStats s1) + 1\<rparr>\<rparr>)"
        using live by (simp add: Fail_def e f dropAttemptLocked_def s1_def Let_def)
      moreover have "sched_ok {} D n
          (requeueLocked (s1\<lparr>sStats := (sStats s1)\<lparr>LaneFailures := LaneFailures (sStats s1) + 1\<rparr>\<rparr>) (oChunk out))" if "rest = []"
        using ok_requeue [of "{cOffset c}" D n "s1\<lparr>sStats := (sStats s1)\<lparr>LaneFailures := LaneFailures (sStats s1) + 1\<rparr>\<rparr>"
          "cOffset c" "out\<lparr>oAttempts := rest\<rparr>"] ok1 live that by simp
      ultimately show ?thesis using ok1 by (simp split: if_splits)
    qed
  qed
  moreover have "Fail s lane None = s" by (simp add: Fail_def)
  ultimately show ?thesis using ok by (cases arg) auto
qed

text \<open>Retiring written datagram attempts of one chunk.\<close>

lemma retire_entry:
  assumes ok: "sched_ok X D n s" and e: "map_of (sLive s) k = Some out"
    and r: "retireUnreliableAttemptsLocked s k out t = (s', left, retired)"
  shows "sched_ok (if left = [] then insert k X else X) D n s'" "map_of (sLive s') k = Some (out\<lparr>oAttempts := left\<rparr>)"
    "keys s' = keys s" "sPending s' = sPending s" "sHeap s' = sHeap s" "sCfg s' = sCfg s"
    "\<And>j. j \<noteq> k \<Longrightarrow> map_of (sLive s') j = map_of (sLive s) j"
    "left = filter (\<lambda>a. \<not> retires t a) (oAttempts out)" "retired \<longleftrightarrow> left \<noteq> oAttempts out"
proof -
  let ?gone = "filter (retires t) (oAttempts out)" and ?left = "filter (\<lambda>a. \<not> retires t a) (oAttempts out)"
  have m: "mset (oAttempts out) = mset ?gone + mset ?left" by (simp add: multiset_partition)
  have s': "s' = (releaseLanes s (length (cData (chunk_at s (oChunk out)))) ?gone)\<lparr>sLive := set_attempts k ?left (sLive s)\<rparr>"
    "left = ?left" "retired \<longleftrightarrow> ?gone \<noteq> []"
    using r by (auto simp: retireUnreliableAttemptsLocked_def Let_def)
  show "sched_ok (if left = [] then insert k X else X) D n s'" using ok_releaseLanes [OF ok e m] by (simp add: s')
  show "map_of (sLive s') k = Some (out\<lparr>oAttempts := left\<rparr>)" "keys s' = keys s" "sPending s' = sPending s"
    "sHeap s' = sHeap s" "sCfg s' = sCfg s" "left = ?left" "\<And>j. j \<noteq> k \<Longrightarrow> map_of (sLive s') j = map_of (sLive s) j"
    using s' by (auto simp: map_of_set_attempts e)
  show "retired \<longleftrightarrow> left \<noteq> oAttempts out" unfolding s'(2,3) by (auto simp: filter_empty_conv filter_id_conv)
qed

lemma reissue_below_entry_ok:
  assumes ok: "sched_ok {} D n s"
  shows "sched_ok {} D n (fst (reissue_below_entry bound (s, m) k))"
proof (cases "map_of (sLive s) k")
  case None
  then show ?thesis using ok by (simp add: reissue_below_entry_def)
next
  case e: (Some out)
  obtain s' left retired where r: "retireUnreliableAttemptsLocked s k out None = (s', left, retired)"
    by (metis prod_cases3)
  note f = retire_entry [OF ok e r]
  have "sched_ok {} D n (requeueLocked s' (oChunk out))" if "left = []"
    using ok_requeue [OF f(1,2)] that by simp
  then show ?thesis using ok e r f(1) by (auto simp: reissue_below_entry_def Let_def)
qed

lemma foldl_fst_invariant:
  "P (fst st) \<Longrightarrow> (\<And>s m k. P s \<Longrightarrow> P (fst (f (s, m) k))) \<Longrightarrow> P (fst (foldl f st ks))"
  by (induction ks arbitrary: st) (auto, metis prod.collapse)

lemma ReissueUnacknowledgedBelow_ok:
  "sched_ok {} D n s \<Longrightarrow> sched_ok {} D n (fst (ReissueUnacknowledgedBelow s bound order))"
  using foldl_fst_invariant [of "sched_ok {} D n" "(s, 0)" "reissue_below_entry bound" order] reissue_below_entry_ok
  by (auto simp: ReissueUnacknowledgedBelow_def Let_def split: prod.splits)

lemma expired_entry_ok:
  assumes ok: "sched_ok X D n s" and cs: "X \<subseteq> set cs" "set cs \<subseteq> keys s"
    and step: "expired_entry now (s, cs) k = (s', cs')"
  shows "\<exists>X'. sched_ok X' D n s' \<and> X' \<subseteq> set cs' \<and> set cs' \<subseteq> keys s'"
proof (cases "map_of (sLive s) k")
  case None
  then show ?thesis using ok cs step by (auto simp: expired_entry_def)
next
  case e: (Some out)
  obtain s1 left retired where r: "retireUnreliableAttemptsLocked s k out (Some now) = (s1, left, retired)"
    by (metis prod_cases3)
  note f = retire_entry [OF ok e r] and k = live_entry_facts(3) [OF ok e]
  show ?thesis
  proof (cases "oAttempts out = [] \<or> pendingHas s (off s (oChunk out))")
    case True
    then show ?thesis using ok cs step e by (auto simp: expired_entry_def)
  next
    case False
    let ?X = "if left = [] then insert k X else X"
    have left: "retired" if "left = []" using f(9) False that by auto
    have "s' = s1 \<and> (cs' = cs \<or> cs' = cs @ [k]) \<and> (left = [] \<longrightarrow> cs' = cs @ [k])"
      using step left e r False by (auto simp: expired_entry_def Let_def split: if_splits)
    moreover have "?X \<subseteq> set cs'" using calculation cs(1) by auto
    moreover have "set cs' \<subseteq> keys s" using calculation cs(2) k by (metis Un_subset_iff empty_subsetI insert_subset list.set set_append)
    ultimately show ?thesis using f(1,3) by metis
  qed
qed

lemma expired_fold_ok:
  "sched_ok X D n s \<Longrightarrow> X \<subseteq> set cs \<Longrightarrow> set cs \<subseteq> keys s \<Longrightarrow> foldl (expired_entry now) (s, cs) ks = (s', cs') \<Longrightarrow>
   \<exists>X'. sched_ok X' D n s' \<and> X' \<subseteq> set cs' \<and> set cs' \<subseteq> keys s'"
proof (induction ks arbitrary: X s cs)
  case (Cons k ks)
  obtain s1 cs1 where st: "expired_entry now (s, cs) k = (s1, cs1)" by fastforce
  obtain X1 where "sched_ok X1 D n s1" "X1 \<subseteq> set cs1" "set cs1 \<subseteq> keys s1"
    using expired_entry_ok [OF Cons.prems(1-3) st] by blast
  then show ?case using Cons.IH Cons.prems(4) st by simp
qed auto

lemma keys_requeue [simp]: "sLive (requeueLocked s p) = sLive s"
  by (simp add: requeueLocked_def Let_def)

lemma reissue_candidate_ok:
  assumes ok: "sched_ok X D n s" and k: "k \<in> keys s"
    and step: "reissue_candidate now after (s, a, b) k = (s', a', b')"
  shows "sched_ok (X - {k}) D n s' \<and> keys s' = keys s"
proof -
  obtain out where e: "map_of (sLive s) k = Some out" using k by (auto simp: image_iff) (metis map_of_eq_None_iff option.exhaust image_eqI fst_conv)
  let ?renewed = "case oAttempts out of [] \<Rightarrow> s
    | x # as \<Rightarrow> s\<lparr>sLive := set_attempts k (x\<lparr>aDeadline := Some (now + after)\<rparr> # as) (sLive s)\<rparr>"
  have renewed: "sched_ok X D n ?renewed \<and> keys ?renewed = keys s
      \<and> (\<exists>o'. map_of (sLive ?renewed) k = Some o' \<and> oChunk o' = oChunk out)"
  proof (cases "oAttempts out")
    case (Cons x as)
    have "sched_ok X D n ?renewed"
      using ok_edit [OF ok e, of ?renewed "x\<lparr>aDeadline := Some (now + after)\<rparr> # as"] Cons
      by (auto simp: counts_def)
    then show ?thesis using Cons by (auto simp: map_of_set_attempts e)
  qed (use ok e in auto)
  then obtain o' where o': "map_of (sLive ?renewed) k = Some o'" "oChunk o' = oChunk out" by blast
  have "sched_ok (X - {k}) D n (requeueLocked ?renewed (oChunk out))" using ok_requeue [of X D n ?renewed k o'] renewed o' by simp
  moreover have "sched_ok (X - {k}) D n s" if "oAttempts out \<noteq> []"
    using ok that e table_entry [of s k] unfolding sched_ok_def idle_ok_def by fastforce
  moreover have "s' = s \<and> oAttempts out \<noteq> [] \<or> s' = requeueLocked ?renewed (oChunk out)"
    using step e by (auto simp: reissue_candidate_def Let_def split: if_splits)
  ultimately show ?thesis using renewed by (metis keys_requeue)
qed

lemma reissue_fold_ok:
  "sched_ok X D n s \<Longrightarrow> set cs \<subseteq> keys s \<Longrightarrow> foldl (reissue_candidate now after) (s, a, b) cs = (s', a', b') \<Longrightarrow>
   sched_ok (X - set cs) D n s'"
proof (induction cs arbitrary: X s a b)
  case (Cons k cs)
  obtain s1 a1 b1 where st: "reissue_candidate now after (s, a, b) k = (s1, a1, b1)" by (metis prod_cases3)
  have "sched_ok (X - {k}) D n s1 \<and> keys s1 = keys s" using reissue_candidate_ok [OF Cons.prems(1) _ st] Cons.prems(2) by simp
  then have "sched_ok (X - {k} - set cs) D n s'" using Cons.IH [of "X - {k}" s1 a1 b1] Cons.prems(2,3) st by auto
  then show ?case by (simp add: Diff_insert2 [symmetric])
qed auto

lemma ReissueExpired_ok:
  assumes ok: "sched_ok {} D n s"
  shows "sched_ok {} D n (fst (ReissueExpired s cb order))"
proof -
  obtain s1 cs where f1: "foldl (expired_entry (Now cb)) (s, []) order = (s1, cs)" by fastforce
  obtain X where X: "sched_ok X D n s1" "X \<subseteq> set cs" "set cs \<subseteq> keys s1" using expired_fold_ok [OF ok _ _ f1] by auto
  obtain s2 a b where f2: "foldl (reissue_candidate (Now cb) (retransmitAfter cb)) (s1, 0, 0) (sort cs) = (s2, a, b)"
    by (metis prod_cases3)
  have "X - set (sort cs) = {}" using X(2) by auto
  then have "sched_ok {} D n s2" using reissue_fold_ok [OF X(1) _ f2] X(3) by (metis set_sort)
  then show ?thesis using ok f1 f2 by (auto simp: ReissueExpired_def Let_def)
qed

lemma mark_written_mset:
  "mark_written lane ident as = Some bs \<Longrightarrow>
   \<exists>a M. mset as = add_mset a M \<and> mset bs = add_mset (a\<lparr>aWritten := True\<rparr>) M \<and> \<not> aWritten a \<and> aLane a = lane"
proof (induction lane ident as arbitrary: bs rule: mark_written.induct)
  case (2 lane ident a as)
  show ?case
  proof (cases "aId a \<noteq> ident \<or> aLane a \<noteq> lane \<or> aWritten a")
    case True
    then obtain bs' where bs: "mark_written lane ident as = Some bs'" "bs = a # bs'" using "2.prems" by auto
    then obtain x M where "mset as = add_mset x M" "mset bs' = add_mset (x\<lparr>aWritten := True\<rparr>) M" "\<not> aWritten x" "aLane x = lane"
      using "2.IH" [OF True] by blast
    then show ?thesis using bs by (intro exI [of _ x] exI [of _ "add_mset a M"]) auto
  next
    case False
    then show ?thesis using "2.prems" by (intro exI [of _ a] exI [of _ "mset as"]) auto
  qed
qed simp

lemma counts_wrote:
  assumes "counts s (add_mset (m, a) F)" "\<not> aWritten a"
  shows "counts (releaseQueuedLocked s (aLane a) m) (add_mset (m, a\<lparr>aWritten := True\<rparr>) F)"
  using assms by (auto simp: counts_def releaseQueuedLocked_def)

lemma Wrote_ok:
  assumes ok: "sched_ok {} D n s"
  shows "sched_ok {} D n (Wrote s lane arg)"
proof (cases "\<exists>c out as. arg = Some c \<and> map_of (sLive s) (cOffset c) = Some out
    \<and> mark_written lane (cAttempt c) (oAttempts out) = Some as")
  case True
  then obtain c out as where a: "arg = Some c" "map_of (sLive s) (cOffset c) = Some out"
    "mark_written lane (cAttempt c) (oAttempts out) = Some as" by blast
  obtain x M where m: "mset (oAttempts out) = add_mset x M" "mset as = add_mset (x\<lparr>aWritten := True\<rparr>) M"
    "\<not> aWritten x" "aLane x = lane" using mark_written_mset [OF a(3)] by blast
  let ?s = "releaseQueuedLocked (s\<lparr>sLive := set_attempts (cOffset c) as (sLive s)\<rparr>) lane (length (cData (chunk_at s (oChunk out))))"
  have "sched_ok (if as = [] then {cOffset c} else {}) D n ?s"
    by (rule ok_edit [OF ok a(2)]) (use m counts_wrote in auto)
  moreover have "as \<noteq> []" using m(2) by auto
  ultimately show ?thesis using a by (simp add: Wrote_def)
next
  case False
  then have "Wrote s lane arg = s" by (auto simp: Wrote_def split: option.splits)
  then show ?thesis using ok by simp
qed

section \<open>Losing a lane\<close>

lemma retire_lane_entry_ok:
  assumes ok: "sched_ok {} D n s"
  shows "sched_ok {} D n (retire_lane_entry lane s k)" "keys (retire_lane_entry lane s k) = keys s"
    "map_of (sLive (retire_lane_entry lane s k)) j = Some out' \<Longrightarrow> laneHasAttempt out' lane \<Longrightarrow>
      j \<noteq> k \<and> map_of (sLive s) j = Some out'"
proof -
  let ?bump = "\<lambda>s. s\<lparr>sStats := (sStats s)\<lparr>LaneFailures := LaneFailures (sStats s) + 1\<rparr>\<rparr>"
  consider (skip) "retire_lane_entry lane s k = s" "\<And>out. map_of (sLive s) k = Some out \<Longrightarrow> \<not> laneHasAttempt out lane"
    | (drop) out where "map_of (sLive s) k = Some out" "laneHasAttempt out lane" by (auto simp: retire_lane_entry_def split: option.splits)
  then have "sched_ok {} D n (retire_lane_entry lane s k) \<and> keys (retire_lane_entry lane s k) = keys s
    \<and> (\<forall>j out'. map_of (sLive (retire_lane_entry lane s k)) j = Some out' \<longrightarrow> laneHasAttempt out' lane \<longrightarrow>
      j \<noteq> k \<and> map_of (sLive s) j = Some out')"
  proof cases
    case skip
    then show ?thesis using ok by auto
  next
    case drop
    let ?gone = "filter (\<lambda>a. aLane a = lane) (oAttempts out)" and ?left = "filter (\<lambda>a. aLane a \<noteq> lane) (oAttempts out)"
    define s1 where "s1 = dropLaneAttemptsLocked (?bump s) k out lane"
    have ok': "sched_ok {} D n (?bump s)" using ok by simp
    have m: "mset (oAttempts out) = mset ?gone + mset ?left" by (simp add: multiset_partition)
    have ok1: "sched_ok (if ?left = [] then {k} else {}) D n s1"
      using ok_releaseLanes [OF ok' _ m, of k] drop(1) unfolding s1_def dropLaneAttemptsLocked_def Let_def
      by simp
    have live: "sLive s1 = set_attempts k ?left (sLive s)" by (simp add: s1_def dropLaneAttemptsLocked_def Let_def)
    have e1: "map_of (sLive s1) k = Some (out\<lparr>oAttempts := ?left\<rparr>)" by (simp add: live map_of_set_attempts drop(1))
    have r: "retire_lane_entry lane s k = (if ?left = [] then requeueLocked s1 (oChunk out) else s1)"
      using drop by (simp add: retire_lane_entry_def s1_def)
    have "sched_ok {} D n (requeueLocked s1 (oChunk out))" if "?left = []" using ok_requeue [OF _ e1, of "{k}"] ok1 that by simp
    then have "sched_ok {} D n (retire_lane_entry lane s k)" using ok1 unfolding r by (cases "?left = []") auto
    moreover have "sLive (retire_lane_entry lane s k) = set_attempts k ?left (sLive s)" unfolding r using live by simp
    ultimately show ?thesis using drop(1) by (auto simp: map_of_set_attempts laneHasAttempt_def split: if_splits)
  qed
  then show "sched_ok {} D n (retire_lane_entry lane s k)" "keys (retire_lane_entry lane s k) = keys s"
    "map_of (sLive (retire_lane_entry lane s k)) j = Some out' \<Longrightarrow> laneHasAttempt out' lane \<Longrightarrow>
      j \<noteq> k \<and> map_of (sLive s) j = Some out'" by blast+
qed

lemma retire_lane_fold:
  "sched_ok {} D n s \<Longrightarrow> sched_ok {} D n (foldl (retire_lane_entry lane) s ks)
     \<and> keys (foldl (retire_lane_entry lane) s ks) = keys s
     \<and> (\<forall>j out. map_of (sLive (foldl (retire_lane_entry lane) s ks)) j = Some out \<longrightarrow> laneHasAttempt out lane \<longrightarrow>
          j \<notin> set ks \<and> map_of (sLive s) j = Some out)"
proof (induction ks arbitrary: s)
  case (Cons k ks)
  note step = retire_lane_entry_ok [OF Cons.prems, of lane k]
  show ?case using Cons.IH [OF step(1)] step(2,3) by auto
qed simp

lemma flights_member: "x \<in># flights H L \<Longrightarrow> \<exists>(k, out)\<in>set L. snd x \<in> set (oAttempts out)"
  by (induction H L rule: flights.induct) auto

lemma counts_lane_free:
  assumes "counts s F" "\<And>x. x \<in># F \<Longrightarrow> aLane (snd x) \<noteq> lane"
  shows "sLoad s lane = 0" "sBytes s lane = 0" "sQueued s lane = 0"
proof -
  have e: "{#x \<in># F. aLane (snd x) = lane#} = {#x \<in># F. False#}"
    "{#x \<in># F. aLane (snd x) = lane \<and> \<not> aWritten (snd x)#} = {#x \<in># F. False#}"
    using assms(2) by (intro filter_mset_cong; auto)+
  have c: "sLoad s lane = size {#x \<in># F. aLane (snd x) = lane#}"
    "sBytes s lane = sum_mset (image_mset fst {#x \<in># F. aLane (snd x) = lane#})"
    "sQueued s lane = sum_mset (image_mset fst {#x \<in># F. aLane (snd x) = lane \<and> \<not> aWritten (snd x)#})"
    using assms(1) unfolding counts_def by blast+
  show "sLoad s lane = 0" "sBytes s lane = 0" "sQueued s lane = 0" unfolding c e by simp_all
qed

lemma ok_clear_lane:
  assumes "sched_ok X D n s" "sClosed s \<or> sLoad s lane = 0 \<and> sBytes s lane = 0 \<and> sQueued s lane = 0"
  shows "sched_ok X D n (s\<lparr>sLoad := (sLoad s)(lane := 0), sBytes := (sBytes s)(lane := 0), sQueued := (sQueued s)(lane := 0)\<rparr>)"
proof (cases "sClosed s")
  case True
  then show ?thesis using assms(1) by (simp add: sched_ok_def layout_def table_ok_def ready_ok_def idle_ok_def money_def)
next
  case False
  then have "(sLoad s)(lane := 0) = sLoad s" "(sBytes s)(lane := 0) = sBytes s" "(sQueued s)(lane := 0) = sQueued s"
    using assms(2) by (simp_all add: fun_upd_idem)
  then show ?thesis using assms(1) by simp
qed

lemma RetireLane_ok:
  assumes ok: "sched_ok {} D n s" and all: "keys s \<subseteq> set order"
  shows "sched_ok {} D n (RetireLane s lane order)"
proof -
  let ?s = "foldl (retire_lane_entry lane) s order"
  have f: "sched_ok {} D n ?s" "keys ?s = keys s"
    "\<And>j out. map_of (sLive ?s) j = Some out \<Longrightarrow> laneHasAttempt out lane \<Longrightarrow> j \<notin> set order"
    using retire_lane_fold [OF ok, of lane order] by blast+
  have "aLane (snd x) \<noteq> lane" if x: "x \<in># flights (sHeap ?s) (sLive ?s)" for x
  proof -
    obtain j out where j: "(j, out) \<in> set (sLive ?s)" "snd x \<in> set (oAttempts out)" using flights_member [OF x] by auto
    have "j \<in> keys ?s" using j(1) by force
    then have "map_of (sLive ?s) j = Some out" "j \<in> keys s" using f(1,2) j(1) table_entry [of ?s j out] by (simp_all add: sched_ok_def)
    then show ?thesis using f(3) [of j out] all j(2) by (auto simp: laneHasAttempt_def)
  qed
  then have "sClosed ?s \<or> sLoad ?s lane = 0 \<and> sBytes ?s lane = 0 \<and> sQueued ?s lane = 0"
    using f(1) counts_lane_free [of ?s "flights (sHeap ?s) (sLive ?s)" lane] unfolding sched_ok_def by blast
  then show ?thesis using ok_clear_lane [OF f(1)] by (simp add: RetireLane_def Let_def)
qed

section \<open>Acknowledgement\<close>

lemma sum_list_update_int: "p < length xs \<Longrightarrow> sum_list (xs[p := x]) = sum_list xs + x - (xs ! p :: int)"
proof -
  assume p: "p < length xs"
  have "sum_list xs = sum_list (take p xs) + (xs ! p + sum_list (drop (Suc p) xs))"
    by (metis id_take_nth_drop [OF p] sum_list.Cons sum_list.append)
  then show ?thesis by (simp add: upd_conv_take_nth_drop [OF p])
qed

lemma ok_forget:
  assumes ok: "sched_ok {} D n s" and p: "p < length (sHeap s)" and ret: "off s p \<in> keys s \<or> p \<in> set (sPending s)"
    and s': "sHeap s' = (sHeap s)[p := (chunk_at s p)\<lparr>cReservation := 0\<rparr>]"
      "sPending s' = filter (\<lambda>q. q \<noteq> p) (sPending s)" "sLive s' = filter (\<lambda>(j, _). j \<noteq> off s p) (sLive s)"
      "sum_list (sReleases s') = sum_list (sReleases s) + cReservation (chunk_at s p)"
    and same: "sNext s' = sNext s" "sEof s' = sEof s" "sClosed s' = sClosed s" "sFinished s' = sFinished s" "sCfg s' = sCfg s"
    and books: "counts s (flights (sHeap s) (sLive s)) \<Longrightarrow> counts s' (flights (sHeap s) (sLive s'))"
  shows "sched_ok {} (insert (off s p) D) n s'"
proof -
  let ?c = "(chunk_at s p)\<lparr>cReservation := 0\<rparr>"
  have f: "off s' q = off s q" "cData (chunk_at s' q) = cData (chunk_at s q)" "cUrgent (chunk_at s' q) = cUrgent (chunk_at s q)"
    "cReservation (chunk_at s' q) = (if q = p then 0 else cReservation (chunk_at s q))" "length (sHeap s') = length (sHeap s)" for q
    unfolding s'(1) using p by (auto simp: nth_list_update)
  have inj: "q \<in> set (sPending s) \<Longrightarrow> off s q = off s p \<Longrightarrow> q = p" "q < length (sHeap s) \<Longrightarrow> off s q = off s p \<Longrightarrow> q = p" for q
    using ok p layout_inj [of s q p] by (auto simp: sched_ok_def ready_ok_def)
  have k: "keys s' = keys s - {off s p}" unfolding s'(3) by force
  have "layout s'" by (rule layout_flags [of s _ p ?c]) (use ok s' same in \<open>auto simp: sched_ok_def\<close>)
  moreover have "table_ok s'"
    using ok by (auto simp: sched_ok_def table_ok_def s'(3) f distinct_map_filter)
  moreover have "ready_ok s'" using ok inj unfolding sched_ok_def ready_ok_def k f s'(2) unfolding s'(3)
    by (auto intro: sorted_wrt_filter)
  moreover have "idle_ok {} s'" using ok inj(2) by (force simp: sched_ok_def idle_ok_def table_ok_def s'(2,3))
  moreover have "money n s'"
  proof -
    have "sum_list (map cReservation (sHeap s')) = sum_list (map cReservation (sHeap s)) - cReservation (chunk_at s p)"
      unfolding s'(1) map_update using p by (simp add: sum_list_update_int)
    then show ?thesis using ok inj(2) unfolding money_def sched_ok_def same s'(4) k f s'(2) by auto
  qed
  moreover have "sClosed s' \<or> counts s' (flights (sHeap s') (sLive s'))"
    using ok books flights_flags [of ?c "sHeap s" p] by (auto simp: sched_ok_def same s'(1))
  moreover have "sClosed s' \<or> kept (insert (off s p) D) s'" using ok inj(2) unfolding sched_ok_def kept_def same k f s'(2) by auto
  moreover have "\<not> sFinished s" using ok ret by (auto simp: sched_ok_def)
  ultimately show ?thesis using ok unfolding sched_ok_def by (auto simp: same)
qed

lemma slices_Delete_filter:
  "i < length xs \<Longrightarrow> distinct xs \<Longrightarrow> slices_Delete i xs = filter (\<lambda>y. y \<noteq> xs ! i) xs"
proof (induction i xs rule: slices_Delete.induct)
  case (2 x xs)
  then have "filter (\<lambda>y. y \<noteq> x) xs = xs" by (auto simp: filter_id_conv)
  then show ?case by simp
qed auto

lemma find_pending_Some:
  "find_pending s k i ps = Some (j, p) \<Longrightarrow> i \<le> j \<and> j - i < length ps \<and> ps ! (j - i) = p \<and> off s p = k"
proof (induction s k i ps rule: find_pending.induct)
  case (2 s k i q qs)
  show ?case
  proof (cases "off s q = k")
    case False
    then have "Suc i \<le> j \<and> j - Suc i < length qs \<and> qs ! (j - Suc i) = p \<and> off s p = k" using 2 by simp
    moreover have "j - i = Suc (j - Suc i)" if "Suc i \<le> j" using that by simp
    ultimately show ?thesis by auto
  qed (use "2.prems" in auto)
qed simp

lemma find_pending_None: "find_pending s k i ps = None \<longleftrightarrow> (\<forall>p\<in>set ps. off s p \<noteq> k)"
  by (induction s k i ps rule: find_pending.induct) auto

lemma pending_distinct: "sched_ok X D n s \<Longrightarrow> distinct (sPending s)"
  by (auto simp: sched_ok_def ready_ok_def strict_sorted_iff)

lemma removePending_eq:
  assumes ok: "sched_ok X D n s" and pend: "sPending s' = sPending s" "sHeap s' = sHeap s"
  shows "p \<in> set (sPending s) \<Longrightarrow> removePendingLocked s' (off s p) = (s'\<lparr>sPending := filter (\<lambda>q. q \<noteq> p) (sPending s)\<rparr>, Some p)"
    "(\<forall>p\<in>set (sPending s). off s p \<noteq> k) \<Longrightarrow> removePendingLocked s' k = (s', None)"
proof -
  show "removePendingLocked s' k = (s', None)" if "\<forall>p\<in>set (sPending s). off s p \<noteq> k"
    using that find_pending_None [of s' k 0 "sPending s'"] by (simp add: removePendingLocked_def pend)
  assume p: "p \<in> set (sPending s)"
  then obtain j q where f: "find_pending s' (off s p) 0 (sPending s') = Some (j, q)"
    using find_pending_None [of s' "off s p" 0 "sPending s'"] pend by (cases "find_pending s' (off s p) 0 (sPending s')") auto
  then have q: "j < length (sPending s)" "sPending s ! j = q" "off s q = off s p"
    using find_pending_Some [OF f] pend by simp_all
  have "q = p"
    by (rule layout_inj [of s]) (use q p ok in \<open>auto simp: sched_ok_def ready_ok_def\<close>)
  then show "removePendingLocked s' (off s p) = (s'\<lparr>sPending := filter (\<lambda>q. q \<noteq> p) (sPending s)\<rparr>, Some p)"
    using f q slices_Delete_filter [OF q(1) pending_distinct [OF ok]] by (simp add: removePendingLocked_def pend)
qed

lemma signalIfDone_ok [simp]: "sched_ok X D n s \<Longrightarrow> sched_ok X D n (signalIfDoneLocked s)"
  by (auto simp: signalIfDoneLocked_def doneLocked_def sched_ok_def ok_defs)

lemma releaseChunk_fields [simp]:
  "sPending (releaseChunkLocked s p) = sPending s" "sLive (releaseChunkLocked s p) = sLive s"
  "sNext (releaseChunkLocked s p) = sNext s" "sEof (releaseChunkLocked s p) = sEof s"
  "sClosed (releaseChunkLocked s p) = sClosed s" "sFinished (releaseChunkLocked s p) = sFinished s"
  "sCfg (releaseChunkLocked s p) = sCfg s" "sErr (releaseChunkLocked s p) = sErr s"
  "sHeap (releaseChunkLocked s p) = (sHeap s)[p := (chunk_at s p)\<lparr>cReservation := 0\<rparr>]"
  "sum_list (sReleases (releaseChunkLocked s p)) = sum_list (sReleases s) + cReservation (chunk_at s p)"
  "counts (releaseChunkLocked s p) F = counts s F"
  by (simp_all add: releaseChunkLocked_def counts_def) (metis Chunk.surjective Chunk.update_convs(7) list_update_id)

lemma ok_more_done: "sched_ok X D n s \<Longrightarrow> D \<subseteq> D' \<Longrightarrow> sched_ok X D' n s"
  by (auto simp: sched_ok_def kept_def)

lemma Complete_ok:
  assumes ok: "sched_ok {} D n s"
  shows "sched_ok {} (insert (cOffset c) D) n (Complete s lane (Some c))"
proof (cases "map_of (sLive s) (cOffset c)")
  case e: (Some out)
  let ?p = "oChunk out" and ?k = "cOffset c"
  note f = live_entry_facts [OF ok e]
  let ?s1 = "releaseLanes s (length (cData (chunk_at s ?p))) (oAttempts out)"
  let ?s2 = "?s1\<lparr>sLive := filter (\<lambda>(j, _). j \<noteq> ?k) (sLive ?s1), sStats := (sStats ?s1)\<lparr>ChunksCompleted := ChunksCompleted (sStats ?s1) + 1,
     CompletedByLaneID := (CompletedByLaneID (sStats ?s1))(lane := CompletedByLaneID (sStats ?s1) lane + 1)\<rparr>\<rparr>"
  define s3 where "s3 = fst (removePendingLocked ?s2 ?k)"
  have r: "s3 = ?s2\<lparr>sPending := filter (\<lambda>q. q \<noteq> ?p) (sPending s)\<rparr>"
  proof (cases "?p \<in> set (sPending s)")
    case True
    then show ?thesis using removePending_eq(1) [OF ok _ _ True, of ?s2] f(2) by (simp add: s3_def)
  next
    case False
    have "filter (\<lambda>q. q \<noteq> ?p) (sPending s) = sPending s" using False by (auto simp: filter_id_conv)
    moreover have "\<forall>q\<in>set (sPending s). off s q \<noteq> ?k"
    proof
      fix q assume q: "q \<in> set (sPending s)"
      then have "q < length (sHeap s)" using ok by (simp add: sched_ok_def ready_ok_def)
      then show "off s q \<noteq> ?k" using layout_inj [of s q ?p] ok f q False by (auto simp: sched_ok_def)
    qed
    ultimately show ?thesis using removePending_eq(2) [OF ok, of ?s2 ?k] by (simp add: s3_def)
  qed
  have "Complete s lane (Some c) = Broadcast (SignalProducer (signalIfDoneLocked (releaseChunkLocked s3 ?p)))"
    unfolding s3_def Complete_def by (simp add: e Let_def split: prod.splits option.splits)
  moreover have "sched_ok {} (insert ?k D) n (releaseChunkLocked s3 ?p)"
  proof -
    have d: "distinct (map fst (sLive s))" using ok by (simp add: sched_ok_def table_ok_def)
    obtain R where R: "flights (sHeap s) (sLive s) = image_mset (Pair (length (cData (chunk_at s ?p)))) (mset (oAttempts out)) + R"
      "flights (sHeap s) (filter (\<lambda>(j, _). j \<noteq> ?k) (sLive s)) = R"
      by (rule flights_entry [OF e, of "sHeap s"]) (use d in blast)
    have "counts s (flights (sHeap s) (sLive s)) \<Longrightarrow> counts ?s1 (flights (sHeap s) (filter (\<lambda>(j, _). j \<noteq> ?k) (sLive s)))"
      unfolding R by (rule counts_releaseLanes)
    moreover have "counts s3 F = counts ?s1 F" for F unfolding r by simp
    moreover have "sHeap s3 = sHeap s" "sPending s3 = filter (\<lambda>q. q \<noteq> ?p) (sPending s)"
      "sLive s3 = filter (\<lambda>(j, _). j \<noteq> ?k) (sLive s)" "sReleases s3 = sReleases s" "sNext s3 = sNext s"
      "sEof s3 = sEof s" "sClosed s3 = sClosed s" "sFinished s3 = sFinished s" "sCfg s3 = sCfg s"
      unfolding r by simp_all
    ultimately have "sched_ok {} (insert (off s ?p) D) n (releaseChunkLocked s3 ?p)"
      by (intro ok_forget [OF ok f(1)]) (use f(2,3) in simp_all)
    then show ?thesis by (simp add: f(2))
  qed
  ultimately show ?thesis by simp
next
  case n: None
  show ?thesis
  proof (cases "\<exists>p\<in>set (sPending s). off s p = cOffset c")
    case True
    then obtain p where p: "p \<in> set (sPending s)" "off s p = cOffset c" by blast
    let ?s1 = "s\<lparr>sPending := filter (\<lambda>q. q \<noteq> p) (sPending s)\<rparr>"
    have live: "filter (\<lambda>(j, _). j \<noteq> off s p) (sLive s) = sLive s"
      using n p(2) by (auto simp: filter_id_conv map_of_eq_None_iff image_iff)
    have "p < length (sHeap s)" using p(1) ok by (simp add: sched_ok_def ready_ok_def)
    then have "sched_ok {} (insert (off s p) D) n (releaseChunkLocked ?s1 p)"
      by (intro ok_forget [OF ok]) (simp_all add: p(1) live)
    then have "sched_ok {} (insert (cOffset c) D) n (releaseChunkLocked ?s1 p)" by (simp add: p(2))
    moreover have "removePendingLocked s (cOffset c) = (?s1, Some p)" using removePending_eq(1) [OF ok _ _ p(1), of s] p(2) by simp
    ultimately show ?thesis by (simp add: Complete_def n Let_def)
  next
    case False
    then have "removePendingLocked s (cOffset c) = (s, None)" using removePending_eq(2) [OF ok, of s] by simp
    then show ?thesis using ok_more_done [OF ok, of "insert (cOffset c) D"] by (simp add: Complete_def n Let_def subset_insertI)
  qed
qed

section \<open>Handing out chunks\<close>

lemma take_scan_Some:
  "take_scan s cb lane w i ps = Some (j, p) \<Longrightarrow>
     i \<le> j \<and> j - i < length ps \<and> ps ! (j - i) = p
     \<and> (\<forall>m<j - i. \<exists>out. map_of (sLive s) (off s (ps ! m)) = Some out \<and> laneHasReliableAttempt out lane)
     \<and> (hasRoomLocked s cb lane w (length (cData (chunk_at s p))) \<or> cUrgent (chunk_at s p))
     \<and> (\<forall>out. map_of (sLive s) (off s p) = Some out \<longrightarrow> \<not> laneHasReliableAttempt out lane)"
proof (induction s cb lane w i ps rule: take_scan.induct)
  case (2 s cb lane w i q qs)
  let ?skip = "case map_of (sLive s) (off s q) of None \<Rightarrow> False | Some out \<Rightarrow> laneHasReliableAttempt out lane"
  have room: "hasRoomLocked s cb lane w (length (cData (chunk_at s q))) \<or> cUrgent (chunk_at s q)"
    using "2.prems" by (auto split: if_splits)
  show ?case
  proof (cases ?skip)
    case True
    then obtain out where out: "map_of (sLive s) (off s q) = Some out" "laneHasReliableAttempt out lane" by (auto split: option.splits)
    have "Suc i \<le> j \<and> j - Suc i < length qs \<and> qs ! (j - Suc i) = p
      \<and> (\<forall>m<j - Suc i. \<exists>out. map_of (sLive s) (off s (qs ! m)) = Some out \<and> laneHasReliableAttempt out lane)
      \<and> (hasRoomLocked s cb lane w (length (cData (chunk_at s p))) \<or> cUrgent (chunk_at s p))
      \<and> (\<forall>out. map_of (sLive s) (off s p) = Some out \<longrightarrow> \<not> laneHasReliableAttempt out lane)"
      using "2.IH" True room "2.prems" by (auto split: if_splits)
    moreover from this have "j - i = Suc (j - Suc i)" by linarith
    ultimately show ?thesis using out by (auto simp: less_Suc_eq_0_disj)
  next
    case False
    then show ?thesis using "2.prems" room by (auto split: if_splits option.splits)
  qed
qed simp

lemma ok_take:
  assumes ok: "sched_ok {} D n s" and p: "p \<in> set (sPending s)"
    and first: "\<And>q. q \<in> set (sPending s) \<Longrightarrow> off s q \<notin> keys s \<Longrightarrow> off s p \<notin> keys s \<Longrightarrow> q \<noteq> p \<Longrightarrow> p < q"
    and s': "sHeap s' = (sHeap s)[p := (chunk_at s p)\<lparr>cUrgent := False\<rparr>]" "sPending s' = filter (\<lambda>q. q \<noteq> p) (sPending s)"
      "sLive s' = (if off s p \<in> keys s then sLive s else sLive s @ [(off s p, \<lparr>oChunk = p, oAttempts = []\<rparr>)])"
    and same: "sNext s' = sNext s" "sEof s' = sEof s" "sClosed s' = sClosed s" "sFinished s' = sFinished s" "sCfg s' = sCfg s"
      "sReleases s' = sReleases s" "sLoad s' = sLoad s" "sBytes s' = sBytes s" "sQueued s' = sQueued s" "sTotal s' = sTotal s"
  shows "sched_ok {off s p} D n s'"
proof -
  let ?c = "(chunk_at s p)\<lparr>cUrgent := False\<rparr>"
  have pl: "p < length (sHeap s)" using p ok by (simp add: sched_ok_def ready_ok_def)
  have f: "off s' q = off s q" "cData (chunk_at s' q) = cData (chunk_at s q)" "cReservation (chunk_at s' q) = cReservation (chunk_at s q)"
    "q \<noteq> p \<Longrightarrow> cUrgent (chunk_at s' q) = cUrgent (chunk_at s q)" "length (sHeap s') = length (sHeap s)" for q
    unfolding s'(1) using pl by (auto simp: nth_list_update)
  have inj: "q < length (sHeap s) \<Longrightarrow> off s q = off s p \<Longrightarrow> q = p" for q
    using ok pl layout_inj [of s q p] by (auto simp: sched_ok_def)
  have k: "keys s' = insert (off s p) (keys s)" unfolding s'(3) by auto
  have mem: "(j, out) \<in> set (sLive s') \<Longrightarrow>
      (j, out) \<in> set (sLive s) \<or> (off s p \<notin> keys s \<and> j = off s p \<and> out = \<lparr>oChunk = p, oAttempts = []\<rparr>)" for j out
    unfolding s'(3) by (auto split: if_splits)
  have "layout s'" by (rule layout_flags [of s _ p ?c]) (use ok s' same in \<open>auto simp: sched_ok_def\<close>)
  moreover have "table_ok s'"
  proof -
    have "distinct (map fst (sLive s'))" using ok unfolding s'(3) by (auto simp: sched_ok_def table_ok_def)
    moreover have "oChunk out < length (sHeap s) \<and> off s (oChunk out) = j" if "(j, out) \<in> set (sLive s')" for j out
      using mem [OF that] ok pl by (auto simp: sched_ok_def table_ok_def)
    ultimately show ?thesis unfolding table_ok_def f by blast
  qed
  moreover have "ready_ok s'"
  proof -
    have q: "q < length (sHeap s) \<and> (cUrgent (chunk_at s' q) \<longleftrightarrow> off s q \<in> keys s') \<and>
        (off s q \<notin> keys s' \<longrightarrow> (\<forall>(j, out)\<in>set (sLive s'). oChunk out < q))" if "q \<in> set (sPending s)" "q \<noteq> p" for q
    proof -
      have 1: "q < length (sHeap s)" "cUrgent (chunk_at s q) \<longleftrightarrow> off s q \<in> keys s"
        "off s q \<notin> keys s \<Longrightarrow> (j, out) \<in> set (sLive s) \<Longrightarrow> oChunk out < q" for j out
        using ok that(1) by (auto simp: sched_ok_def ready_ok_def)
      then have "off s q \<noteq> off s p" using inj that(2) by blast
      moreover have "oChunk out < q" if "off s q \<notin> keys s'" "(j, out) \<in> set (sLive s')" for j out
        using mem [OF that(2)] 1(3) [of j out] first [OF \<open>q \<in> set (sPending s)\<close> _ _ \<open>q \<noteq> p\<close>] that(1) unfolding k by auto
      ultimately show ?thesis using 1(1,2) f(4) [OF that(2)] unfolding k by blast
    qed
    have "sorted_wrt (<) (sPending s')" using ok by (auto simp: sched_ok_def ready_ok_def s'(2) intro: sorted_wrt_filter)
    then show ?thesis using q unfolding ready_ok_def f s'(2) by simp
  qed
  moreover have "idle_ok {off s p} s'"
  proof -
    have "j = off s p \<or> oChunk out \<in> set (sPending s) \<and> oChunk out \<noteq> p" if "(j, out) \<in> set (sLive s')" "oAttempts out = []" for j out
      using mem [OF that(1)] that(2) ok by (auto simp: sched_ok_def idle_ok_def table_ok_def)
    then show ?thesis by (auto simp: idle_ok_def s'(2))
  qed
  moreover have "money n s'"
  proof -
    have "map cReservation (sHeap s') = map cReservation (sHeap s)" unfolding s'(1) by (simp add: map_update_same)
    then show ?thesis using ok inj p unfolding money_def sched_ok_def same k f s'(2) by auto
  qed
  moreover have "sClosed s' \<or> counts s' (flights (sHeap s') (sLive s'))"
  proof -
    have "flights H (L @ [(j, \<lparr>oChunk = p, oAttempts = []\<rparr>)]) = flights H L" for H L j by (induction H L rule: flights.induct) auto
    then have "flights (sHeap s') (sLive s') = flights (sHeap s) (sLive s)"
      unfolding s'(1,3) by (simp add: flights_flags)
    then show ?thesis using ok counts_cong [of s' s] same by (auto simp: sched_ok_def)
  qed
  moreover have "sClosed s' \<or> kept D s'" using ok inj unfolding sched_ok_def kept_def same k f s'(2) by auto
  moreover have "\<not> sFinished s" using ok p by (auto simp: sched_ok_def)
  ultimately show ?thesis using ok unfolding sched_ok_def by (auto simp: same)
qed

lemma ok_busy:
  "sched_ok (insert k X) D n s \<Longrightarrow> map_of (sLive s) k = Some out \<Longrightarrow> oAttempts out \<noteq> [] \<Longrightarrow> sched_ok X D n s"
  using table_entry [of s k] unfolding sched_ok_def idle_ok_def by fastforce

lemma take_scan_first:
  assumes ok: "sched_ok {} D n s" and t: "take_scan s cb lane w 0 (sPending s) = Some (i, p)"
  shows "p \<in> set (sPending s)" "slices_Delete i (sPending s) = filter (\<lambda>q. q \<noteq> p) (sPending s)"
    "\<And>q. q \<in> set (sPending s) \<Longrightarrow> off s q \<notin> keys s \<Longrightarrow> q \<noteq> p \<Longrightarrow> p < q"
proof -
  note f = take_scan_Some [OF t, simplified]
  have i: "i < length (sPending s)" "sPending s ! i = p" using f by simp_all
  then show "p \<in> set (sPending s)" by auto
  show "slices_Delete i (sPending s) = filter (\<lambda>q. q \<noteq> p) (sPending s)"
    using slices_Delete_filter [OF i(1) pending_distinct [OF ok]] i(2) by simp
  fix q assume q: "q \<in> set (sPending s)" "off s q \<notin> keys s" "q \<noteq> p"
  then obtain m where m: "m < length (sPending s)" "sPending s ! m = q" by (auto simp: in_set_conv_nth)
  have "\<not> m < i"
  proof
    assume "m < i"
    then obtain out where "map_of (sLive s) (off s q) = Some out" using f m(2) by blast
    then show False using q(2) map_of_SomeD by force
  qed
  then have "i < m" using m(2) i(2) q(3) by (cases i m rule: linorder_cases) auto
  then show "p < q" using ok m i by (auto simp: sched_ok_def ready_ok_def sorted_wrt_iff_nth_less)
qed

lemma counts_add:
  assumes "counts s F" "sLoad s' = (sLoad s)(aLane a := sLoad s (aLane a) + 1)"
    "sBytes s' = (sBytes s)(aLane a := sBytes s (aLane a) + m)"
    "sQueued s' = (sQueued s)(aLane a := sQueued s (aLane a) + m)" "sTotal s' = sTotal s + m" "\<not> aWritten a"
  shows "counts s' (add_mset (m, a) F)"
  using assms by (auto simp: counts_def)

lemma note_peak_fields [simp]:
  "sHeap (note_peak s) = sHeap s" "sPending (note_peak s) = sPending s" "sLive (note_peak s) = sLive s"
  "sNext (note_peak s) = sNext s" "sEof (note_peak s) = sEof s" "sClosed (note_peak s) = sClosed s"
  "sFinished (note_peak s) = sFinished s" "sReleases (note_peak s) = sReleases s" "sCfg (note_peak s) = sCfg s"
  "sLoad (note_peak s) = sLoad s" "sBytes (note_peak s) = sBytes s" "sQueued (note_peak s) = sQueued s"
  "sTotal (note_peak s) = sTotal s"
  by (simp_all add: note_peak_def)

lemma dispatch_ok:
  assumes ok: "sched_ok {} D n s" and t: "take_scan s cb lane w 0 (sPending s) = Some (i, p)"
  shows "sched_ok {} D n (fst (dispatch s cb lane i p))"
proof -
  note f = take_scan_first [OF ok t]
  let ?k = "off s p" and ?m = "length (cData (chunk_at s p))"
  let ?L = "if ?k \<in> keys s then sLive s else sLive s @ [(?k, \<lparr>oChunk = p, oAttempts = []\<rparr>)]"
  define sA where "sA = s\<lparr>sHeap := (sHeap s)[p := (chunk_at s p)\<lparr>cUrgent := False\<rparr>],
      sPending := filter (\<lambda>q. q \<noteq> p) (sPending s), sLive := ?L\<rparr>"
  have okA: "sched_ok {?k} D n sA" by (rule ok_take [OF ok f(1)]) (use f(3) in \<open>simp_all add: sA_def\<close>)
  have pl: "p < length (sHeap s)" using f(1) ok by (simp add: sched_ok_def ready_ok_def)
  have lookup: "map_of (sLive s) ?k = None \<longleftrightarrow> ?k \<notin> keys s" by (simp add: map_of_eq_None_iff)
  have same_p: "oChunk out = p" if "map_of (sLive s) ?k = Some out" for out
    using live_entry_facts [OF ok that] layout_inj [of s "oChunk out" p] pl ok by (simp add: sched_ok_def)
  define prior where "prior = (case map_of (sLive s) ?k of None \<Rightarrow> [] | Some out \<Rightarrow> oAttempts out)"
  have eA: "\<exists>out. map_of (sLive sA) ?k = Some out \<and> oChunk out = p \<and> oAttempts out = prior"
    using lookup same_p by (auto simp: sA_def map_add_def prior_def split: option.splits)
  then obtain out where out: "map_of (sLive sA) ?k = Some out" "oChunk out = p" "oAttempts out = prior" by blast
  define a where "a = \<lparr>aId = next_attempt (sAttempt s), aLane = lane,
     aDeadline = (if retransmitAfter cb > 0 then Some (Now cb + retransmitAfter cb) else None),
     aReliable = laneRetransmits cb lane, aWritten = False\<rparr>"
  define s' where "s' = fst (dispatch s cb lane i p)"
  have s': "sHeap s' = sHeap sA" "sPending s' = sPending sA" "sLive s' = set_attempts ?k (prior @ [a]) (sLive sA)"
    "sNext s' = sNext sA" "sEof s' = sEof sA" "sClosed s' = sClosed sA" "sFinished s' = sFinished sA"
    "sReleases s' = sReleases sA" "sCfg s' = sCfg sA" "sLoad s' = (sLoad s)(lane := sLoad s lane + 1)"
    "sBytes s' = (sBytes s)(lane := sBytes s lane + ?m)" "sQueued s' = (sQueued s)(lane := sQueued s lane + ?m)"
    "sTotal s' = sTotal s + ?m"
    using lookup f(2) unfolding s'_def sA_def prior_def a_def dispatch_def SignalProducer_def Let_def
    by (cases "map_of (sLive s) ?k"; simp)+
  have books: "counts s' (image_mset (Pair ?m) (mset (prior @ [a])) + R)"
    if "counts sA (image_mset (Pair ?m) (mset prior) + R)" for R
    using counts_add [OF that, of s' a ?m] s' by (simp add: sA_def a_def)
  have "sched_ok (if prior @ [a] = [] then insert ?k {?k} else {?k}) D n s'"
    by (rule ok_edit [OF okA out(1)]) (use s' books out pl in \<open>simp_all add: sA_def\<close>)
  then have "sched_ok {?k} D n s'" by simp
  moreover have "map_of (sLive s') ?k = Some (out\<lparr>oAttempts := prior @ [a]\<rparr>)" by (simp add: s'(3) map_of_set_attempts out(1))
  ultimately show ?thesis using ok_busy [of ?k "{}" D n s'] unfolding s'_def by simp
qed

lemma Next_ok:
  assumes "sched_ok {} D n s"
  shows "sched_ok {} D n (fst (Next_poll s cb ctxErr lane w))"
  using assms dispatch_ok [OF assms]
  by (auto simp: Next_poll_def takeReadyLocked_def split: option.splits prod.splits) (metis fst_conv)+

section \<open>The producer and the end\<close>

lemma ok_append:
  assumes ok: "sched_ok {} D n s" and run: "\<not> sEof s" "\<not> sClosed s"
    and s': "sHeap s' = sHeap s @ [c]" "sPending s' = sPending s @ [length (sHeap s)]" "sNext s' = sNext s + length (cData c)"
      "cOffset c = sNext s" "\<not> cUrgent c" "cData c = [] \<longrightarrow> sEof s'"
      "cReservation c = (if cData c = [] then 0 else ChunkSize (sCfg s))"
      "n' = (if cData c = [] then n else Suc n)"
    and same: "sLive s' = sLive s" "sClosed s' = sClosed s" "sFinished s' = sFinished s" "sCfg s' = sCfg s"
      "sReleases s' = sReleases s" "sLoad s' = sLoad s" "sBytes s' = sBytes s" "sQueued s' = sQueued s" "sTotal s' = sTotal s"
  shows "sched_ok {} D n' s'"
proof -
  let ?l = "length (sHeap s)"
  have full: "cData (chunk_at s q) \<noteq> []" if "q < ?l" for q using ok run(1) that by (auto simp: sched_ok_def layout_def)
  have at: "chunk_at s' q = (if q = ?l then c else chunk_at s q)" if "q \<le> ?l" for q using that by (auto simp: s'(1) nth_append)
  have len: "length (sHeap s') = Suc ?l" by (simp add: s'(1))
  have below: "q < ?l \<Longrightarrow> off s q < sNext s" for q using ok layout_below [of s q] full by (simp add: sched_ok_def)
  have mem: "oChunk out < ?l \<and> off s (oChunk out) = j" if "(j, out) \<in> set (sLive s)" for j out
    using ok that by (auto simp: sched_ok_def table_ok_def)
  have fresh: "sNext s \<notin> keys s" using mem below by fastforce
  have pend: "q < ?l" if "q \<in> set (sPending s)" for q using ok that by (simp add: sched_ok_def ready_ok_def)
  have "layout s'"
  proof -
    have lay: "layout s" using ok by (simp add: sched_ok_def)
    have "off s' q = length (concat (map cData (take q (sHeap s'))))" if "q < length (sHeap s')" for q
    proof (cases "q = ?l")
      case True
      then show ?thesis using lay s'(1,4) by (simp add: layout_def nth_append)
    next
      case False
      then have "q < ?l" using that len by simp
      then show ?thesis using lay by (simp add: layout_def s'(1) nth_append)
    qed
    moreover have "sNext s' = length (concat (map cData (sHeap s')))" using lay s'(1,3) by (simp add: layout_def)
    moreover have "Suc q = length (sHeap s') \<and> sEof s'" if "q < length (sHeap s')" "cData (chunk_at s' q) = []" for q
      using that full [of q] s'(6) len by (cases "q = ?l") (simp_all add: at)
    ultimately show ?thesis unfolding layout_def by blast
  qed
  moreover have "table_ok s'"
  proof -
    have "oChunk out < length (sHeap s') \<and> off s' (oChunk out) = j" if "(j, out) \<in> set (sLive s)" for j out
      using mem [OF that] by (simp add: len at)
    then show ?thesis using ok by (auto simp: sched_ok_def table_ok_def same)
  qed
  moreover have "ready_ok s'"
  proof -
    have "sorted_wrt (<) (sPending s')" using ok pend by (auto simp: s'(2) sorted_wrt_append sched_ok_def ready_ok_def)
    moreover have "q < length (sHeap s') \<and> (cUrgent (chunk_at s' q) \<longleftrightarrow> off s' q \<in> keys s)
        \<and> (off s' q \<notin> keys s \<longrightarrow> (\<forall>(k, out)\<in>set (sLive s). oChunk out < q))" if q: "q \<in> set (sPending s')" for q
    proof (cases "q = ?l")
      case True
      then show ?thesis using s'(4,5) fresh mem by (auto simp: len at)
    next
      case False
      then have q': "q \<in> set (sPending s)" using q by (simp add: s'(2))
      moreover have "q < ?l" "chunk_at s' q = chunk_at s q" using pend [OF q'] at [of q] by auto
      ultimately show ?thesis using ok len by (simp add: sched_ok_def ready_ok_def less_SucI)
    qed
    ultimately show ?thesis unfolding ready_ok_def same by blast
  qed
  moreover have "idle_ok {} s'" using ok by (auto simp: sched_ok_def idle_ok_def same s'(2))
  moreover have "money n' s'"
  proof -
    have "sum_list (map cReservation (sHeap s')) = sum_list (map cReservation (sHeap s)) + cReservation c" by (simp add: s'(1))
    moreover have "cReservation (chunk_at s' q) =
        (if cData (chunk_at s' q) \<noteq> [] \<and> (off s' q \<in> keys s \<or> q \<in> set (sPending s')) then ChunkSize (sCfg s) else 0)"
      if "q < length (sHeap s')" for q
      using ok that s'(7) by (cases "q = ?l") (auto simp: sched_ok_def money_def at len s'(2))
    ultimately show ?thesis
      using ok s'(7,8) unfolding money_def sched_ok_def same by (auto simp: algebra_simps)
  qed
  moreover have "counts s' (flights (sHeap s') (sLive s'))"
  proof -
    have "flights (sHeap s') (sLive s) = flights (sHeap s) (sLive s)"
      by (rule flights_cong) (use mem in \<open>fastforce simp: at\<close>)
    then show ?thesis using ok run(2) counts_cong [of s' s] same by (auto simp: sched_ok_def)
  qed
  moreover have "kept D s'" using ok run(2) by (auto simp: sched_ok_def kept_def same len at s'(2) less_Suc_eq)
  moreover have "\<not> sFinished s" using ok run(1) by (simp add: sched_ok_def)
  ultimately show ?thesis using ok unfolding sched_ok_def by (simp add: same)
qed

lemma ok_eof: "sched_ok X D n s \<Longrightarrow> sched_ok X D n (s\<lparr>sEof := True\<rparr>)"
  by (auto simp: sched_ok_def layout_def table_ok_def ready_ok_def idle_ok_def money_def counts_def kept_def)

lemma ok_final_flag:
  assumes ok: "sched_ok X D n s"
  shows "sched_ok X D n (set_chunk p ((chunk_at s p)\<lparr>cFinal := True\<rparr>) s)"
proof -
  let ?c = "(chunk_at s p)\<lparr>cFinal := True\<rparr>" and ?s = "set_chunk p ((chunk_at s p)\<lparr>cFinal := True\<rparr>) s"
  have f: "off ?s q = off s q" "cData (chunk_at ?s q) = cData (chunk_at s q)" "cUrgent (chunk_at ?s q) = cUrgent (chunk_at s q)"
    "cReservation (chunk_at ?s q) = cReservation (chunk_at s q)" for q
    by (simp_all add: nth_update_same)
  have "layout ?s" by (rule layout_flags [of s _ p ?c]) (use ok in \<open>auto simp: sched_ok_def\<close>)
  moreover have "map cReservation (sHeap ?s) = map cReservation (sHeap s)" by (simp add: map_update_same)
  moreover have "flights (sHeap ?s) (sLive s) = flights (sHeap s) (sLive s)" by (simp add: flights_flags)
  ultimately show ?thesis
    using ok f unfolding sched_ok_def table_ok_def ready_ok_def idle_ok_def money_def counts_def kept_def by simp
qed

lemma markEOF_ok:
  assumes ok: "sched_ok {} D n s" and run: "\<not> sEof s" "\<not> sClosed s"
  shows "sched_ok {} D n (markEOFLocked s)"
proof (cases "sPending s = []")
  case True
  then show ?thesis unfolding markEOFLocked_def Let_def
    by (intro ok_append [OF ok run, where c = "\<lparr>cReliable = False, cOffset = sNext s, cData = [], cFinal = True,
       cUrgent = False, cAttempt = 0, cReservation = 0\<rparr>"]) simp_all
next
  case False
  then show ?thesis using ok_final_flag [OF ok_eof [OF ok]] by (simp add: markEOFLocked_def Let_def)
qed

lemma releases_frame [simp]:
  "layout (s\<lparr>sReleases := r\<rparr>) = layout s" "table_ok (s\<lparr>sReleases := r\<rparr>) = table_ok s"
  "ready_ok (s\<lparr>sReleases := r\<rparr>) = ready_ok s" "idle_ok X (s\<lparr>sReleases := r\<rparr>) = idle_ok X s"
  "counts (s\<lparr>sReleases := r\<rparr>) F = counts s F" "kept D (s\<lparr>sReleases := r\<rparr>) = kept D s"
  by (simp_all add: ok_defs)

lemma ok_refund:
  assumes "sched_ok X D n s"
  shows "sched_ok X D (Suc n) (s\<lparr>sReleases := sReleases s @ [ChunkSize (sCfg s)]\<rparr>)"
proof -
  have "money (Suc n) (s\<lparr>sReleases := sReleases s @ [ChunkSize (sCfg s)]\<rparr>)"
    using assms by (simp add: sched_ok_def money_def algebra_simps)
  then show ?thesis using assms by (simp add: sched_ok_def)
qed

lemma produce_read_ok:
  assumes ok: "sched_ok {} D n s" and run: "\<not> sEof s"
  shows "sched_ok {} D (Suc n) (fst (produce_read s buf err))"
proof (cases "sClosed s")
  case True
  then show ?thesis using ok_refund [OF ok] by (simp add: produce_read_def)
next
  case False
  let ?c = "\<lparr>cReliable = False, cOffset = sNext s, cData = buf, cFinal = False, cUrgent = False, cAttempt = 0,
     cReservation = ChunkSize (sCfg s)\<rparr>"
  define s1 where "s1 = (if buf \<noteq> [] then s\<lparr>sHeap := sHeap s @ [?c], sNext := sNext s + length buf,
      sStats := (sStats s)\<lparr>SourceBytes := SourceBytes (sStats s) + length buf\<rparr>, sPending := sPending s @ [length (sHeap s)]\<rparr>
      else s\<lparr>sReleases := sReleases s @ [ChunkSize (sCfg s)]\<rparr>)"
  have ok1: "sched_ok {} D (Suc n) s1"
  proof (cases "buf = []")
    case True
    then show ?thesis using ok_refund [OF ok] by (simp add: s1_def)
  next
    case False
    then show ?thesis unfolding s1_def
      by (intro ok_append [OF ok run \<open>\<not> sClosed s\<close>, where c = ?c]) simp_all
  qed
  have f: "\<not> sEof s1" "\<not> sClosed s1" using run False by (simp_all add: s1_def)
  have "produce_read s buf err = (case err of
      None \<Rightarrow> (Broadcast s1, True)
    | Some ReadEOF \<Rightarrow> (Broadcast (signalIfDoneLocked (markEOFLocked s1)), False)
    | Some (ReadFailed e) \<Rightarrow> (Broadcast (signalIfDoneLocked (s1\<lparr>sErr := Some e, sEof := True\<rparr>)), False))"
    unfolding produce_read_def s1_def Let_def using False by simp
  moreover have "sched_ok {} D (Suc n) (signalIfDoneLocked (s1\<lparr>sErr := Some e, sEof := True\<rparr>))" for e
    by (rule signalIfDone_ok) (use ok_eof [of "{}" D "Suc n" "s1\<lparr>sErr := Some e\<rparr>"] ok1 in simp)
  ultimately show ?thesis
    using ok1 signalIfDone_ok [OF markEOF_ok [OF ok1 f]] by (simp split: option.splits read_error.splits)
qed

lemma produce_acquire_failed_ok: "sched_ok X D n s \<Longrightarrow> sched_ok X D n (produce_acquire_failed s e)"
  using ok_eof [of X D n "s\<lparr>sErr := Some e\<rparr>"]
  by (simp add: produce_acquire_failed_def)

text \<open>Closing returns the reservation of every retained chunk.\<close>

lemma release_fold:
  "\<forall>p\<in>set ps. p < length (sHeap s) \<Longrightarrow>
   (let s' = foldl releaseChunkLocked s ps in
     length (sHeap s') = length (sHeap s) \<and> map cData (sHeap s') = map cData (sHeap s)
     \<and> map cOffset (sHeap s') = map cOffset (sHeap s)
     \<and> (\<forall>q<length (sHeap s). cReservation (chunk_at s' q) = (if q \<in> set ps then 0 else cReservation (chunk_at s q)))
     \<and> sum_list (sReleases s') + sum_list (map cReservation (sHeap s')) = sum_list (sReleases s) + sum_list (map cReservation (sHeap s))
     \<and> sNext s' = sNext s \<and> sEof s' = sEof s \<and> sClosed s' = sClosed s \<and> sCfg s' = sCfg s \<and> sFinished s' = sFinished s)"
proof (induction ps arbitrary: s)
  case (Cons p ps)
  let ?s = "releaseChunkLocked s p"
  have p: "p < length (sHeap s)" using Cons.prems by simp
  have "map cData (sHeap ?s) = map cData (sHeap s)" "map cOffset (sHeap ?s) = map cOffset (sHeap s)" by (simp_all add: map_update_same)
  moreover have "sum_list (sReleases ?s) + sum_list (map cReservation (sHeap ?s)) = sum_list (sReleases s) + sum_list (map cReservation (sHeap s))"
    using p by (simp add: map_update sum_list_update_int)
  ultimately show ?case using Cons.IH [of ?s] Cons.prems p unfolding Let_def by (auto simp: nth_list_update)
qed simp

lemma sched_Close_ok:
  assumes ok: "sched_ok {} D n s"
  shows "sched_ok {} D n (sched_Close s)" "sClosed (sched_Close s)"
    "\<not> sClosed s \<Longrightarrow> sum_list (sReleases (sched_Close s)) = int n * ChunkSize (sCfg s)"
proof -
  let ?seen = "remdups (sPending s @ map (oChunk \<circ> snd) (sLive s))"
  define s1 where "s1 = foldl releaseChunkLocked (s\<lparr>sClosed := True\<rparr>) ?seen"
  let ?s = "s1\<lparr>sPending := [], sLive := []\<rparr>"
  have live: "oChunk out < length (sHeap s) \<and> off s (oChunk out) = k" if "(k, out) \<in> set (sLive s)" for k out
    using ok that by (auto simp: sched_ok_def table_ok_def)
  have valid: "\<forall>p\<in>set ?seen. p < length (sHeap (s\<lparr>sClosed := True\<rparr>))"
    using ok live by (auto simp: sched_ok_def ready_ok_def)
  note f = release_fold [OF valid, unfolded Let_def, folded s1_def, simplified]
  have zero: "cReservation (chunk_at s1 q) = 0" if q: "q < length (sHeap s)" for q
  proof (cases "off s q \<in> keys s")
    case True
    then obtain out where "(off s q, out) \<in> set (sLive s)" by auto
    moreover from this have "oChunk out = q" using live layout_inj [of s "oChunk out" q] q ok by (auto simp: sched_ok_def)
    ultimately show ?thesis using f q by force
  next
    case False
    then show ?thesis using f q ok by (auto simp: sched_ok_def money_def)
  qed
  have "map cReservation (sHeap s1) = replicate (length (sHeap s)) 0"
    by (rule nth_equalityI) (use f zero in auto)
  then have none: "sum_list (map cReservation (sHeap s1)) = 0" by (simp add: sum_list_replicate)
  have total: "sum_list (sReleases s1) = int n * ChunkSize (sCfg s)" using f none ok by (simp add: sched_ok_def money_def)
  have "layout ?s"
  proof -
    have "map cData (take q (sHeap s1)) = map cData (take q (sHeap s))" for q using f by (simp add: take_map [symmetric])
    moreover have "cData (chunk_at s1 q) = cData (chunk_at s q)" "off s1 q = off s q" if "q < length (sHeap s)" for q
      using f that by (metis nth_map)+
    ultimately show ?thesis using ok f by (simp add: sched_ok_def layout_def)
  qed
  moreover have "sFinished s \<longrightarrow> sEof s" using ok by (simp add: sched_ok_def)
  ultimately have "sched_ok {} D n ?s"
    using f zero none total ok by (simp add: sched_ok_def table_ok_def ready_ok_def idle_ok_def money_def)
  moreover have c: "sched_Close s = SignalProducer (Broadcast ?s)" if "\<not> sClosed s"
    using that by (simp add: sched_Close_def s1_def Let_def)
  ultimately show "sched_ok {} D n (sched_Close s)" using ok by (cases "sClosed s") (simp_all add: sched_Close_def)
  show "sClosed (sched_Close s)" using f c by (cases "sClosed s") (simp_all add: sched_Close_def Broadcast_def SignalProducer_def)
  show "sum_list (sReleases (sched_Close s)) = int n * ChunkSize (sCfg s)" if "\<not> sClosed s"
    using c [OF that] total by (simp add: Broadcast_def SignalProducer_def)
qed

section \<open>Runs\<close>

text \<open>
  Everything the producer, the lanes and the acknowledgement path can do, in any order and
  with any arguments. \<^verbatim>\<open>D\<close> collects the offsets reported complete, \<^verbatim>\<open>n\<close> counts the reads,
  each of which the producer has paid one reservation for.
\<close>

inductive stripe_run :: "Config \<Rightarrow> Scheduler \<Rightarrow> nat set \<Rightarrow> nat \<Rightarrow> bool" for cfg where
  run_new: "stripe_run cfg (NewScheduler cfg) {} 0"
| run_read: "stripe_run cfg s D n \<Longrightarrow> \<not> sEof s \<Longrightarrow> stripe_run cfg (fst (produce_read s buf err)) D (Suc n)"
| run_starved: "stripe_run cfg s D n \<Longrightarrow> \<not> sEof s \<Longrightarrow> stripe_run cfg (produce_acquire_failed s e) D n"
| run_next: "stripe_run cfg s D n \<Longrightarrow> stripe_run cfg (fst (Next_poll s cb ctxErr lane w)) D n"
| run_complete: "stripe_run cfg s D n \<Longrightarrow> stripe_run cfg (Complete s lane (Some c)) (insert (cOffset c) D) n"
| run_fail: "stripe_run cfg s D n \<Longrightarrow> stripe_run cfg (Fail s lane arg) D n"
| run_wrote: "stripe_run cfg s D n \<Longrightarrow> stripe_run cfg (Wrote s lane arg) D n"
| run_retire: "stripe_run cfg s D n \<Longrightarrow> set order = fst ` set (sLive s) \<Longrightarrow> stripe_run cfg (RetireLane s lane order) D n"
| run_below: "stripe_run cfg s D n \<Longrightarrow> set order = fst ` set (sLive s) \<Longrightarrow>
    stripe_run cfg (fst (ReissueUnacknowledgedBelow s bound order)) D n"
| run_expired: "stripe_run cfg s D n \<Longrightarrow> set order = fst ` set (sLive s) \<Longrightarrow> stripe_run cfg (fst (ReissueExpired s cb order)) D n"
| run_close: "stripe_run cfg s D n \<Longrightarrow> stripe_run cfg (sched_Close s) D n"

lemma applyDefaults_positive: "0 < ChunkSize (applyDefaults c)" "0 < LaneWindow (applyDefaults c)"
  "LaneWindow (applyDefaults c) \<le> MaxOutstanding (applyDefaults c)" "0 < MaxOutstandingBytes (applyDefaults c)"
  by (auto simp: applyDefaults_def DefaultConfig_def Let_def)

lemma stripe_run_ok: "stripe_run cfg s D n \<Longrightarrow> sched_ok {} D n s"
proof (induction rule: stripe_run.induct)
  case run_new
  show ?case using applyDefaults_positive by (simp add: NewScheduler_def sched_ok_def ok_defs)
next
  case (run_read s D n buf err)
  then show ?case by (simp add: produce_read_ok)
qed (simp_all add: produce_acquire_failed_ok Next_ok Complete_ok Fail_ok Wrote_ok RetireLane_ok
      ReissueUnacknowledgedBelow_ok ReissueExpired_ok sched_Close_ok)

section \<open>Properties\<close>

text \<open>What is recorded covers every attempt in flight.\<close>

lemma counts_cover:
  assumes "counts s F" "x \<in># F"
  shows "1 \<le> sLoad s (aLane (snd x))" "fst x \<le> sBytes s (aLane (snd x))" "fst x \<le> sTotal s"
    "\<not> aWritten (snd x) \<Longrightarrow> fst x \<le> sQueued s (aLane (snd x))"
proof -
  obtain G where "F = add_mset x G" using multi_member_split [OF assms(2)] by blast
  then show "1 \<le> sLoad s (aLane (snd x))" "fst x \<le> sBytes s (aLane (snd x))" "fst x \<le> sTotal s"
    "\<not> aWritten (snd x) \<Longrightarrow> fst x \<le> sQueued s (aLane (snd x))"
    using assms(1) by (simp_all add: counts_def)
qed

text \<open>
  C22: the books are exact until the scheduler is closed. Whatever the lanes, the producer and the
  acknowledgement path have done, what is recorded for a lane is the number of attempts it carries, their
  bytes and the bytes its transport has not taken, and the flow's total is the sum over all attempts. Every
  attempt in flight is covered by what is recorded for its lane and by the total, so taking it off the
  books, as \<^verbatim>\<open>releaseLaneLocked\<close> does, subtracts its amounts exactly and meets none of the clamps at zero.
\<close>

theorem stripe_books_exact:
  assumes "stripe_run cfg s D n" "\<not> sClosed s"
  shows "LaneOutstanding s lane =
      (size {#x \<in># flights (sHeap s) (sLive s). aLane (snd x) = lane#},
       sum_mset (image_mset fst {#x \<in># flights (sHeap s) (sLive s). aLane (snd x) = lane#}),
       sum_mset (image_mset fst {#x \<in># flights (sHeap s) (sLive s). aLane (snd x) = lane \<and> \<not> aWritten (snd x)#}))
    \<and> snd (Pending s) = sum_mset (image_mset fst (flights (sHeap s) (sLive s)))
    \<and> (\<forall>x \<in># flights (sHeap s) (sLive s).
        (let r = releaseLaneLocked s (aLane (snd x)) (fst x) (\<not> aWritten (snd x)); l = aLane (snd x) in
         sLoad s l = sLoad r l + 1 \<and> sBytes s l = sBytes r l + fst x \<and> sTotal s = sTotal r + fst x
         \<and> sQueued s l = sQueued r l + (if aWritten (snd x) then 0 else fst x)))"
proof -
  have c: "counts s (flights (sHeap s) (sLive s))" using stripe_run_ok [OF assms(1)] assms(2) by (simp add: sched_ok_def)
  have "let r = releaseLaneLocked s (aLane (snd x)) (fst x) (\<not> aWritten (snd x)); l = aLane (snd x) in
         sLoad s l = sLoad r l + 1 \<and> sBytes s l = sBytes r l + fst x \<and> sTotal s = sTotal r + fst x
         \<and> sQueued s l = sQueued r l + (if aWritten (snd x) then 0 else fst x)"
    if "x \<in># flights (sHeap s) (sLive s)" for x
    using counts_cover [OF c that] by (auto simp: releaseLaneLocked_def releaseQueuedLocked_def Let_def)
  then show ?thesis using c by (simp add: counts_def LaneOutstanding_def Pending_def)
qed

text \<open>
  C21: no byte of the source is lost. The chunks cut the stream read so far into consecutive
  runs, and until the scheduler is closed every one of them has been reported complete, is
  in the ready set, or is carried by at least one lane.
\<close>

theorem stripe_no_byte_lost:
  assumes "stripe_run cfg s D n" "\<not> sClosed s" "p < length (sHeap s)"
  shows "cOffset (sHeap s ! p) = length (concat (map cData (take p (sHeap s))))
    \<and> (cOffset (sHeap s ! p) \<in> D \<or> p \<in> set (sPending s)
       \<or> (\<exists>out. map_of (sLive s) (cOffset (sHeap s ! p)) = Some out \<and> oChunk out = p \<and> oAttempts out \<noteq> []))"
proof -
  note ok = stripe_run_ok [OF assms(1)]
  have lay: "layout s" and tab: "table_ok s" using ok by (simp_all add: sched_ok_def)
  have "cOffset (sHeap s ! p) \<in> D \<or> p \<in> set (sPending s) \<or> cOffset (sHeap s ! p) \<in> keys s"
    using ok assms(2,3) by (auto simp: sched_ok_def kept_def)
  moreover have "p \<in> set (sPending s) \<or> (\<exists>out. map_of (sLive s) (off s p) = Some out \<and> oChunk out = p \<and> oAttempts out \<noteq> [])"
    if k: "off s p \<in> keys s"
  proof -
    obtain out where e: "map_of (sLive s) (off s p) = Some out"
      using k map_of_eq_None_iff [of "sLive s" "off s p"] by (cases "map_of (sLive s) (off s p)") auto
    then have out: "(off s p, out) \<in> set (sLive s)" by (rule map_of_SomeD)
    have "oChunk out = p" using live_entry_facts [OF ok e] layout_inj [OF lay _ assms(3)] by simp
    then show ?thesis using out e ok by (auto simp: sched_ok_def idle_ok_def)
  qed
  ultimately show ?thesis using lay assms(3) by (auto simp: layout_def)
qed

text \<open>
  The done signal is truthful. Once it is raised on an open scheduler the source has
  ended and every chunk read from it has been reported complete.
\<close>

theorem stripe_done_means_delivered:
  assumes "stripe_run cfg s D n" "\<not> sClosed s" "sFinished s"
  shows "sEof s \<and> cOffset ` set (sHeap s) \<subseteq> D"
  using stripe_run_ok [OF assms(1)] assms(2,3) by (auto simp: sched_ok_def kept_def in_set_conv_nth)

text \<open>
  Memory reservations balance. Of the reservations paid for the reads exactly those of
  chunks still retained are outstanding, one per chunk however often it was re-issued; when
  the scheduler is closed, all of them have been returned.
\<close>

theorem stripe_reservations_balance:
  assumes "stripe_run cfg s D n"
  shows "sum_list (sReleases s) + sum_list (map cReservation (sHeap s)) = int n * ChunkSize (sCfg s)
    \<and> (\<forall>p<length (sHeap s). cReservation (sHeap s ! p) =
         (if cData (sHeap s ! p) \<noteq> [] \<and> (cOffset (sHeap s ! p) \<in> fst ` set (sLive s) \<or> p \<in> set (sPending s))
          then ChunkSize (sCfg s) else 0))
    \<and> (\<not> sClosed s \<longrightarrow> sum_list (sReleases (sched_Close s)) = int n * ChunkSize (sCfg s))"
  using stripe_run_ok [OF assms] sched_Close_ok(3) [OF stripe_run_ok [OF assms]] by (simp add: sched_ok_def money_def)

text \<open>
  A lane is handed the oldest work it can help with. The chunk \<^verbatim>\<open>Next\<close> returns is the ready
  chunk of least offset that the lane does not already carry reliably; it fits the lane's
  windows unless it is recovery work, and recovery work is exactly what was dispatched before.
\<close>

theorem next_hands_oldest:
  assumes "stripe_run cfg s D n" "Next_poll s cb None lane w = (s', NextChunk c)"
  shows "\<exists>p\<in>set (sPending s). cOffset c = cOffset (sHeap s ! p) \<and> cData c = cData (sHeap s ! p)
    \<and> (\<forall>out. map_of (sLive s) (cOffset c) = Some out \<longrightarrow> \<not> laneHasReliableAttempt out lane)
    \<and> (\<forall>q\<in>set (sPending s). cOffset (sHeap s ! q) < cOffset c \<longrightarrow>
         (\<exists>out. map_of (sLive s) (cOffset (sHeap s ! q)) = Some out \<and> laneHasReliableAttempt out lane))
    \<and> (hasRoomLocked s cb lane w (length (cData c)) \<or> cOffset c \<in> fst ` set (sLive s))"
proof -
  note ok = stripe_run_ok [OF assms(1)]
  obtain i p where t: "take_scan s cb lane w 0 (sPending s) = Some (i, p)" and c: "c = snd (dispatch s cb lane i p)"
    using assms(2) by (auto simp: Next_poll_def takeReadyLocked_def split: option.splits prod.splits if_splits)
  note f = take_scan_Some [OF t, simplified]
  have cc: "cOffset c = off s p" "cData c = cData (chunk_at s p)"
    unfolding c dispatch_def Let_def by (simp_all split: prod.splits)
  have p: "p \<in> set (sPending s)" using f by (metis nth_mem)
  have "\<exists>out. map_of (sLive s) (off s q) = Some out \<and> laneHasReliableAttempt out lane"
    if q: "q \<in> set (sPending s)" "off s q < off s p" for q
  proof -
    obtain m where m: "m < length (sPending s)" "sPending s ! m = q" using q(1) by (auto simp: in_set_conv_nth)
    have r: "ready_ok s" "layout s" using ok by (simp_all add: sched_ok_def)
    then have valid: "p < length (sHeap s)" "q < length (sHeap s)" using p q(1) by (auto simp: ready_ok_def)
    have "q < p" using q(2) layout_mono [OF r(2), of p q] valid by (cases p q rule: linorder_cases) auto
    then have "m < i" using r(1) m f by (cases i m rule: linorder_cases) (fastforce simp: ready_ok_def sorted_wrt_iff_nth_less)+
    then show ?thesis using f m(2) by blast
  qed
  moreover have "cUrgent (chunk_at s p) \<longleftrightarrow> off s p \<in> keys s" using ok p by (simp add: sched_ok_def ready_ok_def)
  ultimately show ?thesis using f p cc by (intro bexI [OF _ p]) simp
qed

text \<open>
  The flow window bounds what is committed. Handing out a chunk that is not recovery work
  keeps the flow's outstanding bytes within its total window, except for the first chunk of an
  idle flow, and keeps the lane's untaken bytes within the write-ahead bound, except for a
  lane whose transport has taken everything.
\<close>

theorem next_respects_windows:
  assumes "Next_poll s cb None lane w = (s', NextChunk c)" "\<not> cUrgent (sHeap s ! p)"
    and "p \<in> set (sPending s)" "take_scan s cb lane w 0 (sPending s) = Some (i, p)"
  shows "sTotal s' = sTotal s + length (cData c) \<and> sQueued s' lane = sQueued s lane + length (cData c)
    \<and> (WindowsLane cb \<noteq> None \<and> WindowsTotal cb > 0 \<and> sTotal s \<noteq> 0 \<longrightarrow> int (sTotal s') \<le> WindowsTotal cb)
    \<and> (w > 0 \<and> sTotal s \<noteq> 0 \<and> sQueued s lane \<noteq> 0 \<longrightarrow> int (sQueued s' lane) \<le> w)"
proof -
  have d: "s' = fst (dispatch s cb lane i p)" "c = snd (dispatch s cb lane i p)"
    using assms(1,4) by (auto simp: Next_poll_def takeReadyLocked_def split: option.splits prod.splits if_splits)
  have c: "cData c = cData (chunk_at s p)" unfolding d(2) dispatch_def Let_def by (simp split: prod.splits)
  have s': "sTotal s' = sTotal s + length (cData c)" "sQueued s' lane = sQueued s lane + length (cData c)"
    unfolding d(1) c dispatch_def Let_def SignalProducer_def
    by (cases "map_of (sLive s) (off s p)"; simp)+
  have "hasRoomLocked s cb lane w (length (cData c))" using take_scan_Some [OF assms(4)] assms(2) c by simp
  then show ?thesis unfolding s' hasRoomLocked_def Let_def by (auto split: if_splits option.splits)
qed

lemma Complete_tables:
  assumes ok: "sched_ok {} D n s"
  shows "sLive (Complete s lane (Some c)) = filter (\<lambda>(j, _). j \<noteq> cOffset c) (sLive s)"
    "sPending (Complete s lane (Some c)) = filter (\<lambda>q. off s q \<noteq> cOffset c) (sPending s)"
    "off (Complete s lane (Some c)) q = off s q"
proof -
  have none: "filter (\<lambda>(j, _). j \<noteq> cOffset c) (sLive s) = sLive s" if "map_of (sLive s) (cOffset c) = None"
    using that by (auto simp: filter_id_conv map_of_eq_None_iff image_iff)
  have one: "filter (\<lambda>q. q \<noteq> p) (sPending s) = filter (\<lambda>q. off s q \<noteq> cOffset c) (sPending s)"
    if "p \<in> set (sPending s)" "off s p = cOffset c" for p
    using that ok layout_inj [of s _ p] by (intro filter_cong) (auto simp: sched_ok_def ready_ok_def)
  have remove: "sPending (fst (removePendingLocked s' (cOffset c))) = filter (\<lambda>q. off s q \<noteq> cOffset c) (sPending s)"
    if "sPending s' = sPending s" "sHeap s' = sHeap s" for s'
  proof (cases "\<exists>p\<in>set (sPending s). off s p = cOffset c")
    case True
    then obtain p where p: "p \<in> set (sPending s)" "off s p = cOffset c" by blast
    show ?thesis using removePending_eq(1) [OF ok that p(1)] one [OF p] p(2) by simp
  next
    case False
    then have "filter (\<lambda>q. off s q \<noteq> cOffset c) (sPending s) = sPending s" by (auto simp: filter_id_conv)
    then show ?thesis using removePending_eq(2) [OF ok that, of "cOffset c"] False that by simp
  qed
  have f: "sLive (fst (removePendingLocked s' k)) = sLive s'" "sHeap (fst (removePendingLocked s' k)) = sHeap s'" for s' k
    by (simp_all add: removePendingLocked_def split: option.splits prod.splits)
  have g: "sLive (Broadcast (SignalProducer (signalIfDoneLocked (releaseChunkLocked s' p)))) = sLive s'"
    "sPending (Broadcast (SignalProducer (signalIfDoneLocked (releaseChunkLocked s' p)))) = sPending s'"
    "sHeap (Broadcast (SignalProducer (signalIfDoneLocked (releaseChunkLocked s' p)))) = (sHeap s')[p := (chunk_at s' p)\<lparr>cReservation := 0\<rparr>]"
    for s' p by (simp_all add: Broadcast_def SignalProducer_def signalIfDoneLocked_def)
  define s1 where "s1 = (case map_of (sLive s) (cOffset c) of None \<Rightarrow> s | Some out \<Rightarrow>
     (let s = releaseLanes s (length (cData (chunk_at s (oChunk out)))) (oAttempts out) in
      s\<lparr>sLive := filter (\<lambda>(j, _). j \<noteq> cOffset c) (sLive s),
        sStats := (sStats s)\<lparr>ChunksCompleted := ChunksCompleted (sStats s) + 1,
          CompletedByLaneID := (CompletedByLaneID (sStats s))(lane := CompletedByLaneID (sStats s) lane + 1)\<rparr>\<rparr>))"
  have s1: "sLive s1 = filter (\<lambda>(j, _). j \<noteq> cOffset c) (sLive s)" "sPending s1 = sPending s" "sHeap s1 = sHeap s"
    using none by (simp_all add: s1_def Let_def split: option.splits)
  obtain s2 dropped where r: "removePendingLocked s1 (cOffset c) = (s2, dropped)" by fastforce
  have s2: "sLive s2 = sLive s1" "sHeap s2 = sHeap s" "sPending s2 = filter (\<lambda>q. off s q \<noteq> cOffset c) (sPending s)"
    using f [of s1 "cOffset c"] remove [OF s1(2,3)] s1(3) r by simp_all
  have "Complete s lane (Some c) = s2 \<or>
      (\<exists>p. Complete s lane (Some c) = Broadcast (SignalProducer (signalIfDoneLocked (releaseChunkLocked s2 p))))"
    unfolding Complete_def Let_def using r unfolding s1_def Let_def by (cases "map_of (sLive s) (cOffset c)"; cases dropped) auto
  then show "sLive (Complete s lane (Some c)) = filter (\<lambda>(j, _). j \<noteq> cOffset c) (sLive s)"
    "sPending (Complete s lane (Some c)) = filter (\<lambda>q. off s q \<noteq> cOffset c) (sPending s)"
    "off (Complete s lane (Some c)) q = off s q"
    using g s1 s2 by (auto simp: nth_update_same)
qed

text \<open>
  Completion is idempotent. Reporting a chunk complete a second time, from any lane,
  changes nothing at all.
\<close>

theorem complete_idempotent:
  assumes "stripe_run cfg s D n" "cOffset c' = cOffset c"
  shows "Complete (Complete s lane (Some c)) lane' (Some c') = Complete s lane (Some c)"
proof -
  let ?s = "Complete s lane (Some c)"
  note t = Complete_tables [OF stripe_run_ok [OF assms(1)], of lane c]
  have "map_of (sLive ?s) (cOffset c) = None" unfolding t(1) by (auto simp: map_of_eq_None_iff)
  moreover have "removePendingLocked ?s (cOffset c) = (?s, None)"
    using find_pending_None [of ?s "cOffset c" 0 "sPending ?s"] t(2,3) by (simp add: removePendingLocked_def)
  ultimately show ?thesis using assms(2) by (simp add: Complete_def [of ?s] Let_def)
qed

section \<open>The end mark\<close>

text \<open>
  Two chunks of one byte are read and both given to lane 1; the first attempt fails and its
  chunk returns to the ready set; then the source reports its end.
\<close>

definition demo_callbacks :: Callbacks where
  "demo_callbacks = \<lparr>Retention = None, RetransmitAfter = None, ReliableLane = None, WindowsLane = Some (\<lambda>_ _. 0),
     WindowsTotal = 4, WindowsOutstanding = None, Now = 0\<rparr>"

definition demo_read :: Scheduler where
  "demo_read = fst (produce_read (fst (produce_read (NewScheduler DefaultConfig) [1] None)) [2] None)"

definition demo_given :: Scheduler where
  "demo_given = fst (Next_poll (fst (Next_poll demo_read demo_callbacks None 1 0)) demo_callbacks None 1 0)"

definition demo_chunk :: Chunk where
  "demo_chunk = \<lparr>cReliable = True, cOffset = 0, cData = [1], cFinal = False, cUrgent = False, cAttempt = 1, cReservation = 0\<rparr>"

definition demo_failed :: Scheduler where
  "demo_failed = Fail demo_given 1 (Some demo_chunk)"

definition demo_ended :: Scheduler where
  "demo_ended = fst (produce_read demo_failed [] (Some ReadEOF))"

definition demo_done :: Scheduler where
  "demo_done = Complete (Complete demo_ended 1 (Some demo_chunk)) 1 (Some (demo_chunk\<lparr>cOffset := 1\<rparr>))"

lemma demo_runs:
  "stripe_run DefaultConfig demo_read {} 2" "stripe_run DefaultConfig (fst (Next_poll demo_read demo_callbacks None 1 0)) {} 2"
  "stripe_run DefaultConfig demo_given {} 2" "stripe_run DefaultConfig demo_failed {} 2"
  "stripe_run DefaultConfig demo_ended {} 3" "stripe_run DefaultConfig demo_done {1, 0} 3"
proof -
  have "\<not> sEof (NewScheduler DefaultConfig)" "\<not> sEof (fst (produce_read (NewScheduler DefaultConfig) [1] None))"
    by code_simp+
  then have "stripe_run DefaultConfig demo_read {} (Suc (Suc 0))"
    unfolding demo_read_def by (intro run_read run_new)
  then show r: "stripe_run DefaultConfig demo_read {} 2" by (simp add: numeral_2_eq_2)
  then show "stripe_run DefaultConfig (fst (Next_poll demo_read demo_callbacks None 1 0)) {} 2" by (rule run_next)
  then show "stripe_run DefaultConfig demo_given {} 2" unfolding demo_given_def by (rule run_next)
  then show f: "stripe_run DefaultConfig demo_failed {} 2" unfolding demo_failed_def by (rule run_fail)
  have "\<not> sEof demo_failed" by code_simp
  then have "stripe_run DefaultConfig demo_ended {} (Suc 2)" unfolding demo_ended_def by (intro run_read f)
  then show e: "stripe_run DefaultConfig demo_ended {} 3" by simp
  have "stripe_run DefaultConfig demo_done (insert (cOffset (demo_chunk\<lparr>cOffset := 1\<rparr>)) (insert (cOffset demo_chunk) {})) 3"
    unfolding demo_done_def by (intro run_complete e)
  then show "stripe_run DefaultConfig demo_done {1, 0} 3" by (simp add: demo_chunk_def)
qed

text \<open>
  C23: the end-of-stream mark can land on a chunk that is not the last. The end is recorded on
  whatever chunk is last in the ready set; when that set holds only recovery work, a chunk in
  the middle of the stream is re-sent carrying the mark, though bytes of the stream follow it.
\<close>

theorem end_mark_misplaced:
  "\<exists>s D n p. stripe_run DefaultConfig s D n \<and> p < length (sHeap s) \<and> cFinal (sHeap s ! p) \<and> End (sHeap s ! p) < sNext s"
proof (intro exI conjI)
  show "stripe_run DefaultConfig demo_ended {} 3" by (rule demo_runs)
  show "0 < length (sHeap demo_ended)" "cFinal (sHeap demo_ended ! 0)" "End (sHeap demo_ended ! 0) < sNext demo_ended"
    by code_simp+
qed

section \<open>The properties at work\<close>

theorem stripe_books_exact_witness:
  "LaneOutstanding demo_given 1 = (2, 2, 2)
   \<and> size {#x \<in># flights (sHeap demo_given) (sLive demo_given). aLane (snd x) = 1#} = 2"
proof -
  have e: "LaneOutstanding demo_given 1 = (2, 2, 2)" "\<not> sClosed demo_given" by code_simp+
  show ?thesis using stripe_books_exact [OF demo_runs(3) e(2), of 1] e(1) by simp
qed

theorem stripe_no_byte_lost_witness:
  "sPending demo_failed = [0]
   \<and> (\<exists>out. map_of (sLive demo_failed) 1 = Some out \<and> oChunk out = 1 \<and> oAttempts out \<noteq> [])"
proof -
  have e: "\<not> sClosed demo_failed" "1 < length (sHeap demo_failed)" "sPending demo_failed = [0]"
    "cOffset (sHeap demo_failed ! 1) = 1" by code_simp+
  show ?thesis using stripe_no_byte_lost [OF demo_runs(4) e(1,2)] e(3,4) by auto
qed

theorem stripe_done_means_delivered_witness: "sFinished demo_done \<and> cOffset ` set (sHeap demo_done) \<subseteq> {1, 0}"
proof -
  have e: "\<not> sClosed demo_done" "sFinished demo_done" by code_simp+
  show ?thesis using stripe_done_means_delivered [OF demo_runs(6) e] e(2) by simp
qed

theorem stripe_reservations_balance_witness:
  "sum_list (sReleases demo_failed) = 0 \<and> sum_list (sReleases (sched_Close demo_failed)) = 2 * 65536"
proof -
  have e: "\<not> sClosed demo_failed" "sReleases demo_failed = []" "ChunkSize (sCfg demo_failed) = 65536" by code_simp+
  show ?thesis using stripe_reservations_balance [OF demo_runs(4)] e by simp
qed

theorem next_hands_oldest_witness:
  "\<exists>p\<in>set (sPending demo_read). cOffset demo_chunk = cOffset (sHeap demo_read ! p)
     \<and> (\<forall>q\<in>set (sPending demo_read). \<not> cOffset (sHeap demo_read ! q) < cOffset demo_chunk)"
proof -
  have "snd (Next_poll demo_read demo_callbacks None 1 0) = NextChunk demo_chunk" by code_simp
  then have e: "Next_poll demo_read demo_callbacks None 1 0
      = (fst (Next_poll demo_read demo_callbacks None 1 0), NextChunk demo_chunk)" by (metis prod.collapse)
  show ?thesis using next_hands_oldest [OF demo_runs(1) e] by (auto simp: demo_chunk_def)
qed

theorem next_respects_windows_witness: "sTotal demo_given = 2 \<and> int (sTotal demo_given) \<le> 4"
proof -
  let ?s = "fst (Next_poll demo_read demo_callbacks None 1 0)"
  let ?c = "demo_chunk\<lparr>cOffset := 1, cData := [2], cAttempt := 2\<rparr>"
  have e: "snd (Next_poll ?s demo_callbacks None 1 0) = NextChunk ?c" "\<not> cUrgent (sHeap ?s ! 1)" "1 \<in> set (sPending ?s)"
    "take_scan ?s demo_callbacks 1 0 0 (sPending ?s) = Some (0, 1)" "sTotal ?s = 1" "sTotal demo_given = 2" by code_simp+
  have n: "Next_poll ?s demo_callbacks None 1 0 = (demo_given, NextChunk ?c)" unfolding demo_given_def using e(1) by (metis prod.collapse)
  show ?thesis using next_respects_windows [OF n e(2-4)] e(5,6) by (simp add: demo_callbacks_def)
qed

theorem complete_idempotent_witness:
  "Complete (Complete demo_ended 1 (Some demo_chunk)) 2 (Some demo_chunk) = Complete demo_ended 1 (Some demo_chunk)"
  by (rule complete_idempotent [OF demo_runs(5)]) simp

end
