(* ===== verification/Limiter.thy ===== *)
theory Limiter
  imports Prelude Complex_Main
begin

text \<open>
  \<^verbatim>\<open>internal/limiter/budget.go\<close>: the pacing budget shared by all lanes of an endpoint, two token
  buckets of which bulk traffic may use one and interactive traffic both. The float64 token
  counts and the times in seconds are rational numbers. \<^verbatim>\<open>Wait\<close> is one iteration of its loop:
  it grants, refuses, or asks to sleep.
\<close>

section \<open>State and operations\<close>

record LimiterConfig =
  TotalBytesPerSec :: nat
  ReserveBytesPerSec :: nat
  Burst :: rat

record Bucket =
  total :: rat
  reserve :: rat
  lastRefill :: rat
  bulkCap :: rat
  intCap :: rat
  bulkR :: rat
  intR :: rat

definition NewBucket :: "LimiterConfig \<Rightarrow> rat \<Rightarrow> Bucket option" where
  "NewBucket cfg now =
     (if TotalBytesPerSec cfg = 0 then None
      else
        (let burst = (if Burst cfg \<le> 0 then 1 / 4 else Burst cfg);
             reserveBytes = (if ReserveBytesPerSec cfg > TotalBytesPerSec cfg then TotalBytesPerSec cfg else ReserveBytesPerSec cfg);
             bulkRate = of_nat (TotalBytesPerSec cfg - reserveBytes);
             reserveRate = of_nat reserveBytes;
             bulk = (if bulkRate = 0 then 0 else max (64 * 1024) (bulkRate * burst));
             interactive = (if reserveRate = 0 then 0 else max (16 * 1024) (reserveRate * burst)) in
         Some \<lparr>total = bulk, reserve = interactive, lastRefill = now,
           bulkCap = bulk, intCap = interactive, bulkR = bulkRate, intR = reserveRate\<rparr>))"

definition refill :: "Bucket \<Rightarrow> rat \<Rightarrow> Bucket" where
  "refill b now =
     (if now < lastRefill b then b\<lparr>lastRefill := now\<rparr>
      else
        (let delta = now - lastRefill b in
         b\<lparr>total := min (bulkCap b) (total b + bulkR b * delta),
           reserve := min (intCap b) (reserve b + intR b * delta), lastRefill := now\<rparr>))"

definition bucket_capacity :: "Bucket \<Rightarrow> bool \<Rightarrow> rat" where
  "bucket_capacity b interactive = (if interactive then bulkCap b + intCap b else bulkCap b)"

definition MaxInt :: int where "MaxInt = 2 ^ 63 - 1"

definition MaxRequest :: "Bucket option \<Rightarrow> bool \<Rightarrow> int" where
  "MaxRequest b interactive =
     (case b of
        None \<Rightarrow> MaxInt
      | Some b \<Rightarrow>
          (let t = bucket_capacity b interactive in
           if t \<ge> of_int MaxInt then MaxInt else \<lfloor>t\<rfloor>))"

datatype wait_outcome = WaitGranted | WaitInvalid | WaitSleep rat

text \<open>The checks before the loop: an immediate answer, or the loop.\<close>

definition Wait_enter :: "Bucket option \<Rightarrow> int \<Rightarrow> bool \<Rightarrow> wait_outcome option" where
  "Wait_enter b n interactive =
     (case b of
        None \<Rightarrow> Some WaitGranted
      | Some b \<Rightarrow>
          if n \<le> 0 then Some WaitGranted
          else if of_int n > bucket_capacity b interactive then Some WaitInvalid
          else None)"

definition Wait_iteration :: "Bucket \<Rightarrow> rat \<Rightarrow> int \<Rightarrow> bool \<Rightarrow> Bucket \<times> wait_outcome" where
  "Wait_iteration b now n interactive =
     (let b = refill b now; need = of_int n in
      if interactive then
        (if reserve b + total b \<ge> need then
           (let fromReserve = min (reserve b) need in
            (b\<lparr>reserve := reserve b - fromReserve, total := total b - (need - fromReserve)\<rparr>, WaitGranted))
         else
           (let deficit = (if reserve b \<ge> need then 0 else need - reserve b - total b);
                waitRate = (if reserve b \<ge> need then intR b else intR b + bulkR b);
                waitSeconds = (if waitRate > 0 then deficit / waitRate else 0) in
            (b, WaitSleep (if waitSeconds < 1 / 1000 then 1 / 1000 else waitSeconds))))
      else if total b \<ge> need then (b\<lparr>total := total b - need\<rparr>, WaitGranted)
      else if bulkR b > 0 then
        (let waitSeconds = (need - total b) / bulkR b in
         (b, WaitSleep (if waitSeconds < 1 / 1000 then 1 / 1000 else waitSeconds)))
      else (b, WaitInvalid))"

section \<open>The invariant\<close>

definition bucket_ok :: "Bucket \<Rightarrow> bool" where
  "bucket_ok b \<longleftrightarrow> 0 \<le> total b \<and> total b \<le> bulkCap b \<and> 0 \<le> reserve b \<and> reserve b \<le> intCap b
     \<and> 0 \<le> bulkR b \<and> 0 \<le> intR b \<and> (bulkR b = 0 \<longrightarrow> bulkCap b = 0) \<and> (intR b = 0 \<longrightarrow> intCap b = 0)"

lemma NewBucket_ok: "NewBucket cfg now = Some b \<Longrightarrow> bucket_ok b \<and> lastRefill b = now"
  by (auto simp: NewBucket_def bucket_ok_def Let_def split: if_splits)

lemma refill_ok: "bucket_ok b \<Longrightarrow> bucket_ok (refill b now)"
  by (auto simp: refill_def bucket_ok_def Let_def)

lemma refill_fields [simp]:
  "bulkCap (refill b now) = bulkCap b" "intCap (refill b now) = intCap b" "bulkR (refill b now) = bulkR b"
  "intR (refill b now) = intR b" "lastRefill (refill b now) = now"
  by (simp_all add: refill_def Let_def)

lemma refill_bound:
  assumes "lastRefill b \<le> now"
  shows "total (refill b now) \<le> total b + bulkR b * (now - lastRefill b)"
    "reserve (refill b now) \<le> reserve b + intR b * (now - lastRefill b)"
  using assms by (simp_all add: refill_def Let_def)

lemma Wait_iteration_step:
  assumes ok: "bucket_ok b" and it: "Wait_iteration b now n interactive = (b', out)" and n: "0 < n"
  shows "bucket_ok b'" "lastRefill b' = now" "bulkCap b' = bulkCap b" "intCap b' = intCap b" "bulkR b' = bulkR b" "intR b' = intR b"
    "out = WaitGranted \<Longrightarrow> total b' + reserve b' = total (refill b now) + reserve (refill b now) - of_int n"
    "out = WaitGranted \<Longrightarrow> \<not> interactive \<Longrightarrow> total b' = total (refill b now) - of_int n \<and> reserve b' = reserve (refill b now)"
    "out \<noteq> WaitGranted \<Longrightarrow> b' = refill b now" "total b' \<le> total (refill b now)"
  using it n refill_ok [OF ok, of now]
  by (auto simp: Wait_iteration_def Let_def bucket_ok_def split: if_splits)

section \<open>Pacing over time\<close>

text \<open>
  Iterations of any number of waiting senders in the order they take the lock: the time, the
  request and its class. The two sums are the bytes granted to bulk senders and to all.
\<close>

fun paced :: "Bucket \<Rightarrow> (rat \<times> int \<times> bool) list \<Rightarrow> Bucket \<times> rat \<times> rat" where
  "paced b [] = (b, 0, 0)"
| "paced b ((now, n, interactive) # es) =
     (case Wait_iteration b now n interactive of (b1, out) \<Rightarrow>
      case paced b1 es of (b2, bulk, all) \<Rightarrow>
        (b2, if out = WaitGranted \<and> \<not> interactive then bulk + of_int n else bulk,
         if out = WaitGranted then all + of_int n else all))"

fun in_time :: "rat \<Rightarrow> (rat \<times> int \<times> bool) list \<Rightarrow> bool" where
  "in_time t [] \<longleftrightarrow> True"
| "in_time t ((now, n, interactive) # es) \<longleftrightarrow> t \<le> now \<and> 0 < n \<and> in_time now es"

lemma paced_spec:
  "bucket_ok b \<Longrightarrow> in_time (lastRefill b) es \<Longrightarrow> paced b es = (b', bulk, all) \<Longrightarrow>
     bucket_ok b' \<and> bulkCap b' = bulkCap b \<and> intCap b' = intCap b \<and> bulkR b' = bulkR b \<and> intR b' = intR b
     \<and> lastRefill b \<le> lastRefill b'
     \<and> bulk + total b' \<le> total b + bulkR b * (lastRefill b' - lastRefill b)
     \<and> all + total b' + reserve b' \<le> total b + reserve b + (bulkR b + intR b) * (lastRefill b' - lastRefill b)"
proof (induction b es arbitrary: b' bulk all rule: paced.induct)
  case (2 b now n interactive es)
  obtain b1 out where it: "Wait_iteration b now n interactive = (b1, out)" by fastforce
  obtain bulk1 all1 where p: "paced b1 es = (b', bulk1, all1)"
    and sums: "bulk = (if out = WaitGranted \<and> \<not> interactive then bulk1 + of_int n else bulk1)"
      "all = (if out = WaitGranted then all1 + of_int n else all1)"
    using "2.prems"(3) it by (auto split: prod.splits)
  have t: "lastRefill b \<le> now" "0 < n" "in_time now es" using "2.prems"(2) by auto
  note st = Wait_iteration_step [OF "2.prems"(1) it t(2)] and rf = refill_bound [OF t(1)]
  have ih: "bucket_ok b' \<and> bulkCap b' = bulkCap b1 \<and> intCap b' = intCap b1 \<and> bulkR b' = bulkR b1 \<and> intR b' = intR b1
     \<and> now \<le> lastRefill b' \<and> bulk1 + total b' \<le> total b1 + bulkR b * (lastRefill b' - now)
     \<and> all1 + total b' + reserve b' \<le> total b1 + reserve b1 + (bulkR b + intR b) * (lastRefill b' - now)"
    using "2.IH" [OF it [symmetric] st(1) _ p] st(2,5,6) t(3) by simp
  have lin: "bulkR b * (lastRefill b' - lastRefill b) = bulkR b * (lastRefill b' - now) + bulkR b * (now - lastRefill b)"
    "(bulkR b + intR b) * (lastRefill b' - lastRefill b) = (bulkR b + intR b) * (lastRefill b' - now) + bulkR b * (now - lastRefill b) + intR b * (now - lastRefill b)"
    by (simp_all add: algebra_simps)
  have "bulk + total b' \<le> total b + bulkR b * (lastRefill b' - lastRefill b)"
    using ih rf(1) st(8,10) sums(1) unfolding lin by (auto split: if_splits)
  moreover have "all + total b' + reserve b' \<le> total b + reserve b + (bulkR b + intR b) * (lastRefill b' - lastRefill b)"
    using ih rf st(7,9) sums(2) unfolding lin by (cases "out = WaitGranted") auto
  ultimately show ?case using ih st(3-6) t(1) by auto
qed auto

definition demo_limits :: LimiterConfig where
  "demo_limits = \<lparr>TotalBytesPerSec = 1000000, ReserveBytesPerSec = 200000, Burst = 1\<rparr>"

definition demo_bucket :: Bucket where
  "demo_bucket = \<lparr>total = 800000, reserve = 200000, lastRefill = 0, bulkCap = 800000, intCap = 200000, bulkR = 800000, intR = 200000\<rparr>"

lemma demo_bucket_new: "NewBucket demo_limits 0 = Some demo_bucket"
  by (simp add: NewBucket_def demo_limits_def demo_bucket_def)

text \<open>The first iteration of a stretch refills the buckets, so the stretch may as well start from the refilled state.\<close>

lemma refill_same: "bucket_ok b \<Longrightarrow> refill b (lastRefill b) = b"
  by (simp add: refill_def bucket_ok_def Let_def min_absorb2)

lemma refill_again: "bucket_ok b \<Longrightarrow> refill (refill b now) now = refill b now"
  using refill_same [OF refill_ok, of b now] by simp

lemma paced_refilled: "bucket_ok b \<Longrightarrow> paced (refill b now) ((now, n, interactive) # es) = paced b ((now, n, interactive) # es)"
  by (simp add: Wait_iteration_def refill_again Let_def)

lemma in_time_append: "in_time t (es @ fs) \<longleftrightarrow> in_time t es \<and> in_time (if es = [] then t else fst (last es)) fs"
  by (induction t es rule: in_time.induct) auto

text \<open>
  C24: the budget paces. Take any stretch of the senders' waits, after any earlier ones and any pause,
  in any mixture of classes, on a clock that does not run backwards. From the moment of its first
  wait, the bytes granted to bulk traffic never exceed one burst plus the bulk rate times the
  time that has passed in the stretch, and the bytes granted altogether never exceed both bursts plus the
  total rate times that time. So idle time saves up at most a burst, and the interactive reserve is out of
  reach of bulk traffic.
\<close>

theorem pacing_bound:
  assumes "NewBucket cfg t0 = Some b" "in_time t0 (before @ (t, n, interactive) # es)"
    and "paced (fst (paced b before)) ((t, n, interactive) # es) = (b', bulk, all)"
  shows "bulk \<le> bulkCap b + bulkR b * (lastRefill b' - t)
    \<and> all \<le> bulkCap b + intCap b + (bulkR b + intR b) * (lastRefill b' - t)"
proof -
  let ?b0 = "fst (paced b before)"
  have b: "bucket_ok b" "lastRefill b = t0" using NewBucket_ok [OF assms(1)] by simp_all
  have in0: "in_time t0 before" "in_time t ((t, n, interactive) # es)" using assms(2) by (simp_all add: in_time_append)
  obtain bulk0 all0 where "paced b before = (?b0, bulk0, all0)" by (metis prod.collapse)
  from paced_spec [OF b(1) _ this] in0(1) b(2)
  have b0: "bucket_ok ?b0" "bulkCap ?b0 = bulkCap b" "intCap ?b0 = intCap b" "bulkR ?b0 = bulkR b" "intR ?b0 = intR b" by simp_all
  let ?r = "refill ?b0 t"
  have r: "bucket_ok ?r" by (rule refill_ok [OF b0(1)])
  have "paced ?r ((t, n, interactive) # es) = (b', bulk, all)" using paced_refilled [OF b0(1)] assms(3) by simp
  from paced_spec [OF r _ this] in0(2)
  have "bucket_ok b'" "bulk + total b' \<le> total ?r + bulkR b * (lastRefill b' - t)"
    "all + total b' + reserve b' \<le> total ?r + reserve ?r + (bulkR b + intR b) * (lastRefill b' - t)" using b0 by simp_all
  then show ?thesis using r b0(2,3) by (auto simp: bucket_ok_def)
qed

text \<open>A burst, an hour of silence, and a second burst: the stretch after the silence gets one burst and no more.\<close>

theorem pacing_bound_witness:
  "\<exists>b' bulk all. paced (fst (paced demo_bucket [(0, 800000, False)])) [(3600, 800000, False), (3600, 1, False), (7201 / 2, 400000, False)] = (b', bulk, all)
     \<and> bulk = 1200000 \<and> bulk \<le> 800000 + 800000 * (lastRefill b' - 3600)"
proof -
  let ?es = "[(3600, 800000, False), (3600, 1, False), (7201 / 2, 400000, False)] :: (rat \<times> int \<times> bool) list"
  let ?b0 = "fst (paced demo_bucket [(0, 800000, False)])"
  obtain b' bulk all where p: "paced ?b0 ?es = (b', bulk, all)" by (metis prod_cases3)
  have b0: "?b0 = demo_bucket\<lparr>total := 0\<rparr>" by (simp add: Wait_iteration_def refill_def demo_bucket_def Let_def)
  have "bulk = 1200000"
    using p unfolding b0 by (simp add: Wait_iteration_def refill_def demo_bucket_def Let_def split: if_splits)
  moreover have "bulk \<le> bulkCap demo_bucket + bulkR demo_bucket * (lastRefill b' - 3600)"
    using pacing_bound [OF demo_bucket_new _ p] by simp
  ultimately show ?thesis using p by (simp add: demo_bucket_def)
qed

text \<open>
  A waiter is served. A request that passes the size check and is told to sleep is granted
  if it comes back after the time it was told (bulk), or after both buckets have had time to
  fill (interactive), and nobody took tokens meanwhile.
\<close>

theorem wait_is_served:
  assumes "NewBucket cfg t0 = Some b0" "in_time t0 es" "paced b0 es = (b, bulk, all)"
    and "Wait_enter (Some b) n interactive = None" "lastRefill b \<le> now"
    and "Wait_iteration b now n interactive = (b1, WaitSleep w)"
    and "now + (if interactive then bulkCap b / bulkR b + intCap b / intR b else w) \<le> later"
  shows "snd (Wait_iteration b1 later n interactive) = WaitGranted"
proof -
  have ok: "bucket_ok b" using paced_spec [of b0 es] NewBucket_ok [OF assms(1)] assms(2,3) by auto
  have n: "0 < n" "of_int n \<le> bucket_capacity b interactive" using assms(4) by (auto simp: Wait_enter_def split: if_splits)
  note st = Wait_iteration_step [OF ok assms(6) n(1)]
  have b1: "b1 = refill b now" using st(9) by simp
  have ok1: "bucket_ok b1" "lastRefill b1 = now" using st(1,2) by simp_all
  have grows: "bulkCap b \<le> total b1 + bulkR b * (later - now)" if "now + bulkCap b / bulkR b \<le> later"
  proof (cases "bulkR b = 0")
    case False
    then have "bulkCap b = bulkR b * (bulkCap b / bulkR b)" by simp
    also have "\<dots> \<le> bulkR b * (later - now)" using that ok by (intro mult_left_mono) (auto simp: bucket_ok_def)
    finally show ?thesis using ok1 by (simp add: bucket_ok_def)
  qed (use ok ok1 st(3) in \<open>auto simp: bucket_ok_def\<close>)
  have grows': "intCap b \<le> reserve b1 + intR b * (later - now)" if "now + intCap b / intR b \<le> later"
  proof (cases "intR b = 0")
    case False
    then have "intCap b = intR b * (intCap b / intR b)" by simp
    also have "\<dots> \<le> intR b * (later - now)" using that ok by (intro mult_left_mono) (auto simp: bucket_ok_def)
    finally show ?thesis using ok1 by (simp add: bucket_ok_def)
  qed (use ok ok1 st(4) in \<open>auto simp: bucket_ok_def\<close>)
  show ?thesis
  proof (cases interactive)
    case True
    have "0 \<le> bulkCap b / bulkR b" "0 \<le> intCap b / intR b" using ok by (auto simp: bucket_ok_def)
    then have t: "now + bulkCap b / bulkR b \<le> later" "now + intCap b / intR b \<le> later" "now \<le> later"
      using assms(7) True by auto
    have "total (refill b1 later) = bulkCap b" "reserve (refill b1 later) = intCap b"
      using grows [OF t(1)] grows' [OF t(2)] t(3) ok1(2) st(3-6) by (simp_all add: refill_def Let_def)
    then show ?thesis using n(2) True by (simp add: Wait_iteration_def bucket_capacity_def Let_def)
  next
    case False
    have pos: "bulkR b > 0" "total b1 < of_int n"
      using assms(6) False b1 by (auto simp: Wait_iteration_def Let_def split: if_splits)
    define x where "x = (of_int n - total b1) / bulkR b"
    have "(if x < 1 / 1000 then 1 / 1000 else x) = w"
      using assms(6) False pos unfolding x_def b1 Wait_iteration_def Let_def by (auto split: if_splits)
    then have s: "bulkR b > 0" "(of_int n - total b1) / bulkR b \<le> w" "total b1 < of_int n"
      using pos by (auto simp: x_def [symmetric] split: if_splits)
    have "of_int n - total b1 = bulkR b * ((of_int n - total b1) / bulkR b)" using s(1) by simp
    also have "\<dots> \<le> bulkR b * (later - now)" using s assms(7) False by (intro mult_left_mono) auto
    finally have "of_int n \<le> total b1 + bulkR b * (later - now)" by simp
    moreover have "now \<le> later"
    proof -
      have "0 \<le> (of_int n - total b1) / bulkR b" using s(1,3) by simp
      then show ?thesis using s(2) assms(7) False by auto
    qed
    ultimately have "of_int n \<le> total (refill b1 later)"
      using n(2) False ok1(2) st(3,5) by (simp add: refill_def bucket_capacity_def Let_def)
    then show ?thesis using False by (simp add: Wait_iteration_def Let_def)
  qed
qed

theorem wait_is_served_witness:
  "\<exists>b1. Wait_iteration (fst (paced demo_bucket [(0, 800000, False)])) 0 400000 False = (b1, WaitSleep (1 / 2))
     \<and> snd (Wait_iteration b1 1 400000 False) = WaitGranted"
proof -
  obtain b bulk all where p: "paced demo_bucket [(0, 800000, False)] = (b, bulk, all)" by (metis prod_cases3)
  have b: "b = demo_bucket\<lparr>total := 0\<rparr>" using p by (simp add: Wait_iteration_def refill_def demo_bucket_def Let_def)
  have it: "Wait_iteration b 0 400000 False = (b, WaitSleep (1 / 2))"
    by (simp add: b Wait_iteration_def refill_def demo_bucket_def Let_def)
  have "snd (Wait_iteration b 1 400000 False) = WaitGranted"
    by (rule wait_is_served [OF demo_bucket_new _ p _ _ it])
       (simp_all add: b demo_bucket_def Wait_enter_def bucket_capacity_def)
  then show ?thesis using it p by simp
qed

text \<open>
  A request is refused exactly when no amount of waiting could serve it, and \<^verbatim>\<open>MaxRequest\<close> is
  the largest request that is not refused.
\<close>

lemma max_request_exact:
  assumes "NewBucket cfg t0 = Some b" "0 < n" "n \<le> MaxInt"
  shows "(Wait_enter (Some b) n interactive = Some WaitInvalid \<longleftrightarrow> n > MaxRequest (Some b) interactive)
    \<and> (Wait_enter (Some b) n interactive \<noteq> Some WaitInvalid \<longrightarrow> Wait_enter (Some b) n interactive = None)
    \<and> 0 \<le> MaxRequest (Some b) interactive"
proof -
  have nonneg: "0 \<le> bucket_capacity b interactive"
    using NewBucket_ok [OF assms(1)] by (auto simp: bucket_capacity_def bucket_ok_def)
  have "of_int n \<le> bucket_capacity b interactive \<longleftrightarrow> n \<le> MaxRequest (Some b) interactive"
  proof (cases "of_int MaxInt \<le> bucket_capacity b interactive")
    case True
    have "(of_int n :: rat) \<le> of_int MaxInt" using assms(3) by simp
    then have "of_int n \<le> bucket_capacity b interactive" using True by linarith
    then show ?thesis using True assms(3) by (simp add: MaxRequest_def Let_def)
  qed (simp add: MaxRequest_def Let_def le_floor_iff)
  moreover have "0 \<le> MaxRequest (Some b) interactive" using nonneg by (simp add: MaxRequest_def MaxInt_def Let_def)
  ultimately show ?thesis using assms(2) by (auto simp: Wait_enter_def)
qed

lemma max_request_exact_witness:
  "MaxRequest (Some demo_bucket) False = 800000 \<and> Wait_enter (Some demo_bucket) 800001 False = Some WaitInvalid"
proof -
  have "MaxRequest (Some demo_bucket) False = 800000"
    by (simp add: MaxRequest_def MaxInt_def bucket_capacity_def demo_bucket_def Let_def)
  then show ?thesis using max_request_exact [OF demo_bucket_new, of 800001 False] by (simp add: MaxInt_def)
qed

end
