(* ===== verification/RecordLimiter.thy ===== *)
theory RecordLimiter
  imports Prelude
begin

text \<open>
  \<^verbatim>\<open>internal/pep/recordlimiter.go\<close>: one log record per label and interval, each carrying the
  number of events it stands for. Times are nanoseconds, the zero time is \<^const>\<open>None\<close>, an absent
  label is a counter of zeros.
\<close>

definition recordLogInterval :: int where
  "recordLogInterval = 10 * 1000000000"

record recordCounter =
  rLast :: "int option"
  rSuppressed :: nat
  rTotal :: nat

type_synonym recordLimiter = "string \<Rightarrow> recordCounter option"

definition due :: "recordLimiter \<Rightarrow> string \<Rightarrow> int \<Rightarrow> recordLimiter \<times> bool \<times> nat \<times> nat" where
  "due l key now =
     (let counter = (case l key of None \<Rightarrow> \<lparr>rLast = None, rSuppressed = 0, rTotal = 0\<rparr> | Some c \<Rightarrow> c);
          counter = counter\<lparr>rTotal := rTotal counter + 1\<rparr> in
      if (case rLast counter of None \<Rightarrow> False | Some prev \<Rightarrow> now - prev < recordLogInterval)
      then (l(key \<mapsto> counter\<lparr>rSuppressed := rSuppressed counter + 1\<rparr>), False, 0, rTotal counter)
      else (l(key \<mapsto> counter\<lparr>rLast := Some now, rSuppressed := 0\<rparr>), True, rSuppressed counter, rTotal counter))"

text \<open>The records written by a sequence of events: label, time, events left out, events so far.\<close>

fun recorded :: "recordLimiter \<Rightarrow> (string \<times> int) list \<Rightarrow> recordLimiter \<times> (string \<times> int \<times> nat \<times> nat) list" where
  "recorded l [] = (l, [])"
| "recorded l ((key, now) # es) =
     (case due l key now of (l1, written, left_out, n) \<Rightarrow>
      case recorded l1 es of (l2, rs) \<Rightarrow> (l2, if written then (key, now, left_out, n) # rs else rs))"

definition pending_of :: "recordLimiter \<Rightarrow> string \<Rightarrow> nat" where
  "pending_of l key = (case l key of None \<Rightarrow> 0 | Some c \<Rightarrow> rSuppressed c)"

definition last_of :: "recordLimiter \<Rightarrow> string \<Rightarrow> int option" where
  "last_of l key = (case l key of None \<Rightarrow> None | Some c \<Rightarrow> rLast c)"

definition total_of :: "recordLimiter \<Rightarrow> string \<Rightarrow> nat" where
  "total_of l key = (case l key of None \<Rightarrow> 0 | Some c \<Rightarrow> rTotal c)"

lemma due_other: "k \<noteq> key \<Longrightarrow> due l key now = (l1, w, left_out, n) \<Longrightarrow> l1 k = l k"
  by (auto simp: due_def Let_def split: if_splits)

lemma due_same:
  assumes "due l key now = (l1, w, left_out, n)"
  shows "total_of l1 key = total_of l key + 1" "n = total_of l1 key"
    "w \<Longrightarrow> last_of l1 key = Some now \<and> pending_of l1 key = 0 \<and> left_out = pending_of l key
       \<and> (\<forall>t. last_of l key = Some t \<longrightarrow> t + recordLogInterval \<le> now)"
    "\<not> w \<Longrightarrow> last_of l1 key = last_of l key \<and> pending_of l1 key = pending_of l key + 1"
  using assms by (auto simp: due_def Let_def total_of_def last_of_def pending_of_def split: if_splits option.splits)

text \<open>The records of one label, and that their times keep the interval.\<close>

definition of_label :: "string \<Rightarrow> (string \<times> int \<times> nat \<times> nat) list \<Rightarrow> (int \<times> nat \<times> nat) list" where
  "of_label k rs = map snd (filter (\<lambda>r. fst r = k) rs)"

fun spaced :: "int option \<Rightarrow> (int \<times> nat \<times> nat) list \<Rightarrow> bool" where
  "spaced prev [] \<longleftrightarrow> True"
| "spaced prev (r # rs) \<longleftrightarrow> (case prev of None \<Rightarrow> True | Some t \<Rightarrow> t + recordLogInterval \<le> fst r) \<and> spaced (Some (fst r)) rs"

lemma recorded_spec:
  "recorded l es = (l', rs) \<Longrightarrow>
     length (of_label k rs) + sum_list (map (fst \<circ> snd) (of_label k rs)) + pending_of l' k
       = pending_of l k + length (filter (\<lambda>e. fst e = k) es)
     \<and> total_of l' k = total_of l k + length (filter (\<lambda>e. fst e = k) es)
     \<and> spaced (last_of l k) (of_label k rs)
     \<and> (\<forall>(t, left_out, n)\<in>set (of_label k rs). total_of l k < n \<and> n \<le> total_of l' k)"
proof (induction l es arbitrary: l' rs rule: recorded.induct)
  case (2 l key now es)
  obtain l1 w left_out n where d: "due l key now = (l1, w, left_out, n)" by (metis prod_cases4)
  obtain rs1 where r: "recorded l1 es = (l', rs1)" "rs = (if w then (key, now, left_out, n) # rs1 else rs1)"
    using "2.prems" d by (auto split: prod.splits)
  note ih = "2.IH" [OF d [symmetric] refl refl r(1)]
  show ?case
  proof (cases "k = key")
    case True
    then show ?thesis using ih due_same [OF d] r(2) by (cases w) (fastforce simp: of_label_def split: option.splits)+
  next
    case False
    have "l1 k = l k" using due_other [OF False d] .
    then have "total_of l1 k = total_of l k" "last_of l1 k = last_of l k" "pending_of l1 k = pending_of l k"
      by (simp_all add: total_of_def last_of_def pending_of_def)
    then show ?thesis using ih r(2) False by (auto simp: of_label_def)
  qed
qed (simp add: of_label_def)

text \<open>
  No event goes unaccounted. For every label, the records written plus the events they say
  they stand for plus the count still held back are exactly the events of that label, a
  record's total lies between what happened before and now, and two records of one label
  are at least the interval apart, whatever other labels do.
\<close>

theorem records_account_for_all:
  assumes "recorded (\<lambda>_. None) es = (l, rs)"
  shows "length (of_label k rs) + sum_list (map (fst \<circ> snd) (of_label k rs)) + pending_of l k
      = length (filter (\<lambda>e. fst e = k) es)
    \<and> (\<forall>(t, left_out, n)\<in>set (of_label k rs). 0 < n \<and> n \<le> length (filter (\<lambda>e. fst e = k) es))
    \<and> spaced None (of_label k rs)"
  using recorded_spec [OF assms, of k] by (auto simp: pending_of_def total_of_def last_of_def)

theorem records_account_for_all_witness:
  "\<exists>l rs. recorded (\<lambda>_. None) [(''a'', 0), (''a'', 1), (''b'', 2), (''a'', 20000000000)] = (l, rs)
     \<and> of_label ''a'' rs = [(0, 0, 1), (20000000000, 1, 3)] \<and> 2 + (0 + 1) + pending_of l ''a'' = (3 :: nat)"
proof -
  let ?es = "[(''a'', 0), (''a'', 1), (''b'', 2), (''a'', 20000000000)] :: (string \<times> int) list"
  obtain l rs where r: "recorded (\<lambda>_. None) ?es = (l, rs)" by fastforce
  have o: "of_label ''a'' rs = [(0, 0, 1), (20000000000, 1, 3)]"
    using r by (auto simp: due_def Let_def recordLogInterval_def of_label_def)
  show ?thesis using records_account_for_all [OF r, of "''a''"] r o by auto
qed

end
