(* ===== verification/FecRate.thy ===== *)
theory FecRate
  imports Complex_Main FecEncoder
begin

text \<open>
  \<^verbatim>\<open>internal/fec/rate.go\<close>: how much parity a measured channel is worth. Floating-point amounts
  are rationals; \<^verbatim>\<open>binomialTailBelow\<close> sums in log space to avoid overflow, which in exact
  arithmetic is the sum of the binomial probabilities themselves. Durations are nanoseconds.
\<close>

section \<open>Data\<close>

datatype fecClass = FecBulk | FecInteractive

record loss_Snapshot =
  Samples :: rat
  Loss :: rat
  LossAfterArrival :: rat
  ArrivalAfterLoss :: rat
  MeanBurst :: rat
  BurstFactor :: rat
  Memoryless :: bool
  Floor :: rat
  Congestive :: rat
  Recent :: rat
  Reordered :: u64
  Decided :: u64

record Params =
  ParamsClass :: fecClass
  ShardBytes :: int
  RateBytesPerSec :: rat
  ParamsRoundTrip :: int

record Plan =
  PlanCode :: bool
  PlanK :: int
  PlanN :: int
  PlanRate :: rat
  PlanResidual :: rat
  LossCoded :: rat
  EffectiveBurst :: rat
  Why :: string

definition no_plan :: "string \<Rightarrow> Plan" where
  "no_plan why = \<lparr>PlanCode = False, PlanK = 0, PlanN = 0, PlanRate = 0, PlanResidual = 0, LossCoded = 0,
     EffectiveBurst = 0, Why = why\<rparr>"

definition minShards :: int where "minShards = 8"
definition minRate :: rat where "minRate = 1 / 8"
definition shortBlockSymbols :: int where "shortBlockSymbols = 4"
definition shortBlockResidual :: rat where "shortBlockResidual = 1 / 1000"
definition codeStillRepairs :: rat where "codeStillRepairs = 1 / 2"
definition windowChaining :: rat where "windowChaining = 5 / 2"
definition maxWindowRate :: rat where "maxWindowRate = 1 / minRate"

definition seconds :: "int \<Rightarrow> rat" where "seconds ns = of_int ns / 1000000000"

section \<open>Costs\<close>

definition deliveredPerSymbolTime :: "int \<Rightarrow> int \<Rightarrow> rat \<Rightarrow> rat \<Rightarrow> rat" where
  "deliveredPerSymbolTime k n residual reissue =
     (if \<not> residual < 1 then 0 else of_int k / (of_int n + residual / (1 - residual) * reissue))"

definition reissueCost :: "Params \<Rightarrow> int \<Rightarrow> rat" where
  "reissueCost p k =
     (if ParamsRoundTrip p \<le> 0 \<or> RateBytesPerSec p \<le> 0 \<or> ShardBytes p \<le> 0 then of_int k
      else seconds (ParamsRoundTrip p) * RateBytesPerSec p / of_int (ShardBytes p))"

definition binomialTerm :: "nat \<Rightarrow> rat \<Rightarrow> nat \<Rightarrow> rat" where
  "binomialTerm n q i = of_nat (n choose i) * q ^ i * (1 - q) ^ (n - i)"

definition binomialTailBelow :: "int \<Rightarrow> rat \<Rightarrow> int \<Rightarrow> rat" where
  "binomialTailBelow n q k =
     (if k \<le> 0 then 0
      else if k > n then 1
      else if q \<le> 0 then 1
      else if q \<ge> 1 then 0
      else
        (let tot = sum_list (map (binomialTerm (nat n) q) [0..<nat k]) in
         if tot > 1 then 1 else tot))"

definition residualFor :: "int \<Rightarrow> int \<Rightarrow> rat \<Rightarrow> rat \<Rightarrow> rat option" where
  "residualFor k trials burst arrival =
     (let need = \<lceil>of_int k / burst\<rceil> in
      if need > trials then None else Some (binomialTailBelow trials arrival need))"

definition blockShards :: "Params \<Rightarrow> int" where
  "blockShards p =
     (let budget = (if ParamsClass p = FecInteractive then ParamsRoundTrip p div 4 else ParamsRoundTrip p);
          fits = \<lfloor>seconds budget * RateBytesPerSec p / of_int (ShardBytes p)\<rfloor>;
          n = (if budget > 0 \<and> RateBytesPerSec p > 0 \<and> fits < MaxShards then fits else MaxShards);
          n = (if n < minShards then minShards else n) in
      if n > MaxShards then MaxShards else n)"

definition effectiveBurst :: "loss_Snapshot \<Rightarrow> rat" where
  "effectiveBurst s = (if BurstFactor s < 1 then 1 else BurstFactor s)"

text \<open>\<^verbatim>\<open>math.Round\<close> of a positive quotient, at least one.\<close>

definition trials_of :: "int \<Rightarrow> rat \<Rightarrow> int" where
  "trials_of n burst = (let t = \<lfloor>of_int n / burst + 1 / 2\<rfloor> in if t < 1 then 1 else t)"

section \<open>Choosing a code\<close>

fun choose_loop :: "Params \<Rightarrow> int \<Rightarrow> rat \<Rightarrow> rat \<Rightarrow> int list \<Rightarrow> Plan \<times> rat \<Rightarrow> Plan \<times> rat" where
  "choose_loop p n burst arrival [] acc = acc"
| "choose_loop p n burst arrival (k # ks) (best, bestDelivered) =
     (if of_int k / of_int n < minRate then (best, bestDelivered)
      else case residualFor k (trials_of n burst) burst arrival of
        None \<Rightarrow> choose_loop p n burst arrival ks (best, bestDelivered)
      | Some residual \<Rightarrow>
          (let delivered = deliveredPerSymbolTime k n residual (reissueCost p k) in
           if delivered \<le> bestDelivered then choose_loop p n burst arrival ks (best, bestDelivered)
           else choose_loop p n burst arrival ks
             (best\<lparr>PlanK := k, PlanN := n, PlanRate := of_int k / of_int n, PlanResidual := residual\<rparr>, delivered)))"

definition judge :: "Plan \<Rightarrow> Plan" where
  "judge best =
     (if PlanN best = 0 then best\<lparr>Why := ''no code rate is long enough for this block''\<rparr>
      else if PlanResidual best \<ge> codeStillRepairs
        then best\<lparr>Why := ''no code rate this channel allows repairs a block more often than not''\<rparr>
      else if PlanK best \<ge> PlanN best
        then best\<lparr>PlanCode := False, Why := ''parity costs more wire than the stall it saves''\<rparr>
      else best\<lparr>PlanCode := True, Why := ''sized for the soonest delivery''\<rparr>)"

definition Choose :: "loss_Snapshot \<Rightarrow> Params \<Rightarrow> Plan" where
  "Choose s p =
     (if Loss s \<le> 0 then no_plan ''no erasure measured on the sending direction''
      else if \<not> Loss s < 1 then no_plan ''loss rate is not a measurement''
      else if ShardBytes p \<le> 0 then no_plan ''no usable parameters''
      else
        (let n = blockShards p; burst = effectiveBurst s in
         judge (fst (choose_loop p n burst (1 - Loss s) (rev [1..n])
           ((no_plan [])\<lparr>LossCoded := Loss s, EffectiveBurst := burst\<rparr>, 0)))))"

fun shards_loop :: "int \<Rightarrow> rat \<Rightarrow> rat \<Rightarrow> rat \<Rightarrow> int list \<Rightarrow> int \<times> rat \<Rightarrow> int \<times> rat" where
  "shards_loop k burst arrival reissue [] acc = acc"
| "shards_loop k burst arrival reissue (n # ns) (bestN, bestDelivered) =
     (if of_int k / of_int n < minRate then (bestN, bestDelivered)
      else case residualFor k (trials_of n burst) burst arrival of
        None \<Rightarrow> shards_loop k burst arrival reissue ns (bestN, bestDelivered)
      | Some residual \<Rightarrow>
          (let delivered = deliveredPerSymbolTime k n residual reissue;
               (bestN, bestDelivered) =
                 (if delivered > bestDelivered then (n, delivered) else (bestN, bestDelivered)) in
           if k \<le> shortBlockSymbols \<and> residual \<le> shortBlockResidual
           then (if n > bestN then n else bestN, bestDelivered)
           else shards_loop k burst arrival reissue ns (bestN, bestDelivered)))"

definition ShardsFor :: "int \<Rightarrow> loss_Snapshot \<Rightarrow> Params \<Rightarrow> int \<times> bool" where
  "ShardsFor k s p =
     (if k < 1 then (0, False)
      else if Loss s \<le> 0 \<or> \<not> Loss s < 1 then (k, False)
      else
        (let bestN = fst (shards_loop k (effectiveBurst s) (1 - Loss s) (reissueCost p k) [k..MaxShards] (0, 0)) in
         if bestN > k then (bestN, True)
         else if bestN = k then (k, False)
         else (0, False)))"

text \<open>The two scans of \<^verbatim>\<open>WindowRate\<close>; the second re-reads its bound, which moves with the best tot found.\<close>

function sweep_loop :: "(int \<Rightarrow> rat) \<Rightarrow> int \<Rightarrow> int \<Rightarrow> int \<Rightarrow> int \<times> rat \<Rightarrow> int \<times> rat" where
  "sweep_loop f step hi tot (bestTotal, bestDelivered) =
     (if tot \<le> hi \<and> 1 \<le> step then
        sweep_loop f step hi (tot + step)
          (if f tot > bestDelivered then (tot, f tot) else (bestTotal, bestDelivered))
      else (bestTotal, bestDelivered))"
  by pat_completeness auto
termination by (relation "measure (\<lambda>(f, step, hi, tot, acc). nat (hi + 1 - tot))") auto

function refine_loop :: "(int \<Rightarrow> rat) \<Rightarrow> int \<Rightarrow> int \<Rightarrow> int \<Rightarrow> int \<times> rat \<Rightarrow> int \<times> rat" where
  "refine_loop f step hi tot (bestTotal, bestDelivered) =
     (if tot \<le> min hi (bestTotal + step) then
        refine_loop f step hi (tot + 1)
          (if f tot > bestDelivered then (tot, f tot) else (bestTotal, bestDelivered))
      else (bestTotal, bestDelivered))"
  by pat_completeness auto
termination by (relation "measure (\<lambda>(f, step, hi, tot, acc). nat (hi + 1 - tot))") auto

declare sweep_loop.simps [simp del] refine_loop.simps [simp del]

definition deliveredAt :: "int \<Rightarrow> rat \<Rightarrow> rat \<Rightarrow> int \<Rightarrow> rat" where
  "deliveredAt effective arrival reissue tot =
     deliveredPerSymbolTime effective tot (binomialTailBelow tot arrival effective) reissue"

definition sweep_step :: "int \<Rightarrow> int \<Rightarrow> int" where
  "sweep_step effective hi = (let step = (hi - effective) div 32 in if step < 1 then 1 else step)"

definition WindowRate :: "int \<Rightarrow> loss_Snapshot \<Rightarrow> Params \<Rightarrow> rat" where
  "WindowRate capacity s p =
     (if capacity < 1 then 0
      else if Loss s \<le> 0 \<or> \<not> Loss s < 1 then 0
      else
        (let arrival = 1 - Loss s;
             effective = \<lfloor>of_int capacity * windowChaining\<rfloor> in
         if effective < 1 then 0
         else
           (let reissue = reissueCost p effective;
                hi = \<lfloor>of_int effective * maxWindowRate\<rfloor> in
            if hi \<le> effective then 0
            else
              (let delivered = deliveredAt effective arrival reissue;
                   step = sweep_step effective hi;
                   (bestTotal, bestDelivered) = sweep_loop delivered step hi (effective + step) (effective, delivered effective);
                   (bestTotal, bestDelivered) =
                     refine_loop delivered step hi (max effective (bestTotal - step)) (bestTotal, bestDelivered) in
               of_int (bestTotal - effective) / of_int effective))))"

definition Overhead :: "Plan \<Rightarrow> rat" where
  "Overhead p = (if \<not> PlanCode p \<or> PlanK p = 0 then 1 else of_int (PlanN p) / of_int (PlanK p))"

section \<open>The binomial tail\<close>

lemma binomialTerm_nonneg: "0 < q \<Longrightarrow> q < 1 \<Longrightarrow> 0 \<le> binomialTerm n q i"
  by (simp add: binomialTerm_def)

lemma binomialTerm_total: "(\<Sum>i\<le>n. binomialTerm n q i) = 1"
  using binomial_ring [of q "1 - q" n] by (simp add: binomialTerm_def)

lemma binomial_tail_sum:
  assumes "0 < q" "q < 1" "0 < k" "k \<le> n"
  shows "binomialTailBelow n q k = (\<Sum>i<nat k. binomialTerm (nat n) q i)"
    "(\<Sum>i<nat k. binomialTerm (nat n) q i) < 1" "0 < (\<Sum>i<nat k. binomialTerm (nat n) q i)"
proof -
  let ?t = "binomialTerm (nat n) q"
  have "(\<Sum>i<nat k. ?t i) < (\<Sum>i\<le>nat n. ?t i)"
  proof (rule sum_strict_mono2)
    show "nat n \<in> {..nat n} - {..<nat k}" using assms by auto
    show "0 < ?t (nat n)" using assms by (simp add: binomialTerm_def)
  qed (use assms binomialTerm_nonneg in auto)
  then show lt: "(\<Sum>i<nat k. ?t i) < 1" by (simp add: binomialTerm_total)
  have "0 < ?t 0" using assms by (simp add: binomialTerm_def)
  then show "0 < (\<Sum>i<nat k. ?t i)"
    using assms binomialTerm_nonneg by (intro sum_pos2 [of _ 0]) auto
  have "sum_list (map ?t [0..<nat k]) = (\<Sum>i<nat k. ?t i)" by (simp add: sum_list_distinct_conv_sum_set atLeast0LessThan)
  then show "binomialTailBelow n q k = (\<Sum>i<nat k. ?t i)" using assms lt by (simp add: binomialTailBelow_def)
qed

lemma binomial_tail_range: "0 \<le> binomialTailBelow n q k" "binomialTailBelow n q k \<le> 1"
proof -
  have "0 \<le> binomialTailBelow n q k \<and> binomialTailBelow n q k \<le> 1"
    using binomial_tail_sum [of q k n] by (cases "0 < q \<and> q < 1 \<and> 0 < k \<and> k \<le> n") (auto simp: binomialTailBelow_def)
  then show "0 \<le> binomialTailBelow n q k" "binomialTailBelow n q k \<le> 1" by blast+
qed

section \<open>What the search finds\<close>

text \<open>What a block of \<^verbatim>\<open>n\<close> shards of which \<^verbatim>\<open>k\<close> carry data delivers per symbol time; nothing when the
  block holds too few erasure events.\<close>

definition delivers :: "Params \<Rightarrow> int \<Rightarrow> rat \<Rightarrow> rat \<Rightarrow> int \<Rightarrow> rat" where
  "delivers p n burst arrival k =
     (case residualFor k (trials_of n burst) burst arrival of
        None \<Rightarrow> 0
      | Some residual \<Rightarrow> deliveredPerSymbolTime k n residual (reissueCost p k))"

definition plan_with :: "int \<Rightarrow> int \<Rightarrow> rat \<Rightarrow> Plan \<Rightarrow> Plan" where
  "plan_with k n r best = best\<lparr>PlanK := k, PlanN := n, PlanRate := of_int k / of_int n, PlanResidual := r\<rparr>"

lemma plan_with_simps [simp]:
  "plan_with k n r (plan_with k' n' r' best) = plan_with k n r best" "PlanCode (plan_with k n r best) = PlanCode best"
  "Why (plan_with k n r best) = Why best" "PlanK (plan_with k n r best) = k" "PlanN (plan_with k n r best) = n"
  "PlanResidual (plan_with k n r best) = r"
  by (simp_all add: plan_with_def)

definition planned :: "Params \<Rightarrow> int \<Rightarrow> rat \<Rightarrow> rat \<Rightarrow> Plan \<Rightarrow> rat \<Rightarrow> Plan \<Rightarrow> rat \<Rightarrow> int list \<Rightarrow> bool" where
  "planned p n burst arrival best d best' d' ks \<longleftrightarrow>
     (\<exists>k r. k \<in> set ks \<and> d < d' \<and> d' = delivers p n burst arrival k \<and> minRate \<le> of_int k / of_int n
        \<and> residualFor k (trials_of n burst) burst arrival = Some r
        \<and> best' = plan_with k n r best
        \<and> (\<forall>j\<in>set ks. k < j \<longrightarrow> delivers p n burst arrival j < d'))"

lemma choose_loop_spec:
  assumes "choose_loop p n burst arrival ks (best, d) = (best', d')" "0 \<le> d" "sorted_wrt (>) ks" "0 < n"
  shows "d \<le> d' \<and> (\<forall>k\<in>set ks. minRate \<le> of_int k / of_int n \<longrightarrow> delivers p n burst arrival k \<le> d')
    \<and> (best' = best \<and> d' = d \<or> planned p n burst arrival best d best' d' ks)"
  using assms(1-3)
proof (induction ks arbitrary: best d)
  case Nil
  then show ?case by simp
next
  case (Cons k ks)
  let ?v = "delivers p n burst arrival"
  show ?case
  proof (cases "of_int k / of_int n < minRate")
    case True
    have "\<not> minRate \<le> of_int j / of_int n" if "j \<in> set ks" for j
    proof -
      have "(of_int j :: rat) / of_int n \<le> of_int k / of_int n"
        using that Cons.prems(3) assms(4) by (intro divide_right_mono) auto
      then show ?thesis using True by simp
    qed
    then show ?thesis using True Cons.prems(1) by (simp add: not_le [symmetric])
  next
    case False
    show ?thesis
    proof (cases "residualFor k (trials_of n burst) burst arrival = None \<or> ?v k \<le> d")
      case True
      then have run: "choose_loop p n burst arrival ks (best, d) = (best', d')"
        using Cons.prems(1) False by (auto simp: delivers_def Let_def split: option.splits if_splits)
      have vk: "?v k \<le> d" using True Cons.prems(2) by (auto simp: delivers_def)
      note ih = Cons.IH [OF run Cons.prems(2)]
      have "planned p n burst arrival best d best' d' ks \<Longrightarrow> planned p n burst arrival best d best' d' (k # ks)"
        using vk unfolding planned_def by fastforce
      then show ?thesis using ih vk Cons.prems(3) by fastforce
    next
      case found: False
      then obtain r where r: "residualFor k (trials_of n burst) burst arrival = Some r"
        "?v k = deliveredPerSymbolTime k n r (reissueCost p k)" by (auto simp: delivers_def)
      let ?b = "plan_with k n r best"
      have run: "choose_loop p n burst arrival ks (?b, ?v k) = (best', d')"
        using Cons.prems(1) False found r by (auto simp: Let_def plan_with_def)
      have ih: "?v k \<le> d'" "\<forall>j\<in>set ks. minRate \<le> of_int j / of_int n \<longrightarrow> ?v j \<le> d'"
        "best' = ?b \<and> d' = ?v k \<or> planned p n burst arrival ?b (?v k) best' d' ks"
        using Cons.IH [OF run] found Cons.prems(2,3) by auto
      have first: "planned p n burst arrival best d best' d' (k # ks)" if "best' = ?b" "d' = ?v k"
      proof -
        have "\<forall>j\<in>set (k # ks). \<not> k < j" using Cons.prems(3) by auto
        then show ?thesis unfolding planned_def
          using that False found r by (intro exI [of _ k] exI [of _ r]) (auto simp: not_less)
      qed
      have "planned p n burst arrival best d best' d' (k # ks)" if pl: "planned p n burst arrival ?b (?v k) best' d' ks"
      proof -
        obtain j r' where j: "j \<in> set ks" "?v k < d'" "d' = ?v j" "minRate \<le> of_int j / of_int n"
          "residualFor j (trials_of n burst) burst arrival = Some r'"
          "best' = plan_with j n r' best"
          "\<forall>i\<in>set ks. j < i \<longrightarrow> ?v i < d'" using pl unfolding planned_def plan_with_simps by blast
        then show ?thesis unfolding planned_def using found
          by (intro exI [of _ j] exI [of _ r']) auto
      qed
      then show ?thesis using ih first found False by auto
    qed
  qed
qed

lemma rate_iff: "0 < n \<Longrightarrow> minRate \<le> of_int k / of_int n \<longleftrightarrow> n \<le> 8 * k"
proof -
  assume "0 < n"
  then have "minRate \<le> of_int k / of_int n \<longleftrightarrow> (of_int n :: rat) \<le> of_int (8 * k)" by (simp add: minRate_def field_simps)
  then show ?thesis by (simp only: of_int_le_iff)
qed

lemma block_range: "minShards \<le> blockShards p \<and> blockShards p \<le> MaxShards"
  by (auto simp: blockShards_def Let_def minShards_def MaxShards_def)

lemma descending: "sorted_wrt (>) (rev [a..b])" for a b :: int
  unfolding sorted_wrt_rev using sorted_wrt_upto by (simp add: conversep_iff)

text \<open>The best plan in the range of lengths the loop walks.\<close>

lemma Choose_best:
  assumes "PlanCode (Choose s p)"
  obtains r where "planned p (blockShards p) (effectiveBurst s) (1 - Loss s) ((no_plan [])\<lparr>LossCoded := Loss s, EffectiveBurst := effectiveBurst s\<rparr>)
      0 ((Choose s p)\<lparr>PlanCode := False, Why := []\<rparr>) r (rev [1..blockShards p])"
    and "\<forall>k\<in>{1..blockShards p}. minRate \<le> of_int k / of_int (blockShards p) \<longrightarrow> delivers p (blockShards p) (effectiveBurst s) (1 - Loss s) k \<le> r"
    and "PlanResidual (Choose s p) < 1 / 2" "PlanK (Choose s p) < PlanN (Choose s p)" "0 < Loss s" "Loss s < 1" "0 < ShardBytes p"
proof -
  let ?n = "blockShards p" and ?b = "effectiveBurst s"
  let ?init = "(no_plan [])\<lparr>LossCoded := Loss s, EffectiveBurst := ?b\<rparr>"
  have g: "0 < Loss s" "Loss s < 1" "0 < ShardBytes p"
    using assms by (auto simp: Choose_def no_plan_def split: if_splits)
  obtain best d where run: "choose_loop p ?n ?b (1 - Loss s) (rev [1..?n]) (?init, 0) = (best, d)" by fastforce
  have n: "0 < ?n" using block_range [of p] by (simp add: minShards_def)
  note spec = choose_loop_spec [OF run order_refl descending n]
  have fresh: "\<not> PlanCode best" "Why best = []" using spec by (auto simp: planned_def no_plan_def)
  have j: "Choose s p = judge best" using g run by (simp only: Choose_def Let_def not_le [symmetric] if_False) simp
  then have c: "PlanN best \<noteq> 0" "PlanResidual best < 1 / 2" "PlanK best < PlanN best"
    using assms fresh by (auto simp: judge_def codeStillRepairs_def split: if_splits)
  then have e: "Choose s p = best\<lparr>PlanCode := True, Why := ''sized for the soonest delivery''\<rparr>"
    using j by (simp add: judge_def codeStillRepairs_def)
  have "best \<noteq> ?init" using c(1) by (auto simp: no_plan_def)
  then have pl: "planned p ?n ?b (1 - Loss s) ?init 0 best d (rev [1..?n])" using spec by blast
  have eq: "(Choose s p)\<lparr>PlanCode := False, Why := []\<rparr> = best" using e fresh by (cases best) simp
  have "\<forall>k\<in>{1..?n}. minRate \<le> of_int k / of_int ?n \<longrightarrow> delivers p ?n ?b (1 - Loss s) k \<le> d" using spec by simp
  moreover have "PlanResidual (Choose s p) < 1 / 2" "PlanK (Choose s p) < PlanN (Choose s p)" using c e by simp_all
  ultimately show ?thesis by (rule that [unfolded eq, OF pl _ _ _ g])
qed

definition demo_channel :: loss_Snapshot where
  "demo_channel = \<lparr>Samples = 100, Loss = 1 / 4, LossAfterArrival = 1 / 4, ArrivalAfterLoss = 3 / 4, MeanBurst = 1, BurstFactor = 1,
     Memoryless = True, Floor = 1 / 4, Congestive = 0, Recent = 1 / 4, Reordered = 0, Decided = 100\<rparr>"

definition demo_params :: Params where
  "demo_params = \<lparr>ParamsClass = FecInteractive, ShardBytes = 1000, RateBytesPerSec = 1000, ParamsRoundTrip = 32000000000\<rparr>"

lemma demo_block: "blockShards demo_params = 8" "effectiveBurst demo_channel = 1" "reissueCost demo_params k = 32"
  "Loss demo_channel = 1 / 4" "ShardBytes demo_params = 1000"
  by (simp_all add: demo_params_def demo_channel_def blockShards_def effectiveBurst_def trials_of_def reissueCost_def seconds_def
      MaxShards_def minShards_def Let_def)

lemma demo_trials: "trials_of 8 1 = 8" "rev [1..8 :: int] = [8, 7, 6, 5, 4, 3, 2, 1]"
  by code_simp+

lemma demo_residuals:
  "residualFor 8 8 1 (3 / 4) = Some (58975 / 65536)" "residualFor 7 8 1 (3 / 4) = Some (41479 / 65536)"
  "residualFor 6 8 1 (3 / 4) = Some (21067 / 65536)" "residualFor 5 8 1 (3 / 4) = Some (7459 / 65536)"
  "residualFor 4 8 1 (3 / 4) = Some (1789 / 65536)" "residualFor 3 8 1 (3 / 4) = Some (277 / 65536)"
  "residualFor 2 8 1 (3 / 4) = Some (25 / 65536)" "residualFor 1 8 1 (3 / 4) = Some (1 / 65536)"
  by code_simp+

lemma demo_choice: "PlanCode (Choose demo_channel demo_params)" "PlanK (Choose demo_channel demo_params) = 4"
  by (simp_all add: Choose_def demo_block demo_trials demo_residuals judge_def deliveredPerSymbolTime_def minRate_def codeStillRepairs_def no_plan_def)

text \<open>C29: the plan that is coded is the best one. It has between 8 and 256 shards, at least one of eight carries
  data and at least one is parity, it repairs a block more often than not, and no other number of data shards the
  search allows delivers sooner; of equally good ones it has the least parity.\<close>

theorem choose_is_optimal:
  assumes "PlanCode (Choose s p)"
  defines "n \<equiv> blockShards p" and "v \<equiv> delivers p (blockShards p) (effectiveBurst s) (1 - Loss s)"
  shows "PlanN (Choose s p) = n \<and> 8 \<le> n \<and> n \<le> 256 \<and> 1 \<le> PlanK (Choose s p) \<and> PlanK (Choose s p) < n
    \<and> Overhead (Choose s p) \<le> 8 \<and> PlanResidual (Choose s p) < 1 / 2
    \<and> residualFor (PlanK (Choose s p)) (trials_of n (effectiveBurst s)) (effectiveBurst s) (1 - Loss s) = Some (PlanResidual (Choose s p))
    \<and> (\<forall>k. 1 \<le> k \<and> k \<le> n \<and> n \<le> 8 * k \<longrightarrow> v k < v (PlanK (Choose s p)) \<or> v k = v (PlanK (Choose s p)) \<and> k \<le> PlanK (Choose s p))"
proof -
  let ?c = "Choose s p"
  obtain d where ch: "planned p n (effectiveBurst s) (1 - Loss s) ((no_plan [])\<lparr>LossCoded := Loss s, EffectiveBurst := effectiveBurst s\<rparr>)
      0 (?c\<lparr>PlanCode := False, Why := []\<rparr>) d (rev [1..n])"
    and all: "\<forall>k\<in>{1..n}. minRate \<le> of_int k / of_int n \<longrightarrow> v k \<le> d"
    and r: "PlanResidual ?c < 1 / 2" "PlanK ?c < PlanN ?c"
    unfolding n_def v_def using assms(1) by (rule Choose_best)
  have n: "8 \<le> n" "n \<le> 256" using block_range [of p] by (simp_all add: n_def minShards_def MaxShards_def)
  note rate = rate_iff [of n]
  obtain k r where k: "k \<in> {1..n}" "d = v k" "minRate \<le> of_int k / of_int n"
    "residualFor k (trials_of n (effectiveBurst s)) (effectiveBurst s) (1 - Loss s) = Some r"
    "?c\<lparr>PlanCode := False, Why := []\<rparr> = plan_with k n r ((no_plan [])\<lparr>LossCoded := Loss s, EffectiveBurst := effectiveBurst s\<rparr>)"
    "\<forall>j\<in>{1..n}. k < j \<longrightarrow> v j < d"
    using ch unfolding planned_def v_def n_def by auto
  have f: "PlanK ?c = k" "PlanN ?c = n" "PlanResidual ?c = r"
    using arg_cong [OF k(5), of PlanK] arg_cong [OF k(5), of PlanN] arg_cong [OF k(5), of PlanResidual] by simp_all
  have "Overhead ?c \<le> 8"
    using f k(1,3) n by (simp add: Overhead_def minRate_def field_simps)
  moreover have "v j < v k \<or> v j = v k \<and> j \<le> k" if "1 \<le> j \<and> j \<le> n \<and> n \<le> 8 * j" for j
    using all k(2,6) that rate [of j] n by (cases "k < j") fastforce+
  ultimately show ?thesis using f n k(1,4) r by auto
qed

theorem choose_is_optimal_witness:
  "PlanK (Choose demo_channel demo_params) = 4 \<and> PlanN (Choose demo_channel demo_params) = 8
   \<and> delivers demo_params 8 (effectiveBurst demo_channel) (3 / 4) 5 \<le> delivers demo_params 8 (effectiveBurst demo_channel) (3 / 4) 4"
proof -
  note c = choose_is_optimal [OF demo_choice(1)]
  have l: "1 - Loss demo_channel = 3 / 4" by (simp add: demo_channel_def)
  show ?thesis using c unfolding demo_choice(2) demo_block(1) l by (auto dest: spec [of _ 5])
qed

lemma shards_loop_spec:
  assumes "shards_loop k burst arrival reissue ns (b, d) = (b', d')" "0 < k" "\<forall>n\<in>set ns. k \<le> n \<and> n \<le> MaxShards"
    "b = 0 \<or> k \<le> b \<and> b \<le> MaxShards \<and> minRate \<le> of_int k / of_int b"
  shows "b' = 0 \<or> k \<le> b' \<and> b' \<le> MaxShards \<and> minRate \<le> of_int k / of_int b'"
  using assms(1,3,4)
proof (induction ns arbitrary: b d)
  case (Cons n ns)
  show ?case
  proof (cases "of_int k / of_int n < minRate \<or> residualFor k (trials_of n burst) burst arrival = None")
    case True
    then show ?thesis using Cons by (auto split: if_splits option.splits)
  next
    case False
    then obtain r where r: "residualFor k (trials_of n burst) burst arrival = Some r" "minRate \<le> of_int k / of_int n" by auto
    let ?d = "deliveredPerSymbolTime k n r reissue"
    let ?b = "if ?d > d then n else b" and ?e = "if ?d > d then ?d else d"
    have ok: "?b = 0 \<or> k \<le> ?b \<and> ?b \<le> MaxShards \<and> minRate \<le> of_int k / of_int ?b" using Cons.prems(2,3) r by auto
    show ?thesis
    proof (cases "k \<le> shortBlockSymbols \<and> r \<le> shortBlockResidual")
      case True
      then have "b' = (if n > ?b then n else ?b)" using Cons.prems(1) r by (auto simp: Let_def split: if_splits)
      then show ?thesis using ok Cons.prems(2) r by auto
    next
      case more: False
      then have "shards_loop k burst arrival reissue ns (?b, ?e) = (b', d')" using Cons.prems(1) r by (auto simp: Let_def split: if_splits)
      then show ?thesis using Cons.IH [of ?b ?e] Cons.prems(2) ok by auto
    qed
  qed
qed simp

lemma sweep_range: "lo \<le> b \<and> b \<le> hi \<Longrightarrow> lo \<le> tot \<Longrightarrow> sweep_loop f step hi tot (b, d) = (b', d') \<Longrightarrow> lo \<le> b' \<and> b' \<le> hi"
proof (induction f step hi tot "(b, d)" arbitrary: b d rule: sweep_loop.induct)
  case (1 f step hi tot b d)
  show ?case
  proof (cases "tot \<le> hi \<and> 1 \<le> step")
    case True
    then show ?thesis using 1 by (cases "f tot > d") (auto simp: sweep_loop.simps [of f step hi tot b d])
  qed (use "1.prems" in \<open>auto simp: sweep_loop.simps [of f step hi tot b d]\<close>)
qed

lemma refine_range: "lo \<le> b \<and> b \<le> hi \<Longrightarrow> lo \<le> tot \<Longrightarrow> refine_loop f step hi tot (b, d) = (b', d') \<Longrightarrow> lo \<le> b' \<and> b' \<le> hi"
proof (induction f step hi tot "(b, d)" arbitrary: b d rule: refine_loop.induct)
  case (1 f step hi tot b d)
  show ?case
  proof (cases "tot \<le> min hi (b + step)")
    case True
    then show ?thesis using 1 by (cases "f tot > d") (auto simp: refine_loop.simps [of f step hi tot b d])
  qed (use "1.prems" in \<open>auto simp: refine_loop.simps [of f step hi tot b d]\<close>)
qed

lemma WindowRate_range: "0 \<le> WindowRate capacity s p \<and> WindowRate capacity s p \<le> 7"
proof -
  define e where "e = \<lfloor>of_int capacity * windowChaining\<rfloor>"
  define hi where "hi = \<lfloor>of_int e * maxWindowRate\<rfloor>"
  have "hi = \<lfloor>of_int (e * 8) :: rat\<rfloor>" by (simp add: hi_def maxWindowRate_def minRate_def)
  then have hi: "hi = 8 * e" by (simp only: floor_of_int mult.commute)
  define f where "f = deliveredAt e (1 - Loss s) (reissueCost p e)"
  define st where "st = sweep_step e hi"
  obtain b d where sw: "sweep_loop f st hi (e + st) (e, f e) = (b, d)" by fastforce
  obtain b' d' where re: "refine_loop f st hi (max e (b - st)) (b, d) = (b', d')" by fastforce
  show ?thesis
  proof (cases "capacity < 1 \<or> Loss s \<le> 0 \<or> \<not> Loss s < 1 \<or> e < 1 \<or> hi \<le> e")
    case True
    then show ?thesis by (auto simp: WindowRate_def e_def hi_def Let_def)
  next
    case False
    have w: "WindowRate capacity s p = of_int (b' - e) / of_int e"
      using False sw re by (simp add: WindowRate_def e_def [symmetric] hi_def [symmetric] f_def [symmetric] st_def [symmetric])
    have "1 \<le> st" by (simp add: st_def sweep_step_def Let_def)
    then have "e \<le> b \<and> b \<le> hi" using sweep_range [OF _ _ sw, of e] False by simp
    then have b': "e \<le> b' \<and> b' \<le> hi" using refine_range [OF _ _ re, of e] by simp
    have "(of_int (b' - e) :: rat) \<le> of_int (7 * e)" unfolding of_int_le_iff using b' hi by simp
    moreover have "0 \<le> (of_int (b' - e) :: rat)" "0 < (of_int e :: rat)" using b' False by simp_all
    ultimately show ?thesis unfolding w by (simp add: divide_le_eq)
  qed
qed

lemma ShardsFor_range:
  assumes "ShardsFor k s p = (n, True)"
  shows "1 \<le> k \<and> k < n \<and> n \<le> 256 \<and> n \<le> 8 * k"
proof -
  obtain b d where run: "shards_loop k (effectiveBurst s) (1 - Loss s) (reissueCost p k) [k..MaxShards] (0, 0) = (b, d)" by fastforce
  have k: "1 \<le> k" "k < n" "b = n" using assms run by (auto simp: ShardsFor_def Let_def split: if_splits)
  have "b = 0 \<or> k \<le> b \<and> b \<le> MaxShards \<and> minRate \<le> of_int k / of_int b"
    using k by (intro shards_loop_spec [OF run]) auto
  then have m: "n \<le> 256" "minRate \<le> of_int k / of_int n" using k by (auto simp: MaxShards_def)
  then show ?thesis using k rate_iff [of n k] by simp
qed

text \<open>Parity is bounded. A symbol of a window earns between nothing and seven repairs, whatever the channel; a
  burst of \<^verbatim>\<open>k\<close> symbols is never given more than \<^verbatim>\<open>7k\<close> repairs, and never more than 256 shards in all.\<close>

theorem parity_bounded:
  "0 \<le> WindowRate capacity s p \<and> WindowRate capacity s p \<le> 7
   \<and> (ShardsFor k s p = (n, True) \<longrightarrow> 1 \<le> k \<and> k < n \<and> n \<le> 256 \<and> n \<le> 8 * k)"
  using WindowRate_range ShardsFor_range by blast

lemma demo_shards: "ShardsFor 1 demo_channel demo_params = (5, True)"
  by code_simp

theorem parity_bounded_witness: "ShardsFor 1 demo_channel demo_params = (5, True) \<and> (1 :: int) < 5 \<and> (5 :: int) \<le> 8 * 1"
  using parity_bounded [of 0 demo_channel demo_params 1 5] demo_shards by simp

end
