(* ===== verification/Coded.thy ===== *)
theory Coded
  imports FecRate FecSound
begin

text \<open>
  \<^verbatim>\<open>internal/coded/coded.go\<close>: frames over an unreliable datagram service. The sender packs frames
  into symbols, adds them to the window encoder and pays for repairs at the rate the channel is
  measured to need; the receiver feeds the window decoder and reassembles the frames. The world
  the code asks is a record of functions indexed by how often it has been asked: the clock, the
  carrier's datagram limit, the measured path and the carrier's answer to a send. \<^verbatim>\<open>asked\<close> counts clock readings
  and sends, \<^verbatim>\<open>sized\<close> the frames for which the datagram limit was asked, so that the limit may move between any two
  frames; one sizing of the code reads its surroundings at one moment. Calls to the
  erasure estimator are recorded. Channels and goroutines are not modelled: the send loop works
  on the batches it drains, the receive loop on one datagram at a time.
\<close>

section \<open>Wire constants\<close>

definition sourceHeader :: nat where "sourceHeader = 4 + 1 + 4"
definition repairHeader :: nat where "repairHeader = 4 + 1 + 4 + 4 + 2"
definition kindSource :: u8 where "kindSource = 0"
definition kindRepair :: u8 where "kindRepair = 1"
definition symbolHeader :: nat where "symbolHeader = 2 + 2 + 2"
definition frameHeader :: nat where "frameHeader = 4"
definition maxFrameBytes :: nat where "maxFrameBytes = 2 ^ 20"
definition maxFragments :: nat where "maxFragments = 0xFFFF"
definition initialWindow :: int where "initialWindow = 16"
definition assemblerSlack :: int where "assemblerSlack = MinDecoderWidth"
definition codingTTL :: int where "codingTTL = 200 * 1000000"

lemmas coded_consts = sourceHeader_def repairHeader_def kindSource_def kindRepair_def symbolHeader_def frameHeader_def

section \<open>Configuration and surroundings\<close>

record PathState =
  StErasure :: rat
  StBurstFactor :: rat
  StObservedSamples :: rat
  StShare :: rat
  StSeed :: rat
  StRoundTrip :: int

record CodedConfig =
  SymbolBytes :: int
  CfgClass :: fecClass
  CfgRoundTrip :: int
  CfgPending :: int

definition withDefaults :: "CodedConfig \<Rightarrow> CodedConfig" where
  "withDefaults c =
     (let c = (if SymbolBytes c \<le> 0 then c\<lparr>SymbolBytes := 1100\<rparr> else c);
          c = (if CfgRoundTrip c \<le> 0 then c\<lparr>CfgRoundTrip := 300 * 1000000\<rparr> else c) in
      if CfgPending c \<le> 0 then c\<lparr>CfgPending := 256\<rparr> else c)"

datatype send_result = Sent | TooLarge | SendFailed

text \<open>\<^verbatim>\<open>MaxDatagramBytes\<close> is \<^verbatim>\<open>None\<close> for a carrier that is not sized, \<^verbatim>\<open>Current\<close> is \<^verbatim>\<open>None\<close> without a
  path model.\<close>

record world =
  Now :: "nat \<Rightarrow> int"
  MaxDatagramBytes :: "nat \<Rightarrow> int option"
  Current :: "nat \<Rightarrow> PathState option"
  CarrierSend :: "nat \<Rightarrow> bytes \<Rightarrow> send_result"

record codingChoice =
  cplan :: Plan
  capacity :: int
  crate :: rat

record CodedPath =
  cfg :: CodedConfig
  asked :: nat
  sized :: nat
  carried :: "bytes list"
  encoder :: WindowEncoder
  packed :: bytes
  nextSeq :: u32
  nextRID :: u32
  credit :: rat
  burstSymbols :: int
  burstRepairs :: int
  tailCache :: "int \<rightharpoonup> int"
  tailAt :: int
  code :: "codingChoice option"
  codedAt :: int
  sentN :: u64
  repairsN :: u64
  oversize :: u64
  stopped :: bool

definition NewPath :: "CodedConfig \<Rightarrow> CodedPath" where
  "NewPath c = \<lparr>cfg = withDefaults c, asked = 0, sized = 0, carried = [], encoder = NewWindowEncoder initialWindow, packed = [],
     nextSeq = 0, nextRID = 0, credit = 0, burstSymbols = 0, burstRepairs = 0, tailCache = Map.empty, tailAt = 0,
     code = None, codedAt = 0, sentN = 0, repairsN = 0, oversize = 0, stopped = False\<rparr>"

definition ask :: "CodedPath \<Rightarrow> CodedPath" where
  "ask p = p\<lparr>asked := asked p + 1\<rparr>"

section \<open>Sizing\<close>

definition symbolBytes :: "world \<Rightarrow> CodedPath \<Rightarrow> int" where
  "symbolBytes w p =
     (let sz = SymbolBytes (cfg p);
          sz = (case MaxDatagramBytes w (asked p + sized p) of
                  Some limit \<Rightarrow> if limit > 0 \<and> limit < sz then limit else sz
                | None \<Rightarrow> sz);
          least = int (repairHeader + symbolHeader + frameHeader + 1) in
      if sz < least then least else sz)"

definition symbolPayload :: "world \<Rightarrow> CodedPath \<Rightarrow> nat" where
  "symbolPayload w p = nat (symbolBytes w p) - repairHeader - symbolHeader"

definition roundTrip :: "world \<Rightarrow> CodedPath \<Rightarrow> int" where
  "roundTrip w p =
     (case Current w (asked p) of
        Some st \<Rightarrow> if StRoundTrip st > 0 then StRoundTrip st else CfgRoundTrip (cfg p)
      | None \<Rightarrow> CfgRoundTrip (cfg p))"

definition sendingRate :: "world \<Rightarrow> CodedPath \<Rightarrow> rat" where
  "sendingRate w p =
     (let guess = of_int (symbolBytes w p) * 64 / seconds (roundTrip w p) in
      case Current w (asked p) of
        Some st \<Rightarrow> if StShare st > 0 then StShare st else guess
      | None \<Rightarrow> guess)"

definition channel :: "world \<Rightarrow> CodedPath \<Rightarrow> loss_Snapshot" where
  "channel w p =
     (let none = \<lparr>Samples = 0, Loss = 0, LossAfterArrival = 0, ArrivalAfterLoss = 1, MeanBurst = 0, BurstFactor = 1,
            Memoryless = False, Floor = 0, Congestive = 0, Recent = 0, Reordered = 0, Decided = 0\<rparr> in
      case Current w (asked p) of
        None \<Rightarrow> none
      | Some st \<Rightarrow>
          (let burst = (if StBurstFactor st < 1 then 1 else StBurstFactor st) in
           none\<lparr>Loss := StErasure st, Floor := StErasure st, Recent := StErasure st, BurstFactor := burst,
             ArrivalAfterLoss := 1 - StErasure st, Samples := StObservedSamples st,
             Decided := of_int \<lfloor>StObservedSamples st\<rfloor>\<rparr>))"

definition params :: "world \<Rightarrow> CodedPath \<Rightarrow> Params" where
  "params w p = \<lparr>ParamsClass = CfgClass (cfg p), ShardBytes = symbolBytes w p, RateBytesPerSec = sendingRate w p,
     ParamsRoundTrip = roundTrip w p\<rparr>"

definition size_code :: "world \<Rightarrow> CodedPath \<Rightarrow> codingChoice" where
  "size_code w p =
     (let plan = Choose (channel w p) (params w p);
          current = \<lparr>cplan = plan, capacity = initialWindow, crate = 0\<rparr> in
      if PlanCode plan \<and> PlanK plan > 0
      then (let cap = min (PlanK plan) MaxRepairWindow in
            current\<lparr>capacity := cap, crate := WindowRate cap (channel w p) (params w p)\<rparr>)
      else current)"

definition path_coding :: "world \<Rightarrow> CodedPath \<Rightarrow> CodedPath \<times> codingChoice" where
  "path_coding w p =
     (let now = Now w (asked p); p1 = ask p;
          fresh = (let current = size_code w p1 in (p1\<lparr>code := Some current, codedAt := now\<rparr>, current)) in
      if now - codedAt p < codingTTL
      then (case code p of Some stored \<Rightarrow> (p1, stored) | None \<Rightarrow> fresh)
      else fresh)"

definition tailRepairs :: "world \<Rightarrow> CodedPath \<Rightarrow> int \<Rightarrow> CodedPath \<times> int" where
  "tailRepairs w p run =
     (let p = (if codedAt p \<noteq> tailAt p then p\<lparr>tailCache := Map.empty, tailAt := codedAt p\<rparr> else p) in
      case tailCache p run of
        Some want \<Rightarrow> (p, want)
      | None \<Rightarrow>
          (let want = (case ShardsFor run (channel w p) (params w p) of (n, ok) \<Rightarrow> if ok then n - run else 0) in
           (p\<lparr>tailCache := (tailCache p)(run \<mapsto> want)\<rparr>, want)))"

section \<open>Sending\<close>

datatype queue_error = QueueCancelled | QueueTooLarge nat | QueueClosed

text \<open>The checks before a frame is queued.\<close>

definition sendContext :: "bool \<Rightarrow> CodedPath \<Rightarrow> bytes \<Rightarrow> queue_error + bytes" where
  "sendContext cancelled p frame =
     (if cancelled then Inl QueueCancelled
      else if length frame > maxFrameBytes then Inl (QueueTooLarge (length frame))
      else if stopped p then Inl QueueClosed
      else Inr frame)"

definition take_seq :: "CodedPath \<Rightarrow> CodedPath \<times> u32" where
  "take_seq p = (p\<lparr>nextSeq := nextSeq p + 1\<rparr>, nextSeq p)"

definition untake :: "CodedPath \<Rightarrow> CodedPath" where
  "untake p = p\<lparr>nextSeq := nextSeq p - 1\<rparr>"

text \<open>Whether the datagram reached the carrier, and whether the path goes on.\<close>

definition put :: "world \<Rightarrow> CodedPath \<Rightarrow> bytes \<Rightarrow> CodedPath \<times> bool \<times> bool" where
  "put w p d =
     (case CarrierSend w (asked p) d of
        Sent \<Rightarrow> ((ask p)\<lparr>carried := carried p @ [d], sentN := sentN p + 1\<rparr>, True, True)
      | TooLarge \<Rightarrow> (untake ((ask p)\<lparr>oversize := oversize p + 1\<rparr>), False, True)
      | SendFailed \<Rightarrow> ((untake (ask p))\<lparr>stopped := True\<rparr>, False, False))"

definition source_datagram :: "u32 \<Rightarrow> u32 \<Rightarrow> bytes \<Rightarrow> bytes" where
  "source_datagram seq esi vector = be_put 4 seq @ [kindSource] @ be_put 4 esi @ vector"

definition repair_datagram :: "u32 \<Rightarrow> RepairSymbol \<Rightarrow> bytes" where
  "repair_datagram seq r =
     be_put 4 seq @ [kindRepair] @ be_put 4 (RID r) @ be_put 4 (First r) @ be_put 2 (of_int (Count r) :: u16) @ Vector r"

definition sendSource :: "world \<Rightarrow> CodedPath \<Rightarrow> u32 \<Rightarrow> bytes \<Rightarrow> CodedPath \<times> bool" where
  "sendSource w p esi vector =
     (case take_seq p of (p1, seq) \<Rightarrow>
        (case put w p1 (source_datagram seq esi vector) of (p2, sent, ok) \<Rightarrow> (p2, ok)))"

definition sendRepair :: "world \<Rightarrow> CodedPath \<Rightarrow> int \<Rightarrow> CodedPath \<times> bool" where
  "sendRepair w p count =
     (let rid = nextRID p; p0 = p\<lparr>nextRID := rid + 1\<rparr> in
      case enc_Repair (encoder p) rid count of
        None \<Rightarrow> (p0, True)
      | Some r \<Rightarrow>
          (case take_seq p0 of (p1, seq) \<Rightarrow>
             (case put w p1 (repair_datagram seq r) of
                (p2, sent, ok) \<Rightarrow> (if sent then p2\<lparr>repairsN := repairsN p2 + 1\<rparr> else p2, ok))))"

text \<open>The repairs the credit pays for.\<close>

function credit_loop :: "world \<Rightarrow> CodedPath \<Rightarrow> CodedPath \<times> bool" where
  "credit_loop w p =
     (if credit p \<ge> 1 then
        (case sendRepair w p 0 of
           (p1, ok) \<Rightarrow>
             if ok then credit_loop w (p1\<lparr>burstRepairs := burstRepairs p1 + 1, credit := credit p - 1\<rparr>)
             else (p1, False))
      else (p, True))"
  by pat_completeness auto
termination
proof (relation "measure (\<lambda>(w, p). nat \<lfloor>credit p\<rfloor>)")
  fix w :: world and p p1 :: CodedPath and ok
  assume "1 \<le> credit p"
  then have "1 \<le> \<lfloor>credit p\<rfloor>" by (simp add: le_floor_iff)
  then show "((w, p1\<lparr>burstRepairs := burstRepairs p1 + 1, credit := credit p - 1\<rparr>), w, p) \<in> measure (\<lambda>(w, p). nat \<lfloor>credit p\<rfloor>)"
    by simp
qed simp

declare credit_loop.simps [simp del]

definition symbol_vector :: "bytes \<Rightarrow> nat \<Rightarrow> nat \<Rightarrow> bytes" where
  "symbol_vector payload index count =
     be_put 2 (of_nat (length payload) :: u16) @ be_put 2 (of_nat index :: u16) @ be_put 2 (of_nat count :: u16) @ payload"

definition path_emit :: "world \<Rightarrow> CodedPath \<Rightarrow> bytes \<Rightarrow> nat \<Rightarrow> nat \<Rightarrow> CodedPath \<times> bool" where
  "path_emit w p payload index count =
     (let vector = symbol_vector payload index count in
      case path_coding w p of (p1, current) \<Rightarrow>
        (case enc_Add (SetCapacity (encoder p1) (capacity current)) vector of (e, esi) \<Rightarrow>
           (case sendSource w (p1\<lparr>encoder := e\<rparr>) esi vector of (p2, ok) \<Rightarrow>
              if \<not> ok then (p2, False)
              else
                (let p3 = p2\<lparr>burstSymbols := burstSymbols p2 + 1\<rparr>;
                     p4 = (if burstSymbols p3 \<ge> int (length (ring (encoder p3)))
                           then p3\<lparr>burstSymbols := 0, burstRepairs := 0\<rparr> else p3) in
                 credit_loop w (p4\<lparr>credit := credit p4 + crate current\<rparr>)))))"

definition flushPacked :: "world \<Rightarrow> CodedPath \<Rightarrow> CodedPath \<times> bool" where
  "flushPacked w p =
     (if length (packed p) = 0 then (p, True)
      else case path_emit w p (packed p) 0 1 of (p1, ok) \<Rightarrow> (p1\<lparr>packed := []\<rparr>, ok))"

fun fragments_loop :: "world \<Rightarrow> bytes \<Rightarrow> nat \<Rightarrow> nat \<Rightarrow> nat list \<Rightarrow> CodedPath \<Rightarrow> CodedPath \<times> bool" where
  "fragments_loop w frame limit count [] p = (p, True)"
| "fragments_loop w frame limit count (i # is) p =
     (case path_emit w p (go_slice (i * limit) (min ((i + 1) * limit) (length frame)) frame) i count of
        (p1, ok) \<Rightarrow> if ok then fragments_loop w frame limit count is p1 else (p1, False))"

definition sendFragments :: "world \<Rightarrow> CodedPath \<Rightarrow> bytes \<Rightarrow> nat \<Rightarrow> CodedPath \<times> bool" where
  "sendFragments w p frame limit =
     (let count = (length frame + limit - 1) div limit in
      if count > maxFragments then (p, False)
      else fragments_loop w frame limit count [0..<count] p)"

definition append_sized :: "world \<Rightarrow> CodedPath \<Rightarrow> bytes \<Rightarrow> nat \<Rightarrow> CodedPath \<times> bool" where
  "append_sized w p frame limit =
     (if frameHeader + length frame > limit then
        (case flushPacked w p of (p1, ok) \<Rightarrow> if ok then sendFragments w p1 frame limit else (p1, False))
      else
        (case (if length (packed p) + frameHeader + length frame > limit then flushPacked w p else (p, True)) of
           (p1, ok) \<Rightarrow>
             if ok then (p1\<lparr>packed := packed p1 @ be_put 4 (of_nat (length frame) :: u32) @ frame\<rparr>, True)
             else (p1, False)))"

definition appendFrame :: "world \<Rightarrow> CodedPath \<Rightarrow> bytes \<Rightarrow> CodedPath \<times> bool" where
  "appendFrame w p frame = append_sized w (p\<lparr>sized := sized p + 1\<rparr>) frame (symbolPayload w p)"

function protect_loop :: "world \<Rightarrow> int \<Rightarrow> CodedPath \<Rightarrow> CodedPath \<times> bool" where
  "protect_loop w want p =
     (if burstRepairs p < want then
        (case sendRepair w p (burstSymbols p) of
           (p1, ok) \<Rightarrow> if ok then protect_loop w want (p1\<lparr>burstRepairs := burstRepairs p + 1\<rparr>) else (p1, False))
      else (p, True))"
  by pat_completeness auto
termination by (relation "measure (\<lambda>(w, want, p). nat (want - burstRepairs p))") auto

declare protect_loop.simps [simp del]

definition protectBurst :: "world \<Rightarrow> CodedPath \<Rightarrow> CodedPath \<times> bool" where
  "protectBurst w p =
     (if burstSymbols p \<le> 0 then (p, True)
      else case tailRepairs w p (burstSymbols p) of (p1, want) \<Rightarrow>
        (case protect_loop w want p1 of
           (p2, ok) \<Rightarrow> if ok then (p2\<lparr>burstSymbols := 0, burstRepairs := 0, credit := 0\<rparr>, True) else (p2, False)))"

text \<open>One turn of the send loop: the frames that were waiting, then what they left.\<close>

fun append_all :: "world \<Rightarrow> CodedPath \<Rightarrow> bytes list \<Rightarrow> CodedPath \<times> bool" where
  "append_all w p [] = (p, True)"
| "append_all w p (f # fs) = (case appendFrame w p f of (p1, ok) \<Rightarrow> if ok then append_all w p1 fs else (p1, False))"

definition send_batch :: "world \<Rightarrow> CodedPath \<Rightarrow> bytes list \<Rightarrow> CodedPath \<times> bool" where
  "send_batch w p fs =
     (case append_all w p fs of (p1, ok) \<Rightarrow>
        if \<not> ok then (p1, False)
        else case flushPacked w p1 of (p2, ok) \<Rightarrow> if ok then protectBurst w p2 else (p2, False))"

fun sendLoop :: "world \<Rightarrow> CodedPath \<Rightarrow> bytes list list \<Rightarrow> CodedPath \<times> bool" where
  "sendLoop w p [] = (p, True)"
| "sendLoop w p (b # bs) = (case send_batch w p b of (p1, ok) \<Rightarrow> if ok then sendLoop w p1 bs else (p1, False))"

section \<open>Receiving\<close>

text \<open>A part that has not arrived is nil; appending an empty payload to nil is nil again, so the empty list
  stands for both.\<close>

record fragmentGroup =
  parts :: "bytes list"
  heldParts :: nat
  partBytes :: nat

record assembler =
  groups :: "u32 \<rightharpoonup> fragmentGroup"
  high :: u32
  seen :: bool
  lostN :: u64

definition keep_groups :: "(u32 \<Rightarrow> fragmentGroup \<Rightarrow> bool) \<Rightarrow> (u32 \<rightharpoonup> fragmentGroup) \<Rightarrow> (u32 \<rightharpoonup> fragmentGroup)" where
  "keep_groups P m = (\<lambda>first. case m first of None \<Rightarrow> None | Some g \<Rightarrow> if P first g then Some g else None)"

definition prune :: "assembler \<Rightarrow> assembler" where
  "prune a = a\<lparr>groups := keep_groups (\<lambda>first g. \<not> sint (high a - (first + of_nat (length (parts g)))) > assemblerSlack) (groups a)\<rparr>"

definition note_symbol :: "assembler \<Rightarrow> u32 \<Rightarrow> assembler" where
  "note_symbol a esi =
     (if \<not> seen a then a\<lparr>seen := True, high := esi\<rparr>
      else if sint (esi - high a) > 0 then prune (a\<lparr>high := esi\<rparr>)
      else a)"

definition parseSymbol :: "bytes \<Rightarrow> (bytes \<times> nat \<times> nat) option" where
  "parseSymbol vector =
     (if length vector < symbolHeader then None
      else
        (let len = unat (be_get (take 2 vector) :: u16);
             index = unat (be_get (go_slice 2 4 vector) :: u16);
             count = unat (be_get (go_slice 4 6 vector) :: u16) in
         if count < 1 \<or> index \<ge> count \<or> symbolHeader + len > length vector then None
         else Some (go_slice symbolHeader (symbolHeader + len) vector, index, count)))"

function parseFrames :: "bytes \<Rightarrow> bytes list \<Rightarrow> bytes list" where
  "parseFrames payload out =
     (if length payload \<ge> frameHeader then
        (let sz = unat (be_get (take 4 payload) :: u32); rest = drop frameHeader payload in
         if sz > length rest then out
         else parseFrames (drop sz rest) (out @ [take sz rest]))
      else out)"
  by pat_completeness auto
termination by (relation "measure (\<lambda>(payload, out). length payload)") (auto simp: frameHeader_def)

declare parseFrames.simps [simp del]

definition asm_arrived :: "assembler \<Rightarrow> u32 \<Rightarrow> bytes \<Rightarrow> bytes list \<Rightarrow> assembler \<times> bytes list" where
  "asm_arrived a esi vector out =
     (let a = note_symbol a esi in
      case parseSymbol vector of
        None \<Rightarrow> (a, out)
      | Some (payload, index, count) \<Rightarrow>
          if count = 1 then (a, parseFrames payload out)
          else
            (let first = esi - of_nat index;
                 group = (case groups a first of
                            Some g \<Rightarrow> g
                          | None \<Rightarrow> \<lparr>parts = replicate count [], heldParts = 0, partBytes = 0\<rparr>);
                 a = a\<lparr>groups := (groups a)(first \<mapsto> group)\<rparr> in
             if index \<ge> length (parts group) \<or> parts group ! index \<noteq> [] then (a, out)
             else
               (let group = group\<lparr>parts := (parts group)[index := payload], heldParts := heldParts group + 1,
                      partBytes := partBytes group + length payload\<rparr> in
                if heldParts group < length (parts group) then (a\<lparr>groups := (groups a)(first \<mapsto> group)\<rparr>, out)
                else (a\<lparr>groups := (groups a)(first := None)\<rparr>, out @ [concat (parts group)]))))"

definition asm_lost :: "assembler \<Rightarrow> u32 \<Rightarrow> assembler" where
  "asm_lost a esi =
     (let a = note_symbol a esi; a = a\<lparr>lostN := lostN a + 1\<rparr> in
      a\<lparr>groups := keep_groups
          (\<lambda>first g. \<not> (sint (esi - first) \<ge> 0 \<and> sint (esi - first) < sint (of_nat (length (parts g)) :: u32))) (groups a)\<rparr>)"

record Receiver =
  decoder :: WindowDecoder
  asm :: assembler
  observed :: "u32 list"
  arrivals :: u64
  sources :: u64
  malformed :: u64

definition NewReceiver :: Receiver where
  "NewReceiver = \<lparr>decoder = NewWindowDecoder, asm = \<lparr>groups = Map.empty, high = 0, seen = False, lostN = 0\<rparr>,
     observed = [], arrivals = 0, sources = 0, malformed = 0\<rparr>"

fun arrive_all :: "assembler \<Rightarrow> (u32 \<times> bytes) list \<Rightarrow> bytes list \<Rightarrow> assembler \<times> bytes list" where
  "arrive_all a [] out = (a, out)"
| "arrive_all a ((esi, v) # rs) out = (case asm_arrived a esi v out of (a1, out1) \<Rightarrow> arrive_all a1 rs out1)"

definition settle_delivery :: "Receiver \<Rightarrow> Delivery \<Rightarrow> bytes list \<Rightarrow> Receiver \<times> bytes list" where
  "settle_delivery r delivered frames =
     (case arrive_all (asm r) (Recovered delivered) frames of
        (a, frames) \<Rightarrow> (r\<lparr>asm := foldl asm_lost a (Lost delivered)\<rparr>, frames))"

definition onDatagram :: "Receiver \<Rightarrow> bytes \<Rightarrow> Receiver \<times> bytes list" where
  "onDatagram r d =
     (if length d < sourceHeader then (r, [])
      else
        (let seq = be_get (take 4 d) :: u32;
             r = r\<lparr>arrivals := arrivals r + 1, observed := observed r @ [seq]\<rparr> in
         if d ! 4 = kindSource then
           (let esi = be_get (go_slice 5 9 d) :: u32; vector = drop sourceHeader d;
                (dec, delivered) = dec_Source (decoder r) esi vector;
                (a, frames) = asm_arrived (asm r) esi vector [] in
            settle_delivery (r\<lparr>sources := sources r + 1, decoder := dec, asm := a\<rparr>) delivered frames)
         else if d ! 4 = kindRepair then
           (if length d < repairHeader then (r, [])
            else
              (let count = int (unat (be_get (go_slice 13 15 d) :: u16)) in
               if count \<le> 0 \<or> count > MaxRepairWindow then (r\<lparr>malformed := malformed r + 1\<rparr>, [])
               else
                 (let (dec, delivered) = dec_Repair (decoder r)
                        \<lparr>RID = be_get (go_slice 5 9 d), First = be_get (go_slice 9 13 d), Count = count, Vector = drop repairHeader d\<rparr> in
                  settle_delivery (r\<lparr>decoder := dec\<rparr>) delivered [])))
         else (r, [])))"

fun receiveLoop :: "Receiver \<Rightarrow> bytes list \<Rightarrow> Receiver \<times> bytes list" where
  "receiveLoop r [] = (r, [])"
| "receiveLoop r (d # ds) = (case onDatagram r d of (r1, frames) \<Rightarrow> (case receiveLoop r1 ds of (r2, rest) \<Rightarrow> (r2, frames @ rest)))"

section \<open>Statistics\<close>

record Stats =
  SentD :: u64
  RepairsD :: u64
  RecoveredS :: u64
  LostS :: u64
  Arrived :: u64
  SourcesD :: u64
  OversizeD :: u64
  MalformedD :: u64

definition path_Stats :: "CodedPath \<Rightarrow> Receiver \<Rightarrow> Stats" where
  "path_Stats p r = \<lparr>SentD = sentN p, RepairsD = repairsN p, RecoveredS = recovered (decoder r), LostS = lostN (asm r),
     Arrived = arrivals r, SourcesD = sources r, OversizeD = oversize p, MalformedD = malformed r\<rparr>"

definition SourceSymbols :: "Stats \<Rightarrow> u64" where
  "SourceSymbols s = SourcesD s + RecoveredS s + LostS s"

definition Erasure :: "Stats \<Rightarrow> rat" where
  "Erasure s = (let n = SourceSymbols s in if n = 0 then 0 else of_nat (unat (RecoveredS s + LostS s)) / of_nat (unat n))"

definition Residual :: "Stats \<Rightarrow> rat" where
  "Residual s = (let n = SourceSymbols s in if n = 0 then 0 else of_nat (unat (LostS s)) / of_nat (unat n))"

end
