(* ===== verification/CodedSend.thy ===== *)
theory CodedSend
  imports Coded
begin

text \<open>
  What the sending side of \<^verbatim>\<open>internal/coded\<close> puts on the wire, in terms of the emissions of the
  window encoder: the symbols it adds spell out the frames it was given, in order.
\<close>

section \<open>Runs of the encoder\<close>

fun enc_run :: "WindowEncoder \<Rightarrow> emission list \<Rightarrow> WindowEncoder" where
  "enc_run e [] = e"
| "enc_run e (SendSymbol v # es) = enc_run (fst (enc_Add e v)) es"
| "enc_run e (SendRepair rid count # es) = enc_run e es"
| "enc_run e (SendResize cap # es) = enc_run (SetCapacity e cap) es"

lemma enc_run_append: "enc_run e (es @ fs) = enc_run (enc_run e es) fs"
  by (induction e es rule: enc_run.induct) auto

lemma emit_append: "emit e (es @ fs) = emit e es @ emit (enc_run e es) fs"
  by (induction e es rule: enc_run.induct) (auto split: prod.splits option.splits)

lemma symbols_append: "symbols (es @ fs) = symbols es @ symbols fs"
  by (induction es rule: symbols.induct) auto

fun carries :: "bytes \<Rightarrow> arrival \<Rightarrow> bool" where
  "carries d (ASource esi v) \<longleftrightarrow> (\<exists>seq. d = source_datagram seq esi v)"
| "carries d (ARepair r) \<longleftrightarrow> (\<exists>seq. d = repair_datagram seq r)"

text \<open>The path's step is this run of the encoder, and the carrier got some of its packets in order; it got all of
  them if it refused none.\<close>

definition willing :: "world \<Rightarrow> bool" where
  "willing w \<longleftrightarrow> (\<forall>t d. CarrierSend w t d = Sent)"

definition acts :: "world \<Rightarrow> CodedPath \<Rightarrow> emission list \<Rightarrow> CodedPath \<Rightarrow> bool" where
  "acts w p es p' \<longleftrightarrow> encoder p' = enc_run (encoder p) es \<and> cfg p' = cfg p
     \<and> (\<exists>ds as. carried p' = carried p @ ds \<and> list_all2 carries ds as \<and> subseq as (emit (encoder p) es)
          \<and> (willing w \<longrightarrow> as = emit (encoder p) es))
     \<and> asked p + length (symbols es) \<le> asked p'"

lemma acts_refl: "encoder p' = encoder p \<Longrightarrow> cfg p' = cfg p \<Longrightarrow> carried p' = carried p \<Longrightarrow> asked p \<le> asked p' \<Longrightarrow> acts w p [] p'"
  by (auto simp: acts_def)

lemma acts_trans:
  assumes "acts w p es p'" "acts w p' fs p''"
  shows "acts w p (es @ fs) p''"
proof -
  obtain ds as where 1: "carried p' = carried p @ ds" "list_all2 carries ds as" "subseq as (emit (encoder p) es)"
    "willing w \<longrightarrow> as = emit (encoder p) es"
    using assms(1) unfolding acts_def by blast
  obtain ds' as' where 2: "carried p'' = carried p' @ ds'" "list_all2 carries ds' as'" "subseq as' (emit (encoder p') fs)"
    "willing w \<longrightarrow> as' = emit (encoder p') fs"
    using assms(2) unfolding acts_def by blast
  have e: "encoder p' = enc_run (encoder p) es" using assms(1) by (simp add: acts_def)
  have "carried p'' = carried p @ (ds @ ds')" "list_all2 carries (ds @ ds') (as @ as')"
    "subseq (as @ as') (emit (encoder p) (es @ fs))"
    "willing w \<longrightarrow> as @ as' = emit (encoder p) (es @ fs)"
    using 1 2 e by (auto simp: emit_append list_all2_appendI intro!: list_emb_append_mono)
  then show ?thesis using assms e unfolding acts_def enc_run_append symbols_append by auto
qed

lemma put_step:
  assumes "put w p d = (p', sent, ok)"
  shows "encoder p' = encoder p" "cfg p' = cfg p" "asked p' = asked p + 1" "carried p' = carried p @ (if sent then [d] else [])"
    "packed p' = packed p" "willing w \<longrightarrow> sent \<and> ok"
  using assms by (auto simp: put_def ask_def untake_def willing_def split: send_result.splits) (metis send_result.distinct)+

lemma sendSource_acts:
  assumes "sendSource w (p\<lparr>encoder := e\<rparr>) esi v = (p', ok)" "enc_Add (encoder p) v = (e, esi)"
  shows "acts w p [SendSymbol v] p'" "packed p' = packed p" "willing w \<longrightarrow> ok"
proof -
  obtain q sent where q: "put w (p\<lparr>encoder := e, nextSeq := nextSeq p + 1\<rparr>) (source_datagram (nextSeq p) esi v) = (q, sent, ok)" "p' = q"
    using assms(1) by (auto simp: sendSource_def take_seq_def split: prod.splits)
  note s = put_step [OF q(1)]
  let ?as = "if sent then [ASource esi v] else []"
  have "carried p' = carried p @ (if sent then [source_datagram (nextSeq p) esi v] else [])" using s q(2) by simp
  moreover have "list_all2 carries (if sent then [source_datagram (nextSeq p) esi v] else []) ?as" by auto
  moreover have "subseq ?as (emit (encoder p) [SendSymbol v])" "willing w \<longrightarrow> ?as = emit (encoder p) [SendSymbol v]"
    using assms(2) s(6) by auto
  moreover have "asked p + length (symbols [SendSymbol v]) \<le> asked p'" "encoder p' = enc_run (encoder p) [SendSymbol v]" "cfg p' = cfg p"
    using s q(2) assms(2) by simp_all
  ultimately show "acts w p [SendSymbol v] p'" unfolding acts_def by blast
  show "packed p' = packed p" "willing w \<longrightarrow> ok" using s q(2) by auto
qed

lemma sendRepair_acts:
  assumes "sendRepair w p count = (p', ok)"
  shows "acts w p [SendRepair (nextRID p) count] p'" "packed p' = packed p" "willing w \<longrightarrow> ok"
proof -
  have "acts w p [SendRepair (nextRID p) count] p' \<and> packed p' = packed p \<and> (willing w \<longrightarrow> ok)"
  proof (cases "enc_Repair (encoder p) (nextRID p) count")
    case None
    then have "p' = p\<lparr>nextRID := nextRID p + 1\<rparr>" "ok" using assms by (auto simp: sendRepair_def Let_def)
    then show ?thesis using None by (auto simp: acts_def)
  next
    case (Some r)
    let ?d = "repair_datagram (nextSeq p) r"
    obtain q sent where q: "put w (p\<lparr>nextRID := nextRID p + 1, nextSeq := nextSeq p + 1\<rparr>) ?d = (q, sent, ok)"
      "p' = (if sent then q\<lparr>repairsN := repairsN q + 1\<rparr> else q)"
      using assms Some by (auto simp: sendRepair_def take_seq_def Let_def split: prod.splits)
    note s = put_step [OF q(1)]
    let ?as = "if sent then [ARepair r] else []"
    have "carried p' = carried p @ (if sent then [?d] else [])" using s q(2) by simp
    moreover have "list_all2 carries (if sent then [?d] else []) ?as" by auto
    moreover have "subseq ?as (emit (encoder p) [SendRepair (nextRID p) count])"
      "willing w \<longrightarrow> ?as = emit (encoder p) [SendRepair (nextRID p) count]"
      using Some s(6) by auto
    moreover have "asked p + length (symbols [SendRepair (nextRID p) count]) \<le> asked p'"
      "encoder p' = enc_run (encoder p) [SendRepair (nextRID p) count]" "cfg p' = cfg p" using s q(2) by simp_all
    ultimately have "acts w p [SendRepair (nextRID p) count] p'" unfolding acts_def by blast
    then show ?thesis using s q(2) by auto
  qed
  then show "acts w p [SendRepair (nextRID p) count] p'" "packed p' = packed p" "willing w \<longrightarrow> ok" by blast+
qed

text \<open>A step that adds the given symbols and leaves the packed frames alone.\<close>

definition adds :: "world \<Rightarrow> CodedPath \<Rightarrow> bytes list \<Rightarrow> CodedPath \<Rightarrow> bool" where
  "adds w p vs p' \<longleftrightarrow> (\<exists>es. acts w p es p' \<and> symbols es = vs) \<and> packed p' = packed p"

lemma adds_trans: "adds w p vs p' \<Longrightarrow> adds w p' ws p'' \<Longrightarrow> adds w p (vs @ ws) p''"
  unfolding adds_def using acts_trans symbols_append by metis

lemma adds_refl: "encoder p' = encoder p \<Longrightarrow> cfg p' = cfg p \<Longrightarrow> carried p' = carried p \<Longrightarrow> asked p \<le> asked p' \<Longrightarrow> packed p' = packed p
    \<Longrightarrow> adds w p [] p'"
  unfolding adds_def using acts_refl symbols.simps(1) by blast

lemma sendRepair_adds: "sendRepair w p count = (p', ok) \<Longrightarrow> adds w p [] p'"
  unfolding adds_def using sendRepair_acts by (metis symbols.simps(1,3))

lemma credit_loop_adds:
  "credit_loop w p = (p', ok) \<Longrightarrow> adds w p [] p' \<and> (willing w \<longrightarrow> ok)"
proof (induction w p arbitrary: p' rule: credit_loop.induct)
  case (1 w p)
  show ?case
  proof (cases "1 \<le> credit p")
    case True
    obtain p1 ok1 where r: "sendRepair w p 0 = (p1, ok1)" by fastforce
    note a = sendRepair_adds [OF r] sendRepair_acts(3) [OF r]
    let ?q = "p1\<lparr>burstRepairs := burstRepairs p1 + 1, credit := credit p - 1\<rparr>"
    show ?thesis
    proof (cases ok1)
      case ok: True
      have q: "adds w p1 [] ?q" by (rule adds_refl) simp_all
      have "credit_loop w ?q = (p', ok)" using "1.prems" True r ok by (simp add: credit_loop.simps [of w p])
      then have ih: "adds w ?q [] p'" "willing w \<longrightarrow> ok"
        using "1.IH" [OF True r [symmetric] ok] by auto
      then show ?thesis using adds_trans [OF adds_trans [OF a(1) q] ih(1)] by simp
    next
      case False
      then show ?thesis using "1.prems" True r a by (auto simp: credit_loop.simps [of w p])
    qed
  next
    case False
    then show ?thesis using "1.prems" adds_refl [of p p w] by (simp add: credit_loop.simps [of w p])
  qed
qed

lemma path_coding_adds: "path_coding w p = (p', c) \<Longrightarrow> adds w p [] p'"
  by (rule adds_refl) (auto simp: path_coding_def ask_def Let_def split: if_splits option.splits)

lemma path_emit_adds:
  assumes "path_emit w p payload index count = (p', ok)"
  shows "adds w p [symbol_vector payload index count] p'" "willing w \<longrightarrow> ok"
proof -
  let ?v = "symbol_vector payload index count"
  obtain p1 c where c: "path_coding w p = (p1, c)" by fastforce
  obtain e esi where e: "enc_Add (SetCapacity (encoder p1) (capacity c)) ?v = (e, esi)" by fastforce
  obtain p2 ok2 where s: "sendSource w (p1\<lparr>encoder := e\<rparr>) esi ?v = (p2, ok2)" by fastforce
  let ?q = "p1\<lparr>encoder := SetCapacity (encoder p1) (capacity c)\<rparr>"
  have "acts w p1 [SendResize (capacity c)] ?q" by (auto simp: acts_def)
  then have "adds w p1 [] ?q" unfolding adds_def by (intro conjI exI [of _ "[SendResize (capacity c)]"]) simp_all
  then have q: "adds w p [] ?q" using adds_trans [OF path_coding_adds [OF c]] by fastforce
  have "sendSource w (?q\<lparr>encoder := e\<rparr>) esi ?v = (p2, ok2)" "enc_Add (encoder ?q) ?v = (e, esi)" using s e by simp_all
  note a = sendSource_acts [OF this]
  have "adds w ?q [?v] p2" unfolding adds_def using a(1,2) by (intro conjI exI [of _ "[SendSymbol ?v]"]) simp_all
  then have sent: "adds w p [?v] p2" using adds_trans [OF q] by fastforce
  have "adds w p [?v] p' \<and> (willing w \<longrightarrow> ok)"
  proof (cases ok2)
    case False
    then show ?thesis using assms c e s sent a(3) by (simp add: path_emit_def)
  next
    case True
    define p4 where "p4 = (let p3 = p2\<lparr>burstSymbols := burstSymbols p2 + 1\<rparr> in
      if burstSymbols p3 \<ge> int (length (ring (encoder p3))) then p3\<lparr>burstSymbols := 0, burstRepairs := 0\<rparr> else p3)"
    have run: "credit_loop w (p4\<lparr>credit := credit p4 + crate c\<rparr>) = (p', ok)"
      using assms c e s True by (simp add: path_emit_def p4_def Let_def)
    have "adds w p2 [] (p4\<lparr>credit := credit p4 + crate c\<rparr>)" by (rule adds_refl) (simp_all add: p4_def Let_def)
    then have "adds w p2 [] p'" "willing w \<longrightarrow> ok" using adds_trans credit_loop_adds [OF run] by fastforce+
    then show ?thesis using adds_trans [OF sent] by fastforce
  qed
  then show "adds w p [?v] p'" "willing w \<longrightarrow> ok" by blast+
qed

section \<open>The symbols of a frame\<close>

definition packed_of :: "bytes list \<Rightarrow> bytes" where
  "packed_of fs = concat (map (\<lambda>f. be_put 4 (of_nat (length f) :: u32) @ f) fs)"

definition fragment :: "bytes \<Rightarrow> nat \<Rightarrow> nat \<Rightarrow> bytes" where
  "fragment frame limit i = go_slice (i * limit) (min ((i + 1) * limit) (length frame)) frame"

definition fragment_symbols :: "bytes list \<Rightarrow> bytes list" where
  "fragment_symbols frags = map (\<lambda>i. symbol_vector (frags ! i) i (length frags)) [0..<length frags]"

definition short :: "bytes \<Rightarrow> bool" where
  "short b \<longleftrightarrow> length b < 2 ^ 16"

text \<open>Symbols that spell out a list of frames, in order: packed together, or in fragments.\<close>

inductive stream :: "bytes list \<Rightarrow> bytes list \<Rightarrow> bool" where
  stream_none: "stream [] []"
| stream_packed: "stream gs h \<Longrightarrow> short (packed_of fs) \<Longrightarrow> stream (gs @ fs) (h @ [symbol_vector (packed_of fs) 0 1])"
| stream_fragments: "stream gs h \<Longrightarrow> concat frags = f \<Longrightarrow> 2 \<le> length frags \<Longrightarrow> length frags \<le> maxFragments
    \<Longrightarrow> (\<forall>x\<in>set frags. x \<noteq> [] \<and> short x) \<Longrightarrow> stream (gs @ [f]) (h @ fragment_symbols frags)"

lemma fragments_take: "concat (map (fragment f limit) [0..<m]) = take (m * limit) f"
proof (induction m)
  case (Suc m)
  have "take (m * limit) f @ go_slice (m * limit) (min (Suc m * limit) (length f)) f = take (Suc m * limit) f"
  proof (cases "m * limit \<le> length f")
    case True
    then have "take (m * limit) f @ go_slice (m * limit) (min (Suc m * limit) (length f)) f = take (min (Suc m * limit) (length f)) f"
      by (intro take_append_go_slice) simp
    then show ?thesis by (simp add: min_def)
  qed (simp add: go_slice_def)
  then show ?case using Suc by (simp add: fragment_def)
qed simp

text \<open>The fragments of a frame that is longer than one symbol.\<close>

lemma fragments_ok:
  assumes "0 < limit" "limit < length f" "limit < 2 ^ 16" "count = (length f + limit - 1) div limit" "count \<le> maxFragments"
  defines "frags \<equiv> map (fragment f limit) [0..<count]"
  shows "concat frags = f" "2 \<le> length frags" "length frags \<le> maxFragments" "\<forall>x\<in>set frags. x \<noteq> [] \<and> short x"
    "fragment_symbols frags = map (\<lambda>i. symbol_vector (fragment f limit i) i count) [0..<count]"
proof -
  have up: "length f \<le> count * limit"
    using div_mult_mod_eq [of "length f + limit - 1" limit] mod_less_divisor [OF assms(1), of "length f + limit - 1"]
    unfolding assms(4) by linarith
  then show "concat frags = f" by (simp add: frags_def fragments_take)
  have "limit < count * limit" using up assms(2) by linarith
  then have "2 \<le> count" by (cases count rule: nat.exhaust [case_product nat.exhaust]) (auto simp: numeral_2_eq_2 Suc_le_eq intro: gr0I)
  then show "2 \<le> length frags" "length frags \<le> maxFragments" using assms(5) by (simp_all add: frags_def)
  have low: "i * limit < length f" if "i < count" for i
  proof -
    have "Suc i \<le> (length f + limit - 1) div limit" using that assms(4) by simp
    then have "Suc i * limit \<le> length f + limit - 1" using less_eq_div_iff_mult_less_eq [OF assms(1)] by blast
    then show ?thesis using assms(1) by simp
  qed
  have "fragment f limit i \<noteq> [] \<and> short (fragment f limit i)" if "i < count" for i
    using low [OF that] assms(1,3) unfolding length_greater_0_conv [symmetric] by (simp add: fragment_def short_def min_def) linarith
  then show "\<forall>x\<in>set frags. x \<noteq> [] \<and> short x" by (auto simp: frags_def)
  show "fragment_symbols frags = map (\<lambda>i. symbol_vector (fragment f limit i) i count) [0..<count]"
    by (simp add: fragment_symbols_def frags_def)
qed

section \<open>The sender\<close>

definition sends :: "world \<Rightarrow> CodedPath \<Rightarrow> bytes list \<Rightarrow> CodedPath \<Rightarrow> bool" where
  "sends w p vs p' \<longleftrightarrow> (\<exists>es. acts w p es p' \<and> symbols es = vs)"

lemma adds_sends: "adds w p vs p' \<Longrightarrow> sends w p vs p'"
  by (auto simp: adds_def sends_def)

lemma sends_trans: "sends w p vs p' \<Longrightarrow> sends w p' ws p'' \<Longrightarrow> sends w p (vs @ ws) p''"
  unfolding sends_def using acts_trans symbols_append by metis

lemma sends_refl: "encoder p' = encoder p \<Longrightarrow> cfg p' = cfg p \<Longrightarrow> carried p' = carried p \<Longrightarrow> asked p \<le> asked p' \<Longrightarrow> sends w p [] p'"
  unfolding sends_def using acts_refl symbols.simps(1) by blast

lemma sends_cfg: "sends w p vs p' \<Longrightarrow> cfg p' = cfg p"
  by (auto simp: sends_def acts_def)

text \<open>The frames accepted so far are in the symbols sent and the packed ones; a sender that stopped half-way
  through a frame leaves the rest of its symbols unsent.\<close>

definition spelled :: "bytes list \<Rightarrow> bytes list \<Rightarrow> CodedPath \<Rightarrow> bool" where
  "spelled done h p \<longleftrightarrow> (\<exists>gs fs. done = gs @ fs \<and> stream gs h \<and> packed p = packed_of fs \<and> short (packed p))"

definition cut_off :: "bytes list \<Rightarrow> bytes list \<Rightarrow> bool" where
  "cut_off done h \<longleftrightarrow> (\<exists>gs rest. stream gs (h @ rest) \<and> prefix gs done \<and> length rest \<le> maxFragments)"

lemma stream_cut: "stream gs h \<Longrightarrow> cut_off (gs @ ms) h"
  unfolding cut_off_def by (intro exI [of _ gs] exI [of _ "[]"]) simp

lemma spelled_cut: "spelled done h p \<Longrightarrow> cut_off done h"
  by (auto simp: spelled_def stream_cut)

lemma cut_more: "cut_off done h \<Longrightarrow> cut_off (done @ ms) h"
  unfolding cut_off_def using prefix_prefix by blast

lemma packed_of_empty: "packed_of fs = [] \<longleftrightarrow> fs = []"
proof (cases fs)
  case (Cons f gs)
  have "4 \<le> length (packed_of fs)" by (simp add: Cons packed_of_def)
  then have "packed_of fs \<noteq> []" by auto
  then show ?thesis using Cons by simp
qed (simp add: packed_of_def)

lemma flushPacked_spells:
  assumes "spelled done h p" "flushPacked w p = (p', ok)"
  shows "\<exists>vs. sends w p vs p' \<and> stream done (h @ vs) \<and> packed p' = []"
proof -
  obtain gs fs where s: "done = gs @ fs" "stream gs h" "packed p = packed_of fs" "short (packed p)"
    using assms(1) by (auto simp: spelled_def)
  show ?thesis
  proof (cases "packed p = []")
    case True
    then have "fs = []" using s(3) packed_of_empty [of fs] by simp
    then show ?thesis using True assms(2) s sends_refl [of p p w] by (intro exI [of _ "[]"]) (simp add: flushPacked_def)
  next
    case False
    obtain p1 where e: "path_emit w p (packed p) 0 1 = (p1, ok)" "p' = p1\<lparr>packed := []\<rparr>"
      using assms(2) False by (auto simp: flushPacked_def split: prod.splits)
    let ?v = "symbol_vector (packed p) 0 1"
    have "sends w p ([?v] @ []) p'"
      using adds_sends [OF path_emit_adds(1) [OF e(1)]] by (rule sends_trans) (rule sends_refl, simp_all add: e(2))
    moreover have "stream done (h @ [?v])" using s stream_packed [of gs h fs] by simp
    ultimately show ?thesis using e(2) by (intro exI [of _ "[?v]"]) simp
  qed
qed

lemma fragments_loop_adds:
  "fragments_loop w f limit count is p = (p', ok) \<Longrightarrow>
    \<exists>is1 is2. is = is1 @ is2 \<and> adds w p (map (\<lambda>i. symbol_vector (fragment f limit i) i count) is1) p' \<and> (ok \<longrightarrow> is2 = [])"
proof (induction "is" arbitrary: p)
  case Nil
  then show ?case using adds_refl [of p p w] by simp
next
  case (Cons i "is")
  let ?sym = "\<lambda>i. symbol_vector (fragment f limit i) i count"
  obtain p1 ok1 where e: "path_emit w p (fragment f limit i) i count = (p1, ok1)" by fastforce
  note a = path_emit_adds(1) [OF e]
  show ?case
  proof (cases ok1)
    case True
    then have "fragments_loop w f limit count is p1 = (p', ok)" using Cons.prems e by (simp add: fragment_def)
    from Cons.IH [OF this] obtain is1 is2 where r: "is = is1 @ is2" "adds w p1 (map ?sym is1) p'" "ok \<longrightarrow> is2 = []" by blast
    then show ?thesis using adds_trans [OF a r(2)] by (intro exI [of _ "i # is1"] exI [of _ is2]) simp
  next
    case False
    then show ?thesis using Cons.prems e a by (intro exI [of _ "[i]"] exI [of _ "is"]) (simp add: fragment_def)
  qed
qed

lemma sendFragments_spells:
  assumes "stream done h" "0 < limit" "limit < length f" "limit < 2 ^ 16" "sendFragments w p f limit = (p', ok)"
  shows "\<exists>vs. sends w p vs p' \<and> packed p' = packed p \<and> (if ok then stream (done @ [f]) (h @ vs) else cut_off (done @ [f]) (h @ vs))"
proof (cases "(length f + limit - 1) div limit \<le> maxFragments")
  case False
  then have "p' = p" "\<not> ok" using assms(5) by (auto simp: sendFragments_def)
  then show ?thesis using stream_cut [OF assms(1)] sends_refl [of p p w] by (intro exI [of _ "[]"]) simp
next
  case True
  let ?count = "(length f + limit - 1) div limit"
  let ?sym = "\<lambda>i. symbol_vector (fragment f limit i) i ?count"
  define frags where "frags = map (fragment f limit) [0..<?count]"
  note fo = fragments_ok [OF assms(2-4) refl True, folded frags_def]
  have all: "stream (done @ [f]) (h @ map ?sym [0..<?count])"
    using stream_fragments [OF assms(1) fo(1-4)] fo(5) by simp
  have "fragments_loop w f limit ?count [0..<?count] p = (p', ok)" using assms(5) True by (simp add: sendFragments_def Let_def)
  from fragments_loop_adds [OF this] obtain is1 is2
    where r: "[0..<?count] = is1 @ is2" "adds w p (map ?sym is1) p'" "ok \<longrightarrow> is2 = []" by blast
  have len: "length is2 \<le> ?count" using arg_cong [OF r(1), of length] by simp
  have both: "stream (done @ [f]) ((h @ map ?sym is1) @ map ?sym is2)" using all unfolding r(1) by simp
  then have "cut_off (done @ [f]) (h @ map ?sym is1)"
    unfolding cut_off_def using len True by (intro exI [of _ "done @ [f]"] exI [of _ "map ?sym is2"]) simp
  then have "if ok then stream (done @ [f]) (h @ map ?sym is1) else cut_off (done @ [f]) (h @ map ?sym is1)" using both r(3) by auto
  then show ?thesis using r(2) adds_sends [OF r(2)] by (intro exI [of _ "map ?sym is1"]) (simp add: adds_def)
qed

text \<open>How much of a frame one symbol carries when the surroundings have been asked so often.\<close>

definition payload_limit :: "world \<Rightarrow> CodedConfig \<Rightarrow> nat \<Rightarrow> nat" where
  "payload_limit w c t = symbolPayload w ((NewPath c)\<lparr>asked := t\<rparr>)"

text \<open>A frame that goes whole, with its length, into a symbol, or needs at least two: one that does not fill a
  symbol, whatever the limit at the time, to within its last three bytes.\<close>

definition fits :: "world \<Rightarrow> CodedConfig \<Rightarrow> bytes \<Rightarrow> bool" where
  "fits w c f \<longleftrightarrow> (\<forall>t. frameHeader + length f \<le> payload_limit w c t \<or> payload_limit w c t < length f)"

lemma symbolPayload_limit: "cfg p = withDefaults c \<Longrightarrow> symbolPayload w p = payload_limit w c (asked p + sized p)"
  by (simp add: payload_limit_def symbolPayload_def symbolBytes_def NewPath_def)

lemma payload_limit_range: "5 \<le> payload_limit w c t" "SymbolBytes (withDefaults c) \<le> 65556 \<Longrightarrow> payload_limit w c t < 2 ^ 16"
  by (auto simp: payload_limit_def symbolPayload_def symbolBytes_def NewPath_def coded_consts Let_def split: option.splits)

lemma append_sized_spells:
  assumes "spelled done h p" "5 \<le> L" "L < 2 ^ 16" "frameHeader + length f \<le> L \<or> L < length f" "append_sized w p f L = (p', ok)"
  shows "\<exists>vs. sends w p vs p' \<and> (if ok then spelled (done @ [f]) (h @ vs) p' else cut_off (done @ [f]) (h @ vs))"
proof -
  note L = assms(2-4)
  show ?thesis
  proof (cases "frameHeader + length f > L")
    case True
    obtain p1 ok1 where fl: "flushPacked w p = (p1, ok1)" by fastforce
    from flushPacked_spells [OF assms(1) fl] obtain vs where v: "sends w p vs p1" "stream done (h @ vs)" "packed p1 = []" by blast
    show ?thesis
    proof (cases ok1)
      case ok1: True
      have "sendFragments w p1 f L = (p', ok)" using assms(5) True fl ok1 by (simp add: append_sized_def)
      from sendFragments_spells [OF v(2) _ _ L(2) this] True L obtain us
        where u: "sends w p1 us p'" "packed p' = packed p1" "if ok then stream (done @ [f]) ((h @ vs) @ us) else cut_off (done @ [f]) ((h @ vs) @ us)"
        by auto
      have "ok \<Longrightarrow> spelled (done @ [f]) (h @ vs @ us) p'"
        unfolding spelled_def using u v(3) by (intro exI [of _ "done @ [f]"] exI [of _ "[]"]) (simp add: packed_of_def short_def)
      then show ?thesis using sends_trans [OF v(1) u(1)] u(3) by (intro exI [of _ "vs @ us"]) auto
    next
      case False
      then show ?thesis using assms(5) True fl v stream_cut [OF v(2)] by (intro exI [of _ vs]) (simp add: append_sized_def)
    qed
  next
    case False
    let ?full = "length (packed p) + frameHeader + length f > L"
    obtain p1 ok1 where fl: "(if ?full then flushPacked w p else (p, True)) = (p1, ok1)" by fastforce
    have "\<exists>vs. sends w p vs p1 \<and> spelled done (h @ vs) p1 \<and> length (packed p1) + frameHeader + length f \<le> L"
    proof (cases ?full)
      case True
      then obtain vs where v: "sends w p vs p1" "stream done (h @ vs)" "packed p1 = []"
        using flushPacked_spells [OF assms(1), of w p1 ok1] fl by auto
      then have "spelled done (h @ vs) p1" unfolding spelled_def
        by (intro exI [of _ "done"] exI [of _ "[]"]) (simp add: packed_of_def short_def)
      then show ?thesis using v False by auto
    next
      case no: False
      then show ?thesis using fl assms(1) sends_refl [of p p w] by (intro exI [of _ "[]"]) auto
    qed
    then obtain vs where v: "sends w p vs p1" "spelled done (h @ vs) p1" "length (packed p1) + frameHeader + length f \<le> L" by blast
    show ?thesis
    proof (cases ok1)
      case True
      let ?q = "p1\<lparr>packed := packed p1 @ be_put 4 (of_nat (length f) :: u32) @ f\<rparr>"
      have q: "p' = ?q" "ok" using assms(5) False fl True by (auto simp: append_sized_def)
      obtain gs fs where g: "done = gs @ fs" "stream gs (h @ vs)" "packed p1 = packed_of fs" using v(2) by (auto simp: spelled_def)
      have "spelled (done @ [f]) (h @ vs) ?q" unfolding spelled_def
        using g v(3) L(2) by (intro exI [of _ gs] exI [of _ "fs @ [f]"]) (simp add: packed_of_def short_def frameHeader_def)
      moreover have "sends w p (vs @ []) ?q" using v(1) by (rule sends_trans) (rule sends_refl, simp_all)
      ultimately show ?thesis using q by (intro exI [of _ vs]) simp
    next
      case no: False
      then show ?thesis using assms(5) False fl v cut_more [OF spelled_cut [OF v(2)]] by (intro exI [of _ vs]) (simp add: append_sized_def)
    qed
  qed
qed

lemma appendFrame_spells:
  assumes "spelled done h p" "cfg p = withDefaults c" "SymbolBytes (withDefaults c) \<le> 65556" "fits w c f" "appendFrame w p f = (p', ok)"
  shows "\<exists>vs. sends w p vs p' \<and> (if ok then spelled (done @ [f]) (h @ vs) p' else cut_off (done @ [f]) (h @ vs))"
proof -
  let ?L = "symbolPayload w p" and ?p = "p\<lparr>sized := sized p + 1\<rparr>"
  have L: "5 \<le> ?L" "?L < 2 ^ 16" "frameHeader + length f \<le> ?L \<or> ?L < length f"
    using payload_limit_range assms(3,4) by (simp_all add: symbolPayload_limit [OF assms(2)] fits_def)
  have "spelled done h ?p" using assms(1) by (simp add: spelled_def)
  from append_sized_spells [OF this L assms(5) [unfolded appendFrame_def]] obtain vs
    where v: "sends w ?p vs p'" "if ok then spelled (done @ [f]) (h @ vs) p' else cut_off (done @ [f]) (h @ vs)" by blast
  have "sends w p [] ?p" by (rule sends_refl) simp_all
  from sends_trans [OF this v(1)] v(2) show ?thesis by auto
qed

definition outcome :: "world \<Rightarrow> CodedPath \<Rightarrow> bytes list \<Rightarrow> bytes list \<Rightarrow> CodedPath \<Rightarrow> bool \<Rightarrow> bool" where
  "outcome w p h done p' ok \<longleftrightarrow> (\<exists>vs. sends w p vs p' \<and> (if ok then spelled done (h @ vs) p' else cut_off done (h @ vs)))"

lemma outcome_failed: "outcome w p h done p' False \<Longrightarrow> outcome w p h (done @ ms) p' False"
  unfolding outcome_def using cut_more by fastforce

lemma outcome_trans:
  assumes "sends w p vs p1" "outcome w p1 (h @ vs) done p' ok"
  shows "outcome w p h done p' ok"
proof -
  obtain us where "sends w p1 us p'" "if ok then spelled done ((h @ vs) @ us) p' else cut_off done ((h @ vs) @ us)"
    using assms(2) by (auto simp: outcome_def)
  then show ?thesis unfolding outcome_def using sends_trans [OF assms(1)] by (intro exI [of _ "vs @ us"]) auto
qed

lemma append_all_spells:
  assumes "spelled done h p" "cfg p = withDefaults c" "SymbolBytes (withDefaults c) \<le> 65556" "\<forall>f\<in>set fs. fits w c f"
    "append_all w p fs = (p', ok)"
  shows "outcome w p h (done @ fs) p' ok"
  using assms(1,2,4,5)
proof (induction fs arbitrary: p h "done")
  case Nil
  then show ?case unfolding outcome_def using sends_refl [of p p w] by (intro exI [of _ "[]"]) simp
next
  case (Cons f fs)
  obtain p1 ok1 where a: "appendFrame w p f = (p1, ok1)" by fastforce
  have "fits w c f" using Cons.prems(3) by simp
  from appendFrame_spells [OF Cons.prems(1,2) assms(3) this a] obtain vs
    where v: "sends w p vs p1" "if ok1 then spelled (done @ [f]) (h @ vs) p1 else cut_off (done @ [f]) (h @ vs)" by blast
  show ?case
  proof (cases ok1)
    case True
    have "outcome w p1 (h @ vs) ((done @ [f]) @ fs) p' ok"
      using v Cons.prems a True sends_cfg [OF v(1)] by (intro Cons.IH) auto
    then show ?thesis using outcome_trans [OF v(1)] by simp
  next
    case False
    then have "outcome w p h (done @ [f]) p' False" "\<not> ok" using v Cons.prems(4) a unfolding outcome_def by auto
    then show ?thesis using outcome_failed [of w p h "done @ [f]" p' fs] by simp
  qed
qed

lemma protect_loop_adds: "protect_loop w want p = (p', ok) \<Longrightarrow> adds w p [] p'"
proof (induction w want p arbitrary: p' rule: protect_loop.induct)
  case (1 w want p)
  show ?case
  proof (cases "burstRepairs p < want")
    case True
    obtain p1 ok1 where r: "sendRepair w p (burstSymbols p) = (p1, ok1)" by fastforce
    let ?q = "p1\<lparr>burstRepairs := burstRepairs p + 1\<rparr>"
    show ?thesis
    proof (cases ok1)
      case ok: True
      have "adds w p1 [] ?q" by (rule adds_refl) simp_all
      moreover have "protect_loop w want ?q = (p', ok)" using "1.prems" True r ok by (simp add: protect_loop.simps [of w want p])
      then have "adds w ?q [] p'" using "1.IH" [OF True r [symmetric] ok] by simp
      ultimately show ?thesis using adds_trans [OF adds_trans [OF sendRepair_adds [OF r]]] by fastforce
    next
      case False
      then show ?thesis using "1.prems" True r sendRepair_adds [OF r] by (simp add: protect_loop.simps [of w want p])
    qed
  next
    case False
    then show ?thesis using "1.prems" adds_refl [of p p w] by (simp add: protect_loop.simps [of w want p])
  qed
qed

lemma protectBurst_adds: "protectBurst w p = (p', ok) \<Longrightarrow> adds w p [] p'"
proof (cases "burstSymbols p \<le> 0")
  case False
  assume run: "protectBurst w p = (p', ok)"
  obtain p1 want where t: "tailRepairs w p (burstSymbols p) = (p1, want)" by fastforce
  obtain p2 ok2 where l: "protect_loop w want p1 = (p2, ok2)" by fastforce
  have "adds w p [] p1" using t by (intro adds_refl) (auto simp: tailRepairs_def Let_def split: option.splits prod.splits if_splits)
  then have "adds w p [] p2" using adds_trans [OF _ protect_loop_adds [OF l]] by fastforce
  moreover have "adds w p2 [] p'" using run False t l by (intro adds_refl) (auto simp: protectBurst_def split: if_splits)
  ultimately show ?thesis using adds_trans by fastforce
qed (auto simp: protectBurst_def intro: adds_refl)

lemma send_batch_spells:
  assumes "spelled done h p" "cfg p = withDefaults c" "SymbolBytes (withDefaults c) \<le> 65556" "\<forall>f\<in>set fs. fits w c f"
    "send_batch w p fs = (p', ok)"
  shows "outcome w p h (done @ fs) p' ok"
proof -
  obtain p1 ok1 where a: "append_all w p fs = (p1, ok1)" by fastforce
  have o: "outcome w p h (done @ fs) p1 ok1" using append_all_spells [OF assms(1-4) a] .
  show ?thesis
  proof (cases ok1)
    case False
    then show ?thesis using o assms(5) a by (simp add: send_batch_def)
  next
    case True
    then obtain vs where v: "sends w p vs p1" "spelled (done @ fs) (h @ vs) p1" using o by (auto simp: outcome_def)
    obtain p2 ok2 where f: "flushPacked w p1 = (p2, ok2)" by fastforce
    from flushPacked_spells [OF v(2) f] obtain us
      where u: "sends w p1 us p2" "stream (done @ fs) ((h @ vs) @ us)" "packed p2 = []" by blast
    have "outcome w p2 ((h @ vs) @ us) (done @ fs) p' ok"
    proof (cases ok2)
      case False
      then have "p' = p2" "\<not> ok" using assms(5) a f True by (auto simp: send_batch_def)
      then show ?thesis unfolding outcome_def using stream_cut [OF u(2), of "[]"] sends_refl [of p2 p2 w] by (intro exI [of _ "[]"]) simp
    next
      case ok2: True
      then have "protectBurst w p2 = (p', ok)" using assms(5) a f True by (simp add: send_batch_def)
      then have "adds w p2 [] p'" by (rule protectBurst_adds)
      moreover from this have "packed p' = []" using u(3) by (simp add: adds_def)
      then have "spelled (done @ fs) ((h @ vs) @ us) p'" unfolding spelled_def using u(2)
        by (intro exI [of _ "done @ fs"] exI [of _ "[]"]) (simp add: packed_of_def short_def)
      moreover from this have "cut_off (done @ fs) ((h @ vs) @ us)" by (rule spelled_cut)
      ultimately show ?thesis unfolding outcome_def using adds_sends by (intro exI [of _ "[]"]) auto
    qed
    then show ?thesis using outcome_trans [OF v(1)] outcome_trans [OF u(1)] by blast
  qed
qed

lemma sendLoop_spells:
  assumes "spelled done h p" "cfg p = withDefaults c" "SymbolBytes (withDefaults c) \<le> 65556"
    "\<forall>b\<in>set bs. \<forall>f\<in>set b. fits w c f" "sendLoop w p bs = (p', ok)"
  shows "outcome w p h (done @ concat bs) p' ok"
  using assms(1,2,4,5)
proof (induction bs arbitrary: p h "done")
  case Nil
  then show ?case unfolding outcome_def using sends_refl [of p p w] by (intro exI [of _ "[]"]) simp
next
  case (Cons b bs)
  obtain p1 ok1 where a: "send_batch w p b = (p1, ok1)" by fastforce
  have "\<forall>f\<in>set b. fits w c f" using Cons.prems(3) by simp
  note o = send_batch_spells [OF Cons.prems(1,2) assms(3) this a]
  show ?case
  proof (cases ok1)
    case True
    then obtain vs where v: "sends w p vs p1" "spelled (done @ b) (h @ vs) p1" using o by (auto simp: outcome_def)
    have "outcome w p1 (h @ vs) ((done @ b) @ concat bs) p' ok"
      using v Cons.prems a True sends_cfg [OF v(1)] by (intro Cons.IH) auto
    then show ?thesis using outcome_trans [OF v(1)] by simp
  next
    case False
    then have "p' = p1" "\<not> ok" using Cons.prems(4) a by auto
    then show ?thesis using o False outcome_failed [of w p h "done @ b" p' "concat bs"] by simp
  qed
qed

lemma send_batch_packed: "send_batch w p fs = (p', True) \<Longrightarrow> packed p' = []"
proof -
  assume run: "send_batch w p fs = (p', True)"
  obtain p1 p2 where f: "flushPacked w p1 = (p2, True)" "protectBurst w p2 = (p', True)"
    using run by (auto simp: send_batch_def split: prod.splits if_splits)
  have "packed p2 = []" using f(1) by (auto simp: flushPacked_def split: prod.splits if_splits)
  then show ?thesis using protectBurst_adds [OF f(2)] by (simp add: adds_def)
qed

lemma sendLoop_packed: "sendLoop w p bs = (p', True) \<Longrightarrow> packed p = [] \<Longrightarrow> packed p' = []"
  by (induction bs arbitrary: p) (auto split: prod.splits if_splits dest: send_batch_packed)

text \<open>The whole run of a sender: the packets it emitted, of which the carrier took some, and the frames its symbols
  spell out.\<close>

lemma sender_run:
  assumes "sendLoop w (NewPath c) bs = (p, ok)" "SymbolBytes (withDefaults c) \<le> 65556" "\<forall>b\<in>set bs. \<forall>f\<in>set b. fits w c f"
  obtains es gs rest ds as where "stream gs (symbols es @ rest)" "prefix gs (concat bs)" "length rest \<le> maxFragments"
    "ok \<Longrightarrow> gs = concat bs \<and> rest = []"
    "carried p = ds" "list_all2 carries ds as" "subseq as (emit (NewWindowEncoder initialWindow) es)"
    "willing w \<Longrightarrow> as = emit (NewWindowEncoder initialWindow) es" "length (symbols es) \<le> asked p"
proof -
  let ?p = "NewPath c"
  have n: "cfg ?p = withDefaults c" "encoder ?p = NewWindowEncoder initialWindow" "carried ?p = []" "asked ?p = 0" "packed ?p = []"
    by (simp_all add: NewPath_def)
  have "spelled [] [] ?p" unfolding spelled_def using n(5) stream_none
    by (intro exI [of _ "[]"]) (simp add: packed_of_def short_def)
  from sendLoop_spells [OF this n(1) assms(2,3,1)]
  obtain es where e: "acts w ?p es p" "if ok then spelled (concat bs) (symbols es) p else cut_off (concat bs) (symbols es)"
    unfolding outcome_def sends_def append_Nil by blast
  have "\<exists>gs rest. stream gs (symbols es @ rest) \<and> prefix gs (concat bs) \<and> length rest \<le> maxFragments \<and> (ok \<longrightarrow> gs = concat bs \<and> rest = [])"
  proof (cases ok)
    case True
    obtain gs fs where g: "concat bs = gs @ fs" "stream gs (symbols es)" "packed p = packed_of fs"
      using e(2) True by (auto simp: spelled_def)
    have "fs = []" using g(3) packed_of_empty [of fs] sendLoop_packed [of w ?p bs p] assms(1) True n(5) by simp
    then show ?thesis using g by (intro exI [of _ gs] exI [of _ "[]"]) simp
  next
    case False
    then show ?thesis using e(2) by (auto simp: cut_off_def)
  qed
  then obtain gs rest where g: "stream gs (symbols es @ rest)" "prefix gs (concat bs)" "length rest \<le> maxFragments"
    "ok \<longrightarrow> gs = concat bs \<and> rest = []" by blast
  obtain ds as where d: "carried p = [] @ ds" "list_all2 carries ds as" "subseq as (emit (NewWindowEncoder initialWindow) es)"
    "willing w \<longrightarrow> as = emit (NewWindowEncoder initialWindow) es" "0 + length (symbols es) \<le> asked p"
    using e(1) unfolding acts_def n by blast
  show ?thesis using that [OF g(1-3) _ _ d(2,3)] g(4) d(1,4,5) by simp
qed

text \<open>A path with the default configuration over a carrier that takes everything.\<close>

definition steady_world :: world where
  "steady_world = \<lparr>Now = (\<lambda>t. int t), MaxDatagramBytes = (\<lambda>t. Some 1200), Current = (\<lambda>t. None), CarrierSend = (\<lambda>t d. Sent)\<rparr>"

definition plain_config :: CodedConfig where
  "plain_config = \<lparr>SymbolBytes = 0, CfgClass = FecBulk, CfgRoundTrip = 0, CfgPending = 0\<rparr>"

lemma plain_limit: "SymbolBytes (withDefaults plain_config) = 1100" "payload_limit steady_world plain_config t = 1079"
  by (simp_all add: plain_config_def withDefaults_def steady_world_def payload_limit_def symbolPayload_def symbolBytes_def NewPath_def coded_consts)

end
