(* ===== verification/CodedSafe.thy ===== *)
theory CodedSafe
  imports CodedSend
begin

text \<open>
  The receiving side of \<^verbatim>\<open>internal/coded\<close> against the symbols of a sender: what the assembler
  delivers from source symbols and from symbols the code recovered.
\<close>

section \<open>Symbols and frames\<close>

lemma short_unat: "n < 2 ^ 16 \<Longrightarrow> unat (of_nat n :: u16) = n"
  by (simp add: unat_of_nat)

lemma parseSymbol_vector:
  assumes "short payload" "index < count" "count < 2 ^ 16"
  shows "parseSymbol (symbol_vector payload index count @ replicate n 0) = Some (payload, index, count)"
proof -
  let ?v = "symbol_vector payload index count @ replicate n 0"
  have "take 2 ?v = be_put 2 (of_nat (length payload) :: u16)" "go_slice 2 4 ?v = be_put 2 (of_nat index :: u16)"
    "go_slice 4 6 ?v = be_put 2 (of_nat count :: u16)" "drop 6 ?v = payload @ replicate n 0" "6 + length payload \<le> length ?v"
    by (simp_all add: symbol_vector_def go_slice_def)
  then show ?thesis using assms short_unat [of "length payload"] short_unat [of index] short_unat [of count]
    by (simp add: parseSymbol_def symbolHeader_def short_def Let_def go_slice_def)
qed

lemma be_get_zeros: "be_get (replicate n 0) = (0 :: 'a::len word)"
  by (induction n) (simp_all add: be_get_def)

lemma parseSymbol_zeros: "parseSymbol (replicate n 0) = None"
  by (simp add: parseSymbol_def go_slice_def be_get_zeros Let_def)

lemma symbol_vector_inj:
  assumes "symbol_vector a i c = symbol_vector b j d" "short a" "short b" "i < c" "j < d" "c < 2 ^ 16" "d < 2 ^ 16"
  shows "a = b" "i = j" "c = d"
  using parseSymbol_vector [OF assms(2,4,6), of 0] parseSymbol_vector [OF assms(3,5,7), of 0] assms(1) by auto

lemma parseFrames_packed: "short (packed_of fs) \<Longrightarrow> parseFrames (packed_of fs) out = out @ fs"
proof (induction fs arbitrary: out)
  case Nil
  then show ?case by (simp add: packed_of_def parseFrames.simps [of "[]"] frameHeader_def)
next
  case (Cons f fs)
  let ?p = "be_put 4 (of_nat (length f) :: u32) @ f @ packed_of fs"
  have p: "packed_of (f # fs) = ?p" by (simp add: packed_of_def)
  have s: "short (packed_of fs)" "length f < 2 ^ 32" using Cons.prems by (auto simp: p short_def)
  have "unat (of_nat (length f) :: u32) = length f" using s(2) by (simp add: unat_of_nat)
  then have "parseFrames ?p out = parseFrames (packed_of fs) (out @ [f])"
    by (subst parseFrames.simps) (simp add: frameHeader_def)
  then show ?case using Cons.IH [OF s(1)] p by simp
qed

section \<open>Blocks of fragments\<close>

definition block :: "bytes list \<Rightarrow> nat \<Rightarrow> bytes list \<Rightarrow> bool" where
  "block H k frags \<longleftrightarrow> k + length frags \<le> length H \<and> 2 \<le> length frags \<and> length frags \<le> maxFragments
     \<and> (\<forall>x\<in>set frags. x \<noteq> [] \<and> short x)
     \<and> (\<forall>i<length frags. H ! (k + i) = symbol_vector (frags ! i) i (length frags))"

lemma block_extend: "block H k frags \<Longrightarrow> block (H @ H') k frags"
  by (auto simp: block_def nth_append)

lemma block_unique:
  assumes "block H k frags" "block H k frags'"
  shows "frags = frags'"
proof -
  have s: "i < length frags \<Longrightarrow> short (frags ! i)" "i < length frags' \<Longrightarrow> short (frags' ! i)" for i
    using assms by (auto simp: block_def)
  have m: "length frags < 2 ^ 16" "length frags' < 2 ^ 16" "0 < length frags" "0 < length frags'"
    using assms by (auto simp: block_def maxFragments_def)
  have "symbol_vector (frags ! 0) 0 (length frags) = symbol_vector (frags' ! 0) 0 (length frags')"
    using assms m(3,4) unfolding block_def by metis
  from symbol_vector_inj(3) [OF this s(1) [OF m(3)] s(2) [OF m(4)] m(3,4,1,2)] have l: "length frags = length frags'" .
  show ?thesis
  proof (rule nth_equalityI [OF l])
    fix i assume i: "i < length frags"
    have "symbol_vector (frags ! i) i (length frags) = symbol_vector (frags' ! i) i (length frags')"
      using assms i l unfolding block_def by metis
    then show "frags ! i = frags' ! i" using symbol_vector_inj(1) s i l m by metis
  qed
qed

text \<open>Every symbol of a stream is a packed one or a fragment of a frame.\<close>

lemma stream_at:
  assumes "stream gs H" "n < length H"
  shows "(\<exists>fs. H ! n = symbol_vector (packed_of fs) 0 1 \<and> short (packed_of fs) \<and> set fs \<subseteq> set gs)
    \<or> (\<exists>k frags i. n = k + i \<and> i < length frags \<and> block H k frags \<and> concat frags \<in> set gs)"
  using assms
proof (induction gs H arbitrary: n rule: stream.induct)
  case stream_none
  then show ?case by simp
next
  case (stream_packed gs h fs)
  show ?case
  proof (cases "n < length h")
    case True
    from stream_packed.IH [OF True] show ?thesis
    proof
      assume "\<exists>k frags i. n = k + i \<and> i < length frags \<and> block h k frags \<and> concat frags \<in> set gs"
      then show ?thesis using block_extend by fastforce
    qed (use True in \<open>auto simp: nth_append\<close>)
  next
    case False
    then have "n = length h" using stream_packed.prems by simp
    then show ?thesis using stream_packed.hyps(2) by auto
  qed
next
  case (stream_fragments gs h frags f)
  let ?H = "h @ fragment_symbols frags"
  show ?case
  proof (cases "n < length h")
    case True
    from stream_fragments.IH [OF True] show ?thesis
    proof
      assume "\<exists>k frags i. n = k + i \<and> i < length frags \<and> block h k frags \<and> concat frags \<in> set gs"
      then show ?thesis using block_extend by fastforce
    qed (use True in \<open>auto simp: nth_append\<close>)
  next
    case False
    have "block ?H (length h) frags" using stream_fragments.hyps by (simp add: block_def fragment_symbols_def nth_append)
    moreover have "n = length h + (n - length h)" "n - length h < length frags"
      using False stream_fragments.prems by (auto simp: fragment_symbols_def)
    ultimately show ?thesis using stream_fragments.hyps(2) by (metis UnCI list.set_intros(1) set_append)
  qed
qed

section \<open>The assembler\<close>

definition group_ok :: "bytes list \<Rightarrow> bytes list \<Rightarrow> u32 \<Rightarrow> fragmentGroup \<Rightarrow> bool" where
  "group_ok gs H first g \<longleftrightarrow> (\<exists>k frags. first = of_nat k \<and> block H k frags \<and> concat frags \<in> set gs
     \<and> length (parts g) = length frags \<and> (\<forall>i<length frags. parts g ! i = [] \<or> parts g ! i = frags ! i)
     \<and> heldParts g = length (filter (\<lambda>x. x \<noteq> []) (parts g)))"

definition asm_ok :: "bytes list \<Rightarrow> bytes list \<Rightarrow> assembler \<Rightarrow> bool" where
  "asm_ok gs H a \<longleftrightarrow> (\<forall>first g. groups a first = Some g \<longrightarrow> group_ok gs H first g)"

lemma keep_groups_Some: "keep_groups P m first = Some g \<Longrightarrow> m first = Some g"
  by (auto simp: keep_groups_def split: option.splits if_splits)

lemma note_symbol_ok: "asm_ok gs H a \<Longrightarrow> asm_ok gs H (note_symbol a esi)"
  by (auto simp: asm_ok_def note_symbol_def prune_def dest: keep_groups_Some)

lemma asm_lost_ok: "asm_ok gs H a \<Longrightarrow> asm_ok gs H (asm_lost a esi)"
  using note_symbol_ok [of gs H a esi] by (auto simp: asm_ok_def asm_lost_def Let_def dest: keep_groups_Some)

lemma asm_lost_all_ok: "asm_ok gs H a \<Longrightarrow> asm_ok gs H (foldl asm_lost a es)"
  by (induction es arbitrary: a) (auto intro: asm_lost_ok)

lemma filter_set_nonempty:
  "i < length xs \<Longrightarrow> xs ! i = [] \<Longrightarrow> x \<noteq> [] \<Longrightarrow>
    length (filter (\<lambda>x. x \<noteq> []) (xs[i := x])) = Suc (length (filter (\<lambda>x. x \<noteq> []) xs))"
proof (induction xs arbitrary: i)
  case (Cons y ys)
  then show ?case by (cases i) auto
qed simp

lemma filter_all_nonempty: "length (filter (\<lambda>x. x \<noteq> []) xs) = length xs \<Longrightarrow> i < length xs \<Longrightarrow> xs ! i \<noteq> []"
  by (metis (mono_tags, lifting) filter_id_conv length_filter_less nat_neq_iff nth_mem)

text \<open>One fragment of a known block joins its group.\<close>

lemma fragment_arrives:
  assumes "asm_ok gs H a" "length H \<le> 2 ^ 32" "block H k frags" "concat frags \<in> set gs" "i < length frags"
    "parseSymbol v = Some (frags ! i, i, length frags)" "asm_arrived a (of_nat (k + i)) v out = (a', out')"
  shows "asm_ok gs H a' \<and> (out' = out \<or> out' = out @ [concat frags])"
proof -
  define b where "b = note_symbol a (of_nat (k + i))"
  have b: "asm_ok gs H b" using note_symbol_ok [OF assms(1)] by (simp add: b_def)
  define g where "g = (case groups b (of_nat k) of Some g \<Rightarrow> g | None \<Rightarrow> \<lparr>parts = replicate (length frags) [], heldParts = 0, partBytes = 0\<rparr>)"
  have f: "2 \<le> length frags" "frags ! i \<noteq> []" "k < 2 ^ 32" using assms(2,3,5) by (auto simp: block_def)
  have g: "length (parts g) = length frags" "\<forall>j<length frags. parts g ! j = [] \<or> parts g ! j = frags ! j"
    "heldParts g = length (filter (\<lambda>x. x \<noteq> []) (parts g))"
  proof -
    have "length (parts g) = length frags \<and> (\<forall>j<length frags. parts g ! j = [] \<or> parts g ! j = frags ! j)
        \<and> heldParts g = length (filter (\<lambda>x. x \<noteq> []) (parts g))"
    proof (cases "groups b (of_nat k)")
      case (Some g')
      then have "group_ok gs H (of_nat k) g'" using b by (auto simp: asm_ok_def)
      then obtain k' frags' where k': "(of_nat k :: u32) = of_nat k'" "block H k' frags'" "length (parts g') = length frags'"
        "\<forall>i<length frags'. parts g' ! i = [] \<or> parts g' ! i = frags' ! i" "heldParts g' = length (filter (\<lambda>x. x \<noteq> []) (parts g'))"
        unfolding group_ok_def by blast
      have "k' < 2 ^ 32" using k'(2) assms(2) by (auto simp: block_def)
      then have "k' = k" using arg_cong [OF k'(1), of unat] f(3) by (simp add: unat_of_nat)
      then have "frags' = frags" using block_unique k'(2) assms(3) by blast
      then show ?thesis using k' Some by (simp add: g_def)
    qed (simp add: g_def)
    then show "length (parts g) = length frags" "\<forall>j<length frags. parts g ! j = [] \<or> parts g ! j = frags ! j"
      "heldParts g = length (filter (\<lambda>x. x \<noteq> []) (parts g))" by blast+
  qed
  have first: "(of_nat (k + i) :: u32) - of_nat i = of_nat k" by simp
  have run: "asm_arrived a (of_nat (k + i)) v out =
     (let c = b\<lparr>groups := (groups b)(of_nat k \<mapsto> g)\<rparr> in
      if parts g ! i \<noteq> [] then (c, out)
      else
        (let g' = g\<lparr>parts := (parts g)[i := frags ! i], heldParts := heldParts g + 1, partBytes := partBytes g + length (frags ! i)\<rparr> in
         if heldParts g' < length (parts g') then (c\<lparr>groups := (groups c)(of_nat k \<mapsto> g')\<rparr>, out)
         else (c\<lparr>groups := (groups c)(of_nat k := None)\<rparr>, out @ [concat (parts g')])))"
    unfolding asm_arrived_def assms(6) b_def [symmetric] Let_def first option.case prod.case g_def [symmetric]
    using f(1) assms(5) g(1) by simp
  have gok: "group_ok gs H (of_nat k) g" unfolding group_ok_def using g assms(3,4) by blast
  show ?thesis
  proof (cases "parts g ! i \<noteq> []")
    case True
    then show ?thesis using assms(7) run b gok by (auto simp: asm_ok_def Let_def)
  next
    case False
    define g' where "g' = g\<lparr>parts := (parts g)[i := frags ! i], heldParts := heldParts g + 1, partBytes := partBytes g + length (frags ! i)\<rparr>"
    have h: "heldParts g' = length (filter (\<lambda>x. x \<noteq> []) (parts g'))" "length (parts g') = length frags"
      "\<forall>j<length frags. parts g' ! j = [] \<or> parts g' ! j = frags ! j"
      using g f(2) False assms(5) filter_set_nonempty [of i "parts g" "frags ! i"] by (auto simp: g'_def nth_list_update)
    have ok': "group_ok gs H (of_nat k) g'" unfolding group_ok_def using h assms(3,4) by blast
    have res: "(a', out') = (if heldParts g' < length (parts g') then (b\<lparr>groups := (groups b)(of_nat k \<mapsto> g')\<rparr>, out)
        else (b\<lparr>groups := (groups b)(of_nat k := None)\<rparr>, out @ [concat (parts g')]))"
      unfolding assms(7) [symmetric] run using False by (simp add: Let_def g'_def)
    show ?thesis
    proof (cases "heldParts g' < length (parts g')")
      case more: True
      then show ?thesis using res b ok' by (auto simp: asm_ok_def)
    next
      case full: False
      then have "heldParts g' = length (parts g')" using h(1) by (metis length_filter_le nat_less_le)
      then have "parts g' ! j = frags ! j" if "j < length frags" for j
        using that h filter_all_nonempty [of "parts g'" j] by auto
      then have "parts g' = frags" using h(2) by (intro nth_equalityI) auto
      then show ?thesis using res b full by (auto simp: asm_ok_def split: if_splits)
    qed
  qed
qed

text \<open>A symbol that is, up to padding, one the sender added.\<close>

lemma arrived_ok:
  assumes "asm_ok gs H a" "stream gs H" "length H \<le> 2 ^ 32" "H = hist @ rest" "zero_extends v (src_of hist esi)"
    "asm_arrived a esi v out = (a', out')"
  shows "asm_ok gs H a' \<and> (\<exists>new. out' = out @ new \<and> set new \<subseteq> set gs)"
proof (cases "unat esi < length hist")
  case False
  then have "parseSymbol v = None" using assms(5) parseSymbol_zeros by (auto simp: src_of_def zero_extends_def)
  then show ?thesis using assms(6) note_symbol_ok [OF assms(1)] by (auto simp: asm_arrived_def Let_def)
next
  case True
  define n where "n = unat esi"
  have n: "n < length H" "esi = of_nat n" using True assms(4) by (simp_all add: n_def)
  obtain z where v: "v = H ! n @ replicate z 0" using assms(4,5) True by (auto simp: src_of_def zero_extends_def n_def nth_append)
  from stream_at [OF assms(2) n(1)] show ?thesis
  proof (elim disjE exE conjE)
    fix fs assume fs: "H ! n = symbol_vector (packed_of fs) 0 1" "short (packed_of fs)" "set fs \<subseteq> set gs"
    have "parseSymbol v = Some (packed_of fs, 0, 1)" using v fs(1,2) parseSymbol_vector [of "packed_of fs" 0 1 z] by simp
    then show ?thesis using assms(6) note_symbol_ok [OF assms(1)] fs(2,3) by (auto simp: asm_arrived_def Let_def parseFrames_packed)
  next
    fix k frags i assume b: "n = k + i" "i < length frags" "block H k frags" "concat frags \<in> set gs"
    have "short (frags ! i)" "length frags < 2 ^ 16" using b(2,3) by (auto simp: block_def maxFragments_def)
    then have "parseSymbol v = Some (frags ! i, i, length frags)"
      using v b parseSymbol_vector [of "frags ! i" i "length frags" z] by (simp add: block_def)
    from fragment_arrives [OF assms(1,3) b(3,4,2) this] assms(6) n(2) b(1,4) show ?thesis by force
  qed
qed

section \<open>Datagrams\<close>

lemma source_fields:
  "length (source_datagram seq esi v) = 9 + length v" "take 4 (source_datagram seq esi v) = be_put 4 seq" "source_datagram seq esi v ! 4 = 0"
  "go_slice 5 9 (source_datagram seq esi v) = be_put 4 esi" "drop 9 (source_datagram seq esi v) = v"
  by (simp_all add: source_datagram_def kindSource_def go_slice_def nth_append)

lemma repair_fields:
  "length (repair_datagram seq r) = 15 + length (Vector r)" "take 4 (repair_datagram seq r) = be_put 4 seq" "repair_datagram seq r ! 4 = 1"
  "go_slice 5 9 (repair_datagram seq r) = be_put 4 (RID r)" "go_slice 9 13 (repair_datagram seq r) = be_put 4 (First r)"
  "go_slice 13 15 (repair_datagram seq r) = be_put 2 (of_int (Count r) :: u16)" "drop 15 (repair_datagram seq r) = Vector r"
  by (simp_all add: repair_datagram_def kindRepair_def go_slice_def nth_append)

lemma onDatagram_source:
  assumes "dec_Source (decoder r) esi v = (dec, delivered)" "asm_arrived (asm r) esi v [] = (a, frames)"
  shows "onDatagram r (source_datagram seq esi v) =
    settle_delivery (r\<lparr>arrivals := arrivals r + 1, observed := observed r @ [seq], sources := sources r + 1, decoder := dec, asm := a\<rparr>) delivered frames"
  using assms by (simp add: onDatagram_def source_fields coded_consts Let_def)

lemma onDatagram_repair:
  assumes "0 < Count rs" "Count rs \<le> 256" "dec_Repair (decoder r) rs = (dec, delivered)"
  shows "onDatagram r (repair_datagram seq rs) =
    settle_delivery (r\<lparr>arrivals := arrivals r + 1, observed := observed r @ [seq], decoder := dec\<rparr>) delivered []"
proof -
  have "Count rs = int (nat (Count rs))" "nat (Count rs) < 2 ^ 16" using assms(1,2) by simp_all
  then have c: "int (unat (of_int (Count rs) :: u16)) = Count rs" by (metis of_int_of_nat_eq short_unat)
  have eta: "\<lparr>RID = RID rs, First = First rs, Count = Count rs, Vector = Vector rs\<rparr> = rs" by simp
  show ?thesis using assms c by (simp add: eta onDatagram_def repair_fields coded_consts Let_def MaxRepairWindow_def MaxShards_def)
qed

definition small_repairs :: "arrival list \<Rightarrow> bool" where
  "small_repairs xs \<longleftrightarrow> (\<forall>rs. ARepair rs \<in> set xs \<longrightarrow> 0 < Count rs \<and> Count rs \<le> 256)"

text \<open>
  What the receive loop relies on: an invariant of the assembler that symbols of the sender keep, whether they
  arrived or were recovered, and the frames such symbols can complete.
\<close>

locale symbol_reader =
  fixes good :: "assembler \<Rightarrow> bool" and src :: "u32 \<Rightarrow> bytes" and allowed :: "bytes set"
  assumes reads: "good a \<Longrightarrow> zero_extends v (src esi) \<Longrightarrow> asm_arrived a esi v out = (a', out') \<Longrightarrow>
      good a' \<and> (\<exists>new. out' = out @ new \<and> set new \<subseteq> allowed)"
    and forgets: "good a \<Longrightarrow> good (asm_lost a esi)"
begin

lemma forgets_all: "good a \<Longrightarrow> good (foldl asm_lost a es)"
  by (induction es arbitrary: a) (auto intro: forgets)

lemma reads_all:
  assumes "good a" "\<forall>(e, v)\<in>set rs. zero_extends v (src e)" "arrive_all a rs out = (a', out')"
  shows "good a' \<and> (\<exists>new. out' = out @ new \<and> set new \<subseteq> allowed)"
  using assms
proof (induction a rs out rule: arrive_all.induct)
  case (2 a esi v rs out)
  obtain a1 out1 where r: "asm_arrived a esi v out = (a1, out1)" by fastforce
  have "zero_extends v (src esi)" using "2.prems"(2) by simp
  from reads [OF "2.prems"(1) this r] obtain new1 where n1: "good a1" "out1 = out @ new1" "set new1 \<subseteq> allowed" by blast
  have "arrive_all a1 rs out1 = (a', out')" using "2.prems"(3) r by simp
  from "2.IH" [OF r [symmetric] n1(1) _ this] "2.prems"(2) obtain new2
    where "good a'" "out' = out1 @ new2" "set new2 \<subseteq> allowed" by auto
  then show ?case using n1 by (intro conjI exI [of _ "new1 @ new2"]) auto
qed simp

lemma settles:
  assumes "settle_delivery q delivered out = (r', frames)" "good (asm q)" "out_ok src delivered" "set out \<subseteq> allowed"
  shows "decoder r' = decoder q" "good (asm r')" "set frames \<subseteq> allowed"
proof -
  obtain a' where a: "arrive_all (asm q) (Recovered delivered) out = (a', frames)" "r' = q\<lparr>asm := foldl asm_lost a' (Lost delivered)\<rparr>"
    using assms(1) by (auto simp: settle_delivery_def split: prod.splits)
  have "\<forall>(e, v)\<in>set (Recovered delivered). zero_extends v (src e)" using assms(3) by (simp add: out_ok_def)
  from reads_all [OF assms(2) this a(1)] show "decoder r' = decoder q" "good (asm r')" "set frames \<subseteq> allowed"
    using assms(4) a(2) by (auto intro: forgets_all)
qed

text \<open>One arrival that carries what the sender emitted.\<close>

lemma receives_one:
  assumes "dec_ok src C (decoder r)" "good (asm r)" "carries d x" "truthful src x" "\<forall>e v. x = ASource e v \<longrightarrow> e \<notin> C"
    and "\<forall>rs. x = ARepair rs \<longrightarrow> 0 < Count rs \<and> Count rs \<le> 256" "onDatagram r d = (r', frames)"
  shows "dec_ok src (case x of ASource e v \<Rightarrow> C | ARepair rs \<Rightarrow> C \<union> repair_ids rs) (decoder r')
    \<and> good (asm r') \<and> set frames \<subseteq> allowed"
proof (cases x)
  case (ASource e v)
  then obtain seq where d: "d = source_datagram seq e v" using assms(3) by auto
  have ze: "e \<notin> C" "zero_extends v (src e)" using assms(4,5) ASource by auto
  obtain dec delivered where s: "dec_Source (decoder r) e v = (dec, delivered)" by fastforce
  note o = dec_Source_ok [OF assms(1) ze s]
  obtain a out where ar: "asm_arrived (asm r) e v [] = (a, out)" by fastforce
  from reads [OF assms(2) ze(2) ar] have "good a" "set out \<subseteq> allowed" by auto
  then show ?thesis using settles [OF assms(7) [unfolded d onDatagram_source [OF s ar]]] o ASource by simp
next
  case (ARepair rs)
  then obtain seq where d: "d = repair_datagram seq rs" using assms(3) by auto
  have c: "0 < Count rs" "Count rs \<le> 256" "repair_holds src rs" using assms(4,6) ARepair by auto
  obtain dec delivered where s: "dec_Repair (decoder r) rs = (dec, delivered)" by fastforce
  note o = dec_Repair_ok [OF assms(1) c(3) s]
  show ?thesis using settles [OF assms(7) [unfolded d onDatagram_repair [OF c(1,2) s]]] o assms(2) ARepair by simp
qed

lemma receives:
  assumes "list_all2 carries ds xs" "\<forall>x\<in>set xs. truthful src x" "in_order C xs" "small_repairs xs"
    and "dec_ok src C (decoder r)" "good (asm r)" "receiveLoop r ds = (r', frames)"
  shows "set frames \<subseteq> allowed"
  using assms
proof (induction ds xs arbitrary: C r frames rule: list_all2_induct)
  case Nil
  then show ?case by simp
next
  case (Cons d ds x xs)
  obtain r1 out where o: "onDatagram r d = (r1, out)" by fastforce
  obtain later where m: "receiveLoop r1 ds = (r', later)" "frames = out @ later"
    using Cons.prems(6) o by (auto split: prod.splits)
  let ?C = "case x of ASource e v \<Rightarrow> C | ARepair rs \<Rightarrow> C \<union> repair_ids rs"
  have x: "truthful src x" "\<forall>e v. x = ASource e v \<longrightarrow> e \<notin> C" "in_order ?C xs"
    "\<forall>rs. x = ARepair rs \<longrightarrow> 0 < Count rs \<and> Count rs \<le> 256"
    using Cons.prems(1-3) by (auto simp: small_repairs_def split: arrival.splits)
  note s = receives_one [OF Cons.prems(4,5) Cons.hyps(1) x(1,2,4) o]
  have "set later \<subseteq> allowed"
    using Cons.prems(1,3) s x(3) m(1) by (intro Cons.IH [of ?C r1]) (auto simp: small_repairs_def)
  then show ?case using s m(2) by auto
qed

end

lemma emit_small: "enc_ok hist e \<Longrightarrow> length hist + length (symbols es) \<le> 2 ^ 32 \<Longrightarrow> small_repairs (emit e es)"
proof (induction e es arbitrary: hist rule: emit.induct)
  case (2 e v es)
  obtain e' esi where a: "enc_Add e v = (e', esi)" by fastforce
  have "small_repairs (emit e' es)" using "2.IH" [OF a [symmetric] enc_Add_ok(1) [OF "2.prems"(1) a]] "2.prems"(2) by simp
  then show ?case using a by (simp add: small_repairs_def)
next
  case (3 e rid count es)
  show ?case
  proof (cases "enc_Repair e rid count")
    case None
    then show ?thesis using 3 by simp
  next
    case (Some r)
    have "length hist \<le> 2 ^ 32" using "3.prems"(2) by simp
    note s = enc_Repair_sound(2,3) [OF "3.prems"(1) Some this]
    have "small_repairs (emit e es)" using 3 Some by simp
    then show ?thesis using Some s by (auto simp: small_repairs_def)
  qed
next
  case (4 e cap es)
  have "enc_ok hist (SetCapacity e cap)" by (rule SetCapacity_ok) (use "4.prems"(1) in blast)
  then show ?case using "4.IH" "4.prems"(2) by simp
qed (simp add: small_repairs_def)

lemma list_all2_subseq:
  assumes "subseq ds' ds" "list_all2 P ds xs"
  shows "\<exists>xs'. subseq xs' xs \<and> list_all2 P ds' xs'"
  using assms
proof (induction ds' ds arbitrary: xs rule: list_emb.induct)
  case (list_emb_Cons xs ys y)
  then show ?case by (auto simp: list_all2_Cons1)
next
  case (list_emb_Cons2 x y xs ys)
  then show ?case by (auto simp: list_all2_Cons1) (metis list.rel_intros(2) subseq_Cons2)
qed auto

text \<open>A run of the sender against a reader of its symbols.\<close>

context symbol_reader
begin

lemma receives_subsequence:
  assumes "src = src_of (symbols es)" "length (symbols es) \<le> 2 ^ 32" "list_all2 carries sent as"
    and "subseq as (emit (NewWindowEncoder cap) es)" "subseq received sent" "receiveLoop NewReceiver received = (r, frames)"
    and "good (asm NewReceiver)"
  shows "set frames \<subseteq> allowed"
proof -
  let ?sent = "emit (NewWindowEncoder cap) es"
  have sent: "in_order {} ?sent" "\<forall>a\<in>set ?sent. truthful src a" "small_repairs ?sent"
    using emit_ok [OF NewWindowEncoder_ok, of es "{}" cap] emit_small [OF NewWindowEncoder_ok, of es] assms(1,2) by auto
  obtain xs where x: "subseq xs as" "list_all2 carries received xs" using list_all2_subseq [OF assms(5,3)] by blast
  have sub: "subseq xs ?sent" using x(1) assms(4) by (rule subseq_order.trans)
  have "in_order {} xs" by (rule in_order_subseq [OF sub sent(1)]) simp
  moreover have "\<forall>a\<in>set xs. truthful src a" "small_repairs xs"
    using sent(2,3) list_emb_set [OF sub] unfolding small_repairs_def by blast+
  moreover have "dec_ok src {} (decoder NewReceiver)" by (simp add: NewReceiver_def NewWindowDecoder_ok)
  ultimately show ?thesis using receives [OF x(2) _ _ _ _ assms(7,6)] by blast
qed

end

text \<open>The symbols of a well-formed stream.\<close>

definition reading :: "bytes list \<Rightarrow> bytes list \<Rightarrow> bytes list \<Rightarrow> assembler \<Rightarrow> bool" where
  "reading gs hist rest a \<longleftrightarrow> stream gs (hist @ rest) \<and> length (hist @ rest) \<le> 2 ^ 32 \<and> asm_ok gs (hist @ rest) a"

lemma reading_arrived:
  "reading gs hist rest a \<Longrightarrow> zero_extends v (src_of hist esi) \<Longrightarrow> asm_arrived a esi v out = (a', out') \<Longrightarrow>
    reading gs hist rest a' \<and> (\<exists>new. out' = out @ new \<and> set new \<subseteq> set gs)"
  unfolding reading_def using arrived_ok [of gs "hist @ rest" a hist rest v esi out a' out'] by blast

interpretation sent: symbol_reader "reading gs hist rest" "src_of hist" "set gs" for gs hist rest
proof unfold_locales
  show "reading gs hist rest a' \<and> (\<exists>new. out' = out @ new \<and> set new \<subseteq> set gs)"
    if "reading gs hist rest a" "zero_extends v (src_of hist esi)" "asm_arrived a esi v out = (a', out')" for a v esi out a' out'
    using that by (rule reading_arrived)
  show "reading gs hist rest (asm_lost a esi)" if "reading gs hist rest a" for a esi
    using that by (auto simp: reading_def intro: asm_lost_ok)
qed

text \<open>One symbol that claims to hold whole frames: whatever its payload, only what parsing the payload gives.\<close>

definition one_symbol :: "bytes \<Rightarrow> assembler \<Rightarrow> bool" where
  "one_symbol f a \<longleftrightarrow> short f \<and> groups a = Map.empty"

lemma note_symbol_empty: "groups a = Map.empty \<Longrightarrow> groups (note_symbol a esi) = Map.empty"
  by (auto simp: note_symbol_def prune_def keep_groups_def)

lemma parseFrames_step:
  assumes "frameHeader \<le> length payload" "unat (be_get (take 4 payload) :: u32) \<le> length payload - frameHeader"
  obtains f rest where "length f + frameHeader \<le> length payload" "length rest < length payload"
    "\<And>out. parseFrames payload out = parseFrames rest (out @ [f])"
proof
  let ?sz = "unat (be_get (take 4 payload) :: u32)" and ?rest = "drop frameHeader payload"
  show "length (take ?sz ?rest) + frameHeader \<le> length payload" "length (drop ?sz ?rest) < length payload"
    using assms by (simp_all add: frameHeader_def)
  show "parseFrames payload out = parseFrames (drop ?sz ?rest) (out @ [take ?sz ?rest])" for out
    using assms by (simp add: parseFrames.simps [of payload] Let_def)
qed

lemma parseFrames_stop:
  "\<not> (frameHeader \<le> length payload \<and> unat (be_get (take 4 payload) :: u32) \<le> length payload - frameHeader) \<Longrightarrow> parseFrames payload out = out"
  by (auto simp: parseFrames.simps [of payload] Let_def)

lemma parseFrames_spec:
  "parseFrames payload out = out @ parseFrames payload [] \<and> (\<forall>f\<in>set (parseFrames payload []). length f + frameHeader \<le> length payload)"
proof (induction "length payload" arbitrary: payload out rule: less_induct)
  case less
  show ?case
  proof (cases "frameHeader \<le> length payload \<and> unat (be_get (take 4 payload) :: u32) \<le> length payload - frameHeader")
    case True
    then obtain f rest where f: "length f + frameHeader \<le> length payload" "length rest < length payload"
      "\<And>out. parseFrames payload out = parseFrames rest (out @ [f])" using parseFrames_step [of payload] by blast
    have e: "parseFrames rest (out @ [f]) = (out @ [f]) @ parseFrames rest []" for out using less f(2) by blast
    have "\<forall>g\<in>set (parseFrames rest []). length g + frameHeader \<le> length payload" using less f(2) by (meson le_trans less_imp_le_nat)
    then show ?thesis using f(1) e f(3) by simp
  qed (simp add: parseFrames_stop)
qed

lemma one_symbol_arrived:
  assumes "one_symbol f a" "zero_extends v (src_of [symbol_vector f 0 1] esi)" "asm_arrived a esi v out = (a', out')"
  shows "one_symbol f a' \<and> (\<exists>new. out' = out @ new \<and> set new \<subseteq> set (parseFrames f []))"
proof -
  note e = note_symbol_empty [of a esi]
  show ?thesis
  proof (cases "unat esi = 0")
    case True
    then obtain n where "v = symbol_vector f 0 1 @ replicate n 0" using assms(2) by (auto simp: src_of_def zero_extends_def)
    then have "parseSymbol v = Some (f, 0, 1)" using assms(1) parseSymbol_vector [of f 0 1 n] by (simp add: one_symbol_def)
    then have "a' = note_symbol a esi" "out' = parseFrames f out" using assms(3) by (auto simp: asm_arrived_def Let_def)
    then show ?thesis using assms(1) e parseFrames_spec [of f out] by (auto simp: one_symbol_def)
  next
    case False
    then have "parseSymbol v = None" using assms(2) parseSymbol_zeros by (auto simp: src_of_def zero_extends_def)
    then show ?thesis using assms(1,3) e by (auto simp: one_symbol_def asm_arrived_def Let_def)
  qed
qed

lemma one_symbol_lost: "one_symbol f a \<Longrightarrow> one_symbol f (asm_lost a esi)"
  using note_symbol_empty [of a esi] by (simp add: one_symbol_def asm_lost_def keep_groups_def Let_def)

interpretation unmarked: symbol_reader "one_symbol f" "src_of [symbol_vector f 0 1]" "set (parseFrames f [])" for f
proof unfold_locales
  show "one_symbol f a' \<and> (\<exists>new. out' = out @ new \<and> set new \<subseteq> set (parseFrames f []))"
    if "one_symbol f a" "zero_extends v (src_of [symbol_vector f 0 1] esi)" "asm_arrived a esi v out = (a', out')" for a v esi out a' out'
    using that by (rule one_symbol_arrived)
  show "one_symbol f (asm_lost a esi)" if "one_symbol f a" for a esi using that by (rule one_symbol_lost)
qed

lemma append_unmarked:
  assumes "length f \<le> symbolPayload w p" "symbolPayload w p < frameHeader + length f"
  shows "appendFrame w p f = (case flushPacked w (p\<lparr>sized := sized p + 1\<rparr>) of (p1, ok) \<Rightarrow> if ok then path_emit w p1 f 0 1 else (p1, False))"
proof -
  let ?L = "symbolPayload w p"
  have L: "5 \<le> ?L" by (auto simp: symbolPayload_def symbolBytes_def coded_consts Let_def split: option.splits)
  then have "0 < length f" using assms(2) unfolding frameHeader_def by linarith
  then have count: "(length f + ?L - 1) div ?L = 1" using assms(1) L by (intro div_nat_eqI) (linarith, simp)
  moreover have "go_slice 0 (min ?L (length f)) f = f" using assms(1) by (simp add: go_slice_def)
  ultimately have "sendFragments w q f ?L = path_emit w q f 0 1" for q
    by (cases "path_emit w q f 0 1") (auto simp: sendFragments_def maxFragments_def)
  then show ?thesis using assms(2) by (auto simp: appendFrame_def append_sized_def split: prod.splits)
qed

section \<open>Safety of a path\<close>

text \<open>C26: nothing is delivered that was not sent. A path is given any batches of frames and sends them over a
  carrier that refuses what it likes, with the code sized from whatever is measured and a datagram limit that may
  move at any time; the network drops any of the datagrams. Every frame the peer delivers, repaired or not, is one
  of the frames the path was given, provided that no frame has a length the fragmenter cannot mark (one that fills a
  symbol to within its last three bytes, \<^verbatim>\<open>fits\<close>) and that at most \<^verbatim>\<open>2^32 - 2^16 + 1\<close> clock readings and sends were
  made. Without the first condition it is false: the bytes of such a frame are themselves parsed as frames.\<close>

theorem frames_delivered_were_sent:
  assumes "sendLoop w (NewPath c) batches = (p, ok)" "SymbolBytes (withDefaults c) \<le> 65556"
    and "\<forall>b\<in>set batches. \<forall>f\<in>set b. fits w c f" "asked p + 65535 \<le> 2 ^ 32"
    and "subseq received (carried p)" "receiveLoop NewReceiver received = (r, frames)"
  shows "set frames \<subseteq> set (concat batches)"
proof -
  obtain es gs rest as where s: "stream gs (symbols es @ rest)" "prefix gs (concat batches)" "length rest \<le> maxFragments"
    "list_all2 carries (carried p) as" "subseq as (emit (NewWindowEncoder initialWindow) es)" "length (symbols es) \<le> asked p"
    using assms(1-3) by (rule sender_run) blast
  have len: "length (symbols es @ rest) \<le> 2 ^ 32" using s(3,6) assms(4) by (simp add: maxFragments_def)
  then have "reading gs (symbols es) rest (asm NewReceiver)" using s(1) by (simp add: reading_def asm_ok_def NewReceiver_def)
  then have "set frames \<subseteq> set gs"
    using sent.receives_subsequence [OF refl _ s(4,5) assms(5,6)] len by simp
  then show ?thesis using s(2) set_mono_prefix by blast
qed

lemma plain_run: "asked (fst (sendLoop steady_world (NewPath plain_config) [[[1, 2, 3]]])) = 2"
  by code_simp

theorem frames_delivered_were_sent_witness:
  "set (snd (receiveLoop NewReceiver (carried (fst (sendLoop steady_world (NewPath plain_config) [[[1, 2, 3]]]))))) \<subseteq> {[1, 2, 3]}"
  using frames_delivered_were_sent [of steady_world plain_config "[[[1, 2, 3]]]",
      OF prod.collapse [symmetric] _ _ _ subseq_order.order_refl prod.collapse [symmetric]]
  by (simp add: plain_limit plain_run fits_def frameHeader_def del: sendLoop.simps)

text \<open>C30: a frame that fills a symbol but leaves no room for its four-byte length, so one at most three bytes short
  of the symbol's payload, is lost for good. On any path it is emitted, once what was packed before it has gone out, as one
  fragment, number 0 of 1, which is how a symbol of whole frames is marked. When it is the only frame a fresh path
  is given, then whatever of its datagrams arrives, the frame is never delivered, and what is delivered in its place is
  what its own bytes happen to parse to.\<close>

theorem unmarked_fragment_never_delivered:
  assumes "length f \<le> payload_limit w c 0" "payload_limit w c 0 < frameHeader + length f" "SymbolBytes (withDefaults c) \<le> 65556"
    and "sendLoop w (NewPath c) [[f]] = (p, ok)" "subseq received (carried p)" "receiveLoop NewReceiver received = (r, frames)"
    and "length g \<le> symbolPayload w q" "symbolPayload w q < frameHeader + length g"
  shows "f \<notin> set frames \<and> set frames \<subseteq> set (parseFrames f [])
    \<and> appendFrame w q g = (case flushPacked w (q\<lparr>sized := sized q + 1\<rparr>) of (q1, ok) \<Rightarrow> if ok then path_emit w q1 g 0 1 else (q1, False))"
proof -
  let ?p = "NewPath c" and ?p' = "(NewPath c)\<lparr>sized := 1\<rparr>" and ?L = "payload_limit w c 0" and ?v = "symbol_vector f 0 1"
  have n: "cfg ?p = withDefaults c" "encoder ?p = NewWindowEncoder initialWindow" "carried ?p = []" "asked ?p = 0" "packed ?p = []" "sized ?p = 0"
    by (simp_all add: NewPath_def)
  have L: "symbolPayload w ?p = ?L" "5 \<le> ?L" "?L < 2 ^ 16"
    using symbolPayload_limit [OF n(1), of w] n(4,6) payload_limit_range assms(3) by simp_all
  obtain p1 ok1 where e: "path_emit w ?p' f 0 1 = (p1, ok1)" by fastforce
  have a: "adds w ?p [?v] p1" using adds_trans [OF adds_refl [of ?p' ?p w] path_emit_adds(1) [OF e]] by simp
  have ap: "append_all w ?p [f] = (p1, ok1)"
    using append_unmarked [of f w ?p] assms(1,2) L(1) n(5,6) e by (simp add: flushPacked_def)
  have "packed p1 = []" using a n(5) by (simp add: adds_def)
  then have "send_batch w ?p [f] = (if ok1 then protectBurst w p1 else (p1, False))"
    using ap by (simp add: send_batch_def flushPacked_def)
  then have "p = p1 \<or> protectBurst w p1 = (p, ok)" using assms(4) by (auto split: if_splits prod.splits)
  then have "adds w ?p [?v] p" using a adds_trans [OF a protectBurst_adds] by fastforce
  then obtain es ds as where es: "symbols es = [?v]" "carried p = ds" "list_all2 carries ds as"
    "subseq as (emit (NewWindowEncoder initialWindow) es)"
    unfolding adds_def acts_def n(2,3) by auto
  have "one_symbol f (asm NewReceiver)" using assms(1) L(3) by (simp add: one_symbol_def short_def NewReceiver_def)
  then have sub: "set frames \<subseteq> set (parseFrames f [])"
    using unmarked.receives_subsequence [OF _ _ es(3,4) _ assms(6)] es(1,2) assms(5) by simp
  moreover have "f \<notin> set (parseFrames f [])" using parseFrames_spec [of f "[]"] by (auto simp: frameHeader_def)
  ultimately show ?thesis using append_unmarked [OF assms(7,8)] by blast
qed

theorem unmarked_fragment_never_delivered_witness:
  "replicate 1079 7 \<notin> set (snd (receiveLoop NewReceiver (carried (fst (sendLoop steady_world (NewPath plain_config) [[replicate 1079 7]])))))
   \<and> appendFrame steady_world (NewPath plain_config) (replicate 1076 7) = path_emit steady_world ((NewPath plain_config)\<lparr>sized := 1\<rparr>) (replicate 1076 7) 0 1"
proof -
  have L: "symbolPayload steady_world (NewPath plain_config) = 1079"
    using symbolPayload_limit [of "NewPath plain_config" plain_config steady_world] plain_limit(2) by (simp add: NewPath_def)
  have n: "flushPacked steady_world ((NewPath plain_config)\<lparr>sized := sized (NewPath plain_config) + 1\<rparr>) = ((NewPath plain_config)\<lparr>sized := 1\<rparr>, True)"
    by (simp add: flushPacked_def NewPath_def)
  show ?thesis
    using unmarked_fragment_never_delivered [of "replicate 1079 7" steady_world plain_config,
      OF _ _ _ prod.collapse [symmetric] subseq_order.order_refl prod.collapse [symmetric], of "replicate 1076 7" "NewPath plain_config"] n
    by (simp add: plain_limit frameHeader_def L)
qed

end
