(* ===== verification/CodedLossless.thy ===== *)
theory CodedLossless
  imports CodedSafe
begin

text \<open>
  The coded path on a carrier and a network that lose nothing: the decoder has nothing to
  recover and nothing to give up, and the peer delivers every frame once, in order.
\<close>

section \<open>A decoder that misses nothing\<close>

definition slot_of :: "WindowDecoder \<Rightarrow> nat \<Rightarrow> decoderSlot" where
  "slot_of d m = slots d ! idx (of_nat m)"

text \<open>The first \<^verbatim>\<open>n\<close> symbols have arrived, in order.\<close>

definition intact :: "nat \<Rightarrow> WindowDecoder \<Rightarrow> bool" where
  "intact n d \<longleftrightarrow> dmask d = 511 \<and> length (slots d) = 512 \<and> rows d = []
     \<and> (\<forall>j<512. sLive (slots d ! j) \<longrightarrow> (\<exists>m<n. sEsi (slots d ! j) = of_nat m))
     \<and> (if n = 0 then \<not> started d
        else started d \<and> dhigh d = of_nat n \<and> dlo d = of_nat n - 512 \<and> origin d = 0
          \<and> (\<forall>m<n. n \<le> m + 512 \<longrightarrow> sLive (slot_of d m) \<and> sKnown (slot_of d m) \<and> sEsi (slot_of d m) = of_nat m))"

lemma intact_new: "intact 0 NewWindowDecoder"
  using NewWindowDecoder_ok(1) [of "\<lambda>_. []"] NewWindowDecoder_ok(2) by (simp add: intact_def dec_ok_def sys_ok_def slots_ok_def)

lemma harvest_none: "rows d = [] \<Longrightarrow> harvest d out = (d, out)"
  by (subst harvest.simps) (simp add: harvest_scan.simps)

lemma of_nat_u32_inj: "m < 2 ^ 32 \<Longrightarrow> n < 2 ^ 32 \<Longrightarrow> (of_nat m :: u32) = of_nat n \<longleftrightarrow> m = n"
proof -
  assume "m < 2 ^ 32" "n < 2 ^ 32"
  then have "unat (of_nat m :: u32) = m" "unat (of_nat n :: u32) = n" by (simp_all add: unat_of_nat)
  then show ?thesis by metis
qed

lemma idx_of_nat: "idx (of_nat m) = m mod 512"
  using idx_add [of 0 m] by (simp add: idx_mod)

lemma idx_minus_512: "idx (e - 512) = idx e"
  using idx_add [of "e - 512" 512] by (simp add: idx_mod)

text \<open>Widening the window by one symbol evicts one that was held, or one before the first.\<close>

lemma evict_intact:
  assumes "intact n d" "0 < n" "n < 2 ^ 31"
  defines "e \<equiv> (of_nat n - 512 :: u32)"
  shows "evict (d\<lparr>dhigh := h\<rparr>) out e =
    (d\<lparr>dhigh := h, slots := (if n < 512 then slots d else (slots d)[idx (of_nat n) := empty_slot])\<rparr>, out)"
proof -
  have ix: "unat (e AND dmask d) = idx (of_nat n)" using assms(1) idx_minus_512 [of "of_nat n"] by (simp add: intact_def idx_def e_def)
  have c: "rows d = []" "origin d = 0" using assms(1,2) by (auto simp: intact_def)
  show ?thesis
  proof (cases "n < 512")
    case True
    have "e = - of_nat (512 - n)" using True by (simp add: e_def of_nat_diff)
    also have "\<dots> = of_nat (2 ^ 32 - (512 - n))" using True by (simp add: of_nat_diff)
    finally have u: "e = of_nat (2 ^ 32 - (512 - n))" .
    then have ue: "unat e = 2 ^ 32 - (512 - n)" using True assms(2) by (simp only: unat_of_nat) simp
    have "\<not> (sLive (slots d ! idx (of_nat n)) \<and> sEsi (slots d ! idx (of_nat n)) = e)"
    proof
      assume l: "sLive (slots d ! idx (of_nat n)) \<and> sEsi (slots d ! idx (of_nat n)) = e"
      then obtain m where m: "m < n" "e = of_nat m" using assms(1) idx_less unfolding intact_def by metis
      have "unat e = m" using m assms(3) by (simp add: unat_of_nat)
      then show False using ue True m by simp
    qed
    moreover have "before e 0" using ue True by (simp add: before_iff)
    ultimately show ?thesis using True c by (auto simp: evict_def ix Let_def)
  next
    case False
    then have en: "e = of_nat (n - 512)" by (simp add: e_def of_nat_diff)
    have "idx (of_nat (n - 512)) = idx (of_nat n)" using idx_minus_512 [of "of_nat n"] en e_def by simp
    then have "sLive (slots d ! idx (of_nat n)) \<and> sKnown (slots d ! idx (of_nat n)) \<and> sEsi (slots d ! idx (of_nat n)) = e"
      using assms(1,2) False en unfolding intact_def slot_of_def by (metis diff_less le_add_diff_inverse2 linorder_not_less order_refl zero_less_numeral)
    then show ?thesis using False c by (simp add: evict_def ix Let_def)
  qed
qed

lemma before_shift: "before a b \<longleftrightarrow> 2 ^ 31 \<le> unat (a - b)"
  by (simp add: before_iff)

lemma admit_intact:
  assumes "intact n d" "0 < n" "n < 2 ^ 31"
  shows "admit d no_delivery (of_nat n) =
    (d\<lparr>dhigh := of_nat (Suc n), dlo := of_nat (Suc n) - 512,
       slots := (if n < 512 then slots d else (slots d)[idx (of_nat n) := empty_slot])\<rparr>, no_delivery, True)"
proof -
  have c: "started d" "dhigh d = of_nat n" "dlo d = of_nat n - 512" "length (slots d) = 512" using assms(1,2) by (auto simp: intact_def)
  have b: "\<not> before (of_nat n) (dlo d)" "\<not> before (of_nat n) (dhigh d)" "before (dlo d) (dlo d + 512)"
    using c by (simp_all add: before_shift)
  let ?d = "d\<lparr>dhigh := of_nat n + 1\<rparr>"
  let ?s = "if n < 512 then slots d else (slots d)[idx (of_nat n) := empty_slot]"
  have ev: "evict ?d no_delivery (dlo ?d) = (?d\<lparr>slots := ?s\<rparr>, no_delivery)" using evict_intact [OF assms, of "of_nat n + 1"] c by simp
  have w: "(512 :: u32) < of_nat n + 1 - dlo d" "(of_nat n + 1 :: u32) - (dlo d + 1) = 512" using c(3) by simp_all
  have "admit_walk ?d no_delivery 512 (dlo d + 512) = (?d\<lparr>slots := ?s, dlo := dlo d + 1\<rparr>, no_delivery)"
    using w b(3) ev by (subst admit_walk.simps) (simp add: admit_walk.simps [of "?d\<lparr>slots := ?s, dlo := dlo d + 1\<rparr>"] del: diff_add_eq_diff_diff_swap)
  then show ?thesis using c b by (simp add: admit_def Let_def algebra_simps)
qed

lemma dec_Source_intact:
  assumes "intact n d" "n < 2 ^ 31"
  shows "\<exists>d'. dec_Source d (of_nat n) v = (d', no_delivery) \<and> intact (Suc n) d'"
proof -
  define s where "s = (if n < 512 then slots d else (slots d)[idx (of_nat n) := empty_slot])"
  define d1 where "d1 = (if n = 0 then d\<lparr>started := True, origin := 0, dhigh := 1, dlo := 1 - 512\<rparr>
     else d\<lparr>dhigh := of_nat (Suc n), dlo := of_nat (Suc n) - 512, slots := s\<rparr>)"
  have m: "dmask d = 511" "length (slots d) = 512" "rows d = []"
    "j < 512 \<Longrightarrow> sLive (slots d ! j) \<Longrightarrow> \<exists>m<n. sEsi (slots d ! j) = of_nat m" for j
    using assms(1) by (auto simp: intact_def)
  have ad: "admit d no_delivery (of_nat n) = (d1, no_delivery, True)"
  proof (cases "n = 0")
    case True
    then show ?thesis using assms(1) by (simp add: intact_def admit_def d1_def)
  next
    case False
    then show ?thesis using admit_intact [OF assms(1) _ assms(2)] by (simp add: d1_def s_def)
  qed
  have un: "unat (of_nat n :: u32) = n" using assms(2) by (simp add: unat_of_nat)
  have o: "origin d1 = 0" "started d1" "dmask d1 = 511" "length (slots d1) = 512" "rows d1 = []"
    using assms(1) m by (auto simp: d1_def s_def intact_def)
  have w: "witness d1 (of_nat n) = d1" using o un assms(2) by (simp add: witness_def before_shift)
  have l: "sLive (slots d1 ! j) \<Longrightarrow> \<exists>m<n. sEsi (slots d1 ! j) = of_nat m" if "j < 512" for j
    using m(4) [OF that] m(2) that by (auto simp: d1_def s_def nth_list_update empty_slot_def split: if_splits)
  have fresh: "\<not> (sLive (slots d1 ! idx (of_nat n)) \<and> sKnown (slots d1 ! idx (of_nat n)) \<and> sEsi (slots d1 ! idx (of_nat n)) = of_nat n)"
    using l [of "idx (of_nat n)"] assms(2) by (auto simp: of_nat_u32_inj)
  let ?slot = "\<lparr>sEsi = of_nat n, sVector = v, sLive = True, sKnown = True\<rparr>"
  let ?d = "d1\<lparr>slots := (slots d1)[idx (of_nat n) := ?slot]\<rparr>"
  have "dec_Source d (of_nat n) v = (?d, no_delivery)"
    using ad w fresh o(3,5) by (auto simp: dec_Source_def substitute_def Let_def idx_def [symmetric] harvest_none)
  moreover have "intact (Suc n) ?d"
  proof -
    have hi: "dhigh d1 = of_nat (Suc n)" "dlo d1 = of_nat (Suc n) - 512" by (simp_all add: d1_def)
    have live: "sLive (slot_of ?d k) \<and> sKnown (slot_of ?d k) \<and> sEsi (slot_of ?d k) = of_nat k" if k: "k < Suc n" "Suc n \<le> k + 512" for k
    proof (cases "k = n")
      case True
      then show ?thesis using o(4) by (simp add: slot_of_def)
    next
      case False
      then have kn: "k < n" "n \<le> k + 512" "n - k < 512" using k by auto
      have ne: "idx (of_nat k) \<noteq> idx (of_nat n)" using near_residues [OF kn(1,3)] by (simp add: idx_of_nat)
      have "sLive (slot_of d k) \<and> sKnown (slot_of d k) \<and> sEsi (slot_of d k) = of_nat k"
        using assms(1) kn by (auto simp: intact_def)
      then show ?thesis using ne kn(1) by (simp add: slot_of_def d1_def s_def)
    qed
    have "\<exists>m<Suc n. sEsi (slots ?d ! j) = of_nat m" if "j < 512" "sLive (slots ?d ! j)" for j
    proof (cases "j = idx (of_nat n)")
      case True
      then show ?thesis using o(4) by auto
    next
      case False
      then show ?thesis using l [OF that(1)] that(2) by (auto intro: less_SucI)
    qed
    then show ?thesis using o hi live by (simp add: intact_def)
  qed
  ultimately show ?thesis by blast
qed

lemma known_loop_clears:
  assumes "dmask d = 511" "length cf = 512" "\<forall>j<512. cf ! j \<noteq> 0 \<longrightarrow> sLive (slots d ! j) \<and> sKnown (slots d ! j)"
    "known_loop d es cf data = (cf', data')"
  shows "(\<forall>j<512. cf ! j = 0 \<longrightarrow> cf' ! j = 0) \<and> (\<forall>e\<in>set es. cf' ! idx e = 0)"
  using assms
proof (induction es arbitrary: cf data)
  case (Cons e es)
  have ix: "unat (e AND dmask d) = idx e" by (simp add: assms(1) idx_def)
  show ?case
  proof (cases "cf ! idx e = 0")
    case True
    then show ?thesis using Cons ix by (auto simp: Let_def)
  next
    case False
    let ?cf = "cf[idx e := 0]"
    have k: "sLive (slots d ! idx e) \<and> sKnown (slots d ! idx e)" using Cons.prems(3) False by simp
    obtain data2 where r: "known_loop d es ?cf data2 = (cf', data')" using Cons.prems(4) ix False k by (auto simp: Let_def)
    have z: "?cf ! idx e = 0" "length ?cf = 512" "\<forall>j<512. cf ! j = 0 \<longrightarrow> ?cf ! j = 0"
      "\<forall>j<512. ?cf ! j \<noteq> 0 \<longrightarrow> sLive (slots d ! j) \<and> sKnown (slots d ! j)"
      using Cons.prems(2,3) by (auto simp: nth_list_update)
    show ?thesis using Cons.IH [OF assms(1) z(2,4) r] z(1,3) by auto
  qed
qed simp

lemma dec_Repair_intact:
  assumes "intact n d" "n < 2 ^ 31" "0 < Count r" "Count r \<le> 256" "nat (Count r) \<le> n" "First r = of_nat (n - nat (Count r))"
  shows "\<exists>d'. dec_Repair d r = (d', no_delivery) \<and> intact n d'"
proof (cases "Vector r = []")
  case True
  then show ?thesis using assms(1) by (simp add: dec_Repair_def)
next
  case False
  define c where "c = nat (Count r)"
  have c: "0 < c" "c \<le> 256" "c \<le> n" "Count r = int c" "First r = of_nat (n - c)" using assms(3-6) by (simp_all add: c_def)
  have d: "started d" "dmask d = 511" "dhigh d = of_nat n" "dlo d = of_nat n - 512" "origin d = 0" "length (slots d) = 512" "rows d = []"
    "m < n \<Longrightarrow> n \<le> m + 512 \<Longrightarrow> sLive (slot_of d m) \<and> sKnown (slot_of d m)" for m
    using assms(1) c by (auto simp: intact_def)
  have top: "First r + of_int (Count r - 1) = of_nat (n - 1)" using c by (simp add: of_nat_diff)
  have gap: "(of_nat (n - k) :: u32) - dlo d = of_nat (512 - k)" if "k \<le> n" "k \<le> 512" for k using that d(4) by (simp add: of_nat_diff)
  have ug: "unat (of_nat (512 - k) :: u32) = 512 - k" for k by (simp add: unat_of_nat)
  have nb: "\<not> before (of_nat (n - k)) (dlo d)" if "k \<le> n" "k \<le> 512" for k unfolding before_shift gap [OF that] ug by simp
  have "\<not> before (of_nat (n - 1)) (dlo d)" "\<not> before (First r) (dlo d)" using nb [of 1] nb [of c] c by auto
  moreover have "before (of_nat (n - 1)) (dhigh d)" using before_window [of 1 "of_nat (n - 1)"] c d(3) by (simp add: of_nat_diff)
  ultimately have ad: "admit d no_delivery (of_nat (n - 1)) = (d, no_delivery, True)" "\<not> before (First r) (dlo d)" using d(1) by (simp_all add: admit_def)
  have "unat (First r) = n - c" unfolding c(5) unat_of_nat using assms(2) by simp
  then have "\<not> before (First r) 0" using assms(2) by (simp add: before_shift)
  then have w: "witness d (First r) = d" using d(5) by (simp add: witness_def)
  let ?cf = "repair_coef d r [0..<c] (replicate 512 0)"
  have span: "\<forall>i\<in>set [0..<c]. First r + of_nat i - dlo d < 512"
  proof
    fix i assume "i \<in> set [0..<c]"
    then have i: "i < c" by simp
    have e: "First r + of_nat i = of_nat (n - (c - i))" using c i by (simp add: of_nat_diff)
    have le: "c - i \<le> n" "c - i \<le> 512" using c by auto
    show "First r + of_nat i - dlo d < 512" unfolding e gap [OF le] word_less_nat_alt ug using i by simp
  qed
  have hi: "dhigh d = dlo d + 512" using d(3,4) by simp
  note rc = repair_coef_spec [OF d(2) hi length_replicate span]
  have known: "sLive (slots d ! j) \<and> sKnown (slots d ! j)" if "j < 512" "?cf ! j \<noteq> 0" for j
  proof -
    have "\<exists>i\<in>set [0..<c]. idx (First r + of_nat i) = j"
    proof (rule ccontr)
      assume "\<not> ?thesis"
      then have "?cf ! j = replicate 512 0 ! j" using rc that(1) by blast
      then show False using that by simp
    qed
    then obtain i where i: "i < c" "idx (First r + of_nat i) = j" by auto
    have "First r + of_nat i = of_nat (n - c + i)" using c by simp
    then have "slots d ! j = slot_of d (n - c + i)" using i(2) by (simp add: slot_of_def)
    then show ?thesis using d(8) [of "n - c + i"] i(1) c by simp
  qed
  obtain cf' data' where kl: "known_loop d (esis (dlo d) (dhigh d)) ?cf (Vector r) = (cf', data')" by fastforce
  have clear: "\<forall>e\<in>set (esis (dlo d) (dhigh d)). cf' ! idx e = 0"
    using known_loop_clears [OF d(2) _ _ kl] rc known by simp
  have "cf' ! j = 0" if "j < 512" for j
    using clear idx_owner [OF that, of "dlo d"] owner_range [of "dlo d" j] unfolding hi esis_512 by (metis mem_Collect_eq)
  then have "snd (leading d cf') = 0" using leading_window(1) [OF d(2) hi prod.collapse [symmetric], of cf'] by simp
  then have "insert_row d ?cf (Vector r) no_delivery = (d\<lparr>discarded := discarded d + 1\<rparr>, no_delivery)"
    using kl d(7) by (cases "leading d cf'") (simp add: insert_row_def)
  then have "dec_Repair d r = (d\<lparr>discarded := discarded d + 1\<rparr>, no_delivery)"
    using False c ad w d(6) top by (simp add: dec_Repair_def MaxRepairWindow_def MaxShards_def c_def [symmetric])
  moreover have "slot_of (d\<lparr>discarded := discarded d + 1\<rparr>) = slot_of d" by (rule ext) (simp add: slot_of_def)
  then have "intact n (d\<lparr>discarded := discarded d + 1\<rparr>)" using assms(1) by (simp add: intact_def)
  ultimately show ?thesis by blast
qed

section \<open>An assembler that misses nothing\<close>

fun feed :: "assembler \<Rightarrow> nat \<Rightarrow> bytes list \<Rightarrow> assembler \<times> bytes list" where
  "feed a n [] = (a, [])"
| "feed a n (v # vs) = (case asm_arrived a (of_nat n) v [] of (a1, out) \<Rightarrow> (case feed a1 (Suc n) vs of (a2, rest) \<Rightarrow> (a2, out @ rest)))"

lemma feed_append: "feed a n (us @ vs) = (case feed a n us of (a1, out) \<Rightarrow> (case feed a1 (n + length us) vs of (a2, rest) \<Rightarrow> (a2, out @ rest)))"
  by (induction us arbitrary: a n) (auto split: prod.splits)

text \<open>The newest symbol is the one before \<^verbatim>\<open>n\<close>.\<close>

definition current :: "nat \<Rightarrow> assembler \<Rightarrow> bool" where
  "current n a \<longleftrightarrow> (if n = 0 then \<not> seen a else seen a \<and> high a = of_nat (n - 1))"

lemma note_symbol_next:
  assumes "current n a"
  shows "current (Suc n) (note_symbol a (of_nat n))"
    "groups (note_symbol a (of_nat n)) = groups a
     \<or> groups (note_symbol a (of_nat n)) = keep_groups (\<lambda>first g. \<not> sint (of_nat n - (first + of_nat (length (parts g)))) > assemblerSlack) (groups a)"
proof -
  have "seen a \<Longrightarrow> (of_nat n :: u32) - high a = 1" using assms by (cases n) (auto simp: current_def)
  then show "current (Suc n) (note_symbol a (of_nat n))"
    "groups (note_symbol a (of_nat n)) = groups a
     \<or> groups (note_symbol a (of_nat n)) = keep_groups (\<lambda>first g. \<not> sint (of_nat n - (first + of_nat (length (parts g)))) > assemblerSlack) (groups a)"
    by (auto simp: current_def note_symbol_def prune_def)
qed

lemma feed_packed:
  assumes "current n a" "groups a = Map.empty" "short (packed_of fs)"
  shows "\<exists>a'. asm_arrived a (of_nat n) (symbol_vector (packed_of fs) 0 1) [] = (a', fs) \<and> current (Suc n) a' \<and> groups a' = Map.empty"
  using assms note_symbol_next(1) note_symbol_empty parseSymbol_vector [of "packed_of fs" 0 1 0]
  by (simp add: asm_arrived_def Let_def parseFrames_packed)

text \<open>After \<^verbatim>\<open>i\<close> of the fragments of the block at \<^verbatim>\<open>k\<close>.\<close>

definition filling :: "nat \<Rightarrow> bytes list \<Rightarrow> nat \<Rightarrow> assembler \<Rightarrow> bool" where
  "filling k frags i a \<longleftrightarrow> current (k + i) a
     \<and> (if i = 0 then groups a = Map.empty
        else \<exists>b. groups a = [of_nat k \<mapsto> \<lparr>parts = take i frags @ replicate (length frags - i) [], heldParts = i, partBytes = b\<rparr>])"

lemma keep_current_group:
  assumes "i < n" "n \<le> 2 ^ 16" "length (parts g) = n"
  shows "keep_groups (\<lambda>first g. \<not> sint (of_nat (k + i) - (first + of_nat (length (parts g))) :: u32) > assemblerSlack) [of_nat k \<mapsto> g] = [of_nat k \<mapsto> g]"
proof -
  let ?w = "of_nat (k + i) - (of_nat k + of_nat n) :: u32"
  have "?w = of_nat i - of_nat n" by simp
  then have "?w = - of_nat (n - i)" using assms(1) by (simp add: of_nat_diff)
  also have "\<dots> = of_nat (2 ^ 32 - (n - i))" using assms by (simp add: of_nat_diff)
  finally have "?w = of_nat (2 ^ 32 - (n - i))" .
  then have "unat ?w = 2 ^ 32 - (n - i)" using assms by (simp only: unat_of_nat) simp
  then have "sint ?w < 0" using assms before_shift [of ?w 0] by (simp add: before_def)
  then have "\<not> sint ?w > assemblerSlack" by (simp add: assemblerSlack_def MinDecoderWidth_def MaxRepairWindow_def MaxShards_def)
  then show ?thesis using assms(3) by (auto simp: keep_groups_def)
qed

lemma feed_fragment:
  assumes "filling k frags i a" "i < length frags" "2 \<le> length frags" "length frags \<le> maxFragments" "\<forall>x\<in>set frags. x \<noteq> [] \<and> short x"
  shows "\<exists>a'. asm_arrived a (of_nat (k + i)) (symbol_vector (frags ! i) i (length frags)) [] =
      (a', if Suc i = length frags then [concat frags] else [])
    \<and> (if Suc i = length frags then current (k + length frags) a' \<and> groups a' = Map.empty else filling k frags (Suc i) a')"
proof -
  let ?n = "length frags"
  define b where "b = note_symbol a (of_nat (k + i))"
  have cur: "current (Suc (k + i)) b" using note_symbol_next(1) [of "k + i" a] assms(1) by (simp add: b_def filling_def)
  have n16: "?n < 2 ^ 16" using assms(4) by (simp add: maxFragments_def)
  have ps: "parseSymbol (symbol_vector (frags ! i) i ?n) = Some (frags ! i, i, ?n)"
    using parseSymbol_vector [of "frags ! i" i ?n 0] assms(2,5) n16 by simp
  obtain bytes0 where g: "(case groups b (of_nat k) of Some g \<Rightarrow> g | None \<Rightarrow> \<lparr>parts = replicate ?n [], heldParts = 0, partBytes = 0\<rparr>)
      = \<lparr>parts = take i frags @ replicate (?n - i) [], heldParts = i, partBytes = bytes0\<rparr>" "\<forall>f. f \<noteq> of_nat k \<longrightarrow> groups b f = None"
  proof (cases "i = 0")
    case True
    then have "groups b = Map.empty" using assms(1) note_symbol_empty by (simp add: filling_def b_def)
    then show ?thesis using that [of 0] True by simp
  next
    case False
    then obtain y where y: "groups a = [of_nat k \<mapsto> \<lparr>parts = take i frags @ replicate (?n - i) [], heldParts = i, partBytes = y\<rparr>]"
      using assms(1) by (auto simp: filling_def)
    have "groups b = groups a"
      using note_symbol_next(2) [of "k + i" a] assms(1,2) keep_current_group [of i ?n] n16 unfolding b_def y by (auto simp: filling_def)
    then show ?thesis using that [of y] y by simp
  qed
  let ?g = "\<lparr>parts = take i frags @ replicate (?n - i) [], heldParts = i, partBytes = bytes0\<rparr>"
  let ?g' = "\<lparr>parts = take (Suc i) frags @ replicate (?n - Suc i) [], heldParts = Suc i, partBytes = bytes0 + length (frags ! i)\<rparr>"
  have up: "(take i frags @ replicate (?n - i) [])[i := frags ! i] = take (Suc i) frags @ replicate (?n - Suc i) []"
    using assms(2) by (simp add: list_update_append take_Suc_conv_app_nth) (metis Suc_diff_Suc list_update_code(2) replicate_Suc)
  have nil: "(take i frags @ replicate (?n - i) []) ! i = []" using assms(2) by (simp add: nth_append)
  have first: "(of_nat (k + i) :: u32) - of_nat i = of_nat k" by simp
  have emp: "(groups b)(of_nat k := x) = (case x of None \<Rightarrow> Map.empty | Some g \<Rightarrow> [of_nat k \<mapsto> g])" for x
    using g(2) by (auto split: option.splits)
  have run: "asm_arrived a (of_nat (k + i)) (symbol_vector (frags ! i) i ?n) [] =
     (if Suc i < ?n then (b\<lparr>groups := [of_nat k \<mapsto> ?g']\<rparr>, []) else (b\<lparr>groups := Map.empty\<rparr>, [concat frags]))"
    unfolding asm_arrived_def ps b_def [symmetric] Let_def first option.case prod.case g(1)
    using assms(2,3) nil up emp by auto
  show ?thesis
  proof (cases "Suc i = ?n")
    case True
    then have "asm_arrived a (of_nat (k + i)) (symbol_vector (frags ! i) i ?n) [] = (b\<lparr>groups := Map.empty\<rparr>, [concat frags])" using run by simp
    moreover have "current (k + ?n) (b\<lparr>groups := Map.empty\<rparr>)" using cur unfolding True [symmetric] by (simp add: current_def)
    ultimately show ?thesis using True by auto
  next
    case False
    then have "Suc i < ?n" using assms(2) by simp
    then have "asm_arrived a (of_nat (k + i)) (symbol_vector (frags ! i) i ?n) [] = (b\<lparr>groups := [of_nat k \<mapsto> ?g']\<rparr>, [])" using run by simp
    moreover have "filling k frags (Suc i) (b\<lparr>groups := [of_nat k \<mapsto> ?g']\<rparr>)" using cur by (simp add: filling_def current_def) blast
    ultimately show ?thesis using False by auto
  qed
qed

lemma feed_fragments:
  assumes "2 \<le> length frags" "length frags \<le> maxFragments" "\<forall>x\<in>set frags. x \<noteq> [] \<and> short x" "filling k frags i a" "i < length frags"
  shows "\<exists>a'. feed a (k + i) (map (\<lambda>j. symbol_vector (frags ! j) j (length frags)) [i..<length frags]) = (a', [concat frags])
    \<and> current (k + length frags) a' \<and> groups a' = Map.empty"
  using assms(4,5)
proof (induction "length frags - i" arbitrary: i a)
  case (Suc m)
  let ?sym = "\<lambda>j. symbol_vector (frags ! j) j (length frags)"
  from feed_fragment [OF Suc.prems assms(1-3)] obtain a1
    where a1: "asm_arrived a (of_nat (k + i)) (?sym i) [] = (a1, if Suc i = length frags then [concat frags] else [])"
      "if Suc i = length frags then current (k + length frags) a1 \<and> groups a1 = Map.empty else filling k frags (Suc i) a1" by blast
  have u: "[i..<length frags] = i # [Suc i..<length frags]" using Suc.prems(2) by (simp add: upt_conv_Cons)
  show ?case
  proof (cases "Suc i = length frags")
    case True
    then show ?thesis using a1 u by simp
  next
    case False
    then have "m = length frags - Suc i" "Suc i < length frags" "filling k frags (Suc i) a1" using Suc.hyps(2) Suc.prems(2) a1(2) by auto
    then obtain a' where "feed a1 (k + Suc i) (map ?sym [Suc i..<length frags]) = (a', [concat frags])"
      "current (k + length frags) a'" "groups a' = Map.empty"
      using Suc.hyps(1) [of "Suc i" a1] by blast
    then show ?thesis using a1(1) False unfolding u by simp
  qed
qed simp

lemma feed_stream:
  assumes "stream gs H" "current 0 a" "groups a = Map.empty"
  shows "\<exists>a'. feed a 0 H = (a', gs) \<and> current (length H) a' \<and> groups a' = Map.empty"
  using assms
proof (induction gs H rule: stream.induct)
  case (stream_packed gs h fs)
  then obtain a1 where a1: "feed a 0 h = (a1, gs)" "current (length h) a1" "groups a1 = Map.empty" by blast
  from feed_packed [OF a1(2,3) stream_packed.hyps(2)] obtain a2
    where "asm_arrived a1 (of_nat (length h)) (symbol_vector (packed_of fs) 0 1) [] = (a2, fs)" "current (Suc (length h)) a2" "groups a2 = Map.empty" by blast
  then show ?case using a1(1) by (simp add: feed_append)
next
  case (stream_fragments gs h frags f)
  then obtain a1 where a1: "feed a 0 h = (a1, gs)" "current (length h) a1" "groups a1 = Map.empty" by blast
  have "filling (length h) frags 0 a1" using a1 by (simp add: filling_def)
  moreover have "0 < length frags" using stream_fragments.hyps(3) by linarith
  ultimately obtain a2
    where "feed a1 (length h) (fragment_symbols frags) = (a2, [concat frags])" "current (length h + length frags) a2" "groups a2 = Map.empty"
    using feed_fragments [OF stream_fragments.hyps(3-5), of "length h" 0 a1] by (auto simp: fragment_symbols_def)
  then show ?case using a1(1) stream_fragments.hyps(2) by (simp add: feed_append fragment_symbols_def)
qed simp

section \<open>End to end\<close>

lemma settle_delivery_nothing: "settle_delivery r no_delivery frames = (r, frames)"
  by (simp add: settle_delivery_def no_delivery_def)

lemma receive_everything:
  assumes "enc_ok hist e" "length hist + length (symbols es) < 2 ^ 31" "list_all2 carries ds (emit e es)"
    "intact (length hist) (decoder r)" "receiveLoop r ds = (r', frames)"
  shows "frames = snd (feed (asm r) (length hist) (symbols es))"
  using assms
proof (induction e es arbitrary: hist ds r frames rule: emit.induct)
  case (1 e)
  then show ?case by simp
next
  case (2 e v es)
  obtain e' esi where a: "enc_Add e v = (e', esi)" by fastforce
  note ok = enc_Add_ok [OF "2.prems"(1) a]
  obtain d ds' where d: "ds = d # ds'" "carries d (ASource esi v)" "list_all2 carries ds' (emit e' es)"
    using "2.prems"(3) a by (auto simp: list_all2_Cons2)
  obtain seq where seq: "d = source_datagram seq (of_nat (length hist)) v" using d(2) ok(2) by auto
  have "length hist < 2 ^ 31" using "2.prems"(2) by simp
  from dec_Source_intact [OF "2.prems"(4) this] obtain dec
    where dec: "dec_Source (decoder r) (of_nat (length hist)) v = (dec, no_delivery)" "intact (Suc (length hist)) dec" by blast
  obtain a1 out where ar: "asm_arrived (asm r) (of_nat (length hist)) v [] = (a1, out)" by fastforce
  let ?r = "r\<lparr>arrivals := arrivals r + 1, observed := observed r @ [seq], sources := sources r + 1, decoder := dec, asm := a1\<rparr>"
  have o: "onDatagram r d = (?r, out)" unfolding seq onDatagram_source [OF dec(1) ar] settle_delivery_nothing ..
  obtain rest where rest: "receiveLoop ?r ds' = (r', rest)" "frames = out @ rest" using "2.prems"(5) d(1) o by (auto split: prod.splits)
  have "rest = snd (feed (asm ?r) (length (hist @ [v])) (symbols es))"
    by (rule "2.IH" [OF a [symmetric] ok(1) _ d(3) _ rest(1)]) (use "2.prems"(2) dec(2) in simp_all)
  then show ?case using rest(2) ar by (simp split: prod.splits)
next
  case (3 e rid count es)
  show ?case
  proof (cases "enc_Repair e rid count")
    case None
    then show ?thesis using 3 by simp
  next
    case (Some rs)
    have len: "length hist \<le> 2 ^ 32" using "3.prems"(2) by simp
    note s = enc_Repair_sound [OF "3.prems"(1) Some len]
    obtain d ds' where d: "ds = d # ds'" "carries d (ARepair rs)" "list_all2 carries ds' (emit e es)"
      using "3.prems"(3) Some by (auto simp: list_all2_Cons2)
    obtain seq where seq: "d = repair_datagram seq rs" using d(2) by auto
    have "length hist < 2 ^ 31" using "3.prems"(2) by simp
    from dec_Repair_intact [OF "3.prems"(4) this s(2-5)] obtain dec
      where dec: "dec_Repair (decoder r) rs = (dec, no_delivery)" "intact (length hist) dec" by blast
    let ?r = "r\<lparr>arrivals := arrivals r + 1, observed := observed r @ [seq], decoder := dec\<rparr>"
    have o: "onDatagram r d = (?r, [])" unfolding seq onDatagram_repair [OF s(2,3) dec(1)] settle_delivery_nothing ..
    obtain rest where rest: "receiveLoop ?r ds' = (r', rest)" "frames = rest" using "3.prems"(5) d(1) o by (auto split: prod.splits)
    have "rest = snd (feed (asm ?r) (length hist) (symbols es))"
      by (rule "3.IH"(2) [OF Some "3.prems"(1) _ d(3) _ rest(1)]) (use "3.prems"(2) dec(2) in simp_all)
    then show ?thesis using rest(2) by simp
  qed
next
  case (4 e cap es)
  have "enc_ok hist (SetCapacity e cap)" by (rule SetCapacity_ok) (use "4.prems"(1) in blast)
  then show ?case using 4 by simp
qed

text \<open>C27: a path over a carrier and a network that lose nothing delivers every frame it was given, once and in
  order, whatever the sizes of the batches and of the frames and however much parity the code adds in between,
  provided that no frame fills a symbol to within its last three bytes (\<^verbatim>\<open>fits\<close>; such a frame is never delivered), that the sender did
  not stop, and that it made fewer than \<^verbatim>\<open>2^31\<close> clock readings and sends.\<close>

theorem lossless_delivers_everything:
  assumes "sendLoop w (NewPath c) batches = (p, True)" "SymbolBytes (withDefaults c) \<le> 65556" "willing w"
    and "\<forall>b\<in>set batches. \<forall>f\<in>set b. fits w c f" "asked p < 2 ^ 31" "receiveLoop NewReceiver (carried p) = (r, frames)"
  shows "frames = concat batches"
proof -
  obtain es gs rest ds as where s: "stream gs (symbols es @ rest)" "True \<Longrightarrow> gs = concat batches \<and> rest = []"
    "carried p = ds" "list_all2 carries ds as" "willing w \<Longrightarrow> as = emit (NewWindowEncoder initialWindow) es" "length (symbols es) \<le> asked p"
    using assms(1,2,4) by (rule sender_run) blast
  have "intact (length ([] :: bytes list)) (decoder NewReceiver)" by (simp add: NewReceiver_def intact_new)
  then have f: "frames = snd (feed (asm NewReceiver) 0 (symbols es))"
    using receive_everything [OF NewWindowEncoder_ok, of es ds initialWindow NewReceiver r frames] s(3-6) assms(3,5,6) by simp
  have "stream (concat batches) (symbols es)" using s(1,2) by simp
  then obtain a' where "feed (asm NewReceiver) 0 (symbols es) = (a', concat batches)"
    using feed_stream [of "concat batches" "symbols es" "asm NewReceiver"] by (auto simp: NewReceiver_def current_def)
  then show ?thesis using f by simp
qed

lemma plain_run_ok: "snd (sendLoop steady_world (NewPath plain_config) [[[1, 2, 3]]])"
  by code_simp

theorem lossless_delivers_everything_witness:
  "snd (receiveLoop NewReceiver (carried (fst (sendLoop steady_world (NewPath plain_config) [[[1, 2, 3]]])))) = [[1, 2, 3]]"
proof -
  let ?run = "sendLoop steady_world (NewPath plain_config) [[[1, 2, 3]]]"
  have r: "?run = (fst ?run, True)" using plain_run_ok by (metis prod.collapse)
  have w: "willing steady_world" by (simp add: willing_def steady_world_def)
  show ?thesis
    using lossless_delivers_everything [OF r _ w _ _ prod.collapse [symmetric]] plain_run
    by (simp add: plain_limit fits_def frameHeader_def del: sendLoop.simps)
qed

end
