(* ===== verification/CodedWork.thy ===== *)
theory CodedWork
  imports CodedSend
begin

text \<open>
  How much the sending side of \<^verbatim>\<open>internal/coded\<close> can do for what it is given: every loop ends, and
  the calls it makes to its surroundings are bounded by the bytes of the frames.
\<close>

definition sane :: "CodedPath \<Rightarrow> bool" where
  "sane p \<longleftrightarrow> 0 \<le> credit p \<and> credit p < 1 \<and> 0 \<le> burstSymbols p \<and> 0 \<le> burstRepairs p
     \<and> (\<forall>ch. code p = Some ch \<longrightarrow> 0 \<le> crate ch \<and> crate ch \<le> 7)
     \<and> (\<forall>n want. tailCache p n = Some want \<longrightarrow> 0 < n \<longrightarrow> want \<le> 7 * n)"

definition cost :: "CodedPath \<Rightarrow> nat" where
  "cost p = asked p + 7 * nat (burstSymbols p)"

text \<open>A step of at most \<^verbatim>\<open>k\<close> calls; one that succeeds also keeps the books.\<close>

definition works :: "CodedPath \<Rightarrow> nat \<Rightarrow> CodedPath \<Rightarrow> bool \<Rightarrow> bool" where
  "works p k p' ok \<longleftrightarrow> asked p' \<le> cost p + k \<and> (ok \<longrightarrow> sane p' \<and> cost p' \<le> cost p + k)"

lemma works_trans: "works p k p1 ok1 \<Longrightarrow> ok1 \<Longrightarrow> works p1 l p' ok \<Longrightarrow> works p (k + l) p' ok"
  by (auto simp: works_def)

lemma works_refl: "sane p \<Longrightarrow> works p 0 p True"
  by (simp add: works_def cost_def)

lemma works_mono: "works p k p' ok \<Longrightarrow> k \<le> l \<Longrightarrow> works p l p' ok"
  by (auto simp: works_def)

definition same_books :: "CodedPath \<Rightarrow> CodedPath \<Rightarrow> bool" where
  "same_books p p' \<longleftrightarrow> credit p' = credit p \<and> burstSymbols p' = burstSymbols p \<and> burstRepairs p' = burstRepairs p
     \<and> code p' = code p \<and> tailCache p' = tailCache p"

lemma sane_same: "same_books p p' \<Longrightarrow> sane p' = sane p"
  by (simp add: same_books_def sane_def)

lemma put_books: "put w p d = (p', sent, ok) \<Longrightarrow> asked p' = asked p + 1 \<and> same_books p p'"
  by (auto simp: put_def ask_def untake_def same_books_def split: send_result.splits)

lemma sendSource_books: "sendSource w p esi v = (p', ok) \<Longrightarrow> asked p' = asked p + 1 \<and> same_books p p'"
  by (auto simp: sendSource_def take_seq_def same_books_def split: prod.splits dest!: put_books)

lemma sendRepair_books: "sendRepair w p n = (p', ok) \<Longrightarrow> asked p' \<le> asked p + 1 \<and> same_books p p'"
  by (auto simp: sendRepair_def take_seq_def same_books_def Let_def split: prod.splits option.splits if_splits dest!: put_books)

lemma credit_loop_books:
  "credit_loop w p = (p', ok) \<Longrightarrow> 0 \<le> credit p \<Longrightarrow> 0 \<le> burstRepairs p \<Longrightarrow>
    asked p' \<le> asked p + nat \<lfloor>credit p\<rfloor> \<and> burstSymbols p' = burstSymbols p \<and> code p' = code p \<and> tailCache p' = tailCache p
    \<and> (ok \<longrightarrow> 0 \<le> credit p' \<and> credit p' < 1 \<and> 0 \<le> burstRepairs p')"
proof (induction w p arbitrary: p' rule: credit_loop.induct)
  case (1 w p)
  show ?case
  proof (cases "1 \<le> credit p")
    case True
    obtain p1 ok1 where r: "sendRepair w p 0 = (p1, ok1)" by fastforce
    note b = sendRepair_books [OF r]
    have fl: "1 \<le> \<lfloor>credit p\<rfloor>" using True by (simp add: le_floor_iff)
    then have one: "1 \<le> nat \<lfloor>credit p\<rfloor>" by linarith
    let ?q = "p1\<lparr>burstRepairs := burstRepairs p1 + 1, credit := credit p - 1\<rparr>"
    show ?thesis
    proof (cases ok1)
      case ok: True
      have "credit_loop w ?q = (p', ok)" using "1.prems"(1) True r ok by (simp add: credit_loop.simps [of w p])
      then have "asked p' \<le> asked ?q + nat \<lfloor>credit ?q\<rfloor> \<and> burstSymbols p' = burstSymbols ?q \<and> code p' = code ?q \<and> tailCache p' = tailCache ?q
          \<and> (ok \<longrightarrow> 0 \<le> credit p' \<and> credit p' < 1 \<and> 0 \<le> burstRepairs p')"
        using "1.IH" [OF True r [symmetric] ok] True "1.prems"(3) b by (simp add: same_books_def)
      moreover have "nat (\<lfloor>credit p\<rfloor> - 1) + 1 = nat \<lfloor>credit p\<rfloor>" using fl by linarith
      then have "nat \<lfloor>credit ?q\<rfloor> + 1 = nat \<lfloor>credit p\<rfloor>" by simp
      ultimately show ?thesis using b by (auto simp: same_books_def)
    next
      case False
      then have "p' = p1" "\<not> ok" using "1.prems"(1) True r by (auto simp: credit_loop.simps [of w p])
      moreover have "asked p1 \<le> asked p + nat \<lfloor>credit p\<rfloor>" using b one by linarith
      ultimately show ?thesis using b by (simp add: same_books_def)
    qed
  next
    case False
    then show ?thesis using "1.prems" by (simp add: credit_loop.simps [of w p])
  qed
qed

lemma size_code_rate: "0 \<le> crate (size_code w p) \<and> crate (size_code w p) \<le> 7"
  using WindowRate_range by (simp add: size_code_def Let_def)

lemma path_coding_books:
  assumes "path_coding w p = (p', ch)" "sane p"
  shows "asked p' = asked p + 1" "sane p'" "burstSymbols p' = burstSymbols p" "0 \<le> crate ch" "crate ch \<le> 7"
  using assms size_code_rate [of w "ask p"]
  by (auto simp: path_coding_def ask_def sane_def Let_def split: if_splits option.splits)

lemma path_emit_works:
  assumes "sane p" "path_emit w p payload i n = (p', ok)"
  shows "works p 16 p' ok"
proof -
  let ?v = "symbol_vector payload i n"
  obtain p1 ch where c: "path_coding w p = (p1, ch)" by fastforce
  note k = path_coding_books [OF c assms(1)]
  obtain e esi where e: "enc_Add (SetCapacity (encoder p1) (capacity ch)) ?v = (e, esi)" by fastforce
  obtain p2 ok2 where s: "sendSource w (p1\<lparr>encoder := e\<rparr>) esi ?v = (p2, ok2)" by fastforce
  have b: "asked p2 = asked p + 2" "same_books p1 p2" using sendSource_books [OF s] k(1) by (auto simp: same_books_def)
  have sane2: "sane p2" using sane_same [OF b(2)] k(2) by simp
  have bs: "burstSymbols p2 = burstSymbols p" using b(2) k(3) by (simp add: same_books_def)
  show ?thesis
  proof (cases ok2)
    case False
    then show ?thesis using assms(2) c e s b(1) by (simp add: path_emit_def works_def cost_def)
  next
    case True
    define p4 where "p4 = (let p3 = p2\<lparr>burstSymbols := burstSymbols p2 + 1\<rparr> in
      if burstSymbols p3 \<ge> int (length (ring (encoder p3))) then p3\<lparr>burstSymbols := 0, burstRepairs := 0\<rparr> else p3)"
    have run: "credit_loop w (p4\<lparr>credit := credit p4 + crate ch\<rparr>) = (p', ok)"
      using assms(2) c e s True by (simp add: path_emit_def p4_def Let_def)
    have p4: "sane p4" "asked p4 = asked p + 2" "burstSymbols p4 \<le> burstSymbols p + 1" "0 \<le> burstSymbols p"
      using sane2 b(1) bs by (auto simp: p4_def sane_def Let_def)
    have "credit p4 + crate ch < 8" "0 \<le> credit p4 + crate ch" using p4(1) k(4,5) by (auto simp: sane_def)
    then have fl: "nat \<lfloor>credit p4 + crate ch\<rfloor> \<le> 7" "0 \<le> credit p4 + crate ch" by linarith+
    have r: "asked p' \<le> asked p4 + nat \<lfloor>credit p4 + crate ch\<rfloor>" "burstSymbols p' = burstSymbols p4" "code p' = code p4"
      "tailCache p' = tailCache p4" "ok \<longrightarrow> 0 \<le> credit p' \<and> credit p' < 1 \<and> 0 \<le> burstRepairs p'"
      using credit_loop_books [OF run] fl(2) p4(1) by (auto simp: sane_def)
    have "asked p' \<le> asked p + 9" using r(1) fl(1) p4(2) by linarith
    moreover have "nat (burstSymbols p') \<le> nat (burstSymbols p) + 1" using r(2) p4(3,4) by linarith
    moreover have "ok \<longrightarrow> sane p'" using r p4(1) by (auto simp: sane_def)
    ultimately show ?thesis by (auto simp: works_def cost_def)
  qed
qed

lemma works_packed: "works p k (p'\<lparr>packed := b\<rparr>) ok = works p k p' ok"
  by (simp add: works_def cost_def sane_def)

lemma flushPacked_works: "sane p \<Longrightarrow> flushPacked w p = (p', ok) \<Longrightarrow> works p 16 p' ok"
proof (cases "packed p = []")
  case True
  assume "sane p" "flushPacked w p = (p', ok)"
  then show ?thesis using True works_mono [OF works_refl, of p 16] by (simp add: flushPacked_def)
next
  case False
  assume a: "sane p" "flushPacked w p = (p', ok)"
  obtain p1 where e: "path_emit w p (packed p) 0 1 = (p1, ok)" "p' = p1\<lparr>packed := []\<rparr>"
    using a(2) False by (auto simp: flushPacked_def split: prod.splits)
  show ?thesis using path_emit_works [OF a(1) e(1)] e(2) by (simp add: works_packed)
qed

lemma fragments_loop_works: "sane p \<Longrightarrow> fragments_loop w f limit count is p = (p', ok) \<Longrightarrow> works p (16 * length is) p' ok"
proof (induction "is" arbitrary: p)
  case Nil
  then show ?case using works_refl by simp
next
  case (Cons i "is")
  obtain p1 ok1 where e: "path_emit w p (go_slice (i * limit) (min ((i + 1) * limit) (length f)) f) i count = (p1, ok1)" by fastforce
  note a = path_emit_works [OF Cons.prems(1) e]
  show ?case
  proof (cases ok1)
    case True
    then have "sane p1" "fragments_loop w f limit count is p1 = (p', ok)" using Cons.prems(2) e a by (simp_all add: works_def)
    then have "works p1 (16 * length is) p' ok" by (rule Cons.IH)
    then show ?thesis using works_trans [OF a True] by simp
  next
    case False
    then show ?thesis using Cons.prems(2) e a works_mono [of p 16 p1 ok1] by simp
  qed
qed

lemma fragment_count: "0 < limit \<Longrightarrow> (n + limit - 1) div limit \<le> n" for n limit :: nat
proof -
  assume "0 < limit"
  then obtain l where l: "limit = Suc l" by (cases limit) auto
  have "n + l < Suc l * Suc n" by simp
  then have "(n + l) div Suc l < Suc n" by (intro less_mult_imp_div_less) (simp add: mult.commute)
  then show ?thesis by (simp add: l)
qed

lemma append_sized_works:
  assumes "sane p" "append_sized w p f L = (p', ok)" and L: "0 < L"
  shows "works p (16 * (length f + 1)) p' ok"
proof -
  show ?thesis
  proof (cases "frameHeader + length f > L")
    case True
    obtain p1 ok1 where fl: "flushPacked w p = (p1, ok1)" by fastforce
    note a = flushPacked_works [OF assms(1) fl]
    show ?thesis
    proof (cases ok1)
      case ok1: True
      have s: "sane p1" using a ok1 by (simp add: works_def)
      let ?c = "(length f + L - 1) div L"
      have "sendFragments w p1 f L = (p', ok)" using assms(2) True fl ok1 by (simp add: append_sized_def)
      then have "works p1 (16 * ?c) p' ok"
        using fragments_loop_works [OF s, of w f L ?c "[0..<?c]"] works_refl [OF s] works_mono [of p1 0]
        by (auto simp: sendFragments_def works_def Let_def split: if_splits)
      then have "works p (16 + 16 * ?c) p' ok" using works_trans [OF a ok1] by simp
      then show ?thesis by (rule works_mono) (use fragment_count [OF L, of "length f"] in simp)
    next
      case False
      then show ?thesis using assms(2) True fl a works_mono [of p 16 p1 ok1] by (simp add: append_sized_def)
    qed
  next
    case False
    obtain p1 ok1 where fl: "(if length (packed p) + frameHeader + length f > L then flushPacked w p else (p, True)) = (p1, ok1)" by fastforce
    have a: "works p 16 p1 ok1"
      using fl flushPacked_works [OF assms(1)] works_mono [OF works_refl [OF assms(1)], of 16] by (auto split: if_splits)
    then have "works p 16 p' ok" using assms(2) False fl by (auto simp: append_sized_def works_packed split: if_splits)
    then show ?thesis by (rule works_mono) simp
  qed
qed

lemma appendFrame_works:
  assumes "sane p" "appendFrame w p f = (p', ok)"
  shows "works p (16 * (length f + 1)) p' ok"
proof -
  have "0 < symbolPayload w p" by (auto simp: symbolPayload_def symbolBytes_def coded_consts Let_def split: option.splits)
  moreover have "sane (p\<lparr>sized := sized p + 1\<rparr>)" "cost (p\<lparr>sized := sized p + 1\<rparr>) = cost p" using assms(1) by (simp_all add: sane_def cost_def)
  ultimately show ?thesis using append_sized_works [OF _ assms(2) [unfolded appendFrame_def]] by (simp add: works_def)
qed

lemma append_all_works: "sane p \<Longrightarrow> append_all w p fs = (p', ok) \<Longrightarrow> works p (16 * (\<Sum>f\<leftarrow>fs. length f + 1)) p' ok"
proof (induction fs arbitrary: p)
  case Nil
  then show ?case using works_refl by simp
next
  case (Cons f fs)
  obtain p1 ok1 where e: "appendFrame w p f = (p1, ok1)" by fastforce
  note a = appendFrame_works [OF Cons.prems(1) e]
  show ?case
  proof (cases ok1)
    case True
    then have "sane p1" "append_all w p1 fs = (p', ok)" using Cons.prems(2) e a by (simp_all add: works_def)
    then have "works p1 (16 * (\<Sum>f\<leftarrow>fs. length f + 1)) p' ok" by (rule Cons.IH)
    from works_trans [OF a True this] show ?thesis by (rule works_mono) simp
  next
    case False
    then show ?thesis using Cons.prems(2) e a works_mono [of p "16 * (length f + 1)" p1 ok1] by simp
  qed
qed

lemma protect_loop_books:
  "protect_loop w want p = (p', ok) \<Longrightarrow> 0 \<le> burstRepairs p \<Longrightarrow>
    asked p' \<le> asked p + nat (want - burstRepairs p) \<and> credit p' = credit p \<and> burstSymbols p' = burstSymbols p
    \<and> code p' = code p \<and> tailCache p' = tailCache p"
proof (induction w want p arbitrary: p' rule: protect_loop.induct)
  case (1 w want p)
  show ?case
  proof (cases "burstRepairs p < want")
    case True
    obtain p1 ok1 where r: "sendRepair w p (burstSymbols p) = (p1, ok1)" by fastforce
    note b = sendRepair_books [OF r]
    let ?q = "p1\<lparr>burstRepairs := burstRepairs p + 1\<rparr>"
    show ?thesis
    proof (cases ok1)
      case ok: True
      have "protect_loop w want ?q = (p', ok)" using "1.prems"(1) True r ok by (simp add: protect_loop.simps [of w want p])
      then have "asked p' \<le> asked ?q + nat (want - burstRepairs ?q) \<and> credit p' = credit ?q \<and> burstSymbols p' = burstSymbols ?q
          \<and> code p' = code ?q \<and> tailCache p' = tailCache ?q"
        using "1.IH" [OF True r [symmetric] ok] "1.prems"(2) by simp
      then show ?thesis using b True by (auto simp: same_books_def)
    next
      case False
      then show ?thesis using "1.prems" True r b by (auto simp: protect_loop.simps [of w want p] same_books_def)
    qed
  next
    case False
    then show ?thesis using "1.prems" by (simp add: protect_loop.simps [of w want p])
  qed
qed

lemma shards_bound: "0 < n \<Longrightarrow> (case ShardsFor n s q of (m, ok) \<Rightarrow> if ok then m - n else 0) \<le> 7 * n"
proof (cases "ShardsFor n s q")
  case (Pair m ok)
  assume "0 < n"
  then show ?thesis using ShardsFor_range [of n s q m] Pair by (cases ok) auto
qed

lemma tailRepairs_books:
  assumes "tailRepairs w p n = (p', want)" "sane p" "0 < n"
  shows "asked p' = asked p" "sane p'" "burstSymbols p' = burstSymbols p" "burstRepairs p' = burstRepairs p" "want \<le> 7 * n"
proof -
  note sb = shards_bound [OF assms(3)]
  have "asked p' = asked p \<and> sane p' \<and> burstSymbols p' = burstSymbols p \<and> burstRepairs p' = burstRepairs p \<and> want \<le> 7 * n"
    using assms sb by (auto simp: tailRepairs_def sane_def Let_def split: if_splits option.splits)
  then show "asked p' = asked p" "sane p'" "burstSymbols p' = burstSymbols p" "burstRepairs p' = burstRepairs p" "want \<le> 7 * n" by blast+
qed

lemma protectBurst_works:
  assumes "sane p" "protectBurst w p = (p', ok)"
  shows "works p 0 p' ok"
proof (cases "burstSymbols p \<le> 0")
  case True
  then show ?thesis using assms works_refl by (simp add: protectBurst_def)
next
  case False
  obtain p1 want where t: "tailRepairs w p (burstSymbols p) = (p1, want)" by fastforce
  note k = tailRepairs_books [OF t assms(1)]
  obtain p2 ok2 where l: "protect_loop w want p1 = (p2, ok2)" by fastforce
  have r: "0 \<le> burstRepairs p1" "want \<le> 7 * burstSymbols p" using k assms(1) False by (auto simp: sane_def)
  note b = protect_loop_books [OF l r(1)]
  have "nat (want - burstRepairs p1) \<le> 7 * nat (burstSymbols p)" using r False by linarith
  then have a: "asked p2 \<le> cost p" using b k(1) False by (simp add: cost_def)
  show ?thesis
  proof (cases ok2)
    case True
    let ?q = "p2\<lparr>burstSymbols := 0, burstRepairs := 0, credit := 0\<rparr>"
    have "p' = ?q" "ok" using assms(2) False t l True by (auto simp: protectBurst_def)
    moreover have "sane ?q" using b k(2) False by (simp add: sane_def)
    ultimately show ?thesis using a by (simp add: works_def cost_def)
  next
    case no: False
    then show ?thesis using assms(2) False t l a by (simp add: protectBurst_def works_def)
  qed
qed

lemma send_batch_works:
  assumes "sane p" "send_batch w p fs = (p', ok)"
  shows "works p (16 * (\<Sum>f\<leftarrow>fs. length f + 1) + 16) p' ok"
proof -
  obtain p1 ok1 where a: "append_all w p fs = (p1, ok1)" by fastforce
  note wa = append_all_works [OF assms(1) a]
  show ?thesis
  proof (cases ok1)
    case False
    then show ?thesis using assms(2) a wa works_mono [of p "16 * (\<Sum>f\<leftarrow>fs. length f + 1)" p1 ok1] by (simp add: send_batch_def)
  next
    case True
    have s1: "sane p1" using wa True by (simp add: works_def)
    obtain p2 ok2 where f: "flushPacked w p1 = (p2, ok2)" by fastforce
    note wf = flushPacked_works [OF s1 f]
    have "works p1 16 p' ok"
    proof (cases ok2)
      case ok2: True
      then have "protectBurst w p2 = (p', ok)" "sane p2" using assms(2) a f True wf by (auto simp: send_batch_def works_def)
      then show ?thesis using works_trans [OF wf ok2] protectBurst_works by fastforce
    next
      case False
      then show ?thesis using assms(2) a f True wf by (simp add: send_batch_def)
    qed
    then show ?thesis using works_trans [OF wa True] by simp
  qed
qed

lemma sendLoop_works:
  "sane p \<Longrightarrow> sendLoop w p bs = (p', ok) \<Longrightarrow> works p (16 * (\<Sum>b\<leftarrow>bs. (\<Sum>f\<leftarrow>b. length f + 1) + 1)) p' ok"
proof (induction bs arbitrary: p)
  case Nil
  then show ?case using works_refl by simp
next
  case (Cons b bs)
  obtain p1 ok1 where e: "send_batch w p b = (p1, ok1)" by fastforce
  note a = send_batch_works [OF Cons.prems(1) e]
  show ?case
  proof (cases ok1)
    case True
    then have "sane p1" "sendLoop w p1 bs = (p', ok)" using Cons.prems(2) e a by (simp_all add: works_def)
    then have "works p1 (16 * (\<Sum>b\<leftarrow>bs. (\<Sum>f\<leftarrow>b. length f + 1) + 1)) p' ok" by (rule Cons.IH)
    from works_trans [OF a True this] show ?thesis by (rule works_mono) simp
  next
    case False
    then show ?thesis using Cons.prems(2) e a works_mono [of p _ p1 ok1] by simp
  qed
qed

text \<open>C28: the sender's work is bounded by what it is given. Whatever the channel is measured to be and whatever the
  carrier answers, the loops that send fragments, pay for repairs and protect the end of a burst all end, and the
  clock readings and datagrams together number at most sixteen for each byte, frame and batch.\<close>

theorem send_work_bounded:
  assumes "sendLoop w (NewPath c) batches = (p, ok)"
  shows "asked p \<le> 16 * (\<Sum>b\<leftarrow>batches. (\<Sum>f\<leftarrow>b. length f + 1) + 1)"
proof -
  have "sane (NewPath c)" "cost (NewPath c) = 0" by (simp_all add: sane_def NewPath_def cost_def)
  then show ?thesis
    using sendLoop_works [OF _ assms] by (simp add: works_def)
qed

theorem send_work_bounded_witness:
  "asked (fst (sendLoop steady_world (NewPath plain_config) [[[1, 2, 3]], [[4]]])) \<le> 128"
  using send_work_bounded [of steady_world plain_config "[[[1, 2, 3]], [[4]]]", OF prod.collapse [symmetric]] by (simp del: sendLoop.simps)

end
