(* ===== verification/Lanes.thy ===== *)
theory Lanes
  imports Prelude
begin

text \<open>
  The lanes of a flow (\<^verbatim>\<open>internal/pep/mpflow.go\<close>) and their admission on the gateway
  (\<^verbatim>\<open>internal/pep/server.go\<close>). A \<^verbatim>\<open>*mpLane\<close> is an address of \<^verbatim>\<open>store\<close>, because the code compares
  lanes by pointer; the map \<^verbatim>\<open>f.lanes\<close> is an association list whose order is the order in which an
  iteration happens to visit it. Each section under \<^verbatim>\<open>lanesMu\<close> is one operation. The calls a
  lane change makes outside the lock, to the scheduler, to the lane's connection and to the
  goroutines of a starting lane, are appended to \<^verbatim>\<open>retiredLanes\<close>, \<^verbatim>\<open>closedConns\<close> and \<^verbatim>\<open>started\<close>.
\<close>

section \<open>State\<close>

datatype TransportKind = TransportTCP | TransportQUIC | TransportAuto

text \<open>\<^verbatim>\<open>fc\<close> says whether the lane has a connection; the queues are their capacities.\<close>

record mpLane =
  lane_id :: u64
  kind :: TransportKind
  fc :: bool
  staged :: bool
  ready :: bool
  control :: bool
  closed :: bool
  suspected :: bool
  lane_sent :: u64
  lane_recv :: u64
  admitted :: int
  writeQ :: "int option"
  writeInteractiveQ :: "int option"
  writeSlots :: "int option"
  writeDone :: bool

text \<open>
  \<^verbatim>\<open>controlLaneShared\<close> is \<^verbatim>\<open>None\<close> for a nil function and otherwise its answer. A rescue hint is an
  allocated object: its number is its address.
\<close>

record laneFlow =
  store :: "nat \<Rightarrow> mpLane"
  lanes :: "(u64 \<times> nat) list"
  nextJoinID :: u64
  lanesJoined :: u64
  finished :: bool
  doneClosed :: bool
  finSent :: bool
  remoteFinSeen :: bool
  reserveControlLane :: bool
  tcpStriping :: bool
  controlLaneShared :: "bool option"
  rescueHint :: "(nat \<times> u64) option"
  hints :: nat
  laneWriteQueue :: int
  laneControlReserve :: int
  eventQueue :: int
  replacementDeadline :: int
  scheduler :: bool
  laneFailures :: u64
  laneErr :: "nat list"
  started :: "nat list"
  retiredLanes :: "u64 list"
  closedConns :: "nat list"
  closeOnce :: bool
  innerClosed :: bool

datatype lane_error = InvalidLane | LaneFlowClosed | LaneDuplicateID | LaneNotStaged | StagedLaneGone
  | LaneFlowTCPMode | LaneLimitReached | NoHealthyLanes | NoLaneID

abbreviation lane_at :: "('x) laneFlow_scheme \<Rightarrow> nat \<Rightarrow> mpLane" where
  "lane_at f a \<equiv> store f a"

abbreviation upd_lane :: "nat \<Rightarrow> (mpLane \<Rightarrow> mpLane) \<Rightarrow> ('x) laneFlow_scheme \<Rightarrow> ('x) laneFlow_scheme" where
  "upd_lane a g f \<equiv> f\<lparr>store := (store f)(a := g (store f a))\<rparr>"

definition laneByID :: "('x) laneFlow_scheme \<Rightarrow> u64 \<Rightarrow> nat option" where
  "laneByID f laneID = map_of (lanes f) laneID"

definition delete_lane :: "u64 \<Rightarrow> ('x) laneFlow_scheme \<Rightarrow> ('x) laneFlow_scheme" where
  "delete_lane i f = f\<lparr>lanes := filter (\<lambda>(k, a). k \<noteq> i) (lanes f)\<rparr>"

definition sched_RetireLane :: "u64 \<Rightarrow> ('x) laneFlow_scheme \<Rightarrow> ('x) laneFlow_scheme" where
  "sched_RetireLane i f = (if scheduler f then f\<lparr>retiredLanes := retiredLanes f @ [i]\<rparr> else f)"

definition fc_Close :: "nat \<Rightarrow> ('x) laneFlow_scheme \<Rightarrow> ('x) laneFlow_scheme" where
  "fc_Close a f = (if fc (store f a) then f\<lparr>closedConns := closedConns f @ [a]\<rparr> else f)"

section \<open>Joining\<close>

definition endReplacementOutage :: "('x) laneFlow_scheme \<Rightarrow> ('x) laneFlow_scheme" where
  "endReplacementOutage f = f\<lparr>replacementDeadline := 0\<rparr>"

definition startLane :: "('x) laneFlow_scheme \<Rightarrow> nat \<Rightarrow> ('x) laneFlow_scheme" where
  "startLane f a = (endReplacementOutage f)\<lparr>started := started f @ [a]\<rparr>"

definition validateLaneLocked :: "('x) laneFlow_scheme \<Rightarrow> nat option \<Rightarrow> lane_error option" where
  "validateLaneLocked f lane =
     (case lane of
        None \<Rightarrow> Some InvalidLane
      | Some a \<Rightarrow>
          if \<not> fc (store f a) then Some InvalidLane
          else if finished f \<or> doneClosed f then Some LaneFlowClosed
          else if laneByID f (lane_id (store f a)) \<noteq> None then Some LaneDuplicateID
          else None)"

definition maxLaneWriteQueue :: int where "maxLaneWriteQueue = 64"
definition maxLaneInteractiveReserve :: int where "maxLaneInteractiveReserve = 8"

definition lane_queues :: "int \<Rightarrow> int \<Rightarrow> int \<Rightarrow> mpLane \<Rightarrow> mpLane" where
  "lane_queues queue reserve now l =
     l\<lparr>writeQ := (case writeQ l of None \<Rightarrow> Some (queue - reserve) | Some n \<Rightarrow> Some n),
       writeInteractiveQ := (case writeInteractiveQ l of None \<Rightarrow> Some queue | Some n \<Rightarrow> Some n),
       writeSlots := (case writeSlots l of None \<Rightarrow> Some queue | Some n \<Rightarrow> Some n),
       writeDone := True, admitted := now\<rparr>"

definition addLaneLocked :: "('x) laneFlow_scheme \<Rightarrow> int \<Rightarrow> nat \<Rightarrow> ('x) laneFlow_scheme" where
  "addLaneLocked f now a =
     (let (queue, reserve) =
        (if laneWriteQueue f < 2 \<or> laneControlReserve f \<ge> laneWriteQueue f
         then (maxLaneWriteQueue, maxLaneInteractiveReserve)
         else (laneWriteQueue f, laneControlReserve f));
      f1 = upd_lane a (lane_queues queue reserve now) f;
      i = lane_id (store f a);
      f2 = f1\<lparr>lanes := lanes f1 @ [(i, a)], lanesJoined := lanesJoined f1 + 1,
        nextJoinID := (if i \<ge> nextJoinID f1 then i + 1 else nextJoinID f1)\<rparr> in
      if \<not> staged (store f a) then startLane f2 a else f2)"

definition addLane :: "('x) laneFlow_scheme \<Rightarrow> int \<Rightarrow> nat option \<Rightarrow> ('x) laneFlow_scheme \<times> lane_error option" where
  "addLane f now lane =
     (case validateLaneLocked f lane of
        Some e \<Rightarrow> (f, Some e)
      | None \<Rightarrow> (addLaneLocked f now (the lane), None))"

definition activateLane :: "('x) laneFlow_scheme \<Rightarrow> nat option \<Rightarrow> ('x) laneFlow_scheme \<times> lane_error option" where
  "activateLane f lane =
     (case lane of
        None \<Rightarrow> (f, Some LaneNotStaged)
      | Some a \<Rightarrow>
          if \<not> staged (store f a) then (f, Some LaneNotStaged)
          else if laneByID f (lane_id (store f a)) \<noteq> Some a \<or> closed (store f a) \<or> finished f \<or> doneClosed f
          then (f, Some StagedLaneGone)
          else if ready (store f a) then (f, None)
          else (startLane (upd_lane a (ready_update (\<lambda>_. True)) f) a, None))"

function join_scan :: "u64 list \<Rightarrow> u64 \<Rightarrow> u64 option" where
  "join_scan ids i =
     (if i < 0x100000 then (if i \<notin> set ids then Some i else join_scan ids (i + 1)) else None)"
  by pat_completeness auto
termination
proof (relation "measure (\<lambda>(ids, i). 0x100000 - unat i)")
  fix ids and i :: u64
  assume "i < 0x100000"
  then have "unat i < 0x100000" by (simp add: word_less_nat_alt)
  moreover from this have "unat (i + 1) = unat i + 1" by (simp add: unat_word_ariths)
  ultimately show "((ids, i + 1), ids, i) \<in> measure (\<lambda>(ids, i). 0x100000 - unat i)" by simp
qed simp

declare join_scan.simps [simp del]

definition allocateJoinID :: "('x) laneFlow_scheme \<Rightarrow> ('x) laneFlow_scheme \<times> (lane_error + u64)" where
  "allocateJoinID f =
     (case join_scan (map fst (lanes f)) (nextJoinID f) of
        None \<Rightarrow> (f, Inl NoLaneID)
      | Some i \<Rightarrow> (f\<lparr>nextJoinID := i + 1\<rparr>, Inr i))"

section \<open>Roles and choice\<close>

fun laneReady :: "mpLane option \<Rightarrow> bool" where
  "laneReady None \<longleftrightarrow> False"
| "laneReady (Some l) \<longleftrightarrow> \<not> staged l \<or> ready l"

fun laneIsControl :: "('x) laneFlow_scheme \<Rightarrow> mpLane option \<Rightarrow> bool" where
  "laneIsControl f None \<longleftrightarrow> False"
| "laneIsControl f (Some l) \<longleftrightarrow> reserveControlLane f \<and> (control l \<or> lane_id l = 0)"

abbreviation is_control :: "('x) laneFlow_scheme \<Rightarrow> nat \<Rightarrow> bool" where
  "is_control f a \<equiv> laneIsControl f (Some (store f a))"

definition laneCount :: "('x) laneFlow_scheme \<Rightarrow> nat" where
  "laneCount f = length (filter (\<lambda>(k, a). \<not> closed (store f a)) (lanes f))"

definition healthyLanes :: "('x) laneFlow_scheme \<Rightarrow> nat list" where
  "healthyLanes f = sort_key (\<lambda>a. lane_id (store f a))
     (filter (\<lambda>a. \<not> closed (store f a) \<and> laneReady (Some (store f a))) (map snd (lanes f)))"

definition preferUnsuspectedLanes :: "('x) laneFlow_scheme \<Rightarrow> nat list \<Rightarrow> nat list" where
  "preferUnsuspectedLanes f ls =
     (let clear = length (filter (\<lambda>a. \<not> suspected (store f a)) ls) in
      if clear = 0 \<or> clear = length ls then ls else filter (\<lambda>a. \<not> suspected (store f a)) ls)"

definition isolateFromControlLane :: "('x) laneFlow_scheme \<Rightarrow> nat option \<Rightarrow> bool" where
  "isolateFromControlLane f ctl =
     (case ctl of None \<Rightarrow> True
      | Some _ \<Rightarrow> (case controlLaneShared f of None \<Rightarrow> True | Some shared \<Rightarrow> shared))"

fun data_loop :: "('x) laneFlow_scheme \<Rightarrow> nat option \<Rightarrow> nat list \<Rightarrow> nat option" where
  "data_loop f ctl [] = None"
| "data_loop f ctl (a # ls) =
     (if is_control f a then data_loop f (Some a) ls
      else if isolateFromControlLane f ctl then Some a
      else None)"

definition dataLane :: "('x) laneFlow_scheme \<Rightarrow> nat list \<Rightarrow> nat list" where
  "dataLane f ls =
     (if tcpStriping f \<and> length ls > 1 then
        (if list_all (\<lambda>a. kind (store f a) = TransportTCP) ls then ls else take 1 ls)
      else if length ls = 1 \<or> \<not> reserveControlLane f then take 1 ls
      else (case data_loop f None ls of Some a \<Rightarrow> [a] | None \<Rightarrow> take 1 ls))"

definition laneCandidates :: "('x) laneFlow_scheme \<Rightarrow> bool \<Rightarrow> lane_error + nat list" where
  "laneCandidates f bulk =
     (let ls = healthyLanes f in
      if ls = [] then Inl NoHealthyLanes
      else
        (let ls = preferUnsuspectedLanes f ls in
         if \<not> bulk then
           (case find (is_control f) ls of Some a \<Rightarrow> Inr [a] | None \<Rightarrow> Inr (take 1 ls))
         else Inr (dataLane f ls)))"

definition setRescueReplacement :: "('x) laneFlow_scheme \<Rightarrow> u64 \<Rightarrow> ('x) laneFlow_scheme" where
  "setRescueReplacement f i = f\<lparr>rescueHint := Some (hints f, i), hints := Suc (hints f)\<rparr>"

definition rescueReplacement :: "('x) laneFlow_scheme \<Rightarrow> u64 option" where
  "rescueReplacement f = map_option snd (rescueHint f)"

definition clearRescueReplacement :: "('x) laneFlow_scheme \<Rightarrow> ('x) laneFlow_scheme" where
  "clearRescueReplacement f = f\<lparr>rescueHint := None\<rparr>"

definition clearRescueReplacementSnapshot :: "('x) laneFlow_scheme \<Rightarrow> (nat \<times> u64) option \<Rightarrow> ('x) laneFlow_scheme" where
  "clearRescueReplacementSnapshot f hint =
     (if hint \<noteq> None \<and> rescueHint f = hint then f\<lparr>rescueHint := None\<rparr> else f)"

definition suspectDataLanes :: "('x) laneFlow_scheme \<Rightarrow> ('x) laneFlow_scheme \<times> bool" where
  "suspectDataLanes f =
     (let ls = healthyLanes f in
      if ls = [] then (f, False)
      else
        (let d = dataLane f (preferUnsuspectedLanes f ls);
             f1 = foldl (\<lambda>g a. upd_lane a (suspected_update (\<lambda>_. True)) g) f d;
             f2 = (if d \<noteq> [] then setRescueReplacement f1 (lane_id (store f1 (hd d))) else f1) in
         (f2, list_ex (\<lambda>a. \<not> suspected (store f2 a)) (healthyLanes f2))))"

section \<open>Leaving\<close>

definition removeLane :: "('x) laneFlow_scheme \<Rightarrow> nat \<Rightarrow> ('x) laneFlow_scheme" where
  "removeLane f a =
     (let i = lane_id (store f a) in
      if laneByID f i \<noteq> Some a then f
      else fc_Close a (upd_lane a (closed_update (\<lambda>_. True)) (delete_lane i f)))"

definition retireLaneByID :: "('x) laneFlow_scheme \<Rightarrow> u64 \<Rightarrow> ('x) laneFlow_scheme \<times> bool" where
  "retireLaneByID f i =
     (case laneByID f i of
        None \<Rightarrow> (f, False)
      | Some a \<Rightarrow>
          if closed (store f a) then (delete_lane i f, False)
          else (fc_Close a (sched_RetireLane (lane_id (store f a))
                 (upd_lane a (closed_update (\<lambda>_. True)) (delete_lane i f))), True))"

definition retire_open :: "('x) laneFlow_scheme \<Rightarrow> u64 \<times> nat \<Rightarrow> ('x) laneFlow_scheme" where
  "retire_open f ka = upd_lane (snd ka) (closed_update (\<lambda>_. True)) (delete_lane (fst ka) f)"

definition announce_retired :: "('x) laneFlow_scheme \<Rightarrow> u64 \<times> nat \<Rightarrow> ('x) laneFlow_scheme" where
  "announce_retired f ka = fc_Close (snd ka) (sched_RetireLane (lane_id (store f (snd ka))) f)"

definition retireLanesExcept :: "('x) laneFlow_scheme \<Rightarrow> TransportKind \<Rightarrow> ('x) laneFlow_scheme \<times> nat" where
  "retireLanesExcept f k =
     (let retired = filter (\<lambda>(i, a). \<not> (closed (store f a) \<or> kind (store f a) = k)) (lanes f) in
      (foldl announce_retired (foldl retire_open f retired) retired, length retired))"

definition lane_work :: "mpLane \<Rightarrow> u64" where
  "lane_work l = lane_sent l + lane_recv l"

definition least_step :: "('x) laneFlow_scheme \<Rightarrow> nat option \<Rightarrow> u64 \<times> nat \<Rightarrow> nat option" where
  "least_step f victim ka =
     (let l = store f (snd ka) in
      if closed l \<or> \<not> laneReady (Some l) \<or> lane_id l = 0 \<or> is_control f (snd ka) then victim
      else case victim of
          None \<Rightarrow> Some (snd ka)
        | Some v \<Rightarrow>
            if lane_work l < lane_work (store f v)
              \<or> lane_work l = lane_work (store f v) \<and> lane_id l > lane_id (store f v)
            then Some (snd ka) else Some v)"

definition least_productive :: "('x) laneFlow_scheme \<Rightarrow> nat option" where
  "least_productive f = foldl (least_step f) None (lanes f)"

definition retireLeastProductiveLane :: "('x) laneFlow_scheme \<Rightarrow> ('x) laneFlow_scheme \<times> bool" where
  "retireLeastProductiveLane f =
     (case least_productive f of
        None \<Rightarrow> (f, False)
      | Some v \<Rightarrow>
          (let ka = (lane_id (store f v), v) in (announce_retired (retire_open f ka) ka, True)))"

text \<open>
  \<^verbatim>\<open>closeFailedLane\<close> marks the lane before it takes the lock: the compare-and-swap and the rest are
  two steps, and other goroutines run between them.
\<close>

definition fail_mark :: "('x) laneFlow_scheme \<Rightarrow> nat \<Rightarrow> ('x) laneFlow_scheme \<times> bool" where
  "fail_mark f a =
     (if closed (store f a) then (f, False)
      else (upd_lane a (closed_update (\<lambda>_. True)) f, True))"

definition fail_finish :: "('x) laneFlow_scheme \<Rightarrow> nat \<Rightarrow> ('x) laneFlow_scheme" where
  "fail_finish f a =
     (let i = lane_id (store f a);
          f1 = setRescueReplacement f i;
          f2 = (if laneByID f1 i = Some a then delete_lane i f1 else f1) in
      sched_RetireLane i (fc_Close a f2))"

definition closeFailedLane :: "('x) laneFlow_scheme \<Rightarrow> nat option \<Rightarrow> ('x) laneFlow_scheme \<times> bool" where
  "closeFailedLane f lane =
     (case lane of
        None \<Rightarrow> (f, False)
      | Some a \<Rightarrow> (case fail_mark f a of (f1, ok) \<Rightarrow> if ok then (fail_finish f1 a, True) else (f1, False)))"

definition reportLaneFailure :: "('x) laneFlow_scheme \<Rightarrow> nat \<Rightarrow> ('x) laneFlow_scheme" where
  "reportLaneFailure f a =
     (if finished f \<or> finSent f \<and> remoteFinSeen f \<or> doneClosed f then f
      else
        (let f1 = f\<lparr>laneFailures := laneFailures f + 1\<rparr> in
         if int (length (laneErr f1)) < eventQueue f1 then f1\<lparr>laneErr := laneErr f1 @ [a]\<rparr> else f1))"

definition failLane :: "('x) laneFlow_scheme \<Rightarrow> nat option \<Rightarrow> ('x) laneFlow_scheme" where
  "failLane f lane =
     (case closeFailedLane f lane of (f1, ok) \<Rightarrow> if ok then reportLaneFailure f1 (the lane) else f1)"

text \<open>
  \<^verbatim>\<open>closeAll\<close> ends the flow: under the lock it sets \<^verbatim>\<open>finished\<close> and marks every lane of the table closed, and leaves
  them there; then it closes the inner connection and those of the lanes. Its body runs once, \<^verbatim>\<open>closeOnce\<close>; \<^verbatim>\<open>done\<close> is
  closed by every call, and the acknowledgement tracker with it, which is not part of this state. A failing lane's compare-and-swap needs no lock; one that falls between two marks of
  the loop has the effect of one before or after all of them, since it touches one lane and does not read \<^verbatim>\<open>finished\<close>.
\<close>

definition closeAll_mark :: "('x) laneFlow_scheme \<Rightarrow> ('x) laneFlow_scheme \<times> (u64 \<times> nat) list" where
  "closeAll_mark f =
     (foldl (\<lambda>g ka. upd_lane (snd ka) (closed_update (\<lambda>_. True)) g) (f\<lparr>closeOnce := True, finished := True\<rparr>) (lanes f), lanes f)"

definition signalDone :: "('x) laneFlow_scheme \<Rightarrow> ('x) laneFlow_scheme" where
  "signalDone f = f\<lparr>doneClosed := True\<rparr>"

definition closeAll :: "('x) laneFlow_scheme \<Rightarrow> ('x) laneFlow_scheme" where
  "closeAll f =
     (if closeOnce f then signalDone f
      else
        (let (f1, ls) = closeAll_mark f in
         signalDone (foldl (\<lambda>g ka. fc_Close (snd ka) g) (f1\<lparr>innerClosed := True\<rparr>) ls)))"

section \<open>Admission on the gateway\<close>

definition laneDeadPathDetection :: int where "laneDeadPathDetection = 15 * 10 ^ 9"

definition oldest_step ::
  "('x) laneFlow_scheme \<Rightarrow> bool \<Rightarrow> int \<Rightarrow> int \<Rightarrow> (u64 \<times> nat) list \<Rightarrow> nat option \<Rightarrow> u64 \<times> nat \<Rightarrow> nat option" where
  "oldest_step f ctl now minAge excluded victim ka =
     (let a = snd ka; l = store f a in
      if closed l \<or> map_of excluded (lane_id l) \<noteq> None then victim
      else if minAge > 0 \<and> now - admitted l < minAge then victim
      else case victim of
          None \<Rightarrow> Some a
        | Some v \<Rightarrow>
            if is_control f a = ctl \<and> is_control f v \<noteq> ctl then Some a
            else if is_control f a = is_control f v \<and> lane_id l < lane_id (store f v) then Some a
            else Some v)"

definition oldestLaneLocked ::
  "('x) laneFlow_scheme \<Rightarrow> bool \<Rightarrow> int \<Rightarrow> int \<Rightarrow> (u64 \<times> nat) list \<Rightarrow> nat option" where
  "oldestLaneLocked f ctl now minAge excluded =
     foldl (oldest_step f ctl now minAge excluded) None (lanes f)"

definition bulkLaneBudget :: "bool \<Rightarrow> int \<times> int" where
  "bulkLaneBudget reserveControl = (if reserveControl then (1, 1) else (1, 0))"

definition serverLaneBudget :: "bool \<Rightarrow> int" where
  "serverLaneBudget reserveControl = (case bulkLaneBudget reserveControl of (bulk, ctl) \<Rightarrow> bulk + ctl)"

record serverFlow = laneFlow +
  maxLanes :: int
  tcpMaxLanes :: int
  tcpMode :: bool

definition newServerFlow :: "laneFlow \<Rightarrow> TransportKind \<Rightarrow> int \<Rightarrow> serverFlow" where
  "newServerFlow f initialKind tcpMax =
     (let s = laneFlow.extend f \<lparr>maxLanes = serverLaneBudget (reserveControlLane f), tcpMaxLanes = tcpMax, tcpMode = False\<rparr> in
      if initialKind = TransportTCP
      then s\<lparr>tcpMode := True, maxLanes := tcpMax, tcpStriping := tcpMax > 1\<rparr>
      else s)"

text \<open>Which lanes an admission displaces whatever the room: the others, and the named lane.\<close>

definition displaced :: "serverFlow \<Rightarrow> mpLane \<Rightarrow> bool \<Rightarrow> u64 \<Rightarrow> bool \<Rightarrow> u64 \<times> nat \<Rightarrow> bool" where
  "displaced s l handoff replacedLaneID replaceLane ka \<longleftrightarrow>
     (handoff \<and> kind (store s (snd ka)) \<noteq> TransportTCP)
       \<or> (replaceLane \<and> replacedLaneID \<noteq> lane_id l \<and> fst ka = replacedLaneID)"

definition commit_admission ::
  "serverFlow \<Rightarrow> int \<Rightarrow> nat \<Rightarrow> bool \<Rightarrow> int \<Rightarrow> (u64 \<times> nat) list \<Rightarrow> serverFlow" where
  "commit_admission s now a handoff limit retired =
     (let s1 = foldl retire_open s retired;
          s2 = (if handoff then s1\<lparr>tcpMode := True, maxLanes := limit\<rparr> else s1);
          s3 = addLaneLocked s2 now a;
          s4 = (if tcpMode s3 \<and> maxLanes s3 > 1 then s3\<lparr>tcpStriping := True\<rparr> else s3) in
      foldl announce_retired s4 retired)"

definition admit_planned ::
  "serverFlow \<Rightarrow> int \<Rightarrow> nat \<Rightarrow> bool \<Rightarrow> int \<Rightarrow> (u64 \<times> nat) list \<Rightarrow> int \<Rightarrow> serverFlow \<times> lane_error option" where
  "admit_planned s now a handoff limit retired remaining =
     (if remaining \<ge> limit then
        (case oldestLaneLocked s (control (store s a)) now laneDeadPathDetection retired of
           None \<Rightarrow> (s, Some LaneLimitReached)
         | Some v \<Rightarrow>
             if remaining - 1 \<ge> limit then (s, Some LaneLimitReached)
             else (commit_admission s now a handoff limit (retired @ [(lane_id (store s v), v)]), None))
      else (commit_admission s now a handoff limit retired, None))"

definition addLaneReplacing ::
  "serverFlow \<Rightarrow> int \<Rightarrow> nat option \<Rightarrow> u64 \<Rightarrow> bool \<Rightarrow> serverFlow \<times> lane_error option" where
  "addLaneReplacing s now lane replacedLaneID replaceLane =
     (case validateLaneLocked s lane of
        Some e \<Rightarrow> (s, Some e)
      | None \<Rightarrow>
          (let a = the lane; l = store s a in
           if tcpMode s \<and> kind l \<noteq> TransportTCP then (s, Some LaneFlowTCPMode)
           else
             (let handoff = (kind l = TransportTCP \<and> \<not> tcpMode s);
                  limit = (if handoff then tcpMaxLanes s else maxLanes s);
                  live = filter (\<lambda>(i, b). \<not> closed (store s b)) (lanes s);
                  goes = displaced s l handoff replacedLaneID replaceLane in
              admit_planned s now a handoff limit (filter goes live) (int (length (filter (\<lambda>ka. \<not> goes ka) live))))))"

definition server_addLane :: "serverFlow \<Rightarrow> int \<Rightarrow> nat option \<Rightarrow> serverFlow \<times> lane_error option" where
  "server_addLane s now lane = addLaneReplacing s now lane 0 False"


section \<open>The table of lanes\<close>

declare laneIsControl.simps [simp del]

lemma laneIsControl_lanes [simp]: "laneIsControl (f\<lparr>lanes := ls\<rparr>) l = laneIsControl f l"
  by (cases l) (simp_all add: laneIsControl.simps)

definition lane_table_ok :: "('x) laneFlow_scheme \<Rightarrow> bool" where
  "lane_table_ok f \<longleftrightarrow> distinct (map fst (lanes f)) \<and> (\<forall>(i, a) \<in> set (lanes f). lane_id (store f a) = i)"

definition in_table :: "('x) laneFlow_scheme \<Rightarrow> nat \<Rightarrow> bool" where
  "in_table f a \<longleftrightarrow> a \<in> snd ` set (lanes f)"

lemma table_key: "lane_table_ok f \<Longrightarrow> (i, a) \<in> set (lanes f) \<Longrightarrow> lane_id (store f a) = i"
  by (auto simp: lane_table_ok_def)

lemma table_same:
  assumes "lane_table_ok f" "(i, a) \<in> set (lanes f)" "(k, b) \<in> set (lanes f)"
  shows "k = i \<longleftrightarrow> b = a"
  using assms table_key [OF assms(1)] by (metis eq_key_imp_eq_value lane_table_ok_def)

lemma in_table_iff: "lane_table_ok f \<Longrightarrow> in_table f a \<longleftrightarrow> (lane_id (store f a), a) \<in> set (lanes f)"
  by (force simp: lane_table_ok_def in_table_def)

lemma laneByID_iff: "lane_table_ok f \<Longrightarrow> laneByID f i = Some a \<longleftrightarrow> (i, a) \<in> set (lanes f)"
  by (simp add: laneByID_def lane_table_ok_def)

lemma laneByID_in_table: "lane_table_ok f \<Longrightarrow> laneByID f (lane_id (store f a)) = Some a \<longleftrightarrow> in_table f a"
  by (simp add: laneByID_iff in_table_iff)

lemma laneByID_None: "laneByID f i = None \<longleftrightarrow> i \<notin> fst ` set (lanes f)"
  by (simp add: laneByID_def map_of_eq_None_iff)

text \<open>
  Every operation that does not add a lane takes the lanes \<^verbatim>\<open>G\<close> out of the table, marks the lanes
  \<^verbatim>\<open>C\<close> closed and leaves the identifiers alone.
\<close>

definition drops :: "nat set \<Rightarrow> nat set \<Rightarrow> ('x) laneFlow_scheme \<Rightarrow> ('x) laneFlow_scheme \<Rightarrow> bool" where
  "drops G C f f' \<longleftrightarrow> lanes f' = filter (\<lambda>(i, a). a \<notin> G) (lanes f)
     \<and> (\<forall>a. lane_id (store f' a) = lane_id (store f a))
     \<and> (\<forall>a. closed (store f' a) \<longleftrightarrow> closed (store f a) \<or> a \<in> C)
     \<and> closeOnce f' = closeOnce f \<and> (finished f \<longrightarrow> finished f')"

lemma drops_refl: "drops {} {} f f"
  by (simp add: drops_def)

lemma drops_nothing:
  "lanes f' = lanes f \<Longrightarrow> (\<And>a. lane_id (store f' a) = lane_id (store f a)) \<Longrightarrow>
   (\<And>a. closed (store f' a) = closed (store f a)) \<Longrightarrow> closeOnce f' = closeOnce f \<Longrightarrow> finished f' = finished f \<Longrightarrow> drops {} {} f f'"
  by (simp add: drops_def)

lemma drops_trans: "drops G C f f1 \<Longrightarrow> drops G' C' f1 f2 \<Longrightarrow> drops (G \<union> G') (C \<union> C') f f2"
  by (auto simp: drops_def intro!: filter_cong)

lemma drops_table_ok: "lane_table_ok f \<Longrightarrow> drops G C f f' \<Longrightarrow> lane_table_ok f'"
  by (auto simp: lane_table_ok_def drops_def distinct_map inj_on_def)

lemma drops_in_table: "drops G C f f' \<Longrightarrow> in_table f' a \<longleftrightarrow> in_table f a \<and> a \<notin> G"
  by (force simp: drops_def in_table_def)

lemma delete_by_key:
  assumes "lane_table_ok f" "(i, a) \<in> set (lanes f)"
  shows "filter (\<lambda>(k, b). k \<noteq> i) (lanes f) = filter (\<lambda>(k, b). b \<noteq> a) (lanes f)"
proof (rule filter_cong)
  fix kb assume kb: "kb \<in> set (lanes f)"
  obtain k b where [simp]: "kb = (k, b)" by (cases kb)
  have "k = i \<longleftrightarrow> b = a" using table_same [OF assms, of k b] kb by simp
  then show "(case kb of (k, b) \<Rightarrow> k \<noteq> i) = (case kb of (k, b) \<Rightarrow> b \<noteq> a)" by simp
qed simp

lemma drops_delete:
  assumes "lane_table_ok f" "(i, a) \<in> set (lanes f)"
  shows "drops {a} {} f (delete_lane i f)"
  using delete_by_key [OF assms] by (simp add: drops_def delete_lane_def)

lemma drops_close: "drops {} {a} f (upd_lane a (closed_update (\<lambda>_. True)) f)"
  by (simp add: drops_def)

lemma drops_calls: "drops {} {} f (fc_Close a f)" "drops {} {} f (sched_RetireLane i f)" "drops {} {} f (announce_retired f ka)"
  by (simp_all add: drops_def fc_Close_def sched_RetireLane_def announce_retired_def)

lemma drops_removeLane:
  assumes "lane_table_ok f"
  shows "drops (if in_table f a then {a} else {}) (if in_table f a then {a} else {}) f (removeLane f a)"
proof (cases "in_table f a")
  case True
  then have "drops {a} {} f (delete_lane (lane_id (store f a)) f)"
    using drops_delete assms in_table_iff by blast
  from drops_trans [OF drops_trans [OF this drops_close [of a]] drops_calls(1) [of _ a]]
  show ?thesis using True assms by (simp add: removeLane_def Let_def laneByID_in_table)
next
  case False
  then show ?thesis using assms drops_refl by (simp add: removeLane_def Let_def laneByID_in_table)
qed

lemma drops_retireLaneByID:
  assumes "lane_table_ok f" "retireLaneByID f i = (f', ok)"
  shows "\<exists>G C. C \<subseteq> G \<and> (\<forall>a\<in>G. closed (store f a) \<or> a \<in> C) \<and> drops G C f f'"
proof (cases "laneByID f i")
  case None
  then show ?thesis using assms drops_refl by (auto simp: retireLaneByID_def intro!: exI [of _ "{}"])
next
  case (Some a)
  then have d: "drops {a} {} f (delete_lane i f)" using drops_delete assms(1) laneByID_iff by blast
  show ?thesis
  proof (cases "closed (store f a)")
    case True
    then have "f' = delete_lane i f" using assms Some by (simp add: retireLaneByID_def)
    then show ?thesis using d True by (intro exI [of _ "{a}"] exI [of _ "{}"]) simp
  next
    case False
    from drops_trans [OF drops_trans [OF drops_trans [OF d drops_close [of a]]
        drops_calls(2) [of _ "lane_id (store f a)"]] drops_calls(1) [of _ a]]
    have "drops {a} {a} f f'" using assms Some False by (auto simp: retireLaneByID_def)
    then show ?thesis by blast
  qed
qed

lemma drops_retire_open:
  assumes "lane_table_ok f" "(i, a) \<in> set (lanes f)"
  shows "drops {a} {a} f (retire_open f (i, a))"
  using drops_trans [OF drops_delete [OF assms] drops_close [of a]] by (simp add: retire_open_def)

lemma drops_retire_all:
  assumes "lane_table_ok f" "distinct kas" "set kas \<subseteq> set (lanes f)"
  shows "drops (snd ` set kas) (snd ` set kas) f (foldl retire_open f kas)"
  using assms
proof (induction kas arbitrary: f)
  case Nil
  then show ?case by (simp add: drops_refl)
next
  case (Cons ka kas)
  obtain i a where ka: "ka = (i, a)" by (cases ka)
  have d: "drops {a} {a} f (retire_open f ka)" using drops_retire_open [of f i a] Cons.prems ka by simp
  have sub: "set kas \<subseteq> set (lanes (retire_open f ka))"
  proof
    fix kb assume kb: "kb \<in> set kas"
    obtain j b where [simp]: "kb = (j, b)" by (cases kb)
    have "b \<noteq> a"
    proof
      assume "b = a"
      moreover have "(i, a) \<in> set (lanes f)" "(j, b) \<in> set (lanes f)" using Cons.prems(3) kb ka by auto
      ultimately have "j = i" using table_same [OF Cons.prems(1), of i a j b] by simp
      then show False using \<open>b = a\<close> Cons.prems(2) kb ka by simp
    qed
    then show "kb \<in> set (lanes (retire_open f ka))" using d Cons.prems(3) kb by (auto simp: drops_def)
  qed
  from Cons.IH [OF drops_table_ok [OF Cons.prems(1) d] _ sub] Cons.prems(2)
  have "drops (snd ` set kas) (snd ` set kas) (retire_open f ka) (foldl retire_open (retire_open f ka) kas)" by simp
  from drops_trans [OF d this] show ?case by (simp add: ka)
qed

lemma drops_announce_all: "drops {} {} f (foldl announce_retired f kas)"
proof (induction kas arbitrary: f)
  case (Cons ka kas)
  from drops_trans [OF drops_calls(3) [of f ka] Cons.IH] show ?case by simp
qed (simp add: drops_refl)

lemma drops_retireLanesExcept:
  assumes "lane_table_ok f"
  shows "\<exists>G. drops G G f (fst (retireLanesExcept f k))"
proof -
  let ?r = "filter (\<lambda>(i, a). \<not> (closed (store f a) \<or> kind (store f a) = k)) (lanes f)"
  have "distinct ?r" using assms by (simp add: lane_table_ok_def distinct_map distinct_filter)
  then have "drops (snd ` set ?r) (snd ` set ?r) f (foldl retire_open f ?r)"
    by (rule drops_retire_all [OF assms]) auto
  from drops_trans [OF this drops_announce_all [of _ ?r]]
  show ?thesis by (auto simp: retireLanesExcept_def Let_def)
qed

lemma drops_fail_mark: "fail_mark f a = (f', True) \<Longrightarrow> drops {} {a} f f'"
  using drops_close by (auto simp: fail_mark_def split: if_splits)

lemma drops_hint: "drops {} {} f (setRescueReplacement f i)"
  by (simp add: drops_def setRescueReplacement_def)

lemma drops_fail_finish:
  assumes "lane_table_ok f"
  shows "drops {a} {} f (fail_finish f a)"
proof -
  let ?i = "lane_id (store f a)" and ?f1 = "setRescueReplacement f (lane_id (store f a))"
  have ok: "lane_table_ok ?f1" by (rule drops_table_ok [OF assms drops_hint])
  have i: "lane_id (store ?f1 a) = ?i" by (simp add: setRescueReplacement_def)
  have "drops {a} {} ?f1 (if laneByID ?f1 ?i = Some a then delete_lane ?i ?f1 else ?f1)"
  proof (cases "in_table ?f1 a")
    case True
    then show ?thesis using drops_delete [OF ok, of ?i a] ok i by (simp add: laneByID_iff in_table_iff)
  next
    case False
    then have "laneByID ?f1 ?i \<noteq> Some a" using laneByID_in_table [OF ok, of a] i by simp
    moreover have "filter (\<lambda>(i, b). b \<noteq> a) (lanes ?f1) = lanes ?f1"
      using False by (force simp: in_table_def filter_id_conv)
    ultimately show ?thesis by (simp add: drops_def)
  qed
  from drops_trans [OF drops_trans [OF drops_trans [OF drops_hint this] drops_calls(1) [of _ a]] drops_calls(2) [of _ ?i]]
  show ?thesis by (simp add: fail_finish_def Let_def)
qed

section \<open>Choosing a lane while iterating over a map\<close>

text \<open>
  Both choices of a lane to give up keep the best lane seen so far. When no two eligible lanes tie,
  the result does not depend on the order of the iteration, which Go leaves open.
\<close>

locale keep_best =
  fixes step :: "'b option \<Rightarrow> 'a \<Rightarrow> 'b option"
    and val :: "'a \<Rightarrow> 'b"
    and ok :: "'b \<Rightarrow> bool"
    and better :: "'b \<Rightarrow> 'b \<Rightarrow> bool"
  assumes step_eq: "step v x = (if \<not> ok (val x) then v else case v of None \<Rightarrow> Some (val x)
      | Some y \<Rightarrow> if better (val x) y then Some (val x) else Some y)"
    and better_irrefl: "\<not> better p p"
    and better_trans: "better p q \<Longrightarrow> better q r \<Longrightarrow> better p r"
    and ties_trans: "\<not> better p q \<Longrightarrow> \<not> better q r \<Longrightarrow> \<not> better p r"
begin

lemma better_asym: "better x y \<Longrightarrow> \<not> better y x"
  using better_trans better_irrefl by blast

lemma fold_best:
  "foldl step v xs = Some m \<Longrightarrow>
     (v = Some m \<or> m \<in> val ` set xs \<and> ok m)
     \<and> (\<forall>x\<in>set xs. ok (val x) \<longrightarrow> \<not> better (val x) m) \<and> (\<forall>y. v = Some y \<longrightarrow> \<not> better y m)"
proof (induction xs arbitrary: v)
  case Nil
  then show ?case by (simp add: better_irrefl)
next
  case (Cons x xs)
  then have ih: "(step v x = Some m \<or> m \<in> val ` set xs \<and> ok m)
     \<and> (\<forall>x\<in>set xs. ok (val x) \<longrightarrow> \<not> better (val x) m) \<and> (\<forall>y. step v x = Some y \<longrightarrow> \<not> better y m)"
    by simp
  show ?case
  proof (cases "ok (val x)")
    case True
    note s = step_eq [of v x]
    show ?thesis
    proof (cases v)
      case None
      then show ?thesis using ih True s by auto
    next
      case (Some y)
      then show ?thesis
        using ih True s ties_trans [of y "val x" m] ties_trans [of "val x" y m] better_asym [of "val x" y]
        by (cases "better (val x) y") auto
    qed
  next
    case False
    then show ?thesis using ih step_eq [of v x] by auto
  qed
qed

lemma fold_none: "foldl step v xs = None \<longleftrightarrow> v = None \<and> (\<forall>x\<in>set xs. \<not> ok (val x))"
  by (induction xs arbitrary: v) (auto simp: step_eq split: option.splits)

lemma fold_strict:
  assumes "foldl step None xs = Some m"
    and distinguished: "\<And>x y. x \<in> set xs \<Longrightarrow> y \<in> set xs \<Longrightarrow>
      \<not> better (val x) (val y) \<Longrightarrow> \<not> better (val y) (val x) \<Longrightarrow> val x = val y"
  shows "m \<in> val ` set xs \<and> ok m \<and> (\<forall>p. p \<in> val ` set xs \<and> ok p \<and> p \<noteq> m \<longrightarrow> better m p)"
proof -
  note best = fold_best [OF assms(1)]
  then obtain y where y: "y \<in> set xs" "val y = m" by auto
  have "better m p" if p: "p \<in> val ` set xs" "ok p" "p \<noteq> m" for p
  proof -
    obtain x where "x \<in> set xs" "val x = p" using p(1) by auto
    then show ?thesis using distinguished [of x y] y best p by auto
  qed
  then show ?thesis using best by simp
qed

lemma order_irrelevant:
  assumes "set ys = set xs"
    and distinguished: "\<And>x y. x \<in> set xs \<Longrightarrow> y \<in> set xs \<Longrightarrow>
      \<not> better (val x) (val y) \<Longrightarrow> \<not> better (val y) (val x) \<Longrightarrow> val x = val y"
  shows "foldl step None ys = foldl step None xs"
proof (cases "foldl step None xs")
  case None
  then have "\<forall>x\<in>set ys. \<not> ok (val x)" using fold_none [of None xs] assms(1) by simp
  then have "foldl step None ys = None" using fold_none [of None ys] by simp
  then show ?thesis using None by simp
next
  case (Some m)
  note m = fold_best [OF this]
  then have "foldl step None ys \<noteq> None" using fold_none [of None ys] assms(1) by auto
  then obtain n where fn: "foldl step None ys = Some n" by auto
  note n = fold_best [OF this]
  obtain x y where "x \<in> set xs" "val x = m" "y \<in> set xs" "val y = n" "ok m" "ok n"
    using m n assms(1) by auto
  then have "m = n" using distinguished [of x y] m n assms(1) by auto
  then show ?thesis using Some fn by simp
qed

end

definition evictable :: "('x) laneFlow_scheme \<Rightarrow> int \<Rightarrow> int \<Rightarrow> (u64 \<times> nat) list \<Rightarrow> nat \<Rightarrow> bool" where
  "evictable f now minAge excluded a \<longleftrightarrow> \<not> closed (store f a) \<and> map_of excluded (lane_id (store f a)) = None
     \<and> \<not> (minAge > 0 \<and> now - admitted (store f a) < minAge)"

definition evict_before :: "('x) laneFlow_scheme \<Rightarrow> bool \<Rightarrow> nat \<Rightarrow> nat \<Rightarrow> bool" where
  "evict_before f ctl a v \<longleftrightarrow> is_control f a = ctl \<and> is_control f v \<noteq> ctl
     \<or> is_control f a = is_control f v \<and> lane_id (store f a) < lane_id (store f v)"

interpretation oldest: keep_best "oldest_step f ctl now minAge excluded" snd "evictable f now minAge excluded" "evict_before f ctl"
  for f :: "('x) laneFlow_scheme" and ctl now minAge excluded
proof
  fix v ka
  show "oldest_step f ctl now minAge excluded v ka =
      (if \<not> evictable f now minAge excluded (snd ka) then v
       else case v of None \<Rightarrow> Some (snd ka)
         | Some y \<Rightarrow> if evict_before f ctl (snd ka) y then Some (snd ka) else Some y)"
    by (auto simp: oldest_step_def evictable_def evict_before_def Let_def split: option.splits)
qed (auto simp: evict_before_def)

definition expendable :: "('x) laneFlow_scheme \<Rightarrow> nat \<Rightarrow> bool" where
  "expendable f a \<longleftrightarrow> \<not> closed (store f a) \<and> laneReady (Some (store f a)) \<and> lane_id (store f a) \<noteq> 0 \<and> \<not> is_control f a"

definition works_less :: "('x) laneFlow_scheme \<Rightarrow> nat \<Rightarrow> nat \<Rightarrow> bool" where
  "works_less f a v \<longleftrightarrow> lane_work (store f a) < lane_work (store f v)
     \<or> lane_work (store f a) = lane_work (store f v) \<and> lane_id (store f a) > lane_id (store f v)"

interpretation least: keep_best "least_step f" snd "expendable f" "works_less f" for f :: "('x) laneFlow_scheme"
proof
  fix v ka
  show "least_step f v ka =
      (if \<not> expendable f (snd ka) then v
       else case v of None \<Rightarrow> Some (snd ka) | Some y \<Rightarrow> if works_less f (snd ka) y then Some (snd ka) else Some y)"
    by (auto simp: least_step_def expendable_def works_less_def Let_def split: option.splits)
qed (auto simp: works_less_def)

lemma table_ids_distinct:
  "lane_table_ok f \<Longrightarrow> ka \<in> set (lanes f) \<Longrightarrow> kb \<in> set (lanes f) \<Longrightarrow>
   lane_id (store f (snd ka)) = lane_id (store f (snd kb)) \<Longrightarrow> snd ka = snd kb"
  by (cases ka; cases kb) (metis snd_conv table_key table_same)

lemma evict_total:
  "lane_table_ok f \<Longrightarrow> ka \<in> set (lanes f) \<Longrightarrow> kb \<in> set (lanes f) \<Longrightarrow>
   \<not> evict_before f ctl (snd ka) (snd kb) \<Longrightarrow> \<not> evict_before f ctl (snd kb) (snd ka) \<Longrightarrow> snd ka = snd kb"
  by (rule table_ids_distinct) (auto simp: evict_before_def)

lemma works_total:
  "lane_table_ok f \<Longrightarrow> ka \<in> set (lanes f) \<Longrightarrow> kb \<in> set (lanes f) \<Longrightarrow>
   \<not> works_less f (snd ka) (snd kb) \<Longrightarrow> \<not> works_less f (snd kb) (snd ka) \<Longrightarrow> snd ka = snd kb"
  by (rule table_ids_distinct) (auto simp: works_less_def)

lemma oldest_any_order:
  assumes "lane_table_ok f" "set ls = set (lanes f)"
  shows "oldestLaneLocked (f\<lparr>lanes := ls\<rparr>) ctl now minAge excluded = oldestLaneLocked f ctl now minAge excluded"
proof -
  have "oldest_step (f\<lparr>lanes := ls\<rparr>) ctl now minAge excluded = oldest_step f ctl now minAge excluded"
    by (intro ext) (simp add: oldest_step_def Let_def split: option.split)
  moreover have "foldl (oldest_step f ctl now minAge excluded) None ls = foldl (oldest_step f ctl now minAge excluded) None (lanes f)"
    by (rule oldest.order_irrelevant [OF assms(2) evict_total [OF assms(1)]])
  ultimately show ?thesis by (simp add: oldestLaneLocked_def)
qed

lemma least_any_order:
  assumes "lane_table_ok f" "set ls = set (lanes f)"
  shows "least_productive (f\<lparr>lanes := ls\<rparr>) = least_productive f"
proof -
  have "least_step (f\<lparr>lanes := ls\<rparr>) = least_step f"
    by (intro ext) (simp add: least_step_def Let_def split: option.split)
  moreover have "foldl (least_step f) None ls = foldl (least_step f) None (lanes f)"
    by (rule least.order_irrelevant [OF assms(2) works_total [OF assms(1)]])
  ultimately show ?thesis by (simp add: least_productive_def)
qed

lemma oldest_rule:
  assumes "lane_table_ok f" "oldestLaneLocked f ctl now minAge excluded = Some v"
  shows "in_table f v \<and> evictable f now minAge excluded v
    \<and> (\<forall>a. in_table f a \<and> evictable f now minAge excluded a \<and> a \<noteq> v \<longrightarrow> evict_before f ctl v a)"
  unfolding in_table_def
  by (rule oldest.fold_strict [OF assms(2) [unfolded oldestLaneLocked_def] evict_total [OF assms(1)]])

lemma least_rule:
  assumes "lane_table_ok f" "least_productive f = Some w"
  shows "in_table f w \<and> expendable f w \<and> (\<forall>a. in_table f a \<and> expendable f a \<and> a \<noteq> w \<longrightarrow> works_less f w a)"
  unfolding in_table_def
  by (rule least.fold_strict [OF assms(2) [unfolded least_productive_def] works_total [OF assms(1)]])

end
