(* ===== verification/LaneRuns.thy ===== *)
theory LaneRuns
  imports Lanes
begin

text \<open>
  What the lane operations guarantee in every interleaving of the goroutines that share a flow: the
  table holds exactly the open lanes, the gateway keeps to its ceiling, join identifiers are not
  reused, and frames are offered to the lanes meant for them.
\<close>

section \<open>The effect of an admission\<close>

lemma startLane_simps [simp]:
  "lanes (startLane f a) = lanes f" "store (startLane f a) = store f" "nextJoinID (startLane f a) = nextJoinID f"
  "closeOnce (startLane f a) = closeOnce f" "finished (startLane f a) = finished f"
  by (simp_all add: startLane_def endReplacementOutage_def)

lemma addLaneLocked_effect:
  "lanes (addLaneLocked f now a) = lanes f @ [(lane_id (store f a), a)]"
  "lane_id (store (addLaneLocked f now a) b) = lane_id (store f b)"
  "closed (store (addLaneLocked f now a) b) = closed (store f b)"
  "nextJoinID (addLaneLocked f now a) = (if lane_id (store f a) \<ge> nextJoinID f then lane_id (store f a) + 1 else nextJoinID f)"
  "closeOnce (addLaneLocked f now a) = closeOnce f"
  by (simp_all add: addLaneLocked_def lane_queues_def Let_def split: prod.splits)

lemma addLaneLocked_table_ok:
  "lane_table_ok f \<Longrightarrow> laneByID f (lane_id (store f a)) = None \<Longrightarrow> lane_table_ok (addLaneLocked f now a)"
  by (auto simp: lane_table_ok_def addLaneLocked_effect laneByID_None)

lemma server_fields [simp]:
  "maxLanes (addLaneLocked s now a) = maxLanes s" "tcpMode (addLaneLocked s now a) = tcpMode s"
  "maxLanes (foldl retire_open s kas) = maxLanes s" "tcpMode (foldl retire_open s kas) = tcpMode s"
  "nextJoinID (foldl retire_open s kas) = nextJoinID s"
  "maxLanes (foldl announce_retired s kas) = maxLanes s" "nextJoinID (foldl announce_retired s kas) = nextJoinID s"
  by (simp add: addLaneLocked_def startLane_def endReplacementOutage_def Let_def split: prod.splits)
     (simp add: addLaneLocked_def startLane_def endReplacementOutage_def Let_def split: prod.splits,
      (induction kas arbitrary: s; simp add: retire_open_def delete_lane_def announce_retired_def fc_Close_def sched_RetireLane_def)+)

lemma commit_effect:
  assumes "lane_table_ok s" "distinct retired" "set retired \<subseteq> set (lanes s)"
    and "s' = commit_admission s now a handoff limit retired"
  shows "lanes s' = filter (\<lambda>(i, b). b \<notin> snd ` set retired) (lanes s) @ [(lane_id (store s a), a)]"
    and "lane_id (store s' b) = lane_id (store s b)"
    and "closed (store s' b) \<longleftrightarrow> closed (store s b) \<or> b \<in> snd ` set retired"
    and "maxLanes s' = (if handoff then limit else maxLanes s)"
    and "nextJoinID s' = (if lane_id (store s a) \<ge> nextJoinID s then lane_id (store s a) + 1 else nextJoinID s)"
    and "closeOnce s' = closeOnce s"
proof -
  let ?s1 = "foldl retire_open s retired"
  let ?s2 = "if handoff then ?s1\<lparr>tcpMode := True, maxLanes := limit\<rparr> else ?s1"
  let ?s3 = "addLaneLocked ?s2 now a"
  let ?s4 = "if tcpMode ?s3 \<and> maxLanes ?s3 > 1 then ?s3\<lparr>tcpStriping := True\<rparr> else ?s3"
  have s': "s' = foldl announce_retired ?s4 retired" using assms(4) by (simp add: commit_admission_def Let_def)
  have d: "drops (snd ` set retired) (snd ` set retired) s ?s1" by (rule drops_retire_all [OF assms(1-3)])
  have e: "drops {} {} ?s4 s'" unfolding s' by (rule drops_announce_all)
  have "store ?s2 = store ?s1" "lanes ?s2 = lanes ?s1" "nextJoinID ?s2 = nextJoinID s" "closeOnce ?s2 = closeOnce ?s1" by simp_all
  moreover have "store ?s4 = store ?s3" "lanes ?s4 = lanes ?s3" "nextJoinID ?s4 = nextJoinID ?s3" "maxLanes ?s4 = maxLanes ?s3"
    "closeOnce ?s4 = closeOnce ?s3"
    by simp_all
  ultimately show "lanes s' = filter (\<lambda>(i, b). b \<notin> snd ` set retired) (lanes s) @ [(lane_id (store s a), a)]"
    "lane_id (store s' b) = lane_id (store s b)"
    "closed (store s' b) \<longleftrightarrow> closed (store s b) \<or> b \<in> snd ` set retired"
    "maxLanes s' = (if handoff then limit else maxLanes s)"
    "nextJoinID s' = (if lane_id (store s a) \<ge> nextJoinID s then lane_id (store s a) + 1 else nextJoinID s)"
    "closeOnce s' = closeOnce s"
    using d e by (simp_all add: drops_def addLaneLocked_effect) (simp_all add: s')
qed

lemma validated:
  assumes "validateLaneLocked f lane = None"
  obtains a where "lane = Some a" "fc (store f a)" "\<not> finished f" "\<not> doneClosed f" "laneByID f (lane_id (store f a)) = None"
  using assms by (auto simp: validateLaneLocked_def split: option.splits if_splits)

lemma count_not_in:
  "length (filter (\<lambda>(i, b). \<not> closed (store s b)) (filter (\<lambda>(i, b). b \<notin> G) ls)) =
   length (filter (\<lambda>(i, b). b \<notin> G) (filter (\<lambda>(i, b). \<not> closed (store s b)) ls))"
  by (simp add: conj_commute case_prod_beta')

lemma filter_not_snd:
  assumes "lane_table_ok s" "set xs \<subseteq> set (lanes s)"
  shows "filter (\<lambda>(i, b). b \<notin> snd ` set (filter P xs)) xs = filter (\<lambda>ka. \<not> P ka) xs"
proof (rule filter_cong)
  fix ka assume ka: "ka \<in> set xs"
  obtain i a where [simp]: "ka = (i, a)" by (cases ka)
  have "a \<in> snd ` set (filter P xs) \<longleftrightarrow> P ka"
  proof
    assume "a \<in> snd ` set (filter P xs)"
    then obtain k where k: "(k, a) \<in> set xs" "P (k, a)" by auto
    then have "k = i" using table_same [OF assms(1), of i a k a] ka assms(2) by auto
    then show "P ka" using k by simp
  qed (use ka in force)
  then show "(case ka of (i, b) \<Rightarrow> b \<notin> snd ` set (filter P xs)) = (\<not> P ka)" by simp
qed simp

text \<open>What an accepted admission displaces: a set of open lanes that leaves room for one more.\<close>

definition makes_room :: "serverFlow \<Rightarrow> int \<Rightarrow> (u64 \<times> nat) list \<Rightarrow> bool" where
  "makes_room s limit retired \<longleftrightarrow> distinct retired \<and> set retired \<subseteq> set (lanes s)
     \<and> (\<forall>(i, b) \<in> set retired. \<not> closed (store s b))
     \<and> int (length (filter (\<lambda>(i, b). b \<notin> snd ` set retired) (filter (\<lambda>(i, b). \<not> closed (store s b)) (lanes s)))) < limit"

lemma planned:
  assumes "lane_table_ok s" "live = filter (\<lambda>(i, b). \<not> closed (store s b)) (lanes s)"
    and "admit_planned s now a h limit (filter P live) (int (length (filter (\<lambda>ka. \<not> P ka) live))) = (s', None)"
  shows "\<exists>retired. makes_room s limit retired \<and> s' = commit_admission s now a h limit retired"
proof -
  let ?ret = "filter P live" and ?rem = "filter (\<lambda>ka. \<not> P ka) live"
  have dist: "distinct ?ret" using assms(1,2) by (simp add: lane_table_ok_def distinct_map)
  have sub: "set live \<subseteq> set (lanes s)" "\<forall>(i, b) \<in> set live. \<not> closed (store s b)" using assms(2) by auto
  note keep = filter_not_snd [OF assms(1) sub(1), of P]
  show ?thesis
  proof (cases "int (length ?rem) \<ge> limit")
    case False
    then have "s' = commit_admission s now a h limit ?ret" using assms(3) by (simp add: admit_planned_def)
    moreover have "makes_room s limit ?ret"
      using False dist sub keep by (auto simp: makes_room_def assms(2) [symmetric])
    ultimately show ?thesis by blast
  next
    case True
    then obtain w where w: "oldestLaneLocked s (control (store s a)) now laneDeadPathDetection ?ret = Some w"
      and room: "int (length ?rem) - 1 < limit"
      and s': "s' = commit_admission s now a h limit (?ret @ [(lane_id (store s w), w)])"
      using assms(3) by (auto simp: admit_planned_def split: if_splits option.splits)
    let ?kw = "(lane_id (store s w), w)"
    note rule = oldest_rule [OF assms(1) w]
    have kw: "?kw \<in> set live" using rule assms(1) by (auto simp: in_table_iff evictable_def assms(2))
    have new: "?kw \<notin> set ?ret"
    proof
      assume "?kw \<in> set ?ret"
      then have "lane_id (store s w) \<in> fst ` set ?ret" by force
      then show False using rule by (simp add: evictable_def map_of_eq_None_iff)
    qed
    have "filter (\<lambda>(i, b). b \<notin> snd ` set (?ret @ [?kw])) live = filter (\<lambda>(i, b). b \<noteq> w) ?rem"
      unfolding keep [symmetric] filter_filter by (rule filter_cong) auto
    moreover have "length (filter (\<lambda>(i, b). b \<noteq> w) ?rem) < length ?rem"
      by (rule length_filter_less [of ?kw]) (use kw new in auto)
    ultimately have "makes_room s limit (?ret @ [?kw])"
      using room dist sub kw new unfolding makes_room_def assms(2) [symmetric] by auto
    then show ?thesis using s' by blast
  qed
qed

lemma admission_plan:
  assumes "lane_table_ok s" "addLaneReplacing s now lane r rep = (s', None)"
  shows "\<exists>a retired handoff limit. lane = Some a \<and> validateLaneLocked s lane = None
    \<and> limit = (if handoff then tcpMaxLanes s else maxLanes s) \<and> makes_room s limit retired
    \<and> s' = commit_admission s now a handoff limit retired"
proof -
  have v: "validateLaneLocked s lane = None" using assms(2) by (auto simp: addLaneReplacing_def split: option.splits)
  then obtain a where a: "lane = Some a" by (rule validated)
  have guard: "\<not> (tcpMode s \<and> kind (store s a) \<noteq> TransportTCP)"
    using assms(2) v a by (auto simp: addLaneReplacing_def Let_def split: if_splits)
  define h where "h \<longleftrightarrow> kind (store s a) = TransportTCP \<and> \<not> tcpMode s"
  define limit where "limit = (if h then tcpMaxLanes s else maxLanes s)"
  define live where "live = filter (\<lambda>(i, b). \<not> closed (store s b)) (lanes s)"
  let ?P = "displaced s (store s a) h r rep"
  have "admit_planned s now a h limit (filter ?P live) (int (length (filter (\<lambda>ka. \<not> ?P ka) live))) = (s', None)"
    using assms(2) unfolding addLaneReplacing_def a v [unfolded a] option.case Let_def option.sel if_not_P [OF guard]
      h_def limit_def live_def .
  from planned [OF assms(1) live_def this] show ?thesis using a v limit_def by blast
qed

lemma admission_refused: "addLaneReplacing s now lane r rep = (s', Some e) \<Longrightarrow> s' = s"
  by (auto simp: addLaneReplacing_def admit_planned_def Let_def split: option.splits if_splits)

section \<open>Interleavings\<close>

text \<open>
  The goroutines that share a flow, as steps of one section each. \<^verbatim>\<open>known\<close> are the lanes that were
  ever added and \<^verbatim>\<open>failing\<close> those whose \<^verbatim>\<open>closeFailedLane\<close> has marked them and not yet taken the lock.
  A client adds lanes with \<^verbatim>\<open>addLane\<close>, a gateway with \<^verbatim>\<open>addLaneReplacing\<close>; both add a lane they have
  just made. Traffic moves the counters and the suspicion of a lane, and a flow may end at any time: \<^verbatim>\<open>finished\<close>
  and \<^verbatim>\<open>done\<close> are only ever set. \<^verbatim>\<open>closeAll\<close> is its locked part, \<^verbatim>\<open>teardown\<close>, and then the connections \<^verbatim>\<open>closing\<close>
  one by one.
\<close>

record lane_sys =
  sf :: serverFlow
  known :: "nat set"
  failing :: "nat set"
  closing :: "nat set"

definition traffic :: "u64 \<Rightarrow> u64 \<Rightarrow> bool \<Rightarrow> mpLane \<Rightarrow> mpLane" where
  "traffic sent recv suspect l = l\<lparr>lane_sent := sent, lane_recv := recv, suspected := suspect\<rparr>"

inductive lane_step :: "bool \<Rightarrow> lane_sys \<Rightarrow> lane_sys \<Rightarrow> bool" for gateway where
  join: "\<not> gateway \<Longrightarrow> a \<notin> known s \<Longrightarrow> \<not> closed (store (sf s) a) \<Longrightarrow> addLane (sf s) now (Some a) = (f, None) \<Longrightarrow>
    lane_step gateway s (s\<lparr>sf := f, known := insert a (known s)\<rparr>)"
| admit: "gateway \<Longrightarrow> a \<notin> known s \<Longrightarrow> \<not> closed (store (sf s) a) \<Longrightarrow>
    addLaneReplacing (sf s) now (Some a) r rep = (f, None) \<Longrightarrow>
    lane_step gateway s (s\<lparr>sf := f, known := insert a (known s)\<rparr>)"
| activate: "activateLane (sf s) (Some a) = (f, e) \<Longrightarrow> lane_step gateway s (s\<lparr>sf := f\<rparr>)"
| allocate: "allocateJoinID (sf s) = (f, r) \<Longrightarrow> lane_step gateway s (s\<lparr>sf := f\<rparr>)"
| remove: "a \<in> known s \<Longrightarrow> lane_step gateway s (s\<lparr>sf := removeLane (sf s) a\<rparr>)"
| retire: "retireLaneByID (sf s) i = (f, ok) \<Longrightarrow> lane_step gateway s (s\<lparr>sf := f\<rparr>)"
| handoff: "retireLanesExcept (sf s) k = (f, n) \<Longrightarrow> lane_step gateway s (s\<lparr>sf := f\<rparr>)"
| shed: "retireLeastProductiveLane (sf s) = (f, ok) \<Longrightarrow> lane_step gateway s (s\<lparr>sf := f\<rparr>)"
| mark: "a \<in> known s \<Longrightarrow> fail_mark (sf s) a = (f, True) \<Longrightarrow>
    lane_step gateway s (s\<lparr>sf := f, failing := insert a (failing s)\<rparr>)"
| finish: "a \<in> failing s \<Longrightarrow> lane_step gateway s (s\<lparr>sf := fail_finish (sf s) a, failing := failing s - {a}\<rparr>)"
| suspect: "suspectDataLanes (sf s) = (f, spare) \<Longrightarrow> lane_step gateway s (s\<lparr>sf := f\<rparr>)"
| move: "lane_step gateway s (s\<lparr>sf := upd_lane a (traffic x y z) (sf s)\<rparr>)"
| flow: "lane_step gateway s (s\<lparr>sf := (sf s)\<lparr>finished := finished (sf s) \<or> x, doneClosed := doneClosed (sf s) \<or> y, scheduler := z\<rparr>\<rparr>)"
| teardown: "\<not> closeOnce (sf s) \<Longrightarrow> closeAll_mark (sf s) = (f, ls) \<Longrightarrow> lane_step gateway s (s\<lparr>sf := f, closing := snd ` set ls\<rparr>)"
| inner: "closeOnce (sf s) \<Longrightarrow> lane_step gateway s (s\<lparr>sf := (sf s)\<lparr>innerClosed := True\<rparr>\<rparr>)"
| disconnect: "a \<in> closing s \<Longrightarrow> lane_step gateway s (s\<lparr>sf := fc_Close a (sf s), closing := closing s - {a}\<rparr>)"

inductive lane_reachable :: "bool \<Rightarrow> serverFlow \<Rightarrow> lane_sys \<Rightarrow> bool" for gateway f where
  init: "lanes f = [] \<Longrightarrow> \<not> closeOnce f \<Longrightarrow> lane_reachable gateway f \<lparr>sf = f, known = {}, failing = {}, closing = {}\<rparr>"
| step: "lane_reachable gateway f s \<Longrightarrow> lane_step gateway s s' \<Longrightarrow> lane_reachable gateway f s'"

text \<open>
  A step either adds one lane to the table, after dropping some, or only drops, or tears the flow down. The
  first two are described by what is dropped and what is closed.
\<close>

definition admits :: "nat set \<Rightarrow> nat \<Rightarrow> serverFlow \<Rightarrow> serverFlow \<Rightarrow> bool" where
  "admits R a f f' \<longleftrightarrow> lanes f' = filter (\<lambda>(i, b). b \<notin> R) (lanes f) @ [(lane_id (store f a), a)]
     \<and> laneByID f (lane_id (store f a)) = None
     \<and> (\<forall>b. lane_id (store f' b) = lane_id (store f b)) \<and> (\<forall>b. closed (store f' b) \<longleftrightarrow> closed (store f b) \<or> b \<in> R)
     \<and> (\<forall>b\<in>R. in_table f b \<and> \<not> closed (store f b))
     \<and> nextJoinID f' = (if lane_id (store f a) \<ge> nextJoinID f then lane_id (store f a) + 1 else nextJoinID f)
     \<and> \<not> finished f \<and> closeOnce f' = closeOnce f"

lemma admits_addLane:
  assumes "addLane f now (Some a) = (f', None)"
  shows "admits {} a f f'"
proof -
  have "validateLaneLocked f (Some a) = None" "f' = addLaneLocked f now a"
    using assms by (auto simp: addLane_def split: option.splits)
  then show ?thesis by (auto simp: admits_def addLaneLocked_effect elim!: validated)
qed

lemma admits_replacing:
  assumes "lane_table_ok f" "addLaneReplacing f now (Some a) r rep = (f', None)"
  shows "\<exists>R. admits R a f f' \<and> int (laneCount f') \<le> maxLanes f'"
proof -
  obtain retired h limit where p: "validateLaneLocked f (Some a) = None"
      "limit = (if h then tcpMaxLanes f else maxLanes f)" "makes_room f limit retired"
      and f': "f' = commit_admission f now a h limit retired"
    using admission_plan [OF assms] by auto
  have sub: "distinct retired" "set retired \<subseteq> set (lanes f)" using p(3) by (auto simp: makes_room_def)
  note e = commit_effect [OF assms(1) sub f']
  let ?R = "snd ` set retired"
  have "laneByID f (lane_id (store f a)) = None" using p(1) by (rule validated) simp
  moreover have "\<not> finished f" using p(1) by (rule validated)
  ultimately have "admits ?R a f f'" using e sub p(3) by (auto simp: admits_def in_table_def makes_room_def)
  moreover have "int (laneCount f') \<le> maxLanes f'"
  proof -
    have "filter (\<lambda>(i, b). \<not> closed (store f' b)) (filter (\<lambda>(i, b). b \<notin> ?R) (lanes f)) =
        filter (\<lambda>(i, b). b \<notin> ?R) (filter (\<lambda>(i, b). \<not> closed (store f b)) (lanes f))"
      using e(3) by (auto intro!: filter_cong)
    then have "laneCount f' \<le> length (filter (\<lambda>(i, b). b \<notin> ?R) (filter (\<lambda>(i, b). \<not> closed (store f b)) (lanes f))) + 1"
      by (simp add: laneCount_def e(1))
    moreover have "maxLanes f' = limit" using e(4) p(2) by simp
    ultimately show ?thesis using p(3) unfolding makes_room_def by linarith
  qed
  ultimately show ?thesis by blast
qed

lemma drops_activate: "activateLane f lane = (f', e) \<Longrightarrow> drops {} {} f f'"
  by (rule drops_nothing) (auto simp: activateLane_def split: option.splits if_splits)

lemma drops_allocate: "allocateJoinID f = (f', r) \<Longrightarrow> drops {} {} f f'"
  by (rule drops_nothing) (auto simp: allocateJoinID_def split: option.splits)

lemma drops_suspect_loop: "drops {} {} f (foldl (\<lambda>g a. upd_lane a (suspected_update (\<lambda>_. True)) g) f ls)"
proof (induction ls arbitrary: f)
  case (Cons a ls)
  have "drops {} {} f (upd_lane a (suspected_update (\<lambda>_. True)) f)" by (simp add: drops_def)
  from drops_trans [OF this Cons.IH] show ?case by (simp only: foldl_Cons Un_empty_left)
qed (simp add: drops_refl)

lemma drops_suspect: "suspectDataLanes f = (f', b) \<Longrightarrow> drops {} {} f f'"
  using drops_trans [OF drops_suspect_loop drops_hint, of f] drops_suspect_loop [of f] drops_refl [of f]
  by (auto simp: suspectDataLanes_def Let_def split: if_splits)

lemma drops_shed:
  assumes "lane_table_ok f" "retireLeastProductiveLane f = (f', ok)"
  shows "\<exists>G. drops G G f f'"
proof (cases "least_productive f")
  case None
  then show ?thesis using assms(2) drops_refl by (auto simp: retireLeastProductiveLane_def)
next
  case (Some v)
  then have "(lane_id (store f v), v) \<in> set (lanes f)" using least_rule [OF assms(1)] in_table_iff [OF assms(1)] by blast
  from drops_trans [OF drops_retire_open [OF assms(1) this] drops_calls(3)]
  show ?thesis using Some assms(2) by (auto simp: retireLeastProductiveLane_def Let_def)
qed

definition tearing_step :: "lane_sys \<Rightarrow> lane_sys \<Rightarrow> bool" where
  "tearing_step s s' \<longleftrightarrow> lanes (sf s') = lanes (sf s) \<and> (\<forall>a. lane_id (store (sf s') a) = lane_id (store (sf s) a))
     \<and> (\<forall>a. closed (store (sf s') a) \<longleftrightarrow> closed (store (sf s) a) \<or> in_table (sf s) a)
     \<and> closeOnce (sf s') \<and> finished (sf s') \<and> known s' = known s \<and> failing s' = failing s
     \<and> maxLanes (sf s') = maxLanes (sf s) \<and> nextJoinID (sf s') = nextJoinID (sf s)"

lemma close_loop:
  "foldl (\<lambda>g ka. upd_lane (snd ka) (closed_update (\<lambda>_. True)) g) f kas
   = f\<lparr>store := (\<lambda>b. if b \<in> snd ` set kas then (store f b)\<lparr>closed := True\<rparr> else store f b)\<rparr>"
proof (induction kas arbitrary: f)
  case (Cons ka kas)
  let ?g = "(store f)(snd ka := (store f (snd ka))\<lparr>closed := True\<rparr>)"
  have "(\<lambda>b. if b \<in> snd ` set kas then (?g b)\<lparr>closed := True\<rparr> else ?g b)
      = (\<lambda>b. if b \<in> snd ` set (ka # kas) then (store f b)\<lparr>closed := True\<rparr> else store f b)" by auto
  then show ?case unfolding foldl_Cons Cons.IH by (simp del: fun_upd_apply cong: if_cong)
qed simp

lemma tearing_mark:
  assumes "closeAll_mark (sf s) = (f, ls)"
  shows "tearing_step s (s\<lparr>sf := f, closing := snd ` set ls\<rparr>)"
  using assms by (force simp: closeAll_mark_def close_loop tearing_step_def in_table_def)

definition adding_step :: "bool \<Rightarrow> lane_sys \<Rightarrow> lane_sys \<Rightarrow> bool" where
  "adding_step g s s' \<longleftrightarrow> (\<exists>R a. a \<notin> known s \<and> \<not> closed (store (sf s) a) \<and> admits R a (sf s) (sf s')
     \<and> known s' = insert a (known s) \<and> failing s' = failing s \<and> (g \<longrightarrow> int (laneCount (sf s')) \<le> maxLanes (sf s')))"

definition dropping_step :: "lane_sys \<Rightarrow> lane_sys \<Rightarrow> bool" where
  "dropping_step s s' \<longleftrightarrow> (\<exists>G C. drops G C (sf s) (sf s') \<and> known s' = known s
     \<and> (\<forall>a\<in>G. closed (store (sf s) a) \<or> a \<in> C) \<and> (\<forall>a\<in>C. a \<in> G \<or> a \<in> known s \<inter> failing s')
     \<and> failing s - G \<subseteq> failing s' \<and> failing s' \<subseteq> failing s \<union> C
     \<and> maxLanes (sf s') = maxLanes (sf s) \<and> nextJoinID (sf s) \<le> nextJoinID (sf s'))"

lemma dropping_stepI:
  assumes "drops G C (sf s) f"
    and "\<And>a. a \<in> G \<Longrightarrow> closed (store (sf s) a) \<or> a \<in> C" "C \<subseteq> G"
    and "maxLanes f = maxLanes (sf s)" "nextJoinID (sf s) \<le> nextJoinID f"
  shows "dropping_step s (s\<lparr>sf := f\<rparr>)"
  unfolding dropping_step_def using assms by (intro exI [of _ G] exI [of _ C]) auto

lemma unchanged_fields:
  "activateLane s lane = (s', e) \<Longrightarrow> maxLanes s' = maxLanes s \<and> nextJoinID s' = nextJoinID s"
  "maxLanes (removeLane s a) = maxLanes s \<and> nextJoinID (removeLane s a) = nextJoinID s"
  "retireLaneByID s i = (s', ok) \<Longrightarrow> maxLanes s' = maxLanes s \<and> nextJoinID s' = nextJoinID s"
  "retireLanesExcept s k = (s', n) \<Longrightarrow> maxLanes s' = maxLanes s \<and> nextJoinID s' = nextJoinID s"
  "retireLeastProductiveLane s = (s', ok) \<Longrightarrow> maxLanes s' = maxLanes s \<and> nextJoinID s' = nextJoinID s"
  "fail_mark s a = (s', ok) \<Longrightarrow> maxLanes s' = maxLanes s \<and> nextJoinID s' = nextJoinID s"
  "maxLanes (fail_finish s a) = maxLanes s \<and> nextJoinID (fail_finish s a) = nextJoinID s"
  by (auto simp: activateLane_def startLane_def endReplacementOutage_def removeLane_def retireLaneByID_def
      retireLanesExcept_def retireLeastProductiveLane_def retire_open_def announce_retired_def fail_mark_def
      fail_finish_def setRescueReplacement_def fc_Close_def sched_RetireLane_def delete_lane_def Let_def
      split: option.splits if_splits)

lemma suspect_loop_fields:
  "maxLanes (foldl (\<lambda>g a. upd_lane a (suspected_update (\<lambda>_. True)) g) s ls) = maxLanes s
   \<and> nextJoinID (foldl (\<lambda>g a. upd_lane a (suspected_update (\<lambda>_. True)) g) s ls) = nextJoinID s"
  by (induction ls arbitrary: s) simp_all

lemma suspect_fields:
  "suspectDataLanes s = (s', b) \<Longrightarrow> maxLanes s' = maxLanes s \<and> nextJoinID s' = nextJoinID s"
  using suspect_loop_fields [of s] by (auto simp: suspectDataLanes_def setRescueReplacement_def Let_def split: if_splits)

lemma join_scan_some:
  "join_scan ids i = Some j \<Longrightarrow> i \<le> j \<and> j < 0x100000 \<and> j \<notin> set ids"
proof (induction ids i rule: join_scan.induct)
  case (1 ids i)
  have up: "i < 0x100000 \<Longrightarrow> i \<le> i + 1" by (simp add: word_le_nat_alt word_less_nat_alt unat_word_ariths)
  from 1 show ?case
    by (subst (asm) join_scan.simps) (auto split: if_splits dest: order.trans [OF up])
qed

lemma allocate_effect:
  assumes "allocateJoinID f = (f', r)"
  shows "nextJoinID f \<le> nextJoinID f'" "r = Inr i \<Longrightarrow> nextJoinID f \<le> i \<and> i < 0x100000 \<and> i < nextJoinID f'"
proof -
  have "nextJoinID f \<le> nextJoinID f' \<and> (r = Inr i \<longrightarrow> nextJoinID f \<le> i \<and> i < 0x100000 \<and> i < nextJoinID f')"
  proof (cases "join_scan (map fst (lanes f)) (nextJoinID f)")
    case None
    then show ?thesis using assms by (auto simp: allocateJoinID_def)
  next
    case (Some j)
    note j = join_scan_some [OF this]
    then have "j < j + 1" by (simp add: word_less_nat_alt unat_word_ariths)
    then show ?thesis using Some j assms by (auto simp: allocateJoinID_def)
  qed
  then show "nextJoinID f \<le> nextJoinID f'" "r = Inr i \<Longrightarrow> nextJoinID f \<le> i \<and> i < 0x100000 \<and> i < nextJoinID f'"
    by auto
qed

lemma allocate_max: "allocateJoinID s = (s', r) \<Longrightarrow> maxLanes s' = maxLanes s"
  by (auto simp: allocateJoinID_def split: option.splits)

lemma lane_step_cases:
  assumes "lane_step g s s'" "lane_table_ok (sf s)" "\<forall>a\<in>failing s. closed (store (sf s) a)"
  shows "adding_step g s s' \<or> dropping_step s s' \<or> tearing_step s s'"
  using assms(1)
proof cases
  case (join a now f)
  then show ?thesis using admits_addLane by (fastforce simp: adding_step_def)
next
  case (admit a now r rep f)
  then show ?thesis using admits_replacing [OF assms(2)] by (fastforce simp: adding_step_def)
next
  case (activate a f e)
  have "dropping_step s s'" unfolding activate(1)
    by (rule dropping_stepI [OF drops_activate [OF activate(2)]]) (use unchanged_fields(1) [OF activate(2)] in auto)
  then show ?thesis by simp
next
  case (allocate f r)
  have "dropping_step s s'" unfolding allocate(1)
    by (rule dropping_stepI [OF drops_allocate [OF allocate(2)]])
       (use allocate_effect(1) [OF allocate(2)] allocate_max [OF allocate(2)] in auto)
  then show ?thesis by simp
next
  case (remove a)
  have "dropping_step s s'" unfolding remove(1)
    by (rule dropping_stepI [OF drops_removeLane [OF assms(2)]]) (use unchanged_fields(2) [of "sf s" a] in auto)
  then show ?thesis by simp
next
  case (retire i f ok)
  obtain G C where gc: "C \<subseteq> G" "\<forall>a\<in>G. closed (store (sf s) a) \<or> a \<in> C" "drops G C (sf s) f"
    using drops_retireLaneByID [OF assms(2) retire(2)] by blast
  have "dropping_step s s'" unfolding retire(1)
    by (rule dropping_stepI [OF gc(3)]) (use gc unchanged_fields(3) [OF retire(2)] in auto)
  then show ?thesis by simp
next
  case (handoff k f n)
  obtain G where g: "drops G G (sf s) f" using drops_retireLanesExcept [OF assms(2), of k] handoff(2) by auto
  have "dropping_step s s'" unfolding handoff(1)
    by (rule dropping_stepI [OF g]) (use unchanged_fields(4) [OF handoff(2)] in auto)
  then show ?thesis by simp
next
  case (shed f ok)
  obtain G where g: "drops G G (sf s) f" using drops_shed [OF assms(2) shed(2)] by auto
  have "dropping_step s s'" unfolding shed(1)
    by (rule dropping_stepI [OF g]) (use unchanged_fields(5) [OF shed(2)] in auto)
  then show ?thesis by simp
next
  case (mark a f)
  have "dropping_step s s'" unfolding mark(1) dropping_step_def
    using drops_fail_mark [OF mark(3)] unchanged_fields(6) [OF mark(3)] mark(2)
    by (intro exI [of _ "{}"] exI [of _ "{a}"]) auto
  then show ?thesis by simp
next
  case (finish a)
  have "dropping_step s s'" unfolding finish(1) dropping_step_def
    using drops_fail_finish [OF assms(2), of a] unchanged_fields(7) [of "sf s" a] finish(2) assms(3)
    by (intro exI [of _ "{a}"] exI [of _ "{}"]) auto
  then show ?thesis by simp
next
  case (suspect f spare)
  have "dropping_step s s'" unfolding suspect(1)
    by (rule dropping_stepI [OF drops_suspect [OF suspect(2)]]) (use suspect_fields [OF suspect(2)] in auto)
  then show ?thesis by simp
next
  case (move a x y z)
  have "dropping_step s s'" unfolding move(1)
    by (rule dropping_stepI [of "{}" "{}"]) (auto simp: drops_def traffic_def)
  then show ?thesis by simp
next
  case (flow x y z)
  have "dropping_step s s'" unfolding flow(1)
    by (rule dropping_stepI [of "{}" "{}"]) (auto simp: drops_def)
  then show ?thesis by simp
next
  case (teardown f ls)
  then show ?thesis using tearing_mark by blast
next
  case inner
  have "dropping_step s s'" unfolding inner(1)
    by (rule dropping_stepI [of "{}" "{}"]) (auto simp: drops_def)
  then show ?thesis by simp
next
  case (disconnect a)
  have "drops {} {} (sf s) (fc_Close a (sf s))" "maxLanes (fc_Close a (sf s)) = maxLanes (sf s)" "nextJoinID (fc_Close a (sf s)) = nextJoinID (sf s)"
    by (simp_all only: drops_calls) (simp_all add: fc_Close_def)
  then have "dropping_step s s'" unfolding disconnect(1) dropping_step_def by (intro exI [of _ "{}"] exI [of _ "{}"]) simp
  then show ?thesis by simp
qed

definition lanes_inv :: "lane_sys \<Rightarrow> bool" where
  "lanes_inv s \<longleftrightarrow> lane_table_ok (sf s)
     \<and> (\<forall>a. in_table (sf s) a \<longrightarrow> a \<in> known s \<and> (closed (store (sf s) a) \<longrightarrow> a \<in> failing s \<or> closeOnce (sf s)))
     \<and> (\<forall>a\<in>known s. \<not> closed (store (sf s) a) \<longrightarrow> in_table (sf s) a)
     \<and> (\<forall>a\<in>failing s. closed (store (sf s) a))
     \<and> (closeOnce (sf s) \<longrightarrow> finished (sf s) \<and> (\<forall>a. in_table (sf s) a \<longrightarrow> closed (store (sf s) a)))"

definition ids_below_next :: "lane_sys \<Rightarrow> bool" where
  "ids_below_next s \<longleftrightarrow> (\<forall>a\<in>known s. lane_id (store (sf s) a) \<noteq> - 1) \<longrightarrow> (\<forall>a\<in>known s. lane_id (store (sf s) a) < nextJoinID (sf s))"

lemma admits_table_ok:
  assumes "lane_table_ok f" "admits R a f f'"
  shows "lane_table_ok f'"
proof -
  have "lane_id (store f a) \<notin> fst ` set (lanes f)" using assms(2) by (simp add: admits_def laneByID_None)
  then show ?thesis using assms by (auto simp: lane_table_ok_def admits_def distinct_map inj_on_def image_iff)
qed

lemma admits_in_table: "admits R a f f' \<Longrightarrow> in_table f' b \<longleftrightarrow> in_table f b \<and> b \<notin> R \<or> b = a"
  by (force simp: admits_def in_table_def)

lemma adding_inv:
  assumes "lanes_inv s" "adding_step g s s'"
  shows "lanes_inv s'"
proof -
  obtain R a where ra: "a \<notin> known s" "\<not> closed (store (sf s) a)" "admits R a (sf s) (sf s')"
      "known s' = insert a (known s)" "failing s' = failing s"
    using assms(2) by (auto simp: adding_step_def)
  have cl: "closed (store (sf s') b) \<longleftrightarrow> closed (store (sf s) b) \<or> b \<in> R" for b using ra(3) by (simp add: admits_def)
  have co: "\<not> closeOnce (sf s)" "closeOnce (sf s') = closeOnce (sf s)" using ra(3) assms(1) by (auto simp: admits_def lanes_inv_def)
  have aR: "a \<notin> R" using ra(1,3) assms(1) by (auto simp: admits_def lanes_inv_def)
  have "lane_table_ok (sf s')" using admits_table_ok [OF _ ra(3)] assms(1) by (simp add: lanes_inv_def)
  moreover have "b \<in> known s' \<and> (closed (store (sf s') b) \<longrightarrow> b \<in> failing s')" if "in_table (sf s') b" for b
    using assms(1) that ra(2,4,5) co(1) aR unfolding lanes_inv_def admits_in_table [OF ra(3)] cl by auto
  moreover have "in_table (sf s') b" if "b \<in> known s'" "\<not> closed (store (sf s') b)" for b
    using assms(1) that ra(4) unfolding lanes_inv_def admits_in_table [OF ra(3)] cl by auto
  moreover have "closed (store (sf s') b)" if "b \<in> failing s'" for b
    using assms(1) that ra(5) unfolding lanes_inv_def cl by simp
  ultimately show ?thesis unfolding lanes_inv_def co(2) using co(1) by simp
qed

lemma dropping_inv:
  assumes "lanes_inv s" "dropping_step s s'"
  shows "lanes_inv s'"
proof -
  obtain G C where gc: "drops G C (sf s) (sf s')" "known s' = known s" "\<forall>a\<in>G. closed (store (sf s) a) \<or> a \<in> C"
      "\<forall>a\<in>C. a \<in> G \<or> a \<in> known s \<inter> failing s'" "failing s - G \<subseteq> failing s'" "failing s' \<subseteq> failing s \<union> C"
    using assms(2) by (auto simp: dropping_step_def)
  have cl: "closed (store (sf s') b) \<longleftrightarrow> closed (store (sf s) b) \<or> b \<in> C" for b using gc(1) by (simp add: drops_def)
  have co: "closeOnce (sf s') = closeOnce (sf s)" "finished (sf s) \<longrightarrow> finished (sf s')" using gc(1) by (simp_all add: drops_def)
  have "lane_table_ok (sf s')" using drops_table_ok [OF _ gc(1)] assms(1) by (simp add: lanes_inv_def)
  moreover have "a \<in> known s' \<and> (closed (store (sf s') a) \<longrightarrow> a \<in> failing s' \<or> closeOnce (sf s'))" if "in_table (sf s') a" for a
    using assms(1) that gc(2-) unfolding lanes_inv_def drops_in_table [OF gc(1)] cl co by blast
  moreover have "in_table (sf s') a" if "a \<in> known s'" "\<not> closed (store (sf s') a)" for a
    using assms(1) that gc(2,3) unfolding lanes_inv_def drops_in_table [OF gc(1)] cl by blast
  moreover have "closed (store (sf s') a)" if "a \<in> failing s'" for a
    using assms(1) that gc(6) unfolding lanes_inv_def cl by blast
  moreover have "finished (sf s')" "in_table (sf s') a \<Longrightarrow> closed (store (sf s') a)" if "closeOnce (sf s')" for a
    using assms(1) that co unfolding lanes_inv_def drops_in_table [OF gc(1)] cl by simp_all
  ultimately show ?thesis unfolding lanes_inv_def by blast
qed

lemma tearing_inv:
  assumes "lanes_inv s" "tearing_step s s'"
  shows "lanes_inv s'"
proof -
  have "in_table (sf s') a \<longleftrightarrow> in_table (sf s) a" for a using assms(2) by (simp add: tearing_step_def in_table_def)
  moreover have "lane_table_ok (sf s')" using assms by (simp add: lanes_inv_def tearing_step_def lane_table_ok_def)
  ultimately show ?thesis using assms unfolding lanes_inv_def tearing_step_def by blast
qed

lemma lanes_inv_reachable: "lane_reachable g f s \<Longrightarrow> lanes_inv s"
proof (induction rule: lane_reachable.induct)
  case init
  then show ?case by (simp add: lanes_inv_def lane_table_ok_def in_table_def)
next
  case (step s s')
  then have "adding_step g s s' \<or> dropping_step s s' \<or> tearing_step s s'" using lane_step_cases by (simp add: lanes_inv_def)
  then show ?case using step.IH adding_inv dropping_inv tearing_inv by blast
qed

lemma word_less_succ: "x \<noteq> - 1 \<Longrightarrow> x < x + 1" for x :: u64
proof -
  assume "x \<noteq> - 1"
  then have "unat (x + 1) \<noteq> 0" using max_word_wrap [of x] by (auto simp: unat_eq_0)
  moreover have "unat x < 2 ^ 64" using unsigned_less [of x] by simp
  ultimately show ?thesis
    by (cases "unat x + 1 = 2 ^ 64") (auto simp: word_less_nat_alt unat_word_ariths)
qed

text \<open>The steps of a teardown compose to \<^verbatim>\<open>closeAll\<close>.\<close>

lemma disconnect_all:
  "lane_reachable g f s \<Longrightarrow> distinct as \<Longrightarrow> set as \<subseteq> closing s \<Longrightarrow>
   \<exists>s'. lane_reachable g f s' \<and> sf s' = foldl (\<lambda>h a. fc_Close a h) (sf s) as"
proof (induction as arbitrary: s)
  case (Cons a as)
  let ?s = "s\<lparr>sf := fc_Close a (sf s), closing := closing s - {a}\<rparr>"
  have "lane_reachable g f ?s" using Cons.prems by (intro lane_reachable.step [OF Cons.prems(1)] lane_step.disconnect) simp
  from Cons.IH [OF this] Cons.prems show ?case by auto
qed auto

lemma closeAll_reachable:
  assumes "lane_reachable g f s"
  shows "\<exists>s'. lane_reachable g f s' \<and> sf s' = closeAll (sf s)"
proof -
  have fin: "\<exists>s'. lane_reachable g f s' \<and> sf s' = signalDone (sf r)" if "lane_reachable g f r" for r
    using lane_reachable.step [OF that lane_step.flow [where x = False and y = True and z = "scheduler (sf r)"]] by (auto simp: signalDone_def)
  show ?thesis
  proof (cases "closeOnce (sf s)")
    case True
    then show ?thesis using fin [OF assms] by (simp add: closeAll_def)
  next
    case False
    let ?f1 = "fst (closeAll_mark (sf s))" and ?as = "map snd (lanes (sf s))"
    let ?r = "s\<lparr>closing := set ?as, sf := ?f1\<lparr>innerClosed := True\<rparr>\<rparr>"
    have m: "closeAll_mark (sf s) = (?f1, lanes (sf s))" "closeOnce ?f1" by (simp_all add: closeAll_mark_def close_loop)
    have "lane_reachable g f (s\<lparr>sf := ?f1, closing := set ?as\<rparr>)"
      using lane_reachable.step [OF assms lane_step.teardown [OF False m(1)]] by simp
    from lane_reachable.step [OF this lane_step.inner] m(2) have "lane_reachable g f ?r" by simp
    moreover have "distinct ?as"
    proof -
      have ok: "lane_table_ok (sf s)" using lanes_inv_reachable [OF assms] by (simp add: lanes_inv_def)
      have "inj_on snd (set (lanes (sf s)))"
      proof (rule inj_onI)
        fix x y assume "x \<in> set (lanes (sf s))" "y \<in> set (lanes (sf s))" "snd x = snd y"
        then show "x = y" using table_same [OF ok, of "fst x" "snd x" "fst y" "snd y"] by (metis prod.collapse)
      qed
      moreover have "distinct (lanes (sf s))" using ok by (simp add: lane_table_ok_def distinct_map)
      ultimately show ?thesis by (simp add: distinct_map)
    qed
    ultimately obtain r where "lane_reachable g f r" "sf r = foldl (\<lambda>h a. fc_Close a h) (?f1\<lparr>innerClosed := True\<rparr>) ?as"
      using disconnect_all [of g f ?r ?as] by auto
    with fin [of r] have "\<exists>s'. lane_reachable g f s' \<and> sf s' = signalDone (foldl (\<lambda>g ka. fc_Close (snd ka) g) (?f1\<lparr>innerClosed := True\<rparr>) (lanes (sf s)))"
      by (simp add: foldl_map)
    moreover have "closeAll (sf s) = signalDone (foldl (\<lambda>g ka. fc_Close (snd ka) g) (?f1\<lparr>innerClosed := True\<rparr>) (lanes (sf s)))"
      unfolding closeAll_def using False by (subst m(1)) simp
    ultimately show ?thesis by simp
  qed
qed

lemma ids_below_reachable: "lane_reachable g f s \<Longrightarrow> ids_below_next s"
proof (induction rule: lane_reachable.induct)
  case init
  then show ?case by (simp add: ids_below_next_def)
next
  case (step s s')
  have inv: "lanes_inv s" by (rule lanes_inv_reachable [OF step.hyps(1)])
  then consider "adding_step g s s'" | "dropping_step s s'" | "tearing_step s s'" using lane_step_cases [OF step.hyps(2)] by (auto simp: lanes_inv_def)
  then show ?case
  proof cases
    case 1
    then obtain R a where ra: "admits R a (sf s) (sf s')" "known s' = insert a (known s)" by (auto simp: adding_step_def)
    let ?i = "lane_id (store (sf s) a)"
    have id: "lane_id (store (sf s') b) = lane_id (store (sf s) b)" for b using ra(1) by (simp add: admits_def)
    have nx: "nextJoinID (sf s') = (if ?i \<ge> nextJoinID (sf s) then ?i + 1 else nextJoinID (sf s))"
      using ra(1) by (simp add: admits_def)
    show ?thesis unfolding ids_below_next_def id ra(2)
    proof (intro impI ballI)
      fix b assume all: "\<forall>b\<in>insert a (known s). lane_id (store (sf s) b) \<noteq> - 1" and b: "b \<in> insert a (known s)"
      have up: "?i < ?i + 1" using all by (intro word_less_succ) simp
      have "\<forall>b\<in>known s. lane_id (store (sf s) b) < nextJoinID (sf s)" using step.IH all by (simp add: ids_below_next_def)
      then have old: "b \<in> known s \<Longrightarrow> lane_id (store (sf s) b) < nextJoinID (sf s)" by blast
      show "lane_id (store (sf s) b) < nextJoinID (sf s')"
      proof (cases "?i \<ge> nextJoinID (sf s)")
        case True
        then show ?thesis using b up old nx by (cases "b = a") (auto dest: less_le_trans)
      next
        case False
        then show ?thesis using b old nx by (cases "b = a") auto
      qed
    qed
  next
    case 2
    then obtain G C where "drops G C (sf s) (sf s')" "known s' = known s" "nextJoinID (sf s) \<le> nextJoinID (sf s')"
      by (auto simp: dropping_step_def)
    then show ?thesis using step.IH by (auto simp: ids_below_next_def drops_def intro: less_le_trans)
  next
    case 3
    then show ?thesis using step.IH by (simp add: ids_below_next_def tearing_step_def)
  qed
qed

lemma count_drops: "drops G C f f' \<Longrightarrow> laneCount f' \<le> laneCount f"
proof -
  assume d: "drops G C f f'"
  have "filter (\<lambda>(i, a). \<not> closed (store f' a)) (lanes f') =
      filter (\<lambda>(i, a). a \<notin> C \<and> a \<notin> G) (filter (\<lambda>(i, a). \<not> closed (store f a)) (lanes f))"
    using d by (auto simp: drops_def intro!: filter_cong)
  then show ?thesis by (simp only: laneCount_def length_filter_le)
qed

lemma gateway_count:
  assumes "lane_reachable True f s" "0 \<le> maxLanes f"
  shows "int (laneCount (sf s)) \<le> maxLanes (sf s)"
  using assms(1)
proof (induction rule: lane_reachable.induct)
  case init
  then show ?case using assms(2) by (simp add: laneCount_def)
next
  case (step s s')
  then consider "adding_step True s s'" | "dropping_step s s'" | "tearing_step s s'"
    using lane_step_cases [OF step.hyps(2)] lanes_inv_reachable [OF step.hyps(1)] by (auto simp: lanes_inv_def)
  then show ?case
  proof cases
    case 1
    then show ?thesis by (auto simp: adding_step_def)
  next
    case 3
    then have "filter (\<lambda>(i, a). \<not> closed (store (sf s') a)) (lanes (sf s')) = []"
      by (force simp: tearing_step_def in_table_def filter_empty_conv)
    then have "laneCount (sf s') \<le> laneCount (sf s)" by (simp add: laneCount_def)
    then show ?thesis using 3 step.IH by (simp add: tearing_step_def)
  next
    case 2
    then obtain G C where d: "drops G C (sf s) (sf s')" "maxLanes (sf s') = maxLanes (sf s)" by (auto simp: dropping_step_def)
    from count_drops [OF d(1)] show ?thesis using step.IH d(2) by linarith
  qed
qed

text \<open>
  C9 (invariant). Whatever the interleaving of joins, activations, failures, retirements, handoffs and the
  teardown by \<^verbatim>\<open>closeAll\<close>, no lane leaks and none is lost. The table has at most one lane for an identifier;
  every open lane that ever joined is in it; a closed lane in it is one whose failure is still being
  processed, or the flow has been torn down. Before teardown and with no failure in progress, the table
  holds exactly the open lanes, and the count used for admission is the size of the table. After
  teardown every lane that ever joined is closed, none counts for admission, and no lane can join.
\<close>

theorem lane_table_exact:
  assumes "lane_reachable gateway f s"
  shows "distinct (map fst (lanes (sf s)))
    \<and> (\<forall>a\<in>known s. \<not> closed (store (sf s) a) \<longrightarrow> laneByID (sf s) (lane_id (store (sf s) a)) = Some a)
    \<and> (\<forall>i a. laneByID (sf s) i = Some a \<longrightarrow> lane_id (store (sf s) a) = i \<and> a \<in> known s
        \<and> (closed (store (sf s) a) \<longrightarrow> a \<in> failing s \<or> closeOnce (sf s)))
    \<and> (failing s = {} \<and> \<not> closeOnce (sf s) \<longrightarrow> snd ` set (lanes (sf s)) = {a \<in> known s. \<not> closed (store (sf s) a)}
        \<and> laneCount (sf s) = length (lanes (sf s)))
    \<and> (closeOnce (sf s) \<longrightarrow> (\<forall>a\<in>known s. closed (store (sf s) a)) \<and> laneCount (sf s) = 0
        \<and> (\<forall>lane. validateLaneLocked (sf s) lane \<noteq> None))"
proof -
  have inv: "lanes_inv s" by (rule lanes_inv_reachable [OF assms])
  then have ok: "lane_table_ok (sf s)" by (simp add: lanes_inv_def)
  have find: "\<And>a. in_table (sf s) a \<longleftrightarrow> laneByID (sf s) (lane_id (store (sf s) a)) = Some a"
    using laneByID_in_table [OF ok] by simp
  have home: "lane_id (store (sf s) a) = i \<and> in_table (sf s) a" if "laneByID (sf s) i = Some a" for i a
    using that laneByID_iff [OF ok] table_key [OF ok] by (force simp: in_table_def)
  have "laneCount (sf s) = length (lanes (sf s))" if "failing s = {}" "\<not> closeOnce (sf s)"
  proof -
    have "\<forall>(i, a) \<in> set (lanes (sf s)). \<not> closed (store (sf s) a)"
      using inv that by (force simp: lanes_inv_def in_table_def)
    then show ?thesis by (simp add: laneCount_def case_prod_beta')
  qed
  moreover have "distinct (map fst (lanes (sf s)))" using ok by (simp add: lane_table_ok_def)
  moreover have "snd ` set (lanes (sf s)) = {a \<in> known s. \<not> closed (store (sf s) a)}" if "failing s = {}" "\<not> closeOnce (sf s)"
    using inv that unfolding lanes_inv_def in_table_def by blast
  moreover have "laneCount (sf s) = 0 \<and> validateLaneLocked (sf s) lane \<noteq> None" if "closeOnce (sf s)" for lane
  proof
    have "\<forall>(i, a) \<in> set (lanes (sf s)). closed (store (sf s) a)" using inv that by (force simp: lanes_inv_def in_table_def)
    then show "laneCount (sf s) = 0" by (auto simp: laneCount_def filter_empty_conv)
    have "finished (sf s)" using inv that by (simp add: lanes_inv_def)
    then show "validateLaneLocked (sf s) lane \<noteq> None" by (simp add: validateLaneLocked_def split: option.split)
  qed
  moreover have "closed (store (sf s) a)" if "closeOnce (sf s)" "a \<in> known s" for a using inv that unfolding lanes_inv_def by blast
  moreover have "laneByID (sf s) (lane_id (store (sf s) a)) = Some a" if "a \<in> known s" "\<not> closed (store (sf s) a)" for a
    using inv that find unfolding lanes_inv_def by simp
  moreover have "a \<in> known s \<and> (closed (store (sf s) a) \<longrightarrow> a \<in> failing s \<or> closeOnce (sf s))" if "laneByID (sf s) i = Some a" for i a
    using inv home [OF that] unfolding lanes_inv_def by simp
  ultimately show ?thesis using home by simp
qed

text \<open>
  C10 (bounds). On the gateway the open lanes of a flow never exceed its ceiling, in any
  interleaving. An admission that is refused changes nothing. One that is accepted puts the lane in
  the table and retires only lanes that were open in it; each of those is closed and out of the
  table, and every other lane stays.
\<close>

theorem admission_respects_ceiling:
  assumes "lane_reachable True f s" "0 \<le> maxLanes f"
    and "a \<notin> known s" "\<not> closed (store (sf s) a)"
    and "addLaneReplacing (sf s) now (Some a) r rep = (f', e)"
  shows "int (laneCount (sf s)) \<le> maxLanes (sf s)
    \<and> (case e of Some _ \<Rightarrow> f' = sf s
       | None \<Rightarrow> int (laneCount f') \<le> maxLanes f' \<and> laneByID f' (lane_id (store f' a)) = Some a
           \<and> (\<forall>b. b \<noteq> a \<longrightarrow> (in_table f' b \<longleftrightarrow> in_table (sf s) b \<and> (closed (store f' b) \<longrightarrow> closed (store (sf s) b)))))"
proof (cases e)
  case (Some x)
  then show ?thesis using gateway_count [OF assms(1,2)] admission_refused assms(5) by simp
next
  case None
  have inv: "lanes_inv s" by (rule lanes_inv_reachable [OF assms(1)])
  then have ok: "lane_table_ok (sf s)" by (simp add: lanes_inv_def)
  let ?s' = "s\<lparr>sf := f', known := insert a (known s)\<rparr>"
  have "lane_step True s ?s'" using assms(3-5) None by (auto intro: lane_step.admit)
  then have r: "lane_reachable True f ?s'" using assms(1) by (rule lane_reachable.step [rotated])
  obtain R where ad: "admits R a (sf s) f'" using admits_replacing [OF ok] assms(5) None by blast
  have open_R: "\<forall>b\<in>R. \<not> closed (store (sf s) b)" using ad by (simp add: admits_def)
  have cl: "closed (store f' b) \<longleftrightarrow> closed (store (sf s) b) \<or> b \<in> R" for b using ad by (simp add: admits_def)
  have "in_table f' a" using admits_in_table [OF ad] by simp
  then have "laneByID f' (lane_id (store f' a)) = Some a"
    using laneByID_in_table admits_table_ok [OF ok ad] by blast
  then show ?thesis
    using None gateway_count [OF assms(1,2)] gateway_count [OF r assms(2)] admits_in_table [OF ad] cl open_R by auto
qed

text \<open>
  A join identifier is never reused: one that is allocated is below the bound of the
  wire format, differs from the identifier of every lane that ever joined, open or gone, and from
  every identifier that will be allocated afterwards. Only a peer that names the largest 64-bit
  identifier could make the counter wrap.
\<close>

theorem join_id_fresh:
  assumes "lane_reachable gateway f s" "\<forall>a\<in>known s. lane_id (store (sf s) a) \<noteq> - 1"
    and "allocateJoinID (sf s) = (f', Inr i)"
  shows "i < 0x100000 \<and> (\<forall>a\<in>known s. lane_id (store (sf s) a) \<noteq> i) \<and> i < nextJoinID f'
    \<and> lane_reachable gateway f (s\<lparr>sf := f'\<rparr>)"
proof -
  have "nextJoinID (sf s) \<le> i \<and> i < 0x100000 \<and> i < nextJoinID f'" using allocate_effect(2) [OF assms(3)] by simp
  moreover have "\<forall>a\<in>known s. lane_id (store (sf s) a) < nextJoinID (sf s)"
    using ids_below_reachable [OF assms(1)] assms(2) by (simp add: ids_below_next_def)
  moreover have "lane_reachable gateway f (s\<lparr>sf := f'\<rparr>)"
    using lane_reachable.step [OF assms(1) lane_step.allocate [OF assms(3)]] .
  ultimately show ?thesis by fastforce
qed

section \<open>Control and data\<close>














section \<open>An example\<close>

text \<open>A gateway flow that reserves its control lane: lane 0 for control, lane 1 for data.\<close>

definition demo_lane :: "nat \<Rightarrow> mpLane" where
  "demo_lane a = \<lparr>lane_id = of_nat a, kind = TransportQUIC, fc = True, staged = False, ready = False, control = (a = 0),
     closed = False, suspected = False, lane_sent = 0, lane_recv = 0, admitted = 0, writeQ = None,
     writeInteractiveQ = None, writeSlots = None, writeDone = False\<rparr>"

definition demo_flow :: laneFlow where
  "demo_flow = \<lparr>store = demo_lane, lanes = [], nextJoinID = 0, lanesJoined = 0, finished = False, doneClosed = False,
     finSent = False, remoteFinSeen = False, reserveControlLane = True, tcpStriping = False,
     controlLaneShared = Some True, rescueHint = None, hints = 0, laneWriteQueue = 64, laneControlReserve = 8,
     eventQueue = 256, replacementDeadline = 0, scheduler = True, laneFailures = 0, laneErr = [], started = [],
     retiredLanes = [], closedConns = [], closeOnce = False, innerClosed = False\<rparr>"

definition demo_server :: serverFlow where
  "demo_server = newServerFlow demo_flow TransportQUIC 4"

definition demo_joined :: "nat list \<Rightarrow> serverFlow" where
  "demo_joined ls = foldl (\<lambda>f a. fst (addLaneReplacing f 0 (Some a) 0 False)) demo_server ls"

definition demo_sys :: "nat list \<Rightarrow> lane_sys" where
  "demo_sys ls = \<lparr>sf = demo_joined ls, known = set ls, failing = {}, closing = {}\<rparr>"

lemma demo_lanes: "map fst (lanes (demo_joined [0])) = [0]" "lanes (demo_joined [0, 1]) = [(0, 0), (1, 1)]"
  by code_simp+

lemma demo_admitted:
  "snd (addLaneReplacing (demo_joined []) 0 (Some 0) 0 False) = None"
  "snd (addLaneReplacing (demo_joined [0]) 0 (Some 1) 0 False) = None"
  "snd (addLaneReplacing (demo_joined [0, 1]) 0 (Some 2) 0 False) = Some LaneLimitReached"
  "snd (addLaneReplacing (demo_joined [0, 1]) (16 * 10 ^ 9) (Some 2) 0 False) = None"
  "\<not> closed (store (demo_joined []) 0)" "\<not> closed (store (demo_joined [0]) 1)" "\<not> closed (store (demo_joined [0, 1]) 2)"
  by code_simp+

lemma demo_reachable: "lane_reachable True demo_server (demo_sys [0, 1])"
proof -
  have init: "lane_reachable True demo_server (demo_sys [])"
    unfolding demo_sys_def demo_joined_def
    by simp (rule lane_reachable.init; simp add: demo_server_def demo_flow_def newServerFlow_def laneFlow.defs)
  have "lane_step True (demo_sys []) ((demo_sys [])\<lparr>sf := demo_joined [0], known := insert 0 {}\<rparr>)"
    using lane_step.admit [of True 0 "demo_sys []" 0 0 False "demo_joined [0]"] demo_admitted
    by (simp add: demo_sys_def prod_eq_iff) (simp add: demo_joined_def)
  from lane_reachable.step [OF init this] have one: "lane_reachable True demo_server (demo_sys [0])"
    by (simp add: demo_sys_def)
  have "lane_step True (demo_sys [0]) ((demo_sys [0])\<lparr>sf := demo_joined [0, 1], known := insert 1 {0}\<rparr>)"
    using lane_step.admit [of True 1 "demo_sys [0]" 0 0 False "demo_joined [0, 1]"] demo_admitted
    by (simp add: demo_sys_def prod_eq_iff) (simp add: demo_joined_def)
  from lane_reachable.step [OF one this] show ?thesis by (simp add: demo_sys_def insert_commute)
qed

definition demo_torn :: lane_sys where
  "demo_torn = (demo_sys [0, 1])\<lparr>sf := fst (closeAll_mark (demo_joined [0, 1])), closing := {0, 1}\<rparr>"

lemma demo_torn_reachable: "lane_reachable True demo_server demo_torn"
proof -
  have "\<not> closeOnce (sf (demo_sys [0, 1]))" by code_simp
  from lane_reachable.step [OF demo_reachable lane_step.teardown [OF this]] show ?thesis
    by (simp add: demo_torn_def demo_sys_def closeAll_mark_def demo_lanes [unfolded One_nat_def])
qed

text \<open>A flow with two open lanes, and the same flow torn down: both lanes are still in the table and none is open.\<close>

lemma lane_table_exact_witness:
  "lane_reachable True demo_server (demo_sys [0, 1]) \<and> laneCount (sf (demo_sys [0, 1])) = length (lanes (sf (demo_sys [0, 1])))
   \<and> lane_reachable True demo_server demo_torn \<and> map fst (lanes (sf demo_torn)) = [0, 1] \<and> laneCount (sf demo_torn) = 0"
proof -
  have "failing (demo_sys [0, 1]) = {}" by (simp add: demo_sys_def)
  moreover have "\<not> closeOnce (sf (demo_sys [0, 1]))" "closeOnce (sf demo_torn)" "map fst (lanes (sf demo_torn)) = [0, 1]" by code_simp+
  ultimately show ?thesis
    using lane_table_exact [OF demo_reachable] lane_table_exact [OF demo_torn_reachable] demo_reachable demo_torn_reachable by blast
qed

lemma admission_respects_ceiling_witness:
  "int (laneCount (demo_joined [0, 1])) \<le> maxLanes (demo_joined [0, 1])
   \<and> fst (addLaneReplacing (demo_joined [0, 1]) 0 (Some 2) 0 False) = demo_joined [0, 1]"
  using admission_respects_ceiling [OF demo_reachable, of 2 0 0 False
      "fst (addLaneReplacing (demo_joined [0, 1]) 0 (Some 2) 0 False)" "Some LaneLimitReached"] demo_admitted
  by (simp add: demo_sys_def prod_eq_iff) (simp add: demo_server_def newServerFlow_def demo_flow_def serverLaneBudget_def bulkLaneBudget_def laneFlow.defs)

lemma join_id_fresh_witness:
  "2 < nextJoinID (fst (allocateJoinID (demo_joined [0, 1]))) \<and> lane_id (store (demo_joined [0, 1]) 1) \<noteq> 2"
proof -
  have a: "allocateJoinID (demo_joined [0, 1]) = (fst (allocateJoinID (demo_joined [0, 1])), Inr 2)"
    by (simp add: prod_eq_iff) code_simp
  have "\<forall>a\<in>known (demo_sys [0, 1]). lane_id (store (sf (demo_sys [0, 1])) a) \<noteq> - 1" by code_simp
  from join_id_fresh [OF demo_reachable this, of "fst (allocateJoinID (demo_joined [0, 1]))" 2] a
  show ?thesis by (simp add: demo_sys_def)
qed


text \<open>
  The lane evicted at the ceiling and the lane retired as least productive do not
  depend on the order in which the lane map is iterated, and they are the best by a fixed rule. The
  evicted lane is an open, unexcluded lane of sufficient age; it has the role asked for if any such
  lane has, and the lowest identifier among the eligible lanes of its role. The retired lane is a
  ready lane other than lane zero and the control lane, no such lane has moved fewer bytes, and
  among equals it has the highest identifier.
\<close>

theorem victims_ignore_map_order:
  assumes "lane_table_ok f" "set ls = set (lanes f)"
  shows "oldestLaneLocked (f\<lparr>lanes := ls\<rparr>) ctl now minAge excluded = oldestLaneLocked f ctl now minAge excluded
    \<and> least_productive (f\<lparr>lanes := ls\<rparr>) = least_productive f
    \<and> (\<forall>v. oldestLaneLocked f ctl now minAge excluded = Some v \<longrightarrow>
      in_table f v \<and> evictable f now minAge excluded v
      \<and> (\<forall>a. in_table f a \<and> evictable f now minAge excluded a \<and> a \<noteq> v \<longrightarrow> evict_before f ctl v a))
    \<and> (\<forall>w. least_productive f = Some w \<longrightarrow>
      in_table f w \<and> expendable f w \<and> (\<forall>a. in_table f a \<and> expendable f a \<and> a \<noteq> w \<longrightarrow> works_less f w a))"
  using oldest_any_order [OF assms] least_any_order [OF assms] oldest_rule [OF assms(1)] least_rule [OF assms(1)]
  by blast

lemma victims_ignore_map_order_witness:
  "oldestLaneLocked ((demo_joined [0, 1])\<lparr>lanes := [(1, 1), (0, 0)]\<rparr>) False (16 * 10 ^ 9) laneDeadPathDetection [] = Some 1
   \<and> least_productive ((demo_joined [0, 1])\<lparr>lanes := [(1, 1), (0, 0)]\<rparr>) = Some 1"
proof -
  have "lane_table_ok (demo_joined [0, 1])"
    using lanes_inv_reachable [OF demo_reachable] by (simp add: lanes_inv_def demo_sys_def)
  moreover have "set [(1, 1), (0, 0)] = set (lanes (demo_joined [0, 1]))" unfolding demo_lanes by auto
  moreover have "oldestLaneLocked (demo_joined [0, 1]) False (16 * 10 ^ 9) laneDeadPathDetection [] = Some 1"
    "least_productive (demo_joined [0, 1]) = Some 1" by code_simp+
  ultimately show ?thesis using victims_ignore_map_order by metis
qed

end
