(* ===== verification/Recovery.thy ===== *)
theory Recovery
  imports LaneRuns
begin

text \<open>
  How a flow notices that it is stuck and how long it waits for a lane (\<^verbatim>\<open>internal/pep/mpflow.go\<close>):
  the stall watchdog, which demotes lanes and asks for a rescue, and the grace that all waiters of one
  outage share. Times are nanoseconds; the zero \<^verbatim>\<open>time.Time\<close> is \<^verbatim>\<open>None\<close>. The compare-and-swap loops
  on the shared deadline are taken at the point where they succeed.
\<close>

section \<open>The stall watchdog\<close>

definition stallRTTMultiplier :: int where "stallRTTMultiplier = 3"
definition stallThresholdFloor :: int where "stallThresholdFloor = 250 * 10 ^ 6"
definition stallThresholdCap :: int where "stallThresholdCap = 2 * 10 ^ 9"
definition stallThresholdDefault :: int where "stallThresholdDefault = 10 ^ 9"

definition stallThreshold :: "int \<Rightarrow> int \<Rightarrow> int \<Rightarrow> int" where
  "stallThreshold stallGrace minRTT currentRTT =
     (if stallGrace > 0 then stallGrace
      else
        (let rtt = (if minRTT \<le> 0 then currentRTT else minRTT) in
         if rtt \<le> 0 then stallThresholdDefault
         else
           (let threshold = stallRTTMultiplier * rtt in
            if threshold < stallThresholdFloor then stallThresholdFloor
            else if threshold > stallThresholdCap then stallThresholdCap
            else threshold)))"

definition pendingOutbound :: "u64 \<Rightarrow> u64 \<Rightarrow> 'c list \<Rightarrow> bool" where
  "pendingOutbound highestSent acked outstandingChunks \<longleftrightarrow> highestSent > acked \<or> length outstandingChunks > 0"

definition scanStall :: "bool \<Rightarrow> int \<Rightarrow> int \<Rightarrow> int \<Rightarrow> int option \<Rightarrow> int option \<times> bool" where
  "scanStall pending progressNS now threshold since =
     (if \<not> pending then (None, False)
      else case since of
          None \<Rightarrow> (Some now, False)
        | Some s \<Rightarrow>
            if progressNS > 0 \<and> progressNS > s then (Some progressNS, False)
            else (Some s, now - s \<ge> threshold))"

record watchdog =
  sendSince :: "int option"
  episode :: bool
  lastSignal :: "int option"
  stallSignal :: bool
  codingStalled :: bool

text \<open>One turn of the loop after the ticker; \<^verbatim>\<open>codes\<close> tells which lanes code their data.\<close>

definition watch_tick ::
  "watchdog \<Rightarrow> ('x) laneFlow_scheme \<Rightarrow> int \<Rightarrow> int \<Rightarrow> bool \<Rightarrow> int \<Rightarrow> (nat \<Rightarrow> bool) \<Rightarrow> bool \<Rightarrow> watchdog \<times> ('x) laneFlow_scheme" where
  "watch_tick w f now threshold pending progress codes rescueInFlight =
     (case scanStall pending progress now threshold (sendSince w) of (since, stalled) \<Rightarrow>
       (let w = w\<lparr>sendSince := since\<rparr> in
        if \<not> stalled then (w\<lparr>episode := False\<rparr>, f)
        else
          (let newEpisode = (\<not> episode w);
               w = (if newEpisode
                    then w\<lparr>episode := True, codingStalled := codingStalled w \<or> list_ex codes (healthyLanes f)\<rparr> else w);
               f = (if newEpisode then fst (suspectDataLanes f) else f) in
           if (case lastSignal w of None \<Rightarrow> True | Some l \<Rightarrow> now - l \<ge> threshold) \<and> \<not> rescueInFlight then
             (let f = (if \<not> newEpisode then fst (suspectDataLanes f) else f) in
              if \<not> stallSignal w then (w\<lparr>stallSignal := True, lastSignal := Some now\<rparr>, f) else (w, f))
           else (w, f))))"

section \<open>Waiting for a lane\<close>

definition laneReplacementWait :: int where "laneReplacementWait = laneDeadPathDetection + 30 * 10 ^ 9"

definition replacementBudget :: "int \<Rightarrow> int \<Rightarrow> int \<Rightarrow> int \<times> int" where
  "replacementBudget deadline now grace =
     (if deadline \<noteq> 0 \<and> deadline - now > - grace then (deadline, deadline - now)
      else (now + grace, grace))"

definition extendReplacementOutage :: "int \<Rightarrow> int \<Rightarrow> int \<Rightarrow> int \<times> bool" where
  "extendReplacementOutage deadline now grace =
     (if deadline = 0 \<or> deadline - now \<le> - grace then (deadline, False) else (now + grace, True))"

datatype wait_error = ResumeRefused | ReplacementAbandoned | LaneReplacementTimeout | FlowClosed | ContextEnded

datatype wake_cause = Ticker | Timer | FlowDone | ContextDone

text \<open>What a waiter sees when it wakes: why it woke, and the shared state it then reads.\<close>

record wakeup =
  cause :: wake_cause
  wakeTime :: int
  hasLane :: bool
  resumeRefused :: bool
  replacementAbandoned :: bool
  deadlineSeen :: int

fun wait_loop :: "wakeup list \<Rightarrow> wait_error option option" where
  "wait_loop [] = None"
| "wait_loop (w # ws) =
     (if cause w = FlowDone then Some (Some FlowClosed)
      else if cause w = ContextDone then Some (Some ContextEnded)
      else if hasLane w then Some None
      else if resumeRefused w then Some (Some ResumeRefused)
      else if replacementAbandoned w then Some (Some ReplacementAbandoned)
      else if cause w = Timer then
        (if deadlineSeen w \<noteq> 0 \<and> deadlineSeen w - wakeTime w > 0 then wait_loop ws
         else Some (Some LaneReplacementTimeout))
      else wait_loop ws)"

record outage =
  deadline :: int
  replacementWaits :: nat
  replacementTimeouts :: nat

text \<open>The call up to the point where it blocks: an answer, or the time the timer is set for.\<close>

definition wait_enter :: "outage \<Rightarrow> int \<Rightarrow> int \<Rightarrow> bool \<Rightarrow> bool \<Rightarrow> bool \<Rightarrow> outage \<times> (wait_error option + int)" where
  "wait_enter x now grace lane refused abandoned =
     (if lane then (x\<lparr>deadline := 0\<rparr>, Inl None)
      else if refused then (x, Inl (Some ResumeRefused))
      else if abandoned then (x, Inl (Some ReplacementAbandoned))
      else
        (let x = x\<lparr>replacementWaits := replacementWaits x + 1\<rparr> in
         case replacementBudget (deadline x) now grace of (d, remaining) \<Rightarrow>
           if remaining \<le> 0
           then (x\<lparr>deadline := d, replacementTimeouts := replacementTimeouts x + 1\<rparr>, Inl (Some LaneReplacementTimeout))
           else (x\<lparr>deadline := d\<rparr>, Inr remaining)))"

definition waitForHealthyLane ::
  "outage \<Rightarrow> int \<Rightarrow> int \<Rightarrow> bool \<Rightarrow> bool \<Rightarrow> bool \<Rightarrow> wakeup list \<Rightarrow> outage \<times> wait_error option option" where
  "waitForHealthyLane x now grace lane refused abandoned ws =
     (case wait_enter x now grace lane refused abandoned of
        (x1, Inl r) \<Rightarrow> (x1, Some r)
      | (x1, Inr remaining) \<Rightarrow>
          (case wait_loop ws of
             None \<Rightarrow> (x1, None)
           | Some None \<Rightarrow> (x1\<lparr>deadline := 0\<rparr>, Some None)
           | Some (Some LaneReplacementTimeout) \<Rightarrow>
               (x1\<lparr>replacementTimeouts := replacementTimeouts x1 + 1\<rparr>, Some (Some LaneReplacementTimeout))
           | Some (Some e) \<Rightarrow> (x1, Some (Some e))))"

section \<open>When a stall is reported\<close>

text \<open>A scan: the time, whether bytes were unacknowledged, and the last progress stamp.\<close>

type_synonym scan = "int \<times> bool \<times> int"

abbreviation scan_time :: "scan \<Rightarrow> int" where "scan_time x \<equiv> fst x"
abbreviation scan_pending :: "scan \<Rightarrow> bool" where "scan_pending x \<equiv> fst (snd x)"
abbreviation scan_progress :: "scan \<Rightarrow> int" where "scan_progress x \<equiv> snd (snd x)"

definition scan1 :: "int \<Rightarrow> int option \<Rightarrow> scan \<Rightarrow> int option" where
  "scan1 threshold since x = fst (scanStall (scan_pending x) (scan_progress x) (scan_time x) threshold since)"

definition since_after :: "int \<Rightarrow> scan list \<Rightarrow> int option" where
  "since_after threshold xs = foldl (scan1 threshold) None xs"

definition plausible :: "scan list \<Rightarrow> bool" where
  "plausible xs \<longleftrightarrow> sorted (map scan_time xs) \<and> (\<forall>x\<in>set xs. 0 < scan_time x \<and> scan_progress x \<le> scan_time x)"

lemma since_after_snoc: "since_after threshold (xs @ [x]) = scan1 threshold (since_after threshold xs) x"
  by (simp add: since_after_def)

lemma plausible_snoc: "plausible (xs @ [x]) \<longleftrightarrow> plausible xs \<and> 0 < scan_time x \<and> scan_progress x \<le> scan_time x
    \<and> (\<forall>y\<in>set xs. scan_time y \<le> scan_time x)"
  by (auto simp: plausible_def sorted_append)

text \<open>The clock runs from a scan of the present pending run, or from progress seen since.\<close>

lemma since_sound:
  assumes "plausible xs" "since_after threshold xs = Some s"
  shows "\<exists>ys z zs. xs = ys @ z # zs \<and> (\<forall>x\<in>set (z # zs). scan_pending x) \<and> scan_time z \<le> s \<and> s \<le> scan_time (last xs) \<and> 0 < s"
  using assms
proof (induction xs arbitrary: s rule: rev_induct)
  case Nil
  then show ?case by (simp add: since_after_def)
next
  case (snoc x xs)
  have p: "plausible xs" "0 < scan_time x" "scan_progress x \<le> scan_time x" "\<forall>y\<in>set xs. scan_time y \<le> scan_time x"
    using snoc.prems(1) by (auto simp: plausible_snoc)
  have pend: "scan_pending x" using snoc.prems(2) by (auto simp: since_after_snoc scan1_def scanStall_def split: if_splits)
  show ?case
  proof (cases "since_after threshold xs")
    case None
    then have "s = scan_time x" using snoc.prems(2) pend by (simp add: since_after_snoc scan1_def scanStall_def)
    then show ?thesis using pend p by (intro exI [of _ xs] exI [of _ x] exI [of _ "[]"]) simp
  next
    case (Some s')
    then obtain ys z zs where z: "xs = ys @ z # zs" "\<forall>x\<in>set (z # zs). scan_pending x" "scan_time z \<le> s'"
        "s' \<le> scan_time (last xs)" "0 < s'"
      using snoc.IH [OF p(1)] by blast
    have "scan_time (last xs) \<le> scan_time x" using z(1) p(4) by (intro p(4) [THEN bspec]) simp
    moreover have "s = (if scan_progress x > s' then scan_progress x else s')"
      using snoc.prems(2) Some pend z(5) by (auto simp: since_after_snoc scan1_def scanStall_def split: if_splits)
    ultimately show ?thesis using z pend p(3)
      by (intro exI [of _ ys] exI [of _ z] exI [of _ "zs @ [x]"]) auto
  qed
qed

text \<open>While a run stays pending with no progress after one of its scans, the clock is not later than that scan.\<close>

lemma since_complete:
  assumes "plausible (ys @ z # zs)" "\<forall>x\<in>set (z # zs). scan_pending x" "\<forall>x\<in>set zs. scan_progress x \<le> scan_progress z"
  shows "\<exists>s. since_after threshold (ys @ z # zs) = Some s \<and> s \<le> scan_time z \<and> (scan_progress z \<le> s \<or> scan_progress z \<le> 0)"
  using assms
proof (induction zs rule: rev_induct)
  case Nil
  have p: "plausible ys" "0 < scan_time z" "scan_progress z \<le> scan_time z" "\<forall>y\<in>set ys. scan_time y \<le> scan_time z"
    using Nil.prems(1) by (auto simp: plausible_snoc)
  show ?case
  proof (cases "since_after threshold ys")
    case None
    then show ?thesis using Nil.prems(2) p(3) by (simp add: since_after_snoc scan1_def scanStall_def)
  next
    case (Some s)
    then obtain us v vs where "ys = us @ v # vs" "s \<le> scan_time (last ys)" using since_sound [OF p(1)] by blast
    then have "s \<le> scan_time z" using p(4) by (metis (no_types, lifting) append_is_Nil_conv last_in_set list.distinct(1) order_trans)
    then show ?thesis using Some Nil.prems(2) p(3) by (auto simp: since_after_snoc scan1_def scanStall_def)
  qed
next
  case (snoc x zs)
  have eq: "ys @ z # zs @ [x] = (ys @ z # zs) @ [x]" by simp
  have "plausible (ys @ z # zs)" using snoc.prems(1) unfolding eq by (simp only: plausible_snoc)
  then obtain s where s: "since_after threshold (ys @ z # zs) = Some s" "s \<le> scan_time z" "scan_progress z \<le> s \<or> scan_progress z \<le> 0"
    using snoc.IH snoc.prems by auto
  have "scan_pending x" "scan_progress x \<le> scan_progress z" using snoc.prems by simp_all
  then show ?case using s unfolding eq since_after_snoc by (auto simp: scan1_def scanStall_def)
qed

text \<open>
  C15 (functional). The watchdog reports a stall only after the threshold and always after it. If a scan
  reports one, bytes were unacknowledged at this scan and at every scan of the last threshold, an
  earlier scan had already seen them, and nothing was acknowledged within the threshold. Conversely, when
  bytes stay unacknowledged from some scan on and no progress is stamped after the one it saw, every scan
  at least one threshold later reports the stall.
\<close>

theorem stall_report_exact:
  assumes "plausible (xs @ [(now, pending, progress)])" "0 < threshold"
  shows "(snd (scanStall pending progress now threshold (since_after threshold xs)) \<longrightarrow>
        pending \<and> progress \<le> now - threshold
        \<and> (\<exists>x\<in>set xs. scan_pending x \<and> scan_time x \<le> now - threshold)
        \<and> (\<forall>x\<in>set xs. scan_time x > now - threshold \<longrightarrow> scan_pending x))
    \<and> (\<forall>ys z zs. xs = ys @ z # zs \<and> pending \<and> (\<forall>x\<in>set (z # zs). scan_pending x)
        \<and> (\<forall>x\<in>set zs. scan_progress x \<le> scan_progress z) \<and> progress \<le> scan_progress z \<and> scan_time z \<le> now - threshold \<longrightarrow>
        snd (scanStall pending progress now threshold (since_after threshold xs)))"
proof (intro conjI impI allI)
  have pl: "plausible xs" using assms(1) by (simp add: plausible_snoc)
  assume r: "snd (scanStall pending progress now threshold (since_after threshold xs))"
  then obtain s where s: "since_after threshold xs = Some s" "pending" "\<not> (progress > 0 \<and> progress > s)" "now - s \<ge> threshold"
    by (auto simp: scanStall_def split: option.splits if_splits)
  obtain ys z zs where z: "xs = ys @ z # zs" "\<forall>x\<in>set (z # zs). scan_pending x" "scan_time z \<le> s" "0 < s"
    using since_sound [OF pl s(1)] by blast
  show "pending" by fact
  show "progress \<le> now - threshold" using s z(4) by auto
  show "\<exists>x\<in>set xs. scan_pending x \<and> scan_time x \<le> now - threshold" using z s(4) by (intro bexI [of _ z]) auto
  show "\<forall>x\<in>set xs. scan_time x > now - threshold \<longrightarrow> scan_pending x"
  proof (intro ballI impI)
    fix x assume x: "x \<in> set xs" "scan_time x > now - threshold"
    have "\<forall>y\<in>set ys. scan_time y \<le> scan_time z" using pl z(1) by (auto simp: plausible_def sorted_append)
    then have "x \<notin> set ys" using x(2) z(3) s(4) by fastforce
    then show "scan_pending x" using x(1) z(1,2) by auto
  qed
next
  have pl: "plausible xs" using assms(1) by (simp add: plausible_snoc)
  fix ys z zs
  assume a: "xs = ys @ z # zs \<and> pending \<and> (\<forall>x\<in>set (z # zs). scan_pending x)
    \<and> (\<forall>x\<in>set zs. scan_progress x \<le> scan_progress z) \<and> progress \<le> scan_progress z \<and> scan_time z \<le> now - threshold"
  have "plausible (ys @ z # zs)" "\<forall>x\<in>set (z # zs). scan_pending x" "\<forall>x\<in>set zs. scan_progress x \<le> scan_progress z"
    using pl a by simp_all
  from since_complete [OF this, of threshold] obtain s where s: "since_after threshold xs = Some s" "s \<le> scan_time z"
      "scan_progress z \<le> s \<or> scan_progress z \<le> 0"
    using a by auto
  show "snd (scanStall pending progress now threshold (since_after threshold xs))"
    using a s by (auto simp: scanStall_def)
qed

lemma stall_report_exact_witness:
  "snd (scanStall True 7 2000 1000 (since_after 1000 [(5, False, 0), (900, True, 7), (1000, True, 7)]))"
proof -
  have "plausible ([(5, False, 0), (900, True, 7), (1000, True, 7)] @ [(2000, True, 7)])" by (simp add: plausible_def)
  from stall_report_exact [OF this, of 1000, THEN conjunct2, THEN spec [of _ "[(5, False, 0)]"],
      THEN spec [of _ "(900, True, 7)"], THEN spec [of _ "[(1000, True, 7)]"]]
  show ?thesis by simp
qed

text \<open>The watchdog only demotes: it never closes a lane or takes one out of the table.\<close>

lemma watchdog_never_kills:
  assumes "watch_tick w f now threshold pending progress codes inflight = (w', f')"
  shows "drops {} {} f f'"
proof -
  have d: "drops {} {} g (fst (suspectDataLanes g))" for g :: "'a laneFlow_scheme"
    using drops_suspect [of g] by (cases "suspectDataLanes g") simp
  have "f' \<in> {f, fst (suspectDataLanes f)}"
    using assms by (auto simp: watch_tick_def Let_def split: prod.splits if_splits)
  then show ?thesis using d drops_refl by auto
qed

section \<open>The grace of an outage\<close>

datatype outage_op = Enter int | Extend int

fun op_time :: "outage_op \<Rightarrow> int" where
  "op_time (Enter t) = t"
| "op_time (Extend t) = t"

fun outage_step :: "int \<Rightarrow> int \<Rightarrow> outage_op \<Rightarrow> int" where
  "outage_step grace d (Enter t) = fst (replacementBudget d t grace)"
| "outage_step grace d (Extend t) = fst (extendReplacementOutage d t grace)"

text \<open>The last rescue attempt that was seen, or the moment the outage was noticed.\<close>

fun last_sign :: "int \<Rightarrow> outage_op list \<Rightarrow> int" where
  "last_sign t0 [] = t0"
| "last_sign t0 (Enter t # xs) = last_sign t0 xs"
| "last_sign t0 (Extend t # xs) = last_sign t xs"

text \<open>Each operation comes before the grace that is then running has been over for as long again.\<close>

fun timely :: "int \<Rightarrow> int \<Rightarrow> outage_op list \<Rightarrow> bool" where
  "timely grace t0 [] \<longleftrightarrow> True"
| "timely grace t0 (Enter t # xs) \<longleftrightarrow> t0 \<le> t \<and> t < t0 + 2 * grace \<and> timely grace t0 xs"
| "timely grace t0 (Extend t # xs) \<longleftrightarrow> t0 \<le> t \<and> t < t0 + 2 * grace \<and> timely grace t xs"

lemma outage_deadline:
  "0 < grace \<Longrightarrow> 0 < t0 \<Longrightarrow> timely grace t0 xs \<Longrightarrow> foldl (outage_step grace) (t0 + grace) xs = last_sign t0 xs + grace"
  by (induction grace t0 xs rule: timely.induct) (simp_all add: replacementBudget_def extendReplacementOutage_def)

lemma last_sign_from: "timely grace t0 xs \<Longrightarrow> t0 \<le> last_sign t0 xs"
  by (induction grace t0 xs rule: timely.induct) auto

lemma wait_loop_timer:
  assumes "w \<in> set ws" "cause w = Timer" "deadlineSeen w = 0 \<or> deadlineSeen w \<le> wakeTime w"
  shows "wait_loop ws \<noteq> None"
  using assms by (induction ws) auto

text \<open>
  All waiters of one outage share one grace. From the first waiter on, whatever waiters
  come and whatever rescue attempts extend the outage, the deadline is one grace after the last
  rescue attempt, or after the outage was noticed. A waiter that comes later is refused at once when
  the deadline has passed and otherwise sleeps exactly until the deadline; and a waiter whose timer
  fires when the deadline it reads is over, or cleared, returns.
\<close>

theorem outage_grace_shared:
  assumes "0 < grace" "0 < t0" "deadline x = 0" "timely grace t0 xs"
    and "d = foldl (outage_step grace) (deadline (fst (wait_enter x t0 grace False False False))) xs"
    and "deadline y = d" "last_sign t0 xs \<le> now" "now < d + grace"
    and "w \<in> set ws" "cause w = Timer" "deadlineSeen w = 0 \<or> deadlineSeen w \<le> wakeTime w"
  shows "d = last_sign t0 xs + grace
    \<and> snd (wait_enter y now grace False False False) = (if d \<le> now then Inl (Some LaneReplacementTimeout) else Inr (d - now))
    \<and> (\<exists>z r. waitForHealthyLane y now grace False False False ws = (z, Some r))"
proof -
  have "deadline (fst (wait_enter x t0 grace False False False)) = t0 + grace"
    using assms(1-3) by (simp add: wait_enter_def replacementBudget_def)
  then have d: "d = last_sign t0 xs + grace" using assms(5) outage_deadline [OF assms(1,2,4)] by simp
  have pos: "0 < d" using d assms(1,2) last_sign_from [OF assms(4)] by simp
  have enter: "snd (wait_enter y now grace False False False) = (if d \<le> now then Inl (Some LaneReplacementTimeout) else Inr (d - now))"
    using assms(6,8) pos by (simp add: wait_enter_def replacementBudget_def)
  obtain r where r: "wait_loop ws = Some r" using wait_loop_timer [OF assms(9-11)] by blast
  have "\<exists>z r. waitForHealthyLane y now grace False False False ws = (z, Some r)"
    using r by (auto simp: waitForHealthyLane_def split: prod.splits sum.splits option.splits wait_error.splits)
  then show ?thesis using d enter by blast
qed

lemma outage_grace_shared_witness:
  "snd (wait_enter \<lparr>deadline = 160, replacementWaits = 1, replacementTimeouts = 0\<rparr> 120 100 False False False) = Inr 40"
proof -
  let ?x = "\<lparr>deadline = 0, replacementWaits = 0, replacementTimeouts = 0\<rparr>"
  let ?y = "\<lparr>deadline = 160, replacementWaits = 1, replacementTimeouts = 0\<rparr>"
  let ?w = "\<lparr>cause = Timer, wakeTime = 160, hasLane = False, resumeRefused = False, replacementAbandoned = False, deadlineSeen = 160\<rparr>"
  have "160 = foldl (outage_step 100) (deadline (fst (wait_enter ?x 10 100 False False False))) [Enter 20, Extend 60]"
    by (simp add: wait_enter_def replacementBudget_def extendReplacementOutage_def)
  from outage_grace_shared [OF _ _ _ _ this, of ?y 120 ?w "[?w]"] show ?thesis by simp
qed

end
