(* ===== verification/Inbound.thy ===== *)
theory Inbound
  imports Frame Memlimit "HOL-Library.Multiset"
begin

text \<open>
  The receive queue of a flow (\<^verbatim>\<open>internal/pep/inbound.go\<close>): lane readers queue frames within the
  flow's receive limits and the shared receive budget, one forwarding goroutine hands them to the
  receive loop in order, and whoever ends up with a frame returns its charge. Each section under
  \<^verbatim>\<open>inboundMu\<close> and each channel operation is one step; the goroutines interleave between them.
  The budget is that of \<^verbatim>\<open>Memlimit\<close>, shared with other flows.
\<close>

section \<open>State and sections\<close>

record inboundEvent =
  charged :: int
  queued :: bool
  eframe :: frame

text \<open>
  \<^verbatim>\<open>inboundWake\<close> and \<^verbatim>\<open>ackErr\<close> are channels of capacity one; \<^verbatim>\<open>events\<close> has capacity \<^verbatim>\<open>eventQueue\<close>.
\<close>

record inbound =
  inboundQueue :: "inboundEvent list"
  inboundBytes :: u64
  inboundCount :: int
  inboundRunning :: bool
  inboundWake :: bool
  events :: "inboundEvent list"
  ackErr :: bool
  receiveMemory :: "budget option"
  flowDone :: bool
  ctxDone :: bool
  maxReceiveFrames :: int
  maxReceiveBytes :: u64
  eventQueue :: nat

definition stopped :: "inbound \<Rightarrow> bool" where
  "stopped f \<longleftrightarrow> flowDone f \<or> ctxDone f"

definition queueInbound :: "inbound \<Rightarrow> inboundEvent \<Rightarrow> inbound \<times> bool" where
  "queueInbound f event =
     (if stopped f then (f, False)
      else
        (let n = int (length (fPayload (eframe event))) in
         if inboundCount f \<ge> maxReceiveFrames f \<or> inboundBytes f + of_int n > maxReceiveBytes f
         then (f\<lparr>ackErr := True\<rparr>, False)
         else case TryAcquire (receiveMemory f) n of (b, ok) \<Rightarrow>
           if \<not> ok then (f\<lparr>receiveMemory := b, ackErr := True\<rparr>, False)
           else
             (f\<lparr>receiveMemory := b, inboundBytes := inboundBytes f + of_int n, inboundCount := inboundCount f + 1,
                inboundQueue := inboundQueue f @ [event\<lparr>charged := n, queued := True\<rparr>], inboundRunning := True\<rparr>, True)))"

definition notifyActivity :: "inbound \<Rightarrow> inbound" where
  "notifyActivity f = f\<lparr>inboundWake := True\<rparr>"

definition release_memory :: "inbound \<Rightarrow> inboundEvent \<Rightarrow> mem_error + inbound" where
  "release_memory f event =
     (case Release (receiveMemory f) (charged event) of
        Inl e \<Rightarrow> Inl e
      | Inr b \<Rightarrow> Inr (f\<lparr>receiveMemory := b\<rparr>))"

definition release_counts :: "inbound \<Rightarrow> int \<Rightarrow> inbound" where
  "release_counts f n = f\<lparr>inboundBytes := inboundBytes f - of_int n, inboundCount := inboundCount f - 1\<rparr>"

definition releaseInbound :: "inbound \<Rightarrow> inboundEvent \<Rightarrow> mem_error + inbound" where
  "releaseInbound f event =
     (if \<not> queued event \<or> charged event < 0 then Inr f
      else case release_memory f event of
        Inl e \<Rightarrow> Inl e
      | Inr f1 \<Rightarrow> Inr (release_counts f1 (charged event)))"

definition forward_take :: "inbound \<Rightarrow> inbound \<times> inboundEvent option" where
  "forward_take f =
     (case inboundQueue f of
        [] \<Rightarrow> (f, None)
      | e # q \<Rightarrow> (f\<lparr>inboundQueue := q\<rparr>, Some e))"

definition forward_drain :: "inbound \<Rightarrow> inbound \<times> inboundEvent list" where
  "forward_drain f = (f\<lparr>inboundQueue := []\<rparr>, inboundQueue f)"

section \<open>The goroutines\<close>

text \<open>
  The forwarder is not started, about to look at the queue, waiting for a wake-up, offering a frame
  it took, cleaning up (with the frames it still has to release, and whether it has taken the rest of
  the queue), or gone. \<^verbatim>\<open>notifying\<close> counts readers between their unlock and \<^verbatim>\<open>notifyActivity\<close>; \<^verbatim>\<open>holding\<close>
  are the frames the receive loop took and has not released, \<^verbatim>\<open>paying\<close> the charges whose bytes are
  back in the budget while the counters still include them. \<^verbatim>\<open>others\<close> is what the other users of
  the budget hold; \<^verbatim>\<open>accepted\<close> and \<^verbatim>\<open>received\<close> are the histories of the queue and of the loop.
\<close>

datatype forwarder = FwNone | FwLoop | FwWait | FwHand inboundEvent | FwQuit "inboundEvent list" bool | FwGone

record in_sys =
  ib :: inbound
  fw :: forwarder
  notifying :: nat
  holding :: "inboundEvent list"
  paying :: "int list"
  others :: int
  accepted :: "inboundEvent list"
  received :: "inboundEvent list"

fun fw_events :: "forwarder \<Rightarrow> inboundEvent list" where
  "fw_events (FwHand e) = [e]"
| "fw_events (FwQuit es t) = es"
| "fw_events _ = []"

inductive in_step :: "in_sys \<Rightarrow> in_sys \<Rightarrow> bool" where
  queue: "length (fPayload (eframe e)) \<le> MaxPayload \<Longrightarrow> queueInbound (ib s) e = (f, True) \<Longrightarrow>
    in_step s (s\<lparr>ib := f, fw := (if inboundRunning (ib s) then fw s else FwLoop), notifying := Suc (notifying s),
      accepted := accepted s @ [last (inboundQueue f)]\<rparr>)"
| refuse: "queueInbound (ib s) e = (f, False) \<Longrightarrow> in_step s (s\<lparr>ib := f\<rparr>)"
| notify: "notifying s = Suc n \<Longrightarrow> in_step s (s\<lparr>ib := notifyActivity (ib s), notifying := n\<rparr>)"
| take: "fw s = FwLoop \<Longrightarrow> forward_take (ib s) = (f, Some e) \<Longrightarrow> in_step s (s\<lparr>ib := f, fw := FwHand e\<rparr>)"
| idle: "fw s = FwLoop \<Longrightarrow> forward_take (ib s) = (f, None) \<Longrightarrow> in_step s (s\<lparr>ib := f, fw := FwWait\<rparr>)"
| wake: "fw s = FwWait \<Longrightarrow> inboundWake (ib s) \<Longrightarrow> in_step s (s\<lparr>ib := (ib s)\<lparr>inboundWake := False\<rparr>, fw := FwLoop\<rparr>)"
| quit: "fw s = FwWait \<Longrightarrow> stopped (ib s) \<Longrightarrow> in_step s (s\<lparr>fw := FwQuit [] False\<rparr>)"
| hand: "fw s = FwHand e \<Longrightarrow> length (events (ib s)) < eventQueue (ib s) \<Longrightarrow>
    in_step s (s\<lparr>ib := (ib s)\<lparr>events := events (ib s) @ [e]\<rparr>, fw := FwLoop\<rparr>)"
| quit_hand: "fw s = FwHand e \<Longrightarrow> stopped (ib s) \<Longrightarrow> in_step s (s\<lparr>fw := FwQuit [e] False\<rparr>)"
| drain: "fw s = FwQuit [] False \<Longrightarrow> forward_drain (ib s) = (f, es) \<Longrightarrow> in_step s (s\<lparr>ib := f, fw := FwQuit es True\<rparr>)"
| drain_events: "fw s = FwQuit [] True \<Longrightarrow> events (ib s) = e # es \<Longrightarrow>
    in_step s (s\<lparr>ib := (ib s)\<lparr>events := es\<rparr>, fw := FwQuit [e] True\<rparr>)"
| gone: "fw s = FwQuit [] True \<Longrightarrow> events (ib s) = [] \<Longrightarrow> in_step s (s\<lparr>fw := FwGone\<rparr>)"
| discard: "fw s = FwQuit (e # es) t \<Longrightarrow> release_memory (ib s) e = Inr f \<Longrightarrow>
    in_step s (s\<lparr>ib := f, fw := FwQuit es t, paying := charged e # paying s\<rparr>)"
| receive: "events (ib s) = e # es \<Longrightarrow>
    in_step s (s\<lparr>ib := (ib s)\<lparr>events := es\<rparr>, holding := holding s @ [e], received := received s @ [e]\<rparr>)"
| release: "holding s = hs @ e # hs' \<Longrightarrow> release_memory (ib s) e = Inr f \<Longrightarrow>
    in_step s (s\<lparr>ib := f, holding := hs @ hs', paying := charged e # paying s\<rparr>)"
| counted: "paying s = ps @ n # ps' \<Longrightarrow> in_step s (s\<lparr>ib := release_counts (ib s) n, paying := ps @ ps'\<rparr>)"
| other_take: "0 \<le> n \<Longrightarrow> TryAcquire (receiveMemory (ib s)) n = (b, True) \<Longrightarrow>
    in_step s (s\<lparr>ib := (ib s)\<lparr>receiveMemory := b\<rparr>, others := others s + n\<rparr>)"
| other_give: "0 \<le> n \<Longrightarrow> n \<le> others s \<Longrightarrow> Release (receiveMemory (ib s)) n = Inr b \<Longrightarrow>
    in_step s (s\<lparr>ib := (ib s)\<lparr>receiveMemory := b\<rparr>, others := others s - n\<rparr>)"
| stop: "in_step s (s\<lparr>ib := (ib s)\<lparr>flowDone := flowDone (ib s) \<or> x, ctxDone := ctxDone (ib s) \<or> y\<rparr>\<rparr>)"

definition fresh_inbound :: "budget option \<Rightarrow> int \<Rightarrow> u64 \<Rightarrow> nat \<Rightarrow> inbound" where
  "fresh_inbound b frames byts evq = \<lparr>inboundQueue = [], inboundBytes = 0, inboundCount = 0, inboundRunning = False,
     inboundWake = False, events = [], ackErr = False, receiveMemory = b, flowDone = False, ctxDone = False,
     maxReceiveFrames = frames, maxReceiveBytes = byts, eventQueue = evq\<rparr>"

definition in_start :: "budget option \<Rightarrow> int \<Rightarrow> u64 \<Rightarrow> nat \<Rightarrow> in_sys" where
  "in_start b frames byts evq = \<lparr>ib = fresh_inbound b frames byts evq, fw = FwNone, notifying = 0, holding = [], paying = [],
     others = usage b, accepted = [], received = []\<rparr>"

inductive in_reachable :: "in_sys \<Rightarrow> in_sys \<Rightarrow> bool" for s0 where
  init: "in_reachable s0 s0"
| step: "in_reachable s0 s \<Longrightarrow> in_step s s' \<Longrightarrow> in_reachable s0 s'"

section \<open>Invariants\<close>

text \<open>The frames whose bytes are charged to the budget, wherever they are.\<close>

definition live_events :: "in_sys \<Rightarrow> inboundEvent list" where
  "live_events s = holding s @ events (ib s) @ fw_events (fw s) @ inboundQueue (ib s)"

abbreviation live_bytes :: "in_sys \<Rightarrow> int" where
  "live_bytes s \<equiv> sum_list (map charged (live_events s))"

definition event_sane :: "inboundEvent \<Rightarrow> bool" where
  "event_sane e \<longleftrightarrow> queued e \<and> charged e = int (length (fPayload (eframe e))) \<and> charged e \<le> int MaxPayload"

definition books :: "in_sys \<Rightarrow> bool" where
  "books s \<longleftrightarrow> budget_ok (receiveMemory (ib s)) \<and> list_all event_sane (live_events s) \<and> list_all (\<lambda>n. 0 \<le> n) (paying s)
     \<and> 0 \<le> others s
     \<and> (tracked (receiveMemory (ib s)) \<longrightarrow> usage (receiveMemory (ib s)) = others s + live_bytes s)
     \<and> int (unat (inboundBytes (ib s))) = live_bytes s + sum_list (paying s)
     \<and> inboundCount (ib s) = int (length (live_events s) + length (paying s))
     \<and> inboundBytes (ib s) \<le> maxReceiveBytes (ib s)
     \<and> inboundCount (ib s) \<le> max 0 (maxReceiveFrames (ib s))"

fun fw_sound :: "in_sys \<Rightarrow> forwarder \<Rightarrow> bool" where
  "fw_sound s FwNone \<longleftrightarrow> \<not> inboundRunning (ib s) \<and> inboundQueue (ib s) = [] \<and> events (ib s) = []"
| "fw_sound s FwLoop \<longleftrightarrow> inboundRunning (ib s)"
| "fw_sound s FwWait \<longleftrightarrow> inboundRunning (ib s) \<and> (inboundQueue (ib s) \<noteq> [] \<longrightarrow> inboundWake (ib s) \<or> notifying s > 0)"
| "fw_sound s (FwHand e) \<longleftrightarrow> inboundRunning (ib s)"
| "fw_sound s (FwQuit es t) \<longleftrightarrow> inboundRunning (ib s) \<and> stopped (ib s) \<and> (t \<longrightarrow> inboundQueue (ib s) = [])"
| "fw_sound s FwGone \<longleftrightarrow> inboundRunning (ib s) \<and> stopped (ib s) \<and> inboundQueue (ib s) = [] \<and> events (ib s) = []"

definition arrivals_ordered :: "in_sys \<Rightarrow> bool" where
  "arrivals_ordered s \<longleftrightarrow> (\<not> stopped (ib s) \<longrightarrow>
     accepted s = received s @ events (ib s) @ fw_events (fw s) @ inboundQueue (ib s))"

lemma queueInbound_true:
  assumes "queueInbound f e = (f', True)"
  obtains b n where "n = int (length (fPayload (eframe e)))" "\<not> stopped f" "inboundCount f < maxReceiveFrames f"
    "inboundBytes f + of_int n \<le> maxReceiveBytes f" "TryAcquire (receiveMemory f) n = (b, True)"
    "f' = f\<lparr>receiveMemory := b, inboundBytes := inboundBytes f + of_int n, inboundCount := inboundCount f + 1,
       inboundQueue := inboundQueue f @ [e\<lparr>charged := n, queued := True\<rparr>], inboundRunning := True\<rparr>"
  using assms by (auto simp: queueInbound_def Let_def not_le not_less split: if_splits prod.splits)

lemma queueInbound_false:
  assumes "queueInbound f e = (f', False)"
  shows "f' = f \<or> f' = f\<lparr>ackErr := True\<rparr>"
proof -
  have "TryAcquire (receiveMemory f) n = (b, False) \<Longrightarrow> f\<lparr>receiveMemory := b, ackErr := True\<rparr> = f\<lparr>ackErr := True\<rparr>" for n b
    using mem.acquire_refused [of "receiveMemory f" n b] by simp
  then show ?thesis using assms by (auto simp: queueInbound_def Let_def split: if_splits prod.splits)
qed

lemma fw_sound_step: "in_step s s' \<Longrightarrow> fw_sound s (fw s) \<Longrightarrow> fw_sound s' (fw s')"
proof (induction rule: in_step.induct)
  case (queue e s f)
  from queue(2) show ?case by (rule queueInbound_true) (use queue(3) in \<open>cases "fw s"; auto simp: stopped_def\<close>)
next
  case (refuse s e f)
  from queueInbound_false [OF refuse(1)] show ?case using refuse(2) by (cases "fw s") (auto simp: stopped_def)
next
  case (notify s n)
  then show ?case by (cases "fw s") (auto simp: stopped_def notifyActivity_def)
next
  case (take s f e)
  then show ?case by (auto simp: forward_take_def split: list.splits)
next
  case (idle s f)
  then show ?case by (auto simp: forward_take_def split: list.splits)
next
  case (drain s f es)
  then show ?case by (auto simp: forward_drain_def stopped_def)
next
  case (discard s e es t f)
  then show ?case by (auto simp: release_memory_def stopped_def split: sum.splits)
next
  case (receive s e es)
  then show ?case by (cases "fw s") (auto simp: stopped_def)
next
  case (release s hs e hs' f)
  then show ?case by (cases "fw s") (auto simp: release_memory_def stopped_def split: sum.splits)
next
  case (counted s ps n ps')
  then show ?case by (cases "fw s") (auto simp: release_counts_def stopped_def)
next
  case (other_take n s b)
  then show ?case by (cases "fw s") (auto simp: stopped_def)
next
  case (other_give n s b)
  then show ?case by (cases "fw s") (auto simp: stopped_def)
next
  case (stop s x y)
  then show ?case by (cases "fw s") (auto simp: stopped_def)
qed (auto simp: stopped_def)

lemma in_order_step: "in_step s s' \<Longrightarrow> fw_sound s (fw s) \<Longrightarrow> arrivals_ordered s \<Longrightarrow> arrivals_ordered s'"
proof (induction rule: in_step.induct)
  case (queue e s f)
  from queue(2) show ?case
    by (rule queueInbound_true) (use queue(3,4) in \<open>cases "fw s"; auto simp: arrivals_ordered_def stopped_def\<close>)
next
  case (refuse s e f)
  from queueInbound_false [OF refuse(1)] show ?case using refuse(3) by (auto simp: arrivals_ordered_def stopped_def)
next
  case (take s f e)
  then show ?case by (auto simp: arrivals_ordered_def stopped_def forward_take_def split: list.splits)
next
  case (idle s f)
  then show ?case by (auto simp: arrivals_ordered_def stopped_def forward_take_def split: list.splits)
next
  case (drain s f es)
  then show ?case by (auto simp: arrivals_ordered_def forward_drain_def stopped_def)
next
  case (discard s e es t f)
  then show ?case by (auto simp: arrivals_ordered_def release_memory_def stopped_def split: sum.splits)
next
  case (release s hs e hs' f)
  then show ?case by (auto simp: arrivals_ordered_def release_memory_def stopped_def split: sum.splits)
qed (auto simp: arrivals_ordered_def stopped_def notifyActivity_def release_counts_def)

lemma sane_bounds: "list_all event_sane es \<Longrightarrow> 0 \<le> sum_list (map charged es)"
  by (induction es) (auto simp: event_sane_def)

lemma unat_add_of_int:
  fixes x :: u64
  assumes "0 \<le> n" "int (unat x) + n < 2 ^ 64"
  shows "int (unat (x + of_int n)) = int (unat x) + n"
proof -
  have "int (unat (x + of_int n)) = (int (unat x) + n) mod 2 ^ 64"
    by (simp add: uint_nat [symmetric] uint_word_ariths unsigned_of_int take_bit_eq_mod mod_simps)
  then show ?thesis using assms by simp
qed

lemma unat_sub_of_int:
  fixes x :: u64
  assumes "0 \<le> n" "n \<le> int (unat x)"
  shows "int (unat (x - of_int n)) = int (unat x) - n"
proof -
  have "int (unat x) < 2 ^ 64" using unsigned_less [of x] by simp
  moreover have "int (unat (x - of_int n)) = (int (unat x) - n) mod 2 ^ 64"
    by (simp add: uint_nat [symmetric] uint_word_ariths unsigned_of_int take_bit_eq_mod mod_simps)
  ultimately show ?thesis using assms by simp
qed

text \<open>The books depend only on which frames are charged, not on where they are.\<close>

definition inbound_unchanged :: "inbound \<Rightarrow> inbound \<Rightarrow> bool" where
  "inbound_unchanged f f' \<longleftrightarrow> receiveMemory f' = receiveMemory f \<and> inboundBytes f' = inboundBytes f \<and> inboundCount f' = inboundCount f
     \<and> maxReceiveBytes f' = maxReceiveBytes f \<and> maxReceiveFrames f' = maxReceiveFrames f"

lemma sum_charged_mset: "mset xs = mset ys \<Longrightarrow> sum_list (map charged xs) = sum_list (map charged ys)"
  by (metis mset_map sum_mset_sum_list)

lemma books_move:
  assumes "books s" "inbound_unchanged (ib s) (ib s')" "mset (live_events s') = mset (live_events s)"
    and "paying s' = paying s" "others s' = others s"
  shows "books s'"
  using assms sum_charged_mset [OF assms(3)] mset_eq_setD [OF assms(3)] mset_eq_length [OF assms(3)]
  by (simp add: books_def inbound_unchanged_def list_all_iff)

lemma charged_le_live: "list_all event_sane es \<Longrightarrow> e \<in> set es \<Longrightarrow> 0 \<le> charged e \<and> charged e \<le> sum_list (map charged es)"
  by (induction es) (auto simp: event_sane_def dest!: sane_bounds)

lemma release_works:
  assumes "books s" "e \<in> set (live_events s)"
  shows "\<exists>f. release_memory (ib s) e = Inr f \<and> budget_ok (receiveMemory f) \<and> tracked (receiveMemory f) = tracked (receiveMemory (ib s))
    \<and> (tracked (receiveMemory f) \<longrightarrow> usage (receiveMemory f) = usage (receiveMemory (ib s)) - charged e)
    \<and> f = (ib s)\<lparr>receiveMemory := receiveMemory f\<rparr>"
proof -
  have e: "0 \<le> charged e" "charged e \<le> live_bytes s" using charged_le_live assms by (auto simp: books_def)
  then obtain b where "Release (receiveMemory (ib s)) (charged e) = Inr b" "budget_ok b"
      "tracked b = tracked (receiveMemory (ib s))"
      "usage b = usage (receiveMemory (ib s)) - (if tracked (receiveMemory (ib s)) then charged e else 0)"
    using mem.give_back [of "receiveMemory (ib s)" "charged e"] assms(1) by (auto simp: books_def)
  then show ?thesis by (auto simp: release_memory_def)
qed

lemma books_release:
  assumes "books s" "release_memory (ib s) e = Inr f" "mset (live_events s) = add_mset e (mset (live_events s'))"
    and "ib s' = f" "paying s' = charged e # paying s" "others s' = others s"
  shows "books s'"
proof -
  have "e \<in> set (live_events s)" using assms(3) by (metis set_mset_mset union_single_eq_member)
  from release_works [OF assms(1) this] assms(2)
  have f: "budget_ok (receiveMemory f)" "tracked (receiveMemory f) = tracked (receiveMemory (ib s))"
      "tracked (receiveMemory f) \<longrightarrow> usage (receiveMemory f) = usage (receiveMemory (ib s)) - charged e"
      "inboundBytes f = inboundBytes (ib s)" "inboundCount f = inboundCount (ib s)"
      "maxReceiveBytes f = maxReceiveBytes (ib s)" "maxReceiveFrames f = maxReceiveFrames (ib s)"
    by (auto simp: release_memory_def split: sum.splits)
  have m: "mset (live_events s) = mset (e # live_events s')" using assms(3) by simp
  have "live_bytes s = charged e + live_bytes s'" "length (live_events s) = Suc (length (live_events s'))"
      "set (live_events s) = insert e (set (live_events s'))"
    using sum_charged_mset [OF m] mset_eq_length [OF m] mset_eq_setD [OF m] by simp_all
  then show ?thesis using assms(1,4-6) f by (auto simp: books_def list_all_iff event_sane_def)
qed

lemma books_queue:
  assumes "books s" "fw_sound s (fw s)" "unat (maxReceiveBytes (ib s)) \<le> 2 ^ 63"
    and "length (fPayload (eframe e)) \<le> MaxPayload" "queueInbound (ib s) e = (f, True)"
    and "s' = s\<lparr>ib := f, fw := (if inboundRunning (ib s) then fw s else FwLoop), notifying := k, accepted := h\<rparr>"
  shows "books s'"
  using assms(5)
proof (rule queueInbound_true)
  fix b n
  assume n: "n = int (length (fPayload (eframe e)))" and room: "inboundCount (ib s) < maxReceiveFrames (ib s)"
    "inboundBytes (ib s) + of_int n \<le> maxReceiveBytes (ib s)" and got: "TryAcquire (receiveMemory (ib s)) n = (b, True)"
    and f: "f = (ib s)\<lparr>receiveMemory := b, inboundBytes := inboundBytes (ib s) + of_int n, inboundCount := inboundCount (ib s) + 1,
       inboundQueue := inboundQueue (ib s) @ [e\<lparr>charged := n, queued := True\<rparr>], inboundRunning := True\<rparr>"
  have "fw_events (fw s') = fw_events (fw s)" using assms(2,6) by (cases "fw s") auto
  then have live: "live_events s' = live_events s @ [e\<lparr>charged := n, queued := True\<rparr>]"
    using assms(6) f by (simp add: live_events_def)
  have mem: "budget_ok b \<and> tracked b = tracked (receiveMemory (ib s))
      \<and> usage b = usage (receiveMemory (ib s)) + (if tracked (receiveMemory (ib s)) then n else 0)"
    using mem.acquire_granted [OF _ _ got] assms(1) n by (simp add: books_def)
  have "unat (inboundBytes (ib s)) \<le> 2 ^ 63" using assms(1,3) by (simp add: books_def word_le_nat_alt)
  then have "unat (inboundBytes (ib s)) + length (fPayload (eframe e)) < 2 ^ 64" using assms(4) by (simp add: MaxPayload_def)
  then have "int (unat (inboundBytes (ib s)) + length (fPayload (eframe e))) < int (2 ^ 64)" by (simp only: of_nat_less_iff)
  then have "int (unat (inboundBytes (ib s))) + n < 2 ^ 64" using n by simp
  then have "int (unat (inboundBytes f)) = int (unat (inboundBytes (ib s))) + n"
    using unat_add_of_int [of n "inboundBytes (ib s)"] n f by simp
  moreover have "event_sane (e\<lparr>charged := n, queued := True\<rparr>)" using n assms(4) by (simp add: event_sane_def)
  ultimately show ?thesis
    using assms(1,6) live mem room f by (simp add: books_def)
qed

lemma books_counted:
  assumes "books s" "paying s = ps @ n # ps'"
    and "s' = s\<lparr>ib := release_counts (ib s) n, paying := ps @ ps'\<rparr>"
  shows "books s'"
proof -
  have live: "live_events s' = live_events s" using assms(3) by (simp add: live_events_def release_counts_def)
  have nn: "0 \<le> n" "0 \<le> sum_list (ps @ ps')" "0 \<le> live_bytes s"
    using assms(1,2) sane_bounds by (auto simp: books_def list_all_iff intro!: sum_list_nonneg add_nonneg_nonneg)
  then have le: "n \<le> int (unat (inboundBytes (ib s)))" using assms(1,2) by (simp add: books_def)
  note sub = unat_sub_of_int [OF nn(1) le]
  then have "inboundBytes (ib s) - of_int n \<le> inboundBytes (ib s)" using nn(1) unfolding word_le_nat_alt by linarith
  then show ?thesis using assms live sub by (auto simp: books_def release_counts_def)
qed

lemma books_step:
  "in_step s s' \<Longrightarrow> fw_sound s (fw s) \<Longrightarrow> unat (maxReceiveBytes (ib s)) \<le> 2 ^ 63 \<Longrightarrow> books s \<Longrightarrow> books s'"
proof (induction rule: in_step.induct)
  case (queue e s f)
  then show ?case using books_queue by blast
next
  case (refuse s e f)
  from queueInbound_false [OF refuse(1)] show ?case
    using refuse(4) by (auto simp: books_def live_events_def)
next
  case (take s f e)
  from take(5) show ?case by (rule books_move)
    (use take(1,2) in \<open>auto simp: inbound_unchanged_def live_events_def forward_take_def split: list.splits\<close>)
next
  case (idle s f)
  from idle(5) show ?case by (rule books_move)
    (use idle(1,2) in \<open>auto simp: inbound_unchanged_def live_events_def forward_take_def split: list.splits\<close>)
next
  case (drain s f es)
  from drain(5) show ?case by (rule books_move)
    (use drain(1,2) in \<open>auto simp: inbound_unchanged_def live_events_def forward_drain_def\<close>)
next
  case (discard s e es t f)
  from discard(5,2) show ?case by (rule books_release)
    (use discard(1,2) in \<open>auto simp: live_events_def release_memory_def split: sum.splits\<close>)
next
  case (release s hs e hs' f)
  from release(5,2) show ?case by (rule books_release)
    (use release(1,2) in \<open>auto simp: live_events_def release_memory_def split: sum.splits\<close>)
next
  case (counted s ps n ps')
  then show ?case using books_counted by blast
next
  case (other_take n s b)
  then show ?case using mem.acquire_granted [of "receiveMemory (ib s)" n b] by (auto simp: books_def live_events_def)
next
  case (other_give n s b)
  have "0 \<le> live_bytes s" using other_give(6) sane_bounds by (simp add: books_def)
  then have "\<exists>b'. Release (receiveMemory (ib s)) n = Inr b' \<and> budget_ok b' \<and> tracked b' = tracked (receiveMemory (ib s))
      \<and> usage b' = usage (receiveMemory (ib s)) - (if tracked (receiveMemory (ib s)) then n else 0)"
    using other_give by (intro mem.give_back) (auto simp: books_def)
  then show ?case using other_give by (auto simp: books_def live_events_def)
qed (auto simp: books_def live_events_def notifyActivity_def)

lemma step_keeps_limits: "in_step s s' \<Longrightarrow> maxReceiveBytes (ib s') = maxReceiveBytes (ib s) \<and> maxReceiveFrames (ib s') = maxReceiveFrames (ib s)"
  by (induction rule: in_step.induct)
     (auto simp: notifyActivity_def forward_take_def forward_drain_def release_memory_def release_counts_def
       elim!: queueInbound_true dest!: queueInbound_false split: list.splits sum.splits)

lemma in_inv_reachable:
  assumes "in_reachable (in_start b frames byts evq) s" "budget_ok b" "unat byts \<le> 2 ^ 63"
  shows "books s \<and> fw_sound s (fw s) \<and> arrivals_ordered s \<and> maxReceiveBytes (ib s) = byts \<and> maxReceiveFrames (ib s) = frames"
  using assms(1)
proof (induction rule: in_reachable.induct)
  case init
  have "0 \<le> usage b" using assms(2) by (cases b) (auto simp: budget_inv_def)
  then show ?case using assms(2)
    by (auto simp: books_def arrivals_ordered_def in_start_def fresh_inbound_def live_events_def)
next
  case (step s s')
  then show ?case using books_step fw_sound_step in_order_step step_keeps_limits assms(3) by metis
qed

section \<open>What the queue guarantees\<close>

text \<open>
  C12 (invariant). In every interleaving of lane readers, forwarder, receive loop, shutdown and the
  other users of the shared budget, the receive memory is accounted for exactly: the budget is
  charged for what the others hold and for the payloads of the frames that are queued, in the
  channel, in the hands of the forwarder or held by the receive loop, and nothing else; the
  flow's own counters, of bytes and of frames, agree, up to the releases that have paid the budget and not yet the
  counters, and stay within its two limits; releasing any of these frames never panics. Once the forwarder has gone and the receive loop has released what it took, the flow
  holds nothing.
\<close>

theorem inbound_memory_balances:
  assumes "in_reachable (in_start b frames byts evq) s" "budget_ok b" "unat byts \<le> 2 ^ 63"
  shows "(tracked (receiveMemory (ib s)) \<longrightarrow>
        usage (receiveMemory (ib s)) = others s + (\<Sum>e\<leftarrow>live_events s. int (length (fPayload (eframe e)))))
    \<and> int (unat (inboundBytes (ib s))) = (\<Sum>e\<leftarrow>live_events s. int (length (fPayload (eframe e)))) + sum_list (paying s)
    \<and> inboundBytes (ib s) \<le> byts
    \<and> inboundCount (ib s) = int (length (live_events s)) + int (length (paying s))
    \<and> inboundCount (ib s) \<le> max 0 frames
    \<and> (\<forall>e\<in>set (live_events s). \<exists>f. releaseInbound (ib s) e = Inr f)
    \<and> (fw s = FwGone \<and> holding s = [] \<and> paying s = [] \<longrightarrow>
        inboundBytes (ib s) = 0 \<and> inboundCount (ib s) = 0
        \<and> (tracked (receiveMemory (ib s)) \<longrightarrow> usage (receiveMemory (ib s)) = others s))"
proof -
  have inv: "books s" "fw_sound s (fw s)" "maxReceiveBytes (ib s) = byts" "maxReceiveFrames (ib s) = frames"
    using in_inv_reachable [OF assms] by auto
  have "map charged (live_events s) = map (\<lambda>e. int (length (fPayload (eframe e)))) (live_events s)"
    using inv(1) by (auto simp: books_def list_all_iff event_sane_def)
  then have bytes: "live_bytes s = (\<Sum>e\<leftarrow>live_events s. int (length (fPayload (eframe e))))" by (rule arg_cong)
  have rel: "\<exists>f. releaseInbound (ib s) e = Inr f" if "e \<in> set (live_events s)" for e
    using release_works [OF inv(1) that] by (auto simp: releaseInbound_def)
  have "live_events s = [] \<and> live_bytes s = 0" if "fw s = FwGone" "holding s = []"
    using inv(2) that by (simp add: live_events_def)
  then show ?thesis using inv(1,3,4) bytes rel unfolding books_def by (auto simp: uint_0_iff)
qed

text \<open>
  C13 (liveness). No frame is lost or overtaken, and none is left waiting, while the flow runs: the
  receive loop has got exactly the frames that were accepted, in the order in which they were
  accepted, up to those still on their way; and a frame that waits in the queue has a forwarder
  that is not asleep, or a wake-up that is there or about to be sent.
\<close>

theorem inbound_in_order_and_awake:
  assumes "in_reachable (in_start b frames byts evq) s" "budget_ok b" "unat byts \<le> 2 ^ 63" "\<not> stopped (ib s)"
  shows "accepted s = received s @ events (ib s) @ fw_events (fw s) @ inboundQueue (ib s)
    \<and> (inboundQueue (ib s) \<noteq> [] \<longrightarrow>
        fw s = FwLoop \<or> (\<exists>e. fw s = FwHand e) \<or> fw s = FwWait \<and> (inboundWake (ib s) \<or> notifying s > 0))"
proof -
  have inv: "fw_sound s (fw s)" "arrivals_ordered s" using in_inv_reachable [OF assms(1-3)] by auto
  show ?thesis using inv assms(4) by (cases "fw s") (auto simp: arrivals_ordered_def)
qed

section \<open>An example\<close>

definition demo_event :: inboundEvent where
  "demo_event = \<lparr>charged = 0, queued = False, eframe = \<lparr>fHeader = \<lparr>hVersion = 1, hType = 4, hFlags = 0,
     hSessionID = replicate 16 0, hFlowID = 1, hSequence = 0, hPayloadLen = 3, hClass = 0\<rparr>, fPayload = [1, 2, 3]\<rparr>\<rparr>"

definition demo_start :: in_sys where
  "demo_start = in_start (New 1000) 16 4096 8"

definition demo_queued :: in_sys where
  "demo_queued = demo_start\<lparr>ib := fst (queueInbound (ib demo_start) demo_event), fw := FwLoop, notifying := 1,
     accepted := [demo_event\<lparr>charged := 3, queued := True\<rparr>]\<rparr>"

lemma demo_queued_reachable: "in_reachable demo_start demo_queued"
proof -
  have "queueInbound (ib demo_start) demo_event = (fst (queueInbound (ib demo_start) demo_event), True)"
    by (simp add: prod_eq_iff) code_simp
  moreover have "length (fPayload (eframe demo_event)) \<le> MaxPayload" by (simp add: demo_event_def MaxPayload_def)
  moreover have "accepted demo_start @ [last (inboundQueue (fst (queueInbound (ib demo_start) demo_event)))] =
      [demo_event\<lparr>charged := 3, queued := True\<rparr>]" by code_simp
  ultimately have "in_step demo_start demo_queued"
    using in_step.queue [of demo_event demo_start "fst (queueInbound (ib demo_start) demo_event)"]
    by (simp add: demo_queued_def) (simp add: demo_start_def in_start_def fresh_inbound_def)
  from in_reachable.step [OF in_reachable.init this] show ?thesis .
qed

lemma inbound_memory_balances_witness:
  "usage (receiveMemory (ib demo_queued)) = 3 \<and> int (unat (inboundBytes (ib demo_queued))) = 3 \<and> inboundCount (ib demo_queued) = 1"
proof -
  have "tracked (receiveMemory (ib demo_queued))" "others demo_queued = 0" "paying demo_queued = []"
    "(\<Sum>e\<leftarrow>live_events demo_queued. int (length (fPayload (eframe e)))) = 3" "length (live_events demo_queued) = 1" "budget_ok (New 1000)"
    by code_simp+
  then show ?thesis
    using inbound_memory_balances [OF demo_queued_reachable [unfolded demo_start_def]] by simp
qed

lemma inbound_in_order_and_awake_witness: "accepted demo_queued = inboundQueue (ib demo_queued) \<and> inboundQueue (ib demo_queued) \<noteq> []"
proof -
  have "received demo_queued = []" "events (ib demo_queued) = []" "fw_events (fw demo_queued) = []"
    "\<not> stopped (ib demo_queued)" "inboundQueue (ib demo_queued) \<noteq> []" "budget_ok (New 1000)"
    by code_simp+
  then show ?thesis
    using inbound_in_order_and_awake [OF demo_queued_reachable [unfolded demo_start_def]] by simp
qed

end
