(* ===== verification/Classifier.thy ===== *)
theory Classifier
  imports Prelude Complex_Main
begin

text \<open>
  The flow classifier (\<^verbatim>\<open>internal/classifier/classifier.go\<close>) and the part of a flow that feeds it
  (\<^verbatim>\<open>internal/pep/mpflow.go\<close>: \<^verbatim>\<open>recentBytes\<close>, \<^verbatim>\<open>observe\<close>, \<^verbatim>\<open>refreshClass\<close>,
  \<^verbatim>\<open>prefersCodingOverRetransmission\<close>). Times and durations are nanoseconds; the rates, floating-point
  numbers in the code, are rationals. Each method is one section under its lock.
\<close>

section \<open>The classifier\<close>

datatype Class = CNew | CInteractive | CBulk

record ClassifierConfig =
  NewBytes :: u64
  NewAge :: int
  BulkBytes :: u64
  BulkRateBytesPerSec :: rat
  BulkMinimumAge :: int
  InteractiveMaxRate :: rat
  InteractiveIdleGap :: int
  BulkIdleGapVeto :: int
  BulkIdleGapVetoEpisodes :: int

definition DefaultClassifierConfig :: ClassifierConfig where
  "DefaultClassifierConfig = \<lparr>NewBytes = 64 * 1024, NewAge = 3 * 10 ^ 9, BulkBytes = 128 * 1024,
     BulkRateBytesPerSec = 256 * 1024, BulkMinimumAge = 10 ^ 9, InteractiveMaxRate = 1024 * 1024,
     InteractiveIdleGap = 250 * 10 ^ 6, BulkIdleGapVeto = 0, BulkIdleGapVetoEpisodes = 0\<rparr>"

record Observation =
  BytesUp :: u64
  BytesDown :: u64
  UpRate :: rat
  DownRate :: rat
  Age :: int
  SinceLastPayload :: int
  Bidirectional :: bool
  SmallBidirectionalBursts :: bool

record Classifier =
  idleEpisodes :: int
  inIdle :: bool
  cfg :: ClassifierConfig
  cls :: Class

definition NewClassifier :: "ClassifierConfig \<Rightarrow> Classifier" where
  "NewClassifier c =
     (let c = (if NewBytes c = 0 \<or> NewAge c \<le> 0 \<or> BulkBytes c = 0 \<or> BulkRateBytesPerSec c \<le> 0 \<or> BulkMinimumAge c \<le> 0
               then DefaultClassifierConfig else c) in
      \<lparr>idleEpisodes = 0, inIdle = False, cfg = c, cls = CNew\<rparr>)"

definition Declare :: "Classifier \<Rightarrow> Class \<Rightarrow> Classifier" where
  "Declare c class =
     (if cls c = CBulk then c
      else case class of CInteractive \<Rightarrow> c\<lparr>cls := class\<rparr> | CBulk \<Rightarrow> c\<lparr>cls := class\<rparr> | CNew \<Rightarrow> c)"

definition vetoEpisodes :: "ClassifierConfig \<Rightarrow> int" where
  "vetoEpisodes c = (if BulkIdleGapVetoEpisodes c \<le> 0 then 1 else BulkIdleGapVetoEpisodes c)"

definition vetoed :: "Classifier \<Rightarrow> bool" where
  "vetoed c \<longleftrightarrow> \<not> BulkIdleGapVeto (cfg c) \<le> 0 \<and> idleEpisodes c \<ge> vetoEpisodes (cfg c)"

definition isBulk :: "Classifier \<Rightarrow> Observation \<Rightarrow> bool" where
  "isBulk c obs \<longleftrightarrow> \<not> vetoed c \<and> Age obs \<ge> BulkMinimumAge (cfg c) \<and> BytesUp obs + BytesDown obs \<ge> BulkBytes (cfg c)
     \<and> (\<not> Bidirectional obs \<or> \<not> SmallBidirectionalBursts obs)"

definition isInteractive :: "Classifier \<Rightarrow> Observation \<Rightarrow> bool" where
  "isInteractive c obs \<longleftrightarrow> Bidirectional obs \<and> SmallBidirectionalBursts obs
     \<or> SinceLastPayload obs \<ge> InteractiveIdleGap (cfg c)
       \<and> (if UpRate obs > DownRate obs then UpRate obs else DownRate obs) \<le> InteractiveMaxRate (cfg c)"

definition note_idle :: "Classifier \<Rightarrow> Observation \<Rightarrow> Classifier" where
  "note_idle c obs =
     (if BulkIdleGapVeto (cfg c) > 0 then
        (if SinceLastPayload obs \<ge> BulkIdleGapVeto (cfg c) then
           (if \<not> inIdle c then c\<lparr>idleEpisodes := idleEpisodes c + 1, inIdle := True\<rparr> else c)
         else c\<lparr>inIdle := False\<rparr>)
      else c)"

definition Observe :: "Classifier \<Rightarrow> Observation \<Rightarrow> Classifier" where
  "Observe c obs =
     (if cls c = CBulk then c
      else
        (let c = note_idle c obs in
         if isBulk c obs then c\<lparr>cls := CBulk\<rparr>
         else if cls c = CNew \<and> Age obs \<ge> NewAge (cfg c)
           \<and> (isInteractive c obs \<or> BytesUp obs + BytesDown obs \<ge> NewBytes (cfg c))
         then c\<lparr>cls := CInteractive\<rparr>
         else c))"

section \<open>The flow\<close>

definition exchangeWindow :: int where "exchangeWindow = 10 ^ 9"
definition smallExchangeBytes :: u64 where "smallExchangeBytes = 64 * 1024"
definition codedFlowBytes :: u64 where "codedFlowBytes = 256 * 1024"
definition classRefreshInterval :: int where "classRefreshInterval = 250 * 10 ^ 6"

text \<open>The two-bucket window; \<^verbatim>\<open>recentStart\<close> is \<^verbatim>\<open>None\<close> while it is the zero time.\<close>

record recent_window =
  recentStart :: "int option"
  currentUp :: u64
  currentDown :: u64
  priorUp :: u64
  priorDown :: u64

definition recentBytes :: "recent_window \<Rightarrow> int \<Rightarrow> int \<Rightarrow> bool \<Rightarrow> recent_window \<times> u64 \<times> u64" where
  "recentBytes w now n up =
     (let w = (if recentStart w = None then w\<lparr>recentStart := Some now\<rparr> else w);
          w = (if now - the (recentStart w) \<ge> exchangeWindow
               then w\<lparr>priorUp := currentUp w, priorDown := currentDown w, currentUp := 0, currentDown := 0,
                      recentStart := Some now\<rparr>
               else w);
          w = (if n > 0 then
                 (if up then w\<lparr>currentUp := currentUp w + of_int n\<rparr> else w\<lparr>currentDown := currentDown w + of_int n\<rparr>)
               else w) in
      (w, currentUp w + priorUp w, currentDown w + priorDown w))"

record flow_meter = recent_window +
  flowStarted :: int
  lastPayload :: int
  lastActivity :: int
  lastClassified :: int
  bytesUp :: u64
  bytesDown :: u64
  classifier :: Classifier
  flowClass :: Class
  codingStalled :: bool

definition observation :: "flow_meter \<Rightarrow> int \<Rightarrow> int \<Rightarrow> bool \<Rightarrow> u64 \<Rightarrow> u64 \<Rightarrow> Observation" where
  "observation f now n up recentUp recentDown =
     (let age = (if now - flowStarted f \<le> 0 then 1 else now - flowStarted f);
          upBytes = (if up then bytesUp f + of_int n else bytesUp f);
          downBytes = (if up then bytesDown f else bytesDown f + of_int n);
          seconds = rat_of_int age / 10 ^ 9 in
      \<lparr>BytesUp = upBytes, BytesDown = downBytes, UpRate = of_nat (unat upBytes) / seconds,
       DownRate = of_nat (unat downBytes) / seconds, Age = age,
       SinceLastPayload = (if lastPayload f = 0 then age else now - lastPayload f),
       Bidirectional = (upBytes > 0 \<and> downBytes > 0),
       SmallBidirectionalBursts = (recentUp \<le> smallExchangeBytes \<and> recentDown \<le> smallExchangeBytes)\<rparr>)"

definition observe :: "flow_meter \<Rightarrow> int \<Rightarrow> int \<Rightarrow> bool \<Rightarrow> flow_meter \<times> bool" where
  "observe f now n up =
     (case recentBytes (recent_window.truncate f) now n up of (w, recentUp, recentDown) \<Rightarrow>
       (let c = Observe (classifier f) (observation f now n up recentUp recentDown);
            f = f\<lparr>recentStart := recentStart w, currentUp := currentUp w, currentDown := currentDown w,
                  priorUp := priorUp w, priorDown := priorDown w, classifier := c, flowClass := cls c\<rparr>;
            f = (if n > 0 then f\<lparr>lastActivity := now, lastPayload := now\<rparr> else f) in
        (f, cls c = CBulk)))"

definition refreshClass :: "flow_meter \<Rightarrow> int \<Rightarrow> flow_meter" where
  "refreshClass f now =
     (if now - lastClassified f < classRefreshInterval then f
      else fst (observe (f\<lparr>lastClassified := now\<rparr>) now 0 False))"

definition prefersCodingOverRetransmission :: "flow_meter \<Rightarrow> int \<Rightarrow> flow_meter \<times> bool" where
  "prefersCodingOverRetransmission f now =
     (if codingStalled f then (f, False)
      else
        (let f = refreshClass f now in
         case flowClass f of
           CBulk \<Rightarrow> (f, False)
         | CInteractive \<Rightarrow> (f, True)
         | CNew \<Rightarrow> (f, bytesUp f + bytesDown f \<le> codedFlowBytes)))"

section \<open>The class as a function of the history\<close>

datatype class_event = Declared Class | Observed Observation

fun classify1 :: "Classifier \<Rightarrow> class_event \<Rightarrow> Classifier" where
  "classify1 c (Declared k) = Declare c k"
| "classify1 c (Observed obs) = Observe c obs"

abbreviation classify :: "Classifier \<Rightarrow> class_event list \<Rightarrow> Classifier" where
  "classify \<equiv> foldl classify1"

text \<open>
  The specification. An idle episode is a maximal run of observations that saw the flow quiet for
  the configured gap. A history is bulk when the flow was declared bulk, or was once seen old enough,
  with enough bytes and not conversing, before the episodes reached their limit. It is interactive
  when it was declared so, or was once seen old enough and either conversing, quiet and slow, or past the
  byte budget of a new flow.
\<close>

definition is_idle :: "ClassifierConfig \<Rightarrow> Observation \<Rightarrow> bool" where
  "is_idle k obs \<longleftrightarrow> SinceLastPayload obs \<ge> BulkIdleGapVeto k"

fun episodes :: "ClassifierConfig \<Rightarrow> bool \<Rightarrow> class_event list \<Rightarrow> nat" where
  "episodes k quiet [] = 0"
| "episodes k quiet (Declared x # h) = episodes k quiet h"
| "episodes k quiet (Observed obs # h) = (if is_idle k obs \<and> \<not> quiet then 1 else 0) + episodes k (is_idle k obs) h"

definition transfers :: "ClassifierConfig \<Rightarrow> Observation \<Rightarrow> bool" where
  "transfers k obs \<longleftrightarrow> Age obs \<ge> BulkMinimumAge k \<and> BytesUp obs + BytesDown obs \<ge> BulkBytes k
     \<and> \<not> (Bidirectional obs \<and> SmallBidirectionalBursts obs)"

definition converses :: "ClassifierConfig \<Rightarrow> Observation \<Rightarrow> bool" where
  "converses k obs \<longleftrightarrow> Age obs \<ge> NewAge k \<and>
     (Bidirectional obs \<and> SmallBidirectionalBursts obs
      \<or> SinceLastPayload obs \<ge> InteractiveIdleGap k \<and> max (UpRate obs) (DownRate obs) \<le> InteractiveMaxRate k
      \<or> BytesUp obs + BytesDown obs \<ge> NewBytes k)"

definition bulk_history :: "ClassifierConfig \<Rightarrow> class_event list \<Rightarrow> bool" where
  "bulk_history k h \<longleftrightarrow> Declared CBulk \<in> set h
     \<or> (\<exists>pre obs post. h = pre @ Observed obs # post \<and> transfers k obs
         \<and> (BulkIdleGapVeto k > 0 \<longrightarrow> int (episodes k False (pre @ [Observed obs])) < vetoEpisodes k))"

definition interactive_history :: "ClassifierConfig \<Rightarrow> class_event list \<Rightarrow> bool" where
  "interactive_history k h \<longleftrightarrow> Declared CInteractive \<in> set h \<or> (\<exists>obs. Observed obs \<in> set h \<and> converses k obs)"

definition class_of_history :: "ClassifierConfig \<Rightarrow> class_event list \<Rightarrow> Class" where
  "class_of_history k h = (if bulk_history k h then CBulk else if interactive_history k h then CInteractive else CNew)"

fun quiet_after :: "ClassifierConfig \<Rightarrow> bool \<Rightarrow> class_event list \<Rightarrow> bool" where
  "quiet_after k quiet [] = quiet"
| "quiet_after k quiet (Declared x # h) = quiet_after k quiet h"
| "quiet_after k quiet (Observed obs # h) = quiet_after k (is_idle k obs) h"

lemma quiet_after_snoc:
  "quiet_after k q (h @ [Declared x]) = quiet_after k q h" "quiet_after k q (h @ [Observed obs]) = is_idle k obs"
  by (induction k q h rule: quiet_after.induct) simp_all

lemma episodes_snoc:
  "episodes k q (h @ [Declared x]) = episodes k q h"
  "episodes k q (h @ [Observed obs]) = episodes k q h + (if is_idle k obs \<and> \<not> quiet_after k q h then 1 else 0)"
  by (induction k q h rule: quiet_after.induct) simp_all

lemma append_eq_snoc:
  "(\<exists>pre x post. h @ [e] = pre @ F x # post \<and> P pre x) \<longleftrightarrow> (\<exists>x. e = F x \<and> P h x) \<or> (\<exists>pre x post. h = pre @ F x # post \<and> P pre x)"
  (is "?l = ?r")
proof
  assume ?l
  then obtain pre x post where "h @ [e] = pre @ F x # post" "P pre x" by blast
  then show ?r by (cases post rule: rev_cases) auto
next
  assume ?r
  then show ?l
  proof
    assume "\<exists>pre x post. h = pre @ F x # post \<and> P pre x"
    then obtain pre x post where "h @ [e] = pre @ F x # (post @ [e])" "P pre x" by auto
    then show ?thesis by blast
  qed auto
qed

lemma bulk_history_snoc:
  "bulk_history k (h @ [Declared x]) \<longleftrightarrow> bulk_history k h \<or> x = CBulk"
  "bulk_history k (h @ [Observed obs]) \<longleftrightarrow> bulk_history k h
     \<or> transfers k obs \<and> (BulkIdleGapVeto k > 0 \<longrightarrow> int (episodes k False (h @ [Observed obs])) < vetoEpisodes k)"
  unfolding bulk_history_def
  using append_eq_snoc [of h "Declared x" Observed "\<lambda>pre obs. transfers k obs
      \<and> (BulkIdleGapVeto k > 0 \<longrightarrow> int (episodes k False (pre @ [Observed obs])) < vetoEpisodes k)"]
    append_eq_snoc [of h "Observed obs" Observed "\<lambda>pre obs. transfers k obs
      \<and> (BulkIdleGapVeto k > 0 \<longrightarrow> int (episodes k False (pre @ [Observed obs])) < vetoEpisodes k)"]
  by auto

lemma interactive_history_snoc:
  "interactive_history k (h @ [Declared x]) \<longleftrightarrow> interactive_history k h \<or> x = CInteractive"
  "interactive_history k (h @ [Observed obs]) \<longleftrightarrow> interactive_history k h \<or> converses k obs"
  by (auto simp: interactive_history_def)

definition tracks :: "ClassifierConfig \<Rightarrow> class_event list \<Rightarrow> Classifier \<Rightarrow> bool" where
  "tracks k h c \<longleftrightarrow> cfg c = k \<and> cls c = class_of_history k h
     \<and> (\<not> bulk_history k h \<and> BulkIdleGapVeto k > 0 \<longrightarrow>
          idleEpisodes c = int (episodes k False h) \<and> inIdle c = quiet_after k False h)"

lemma tracks_declare: "tracks k h c \<Longrightarrow> tracks k (h @ [Declared x]) (Declare c x)"
  by (cases x) (auto simp: tracks_def Declare_def class_of_history_def bulk_history_snoc interactive_history_snoc
      episodes_snoc quiet_after_snoc split: if_splits)

lemma note_idle_keeps: "cfg (note_idle c obs) = cfg c" "cls (note_idle c obs) = cls c"
  by (simp_all add: note_idle_def)

lemma note_idle_counts:
  assumes "tracks k h c" "\<not> bulk_history k h" "BulkIdleGapVeto k > 0"
  shows "idleEpisodes (note_idle c obs) = int (episodes k False (h @ [Observed obs]))"
    "inIdle (note_idle c obs) = quiet_after k False (h @ [Observed obs])"
  using assms by (auto simp: tracks_def note_idle_def episodes_snoc quiet_after_snoc is_idle_def)

lemma isBulk_tracks:
  assumes "tracks k h c" "\<not> bulk_history k h"
  shows "isBulk (note_idle c obs) obs \<longleftrightarrow> bulk_history k (h @ [Observed obs])"
proof -
  have k: "cfg (note_idle c obs) = k" using assms(1) by (simp add: note_idle_keeps tracks_def)
  have "vetoed (note_idle c obs) \<longleftrightarrow>
      \<not> (BulkIdleGapVeto k > 0 \<longrightarrow> int (episodes k False (h @ [Observed obs])) < vetoEpisodes k)"
    using note_idle_counts(1) [OF assms] by (auto simp: vetoed_def k)
  then show ?thesis using assms(2) by (auto simp: isBulk_def bulk_history_snoc transfers_def k)
qed

lemma tracks_observe:
  assumes "tracks k h c"
  shows "tracks k (h @ [Observed obs]) (Observe c obs)"
proof (cases "bulk_history k h")
  case True
  then show ?thesis using assms by (simp add: tracks_def Observe_def class_of_history_def bulk_history_snoc)
next
  case False
  let ?c = "note_idle c obs" and ?h = "h @ [Observed obs]"
  have cls: "cls c \<noteq> CBulk" using assms False by (simp add: tracks_def class_of_history_def)
  have k: "cfg ?c = k" "cls ?c = class_of_history k h" using assms by (simp_all add: note_idle_keeps tracks_def)
  note bulk = isBulk_tracks [OF assms False, of obs] and count = note_idle_counts [OF assms False, of obs]
  have conv: "Age obs \<ge> NewAge k \<and> (isInteractive ?c obs \<or> BytesUp obs + BytesDown obs \<ge> NewBytes k) \<longleftrightarrow> converses k obs"
    by (auto simp: isInteractive_def converses_def k max_def)
  show ?thesis
  proof (cases "bulk_history k ?h")
    case True
    then show ?thesis using cls bulk k by (simp add: tracks_def Observe_def Let_def class_of_history_def)
  next
    case nb: False
    have "Observe c obs = (if cls ?c = CNew \<and> converses k obs then ?c\<lparr>cls := CInteractive\<rparr> else ?c)"
      using cls bulk nb conv k by (auto simp: Observe_def Let_def)
    then show ?thesis using nb False k count
      by (auto simp: tracks_def class_of_history_def interactive_history_snoc)
  qed
qed

lemma tracks_classify: "tracks k [] c \<Longrightarrow> tracks k h (classify c h)"
proof (induction h rule: rev_induct)
  case (snoc e h)
  then show ?case using tracks_declare tracks_observe by (cases e) simp_all
qed simp

lemma tracks_new: "tracks (cfg (NewClassifier k)) [] (NewClassifier k)"
  by (simp add: tracks_def NewClassifier_def Let_def class_of_history_def bulk_history_def interactive_history_def)

text \<open>
  C14 (refinement). The classifier, which keeps one counter and one flag, computes the specified class of
  the whole history of declarations and observations. In particular a bulk flow stays bulk whatever
  follows, several observations inside one pause count as one episode, a flow that has gone quiet
  often enough becomes bulk only by declaration, and an interactive declaration never keeps a
  transfer from being recognised.
\<close>

theorem class_is_history:
  "cls (classify (NewClassifier k) h) = class_of_history (cfg (NewClassifier k)) h"
  using tracks_classify [OF tracks_new] by (simp add: tracks_def)

section \<open>The recent window\<close>

type_synonym carried = "int \<times> int \<times> bool"

definition no_window :: recent_window where
  "no_window = \<lparr>recentStart = None, currentUp = 0, currentDown = 0, priorUp = 0, priorDown = 0\<rparr>"

definition carry :: "recent_window \<Rightarrow> carried \<Rightarrow> recent_window" where
  "carry w x = (case x of (t, n, up) \<Rightarrow> fst (recentBytes w t n up))"

definition carried_bytes :: "bool \<Rightarrow> (int \<Rightarrow> bool) \<Rightarrow> carried list \<Rightarrow> int" where
  "carried_bytes up P xs = sum_list (map (\<lambda>(t, n, u). if u = up \<and> P t \<and> n > 0 then n else 0) xs)"

lemma carried_bytes_simps [simp]:
  "carried_bytes up P [] = 0"
  "carried_bytes up P (xs @ ys) = carried_bytes up P xs + carried_bytes up P ys"
  "carried_bytes up P [(t, n, u)] = (if u = up \<and> P t \<and> n > 0 then n else 0)"
  by (simp_all add: carried_bytes_def)

lemma carried_bytes_mono: "(\<And>t. P t \<Longrightarrow> Q t) \<Longrightarrow> carried_bytes up P xs \<le> carried_bytes up Q xs"
  unfolding carried_bytes_def by (rule sum_list_mono) auto

lemma carried_bytes_nonneg: "0 \<le> carried_bytes up P xs"
  unfolding carried_bytes_def by (rule sum_list_nonneg) auto

lemma carried_bytes_none: "\<forall>(t, n, u) \<in> set xs. \<not> P t \<Longrightarrow> carried_bytes up P xs = 0"
  by (induction xs) (auto simp: carried_bytes_def)

text \<open>
  The traffic so far, split into what is forgotten, the finished bucket and the accumulating one,
  with the start \<^verbatim>\<open>r\<close> of the latter.
\<close>

definition buckets :: "recent_window \<Rightarrow> int \<Rightarrow> carried list \<Rightarrow> carried list \<Rightarrow> carried list \<Rightarrow> bool" where
  "buckets w r old prior cur \<longleftrightarrow> recentStart w = Some r
     \<and> currentUp w = of_int (carried_bytes True (\<lambda>_. True) cur) \<and> currentDown w = of_int (carried_bytes False (\<lambda>_. True) cur)
     \<and> priorUp w = of_int (carried_bytes True (\<lambda>_. True) prior) \<and> priorDown w = of_int (carried_bytes False (\<lambda>_. True) prior)
     \<and> (\<forall>(t, n, u) \<in> set old. t + exchangeWindow \<le> r) \<and> (\<forall>(t, n, u) \<in> set prior. t \<le> r)"

lemma buckets_first: "buckets (carry no_window (t, n, u)) t [] [] [(t, n, u)]"
  by (simp add: buckets_def carry_def recentBytes_def no_window_def exchangeWindow_def Let_def)

lemma buckets_next:
  assumes "buckets w r old prior cur" "\<forall>(t', n', u') \<in> set cur. t' \<le> t"
  shows "if t - r \<ge> exchangeWindow then buckets (carry w (t, n, u)) t (old @ prior) cur [(t, n, u)]
    else buckets (carry w (t, n, u)) r old prior (cur @ [(t, n, u)])"
proof (cases "t - r \<ge> exchangeWindow")
  case True
  have "\<forall>(t', n', u') \<in> set (old @ prior). t' + exchangeWindow \<le> t"
    using assms(1) True by (fastforce simp: buckets_def exchangeWindow_def)
  then show ?thesis using assms True by (auto simp: buckets_def carry_def recentBytes_def Let_def)
next
  case False
  then show ?thesis using assms by (auto simp: buckets_def carry_def recentBytes_def Let_def)
qed

lemma buckets_exist:
  assumes "sorted (map fst xs)" "xs \<noteq> []"
  shows "\<exists>r old prior cur. xs = old @ prior @ cur \<and> buckets (foldl carry no_window xs) r old prior cur \<and> r \<le> fst (last xs)"
  using assms
proof (induction xs rule: rev_induct)
  case (snoc x xs)
  obtain t n u where x: "x = (t, n, u)" by (cases x)
  show ?case
  proof (cases "xs = []")
    case True
    then show ?thesis using buckets_first [of t n u] x by (intro exI [of _ t] exI [of _ "[]"] exI [of _ "[x]"]) simp
  next
    case False
    have s: "sorted (map fst xs)" "\<forall>y\<in>set xs. fst y \<le> t" using snoc.prems(1) x by (auto simp: sorted_append)
    from snoc.IH [OF s(1) False] obtain r old prior cur where
      b: "xs = old @ prior @ cur" "buckets (foldl carry no_window xs) r old prior cur" "r \<le> fst (last xs)" by blast
    have cur: "\<forall>(t', n', u') \<in> set cur. t' \<le> t" using s(2) b(1) by (simp add: case_prod_beta' ball_Un)
    have rt: "r \<le> t" using b(3) s(2) False by (meson last_in_set order_trans)
    show ?thesis
    proof (cases "t - r \<ge> exchangeWindow")
      case True
      then show ?thesis using buckets_next [OF b(2) cur, of n u] x b(1)
        by (intro exI [of _ t] exI [of _ "old @ prior"] exI [of _ cur] exI [of _ "[x]"]) simp
    next
      case False
      then show ?thesis using buckets_next [OF b(2) cur, of n u] x b(1) rt
        by (intro exI [of _ r] exI [of _ old] exI [of _ prior] exI [of _ "cur @ [x]"]) simp
    qed
  qed
qed simp

lemma carry_report: "recentBytes w t n up = (w', ru, rd) \<Longrightarrow> w' = carry w (t, n, up) \<and> ru = currentUp w' + priorUp w' \<and> rd = currentDown w' + priorDown w'"
  by (auto simp: carry_def recentBytes_def Let_def split: if_splits)

lemma unat_of_int_mod: "int (unat (of_int i :: u64)) = i mod 2 ^ 64"
  by (simp add: uint_nat [symmetric] unsigned_of_int take_bit_eq_mod)

lemma report_bound:
  fixes up :: bool
  assumes "xs = old @ prior @ cur" "\<forall>(t, n, u) \<in> set old. t + exchangeWindow \<le> r" "r \<le> now"
    and "carried_bytes up (\<lambda>_. True) xs < 2 ^ 64"
    and "v = (of_int (carried_bytes up (\<lambda>_. True) cur) + of_int (carried_bytes up (\<lambda>_. True) prior) :: u64)"
  shows "carried_bytes up (\<lambda>t. now - exchangeWindow < t) xs \<le> int (unat v) \<and> int (unat v) \<le> carried_bytes up (\<lambda>_. True) xs"
proof -
  let ?all = "carried_bytes up (\<lambda>_. True)" and ?new = "carried_bytes up (\<lambda>t. now - exchangeWindow < t)"
  have nn: "0 \<le> ?all old" "0 \<le> ?all prior" "0 \<le> ?all cur" by (simp_all add: carried_bytes_nonneg)
  have "?new old = 0" using assms(2,3) by (intro carried_bytes_none) fastforce
  then have "?new xs \<le> ?all cur + ?all prior"
    using carried_bytes_mono [of "\<lambda>t. now - exchangeWindow < t" "\<lambda>_. True" up] assms(1) by (simp add: add_mono add.commute)
  moreover have "v = of_int (?all cur + ?all prior)" using assms(5) by simp
  then have "int (unat v) = (?all cur + ?all prior) mod 2 ^ 64"
    by (simp only: unat_of_int_mod)
  moreover have "0 \<le> ?all cur + ?all prior" "?all cur + ?all prior < 2 ^ 64" using nn assms(1,4) by simp_all
  ultimately show ?thesis using nn(1) assms(1) by simp
qed

text \<open>
  The figures that decide whether a flow is conversing count every byte of the last
  exchange window, whatever the spacing of the calls, and never more than the flow has carried.
\<close>

theorem recent_covers_window:
  assumes "sorted (map fst (xs @ [(now, n, up)]))"
    and "carried_bytes True (\<lambda>_. True) (xs @ [(now, n, up)]) < 2 ^ 64" "carried_bytes False (\<lambda>_. True) (xs @ [(now, n, up)]) < 2 ^ 64"
    and "recentBytes (foldl carry no_window xs) now n up = (w, recentUp, recentDown)"
  shows "carried_bytes True (\<lambda>t. now - exchangeWindow < t) (xs @ [(now, n, up)]) \<le> int (unat recentUp)
    \<and> int (unat recentUp) \<le> carried_bytes True (\<lambda>_. True) (xs @ [(now, n, up)])
    \<and> carried_bytes False (\<lambda>t. now - exchangeWindow < t) (xs @ [(now, n, up)]) \<le> int (unat recentDown)
    \<and> int (unat recentDown) \<le> carried_bytes False (\<lambda>_. True) (xs @ [(now, n, up)])"
proof -
  let ?xs = "xs @ [(now, n, up)]"
  have w: "w = foldl carry no_window ?xs" "recentUp = currentUp w + priorUp w" "recentDown = currentDown w + priorDown w"
    using carry_report [OF assms(4)] by simp_all
  obtain r old prior cur where b: "?xs = old @ prior @ cur" "buckets w r old prior cur" "r \<le> now"
    using buckets_exist [OF assms(1)] unfolding w(1) by (auto simp del: foldl_append)
  have old: "\<forall>(t, n, u) \<in> set old. t + exchangeWindow \<le> r" using b(2) by (simp add: buckets_def)
  have "recentUp = of_int (carried_bytes True (\<lambda>_. True) cur) + of_int (carried_bytes True (\<lambda>_. True) prior)"
    "recentDown = of_int (carried_bytes False (\<lambda>_. True) cur) + of_int (carried_bytes False (\<lambda>_. True) prior)"
    using b(2) w by (simp_all add: buckets_def)
  then show ?thesis using report_bound [OF b(1) old b(3) assms(2)] report_bound [OF b(1) old b(3) assms(3)] by blast
qed

lemma recent_covers_window_witness:
  "200 \<le> int (unat (fst (snd (recentBytes (foldl carry no_window [(5, 200, True)]) 900 7 False))))"
proof -
  have "recentBytes (foldl carry no_window [(5, 200, True)]) 900 7 False =
      (fst (recentBytes (foldl carry no_window [(5, 200, True)]) 900 7 False),
       fst (snd (recentBytes (foldl carry no_window [(5, 200, True)]) 900 7 False)),
       snd (snd (recentBytes (foldl carry no_window [(5, 200, True)]) 900 7 False)))" by simp
  from recent_covers_window [OF _ _ _ this] show ?thesis by (simp add: carried_bytes_def exchangeWindow_def)
qed

text \<open>
  The finished bucket is not dated: after a pause of any length the first call reports the bytes
  of the bucket before the pause as recent.
\<close>

lemma recent_bytes_stale:
  assumes "0 < n" "n < 2 ^ 64" "exchangeWindow \<le> pause"
  shows "fst (snd (recentBytes (carry no_window (t, n, True)) (t + pause) 0 False)) = of_int n"
  using assms by (simp add: carry_def recentBytes_def no_window_def exchangeWindow_def Let_def)

section \<open>Coding or retransmission\<close>

text \<open>
  A flow is coded by its present class. One whose coded data stalled, or that is
  bulk, retransmits; an interactive flow codes however much it has carried; one not yet classified
  codes while it has carried at most a small exchange. The class consulted is refreshed unless it is less
  than the refresh interval old, and a bulk flow never codes again.
\<close>

theorem coding_choice:
  assumes "prefersCodingOverRetransmission f now = (f', code)" "flowClass f = cls (classifier f)"
  shows "flowClass f' = cls (classifier f') \<and> (cls (classifier f) = CBulk \<longrightarrow> cls (classifier f') = CBulk \<and> \<not> code)
    \<and> (code \<longleftrightarrow> \<not> codingStalled f \<and> (flowClass f' = CInteractive
         \<or> flowClass f' = CNew \<and> bytesUp f + bytesDown f \<le> codedFlowBytes))
    \<and> (\<not> codingStalled f \<and> classRefreshInterval \<le> now - lastClassified f \<longrightarrow> lastClassified f' = now)"
proof -
  have bulk: "cls (classifier f) = CBulk \<Longrightarrow> cls (Observe (classifier f) x) = CBulk" for x by (simp add: Observe_def)
  have r: "flowClass (refreshClass f now) = cls (classifier (refreshClass f now))"
    "cls (classifier f) = CBulk \<Longrightarrow> cls (classifier (refreshClass f now)) = CBulk"
    "bytesUp (refreshClass f now) = bytesUp f" "bytesDown (refreshClass f now) = bytesDown f"
    "classRefreshInterval \<le> now - lastClassified f \<Longrightarrow> lastClassified (refreshClass f now) = now"
    using assms(2) by (auto simp: refreshClass_def observe_def Let_def bulk split: prod.splits)
  show ?thesis using assms r
    by (cases "codingStalled f"; cases "flowClass (refreshClass f now)") (auto simp: prefersCodingOverRetransmission_def Let_def)
qed

definition demo_meter :: flow_meter where
  "demo_meter = \<lparr>recentStart = None, currentUp = 0, currentDown = 0, priorUp = 0, priorDown = 0, flowStarted = 10 ^ 12,
     lastPayload = 0, lastActivity = 0, lastClassified = 10 ^ 12, bytesUp = 100, bytesDown = 1000000,
     classifier = NewClassifier DefaultClassifierConfig, flowClass = CNew, codingStalled = False\<rparr>"

lemma coding_choice_witness: "\<not> snd (prefersCodingOverRetransmission demo_meter (10 ^ 12 + 2))"
proof -
  let ?r = "prefersCodingOverRetransmission demo_meter (10 ^ 12 + 2)"
  have "flowClass demo_meter = cls (classifier demo_meter)" "flowClass (fst ?r) = CNew"
    by (simp_all add: demo_meter_def prefersCodingOverRetransmission_def refreshClass_def NewClassifier_def
        classRefreshInterval_def Let_def)
  moreover have "\<not> bytesUp demo_meter + bytesDown demo_meter \<le> codedFlowBytes"
    by (simp add: demo_meter_def codedFlowBytes_def)
  ultimately show ?thesis using coding_choice [of demo_meter "10 ^ 12 + 2" "fst ?r" "snd ?r"] by simp
qed

end
