(* ===== verification/MinMax.thy ===== *)
theory MinMax
  imports Prelude
begin

text \<open>
  The bandwidth filter of the congestion controllers (\<^verbatim>\<open>internal/congestion/bbr_tuic_minmax.go\<close>): three
  samples stand for a windowed maximum. Rounds are 64-bit counters. An instant of the monotonic
  clock is its number of nanoseconds, \<^verbatim>\<open>0\<close> for the zero instant, and \<^verbatim>\<open>Sub\<close> is the difference.
\<close>

section \<open>The filter\<close>

record tuicMinMaxSample =
  sround :: u64
  sat :: int
  svalue :: u64

record tuicMinMax =
  mwindow :: u64
  timeWindow :: int
  sample0 :: tuicMinMaxSample
  sample1 :: tuicMinMaxSample
  sample2 :: tuicMinMaxSample

definition tuicMinMaxWindow :: nat where "tuicMinMaxWindow = 10"
definition minBandwidthTimeWindow :: int where "minBandwidthTimeWindow = 10 ^ 9"
definition maxBandwidthTimeWindow :: int where "maxBandwidthTimeWindow = 10 * 10 ^ 9"

definition no_sample :: tuicMinMaxSample where "no_sample = \<lparr>sround = 0, sat = 0, svalue = 0\<rparr>"

definition newTUICMinMax :: tuicMinMax where
  "newTUICMinMax = \<lparr>mwindow = of_nat tuicMinMaxWindow, timeWindow = maxBandwidthTimeWindow,
     sample0 = no_sample, sample1 = no_sample, sample2 = no_sample\<rparr>"

definition minmax_get :: "tuicMinMax \<Rightarrow> u64" where
  "minmax_get m = svalue (sample0 m)"

definition minmax_reset :: "tuicMinMax \<Rightarrow> tuicMinMax" where
  "minmax_reset m = m\<lparr>sample0 := no_sample, sample1 := no_sample, sample2 := no_sample\<rparr>"

definition setRoundTrip :: "tuicMinMax \<Rightarrow> int \<Rightarrow> tuicMinMax" where
  "setRoundTrip m rtt =
     (if rtt \<le> 0 then m
      else if rtt \<ge> maxBandwidthTimeWindow div int tuicMinMaxWindow then m\<lparr>timeWindow := maxBandwidthTimeWindow\<rparr>
      else
        (let w = int tuicMinMaxWindow * rtt in
         m\<lparr>timeWindow := (if w < minBandwidthTimeWindow then minBandwidthTimeWindow else w)\<rparr>))"

definition sample_expired :: "tuicMinMax \<Rightarrow> tuicMinMaxSample \<Rightarrow> int \<Rightarrow> bool" where
  "sample_expired m s now \<longleftrightarrow> \<not> (sat s = 0 \<or> now = 0 \<or> timeWindow m \<le> 0) \<and> now - sat s > timeWindow m"

definition stale :: "tuicMinMax \<Rightarrow> int \<Rightarrow> bool" where
  "stale m now \<longleftrightarrow> svalue (sample0 m) \<noteq> 0 \<and> sample_expired m (sample0 m) now"

definition shift_samples :: "tuicMinMax \<Rightarrow> tuicMinMaxSample \<Rightarrow> tuicMinMax" where
  "shift_samples m s = m\<lparr>sample0 := sample1 m, sample1 := sample2 m, sample2 := s\<rparr>"

definition subWindowUpdate :: "tuicMinMax \<Rightarrow> tuicMinMaxSample \<Rightarrow> tuicMinMax" where
  "subWindowUpdate m s =
     (if sround s < sround (sample0 m) then m
      else if sround s - sround (sample0 m) > mwindow m then
        (let m = shift_samples m s in
         if sround s \<ge> sround (sample0 m) \<and> sround s - sround (sample0 m) > mwindow m then shift_samples m s else m)
      else if svalue (sample1 m) = svalue (sample0 m) \<and> sround s \<ge> sround (sample1 m)
        \<and> sround s - sround (sample1 m) > mwindow m div 4 then m\<lparr>sample1 := s, sample2 := s\<rparr>
      else if svalue (sample2 m) = svalue (sample1 m) \<and> sround s \<ge> sround (sample2 m)
        \<and> sround s - sround (sample2 m) > mwindow m div 2 then m\<lparr>sample2 := s\<rparr>
      else m)"

definition updateMax :: "tuicMinMax \<Rightarrow> u64 \<Rightarrow> int \<Rightarrow> u64 \<Rightarrow> tuicMinMax" where
  "updateMax m round now value =
     (if value = 0 then m
      else
        (let current = \<lparr>sround = round, sat = now, svalue = value\<rparr>;
             oldest = sample2 m;
             windowExpired = (round \<ge> sround oldest \<and> round - sround oldest > mwindow m) in
         if svalue (sample0 m) = 0 \<or> value \<ge> svalue (sample0 m) \<or> windowExpired \<or> sample_expired m (sample0 m) now
         then m\<lparr>sample0 := current, sample1 := current, sample2 := current\<rparr>
         else
           (let m = (if value \<ge> svalue (sample1 m) then m\<lparr>sample2 := current, sample1 := current\<rparr>
                     else if value \<ge> svalue (sample2 m) then m\<lparr>sample2 := current\<rparr>
                     else m) in
            subWindowUpdate m current)))"

section \<open>What the estimate is\<close>

datatype minmax_op = Update tuicMinMaxSample | RoundTrip int

fun minmax_step :: "tuicMinMax \<Rightarrow> minmax_op \<Rightarrow> tuicMinMax" where
  "minmax_step m (Update s) = updateMax m (sround s) (sat s) (svalue s)"
| "minmax_step m (RoundTrip rtt) = setRoundTrip m rtt"

text \<open>The samples a history offers: those of value zero carry nothing and are ignored.\<close>

definition offered :: "minmax_op list \<Rightarrow> tuicMinMaxSample list" where
  "offered xs = [s. Update s \<leftarrow> xs, svalue s \<noteq> 0]"

text \<open>The clocks of a history: rounds and instants do not go back, and instants are set.\<close>

definition forward :: "tuicMinMaxSample list \<Rightarrow> bool" where
  "forward ss \<longleftrightarrow> sorted (map sround ss) \<and> sorted (map sat ss) \<and> (\<forall>s\<in>set ss. 0 < sat s)"

text \<open>A sample stands when nothing offered after it is larger.\<close>

definition stands :: "tuicMinMaxSample list \<Rightarrow> tuicMinMaxSample \<Rightarrow> bool" where
  "stands ss x \<longleftrightarrow> (\<exists>pre post. ss = pre @ x # post \<and> (\<forall>y\<in>set post. svalue y \<le> svalue x))"

definition precedes :: "tuicMinMaxSample \<Rightarrow> tuicMinMaxSample \<Rightarrow> bool" where
  "precedes x y \<longleftrightarrow> sround x \<le> sround y \<and> sat x \<le> sat y \<and> svalue y \<le> svalue x"

definition filter_ok :: "tuicMinMax \<Rightarrow> tuicMinMaxSample list \<Rightarrow> bool" where
  "filter_ok m ss \<longleftrightarrow> stands ss (sample0 m) \<and> stands ss (sample1 m) \<and> stands ss (sample2 m)
     \<and> precedes (sample0 m) (sample1 m) \<and> precedes (sample1 m) (sample2 m)"

definition recent :: "tuicMinMax \<Rightarrow> tuicMinMaxSample \<Rightarrow> bool" where
  "recent m c \<longleftrightarrow> svalue c \<le> svalue (sample0 m) \<and> sround (sample0 m) \<le> sround c
     \<and> sround c - sround (sample0 m) \<le> mwindow m \<and> (0 < timeWindow m \<longrightarrow> sat c - sat (sample0 m) \<le> timeWindow m)"

lemma stands_snoc: "stands ss x \<Longrightarrow> svalue c \<le> svalue x \<Longrightarrow> stands (ss @ [c]) x"
proof -
  assume "stands ss x" and c: "svalue c \<le> svalue x"
  then obtain pre post where "ss = pre @ x # post" "\<forall>y\<in>set post. svalue y \<le> svalue x" by (auto simp: stands_def)
  then show ?thesis unfolding stands_def using c by (intro exI [of _ pre] exI [of _ "post @ [c]"]) auto
qed

lemma stands_last: "stands (ss @ [c]) c"
  unfolding stands_def by force

lemma stands_in: "stands ss x \<Longrightarrow> x \<in> set ss"
  by (auto simp: stands_def)

lemma precedes_refl [simp]: "precedes x x"
  by (simp add: precedes_def)

lemma precedes_trans: "precedes x y \<Longrightarrow> precedes y z \<Longrightarrow> precedes x z"
  by (auto simp: precedes_def)

text \<open>The candidate state after the first comparison with the second and third sample.\<close>

definition absorb :: "tuicMinMax \<Rightarrow> tuicMinMaxSample \<Rightarrow> tuicMinMax" where
  "absorb m c = (if svalue c \<ge> svalue (sample1 m) then m\<lparr>sample2 := c, sample1 := c\<rparr>
     else if svalue c \<ge> svalue (sample2 m) then m\<lparr>sample2 := c\<rparr> else m)"

lemma updateMax_absorb:
  "svalue c \<noteq> 0 \<Longrightarrow> updateMax m (sround c) (sat c) (svalue c) =
     (if svalue (sample0 m) = 0 \<or> svalue c \<ge> svalue (sample0 m)
        \<or> sround c \<ge> sround (sample2 m) \<and> sround c - sround (sample2 m) > mwindow m \<or> sample_expired m (sample0 m) (sat c)
      then m\<lparr>sample0 := c, sample1 := c, sample2 := c\<rparr> else subWindowUpdate (absorb m c) c)"
  by (cases c) (simp add: updateMax_def absorb_def Let_def)

definition good :: "tuicMinMax \<Rightarrow> tuicMinMaxSample list \<Rightarrow> tuicMinMaxSample \<Rightarrow> bool" where
  "good m ss c \<longleftrightarrow> filter_ok m ss \<and> precedes (sample2 m) c \<and> stands ss c"

lemma goodD:
  "good m ss c \<Longrightarrow> precedes (sample0 m) c \<and> precedes (sample1 m) c \<and> precedes (sample2 m) c \<and> filter_ok m ss \<and> stands ss c"
  by (auto simp: good_def filter_ok_def intro: precedes_trans)

lemma good_shift: "good m ss c \<Longrightarrow> good (shift_samples m c) ss c"
  by (auto simp: good_def filter_ok_def shift_samples_def)

lemma subWindowUpdate_good:
  assumes "good m ss c" "sround c - sround (sample2 m) \<le> mwindow m" "0 < timeWindow m \<longrightarrow> sat c - sat (sample0 m) \<le> timeWindow m"
  shows "good (subWindowUpdate m c) ss c \<and> recent (subWindowUpdate m c) c"
proof -
  note b = goodD [OF assms(1)]
  have le: "sround (sample0 m) \<le> sround c" "sround (sample1 m) \<le> sround c" "sround (sample2 m) \<le> sround c"
    using b by (auto simp: precedes_def)
  have sat: "sat (sample0 m) \<le> sat (sample1 m)" "sat (sample1 m) \<le> sat (sample2 m)"
    using b by (auto simp: precedes_def filter_ok_def)
  show ?thesis
  proof (cases "sround c - sround (sample0 m) > mwindow m")
    case True
    let ?m1 = "shift_samples m c" and ?m2 = "shift_samples (shift_samples m c) c"
    have g: "good ?m1 ss c" "good ?m2 ss c" using assms(1) good_shift by blast+
    have u: "subWindowUpdate m c = (if sround c - sround (sample1 m) > mwindow m then ?m2 else ?m1)"
      using True le by (simp add: subWindowUpdate_def Let_def shift_samples_def not_less [symmetric])
    show ?thesis using g b le sat assms(2,3) by (auto simp: u recent_def precedes_def shift_samples_def)
  next
    case False
    then have "subWindowUpdate m c \<in> {m, m\<lparr>sample1 := c, sample2 := c\<rparr>, m\<lparr>sample2 := c\<rparr>}"
      using le by (simp add: subWindowUpdate_def not_less [symmetric])
    then show ?thesis using assms(1,3) b False by (auto simp: good_def filter_ok_def recent_def precedes_def not_less)
  qed
qed

lemma absorb_good:
  assumes "filter_ok m ss" "svalue c < svalue (sample0 m)" "sround (sample2 m) \<le> sround c" "sat (sample2 m) \<le> sat c"
  shows "good (absorb m c) (ss @ [c]) c"
proof -
  have f: "stands ss (sample0 m)" "stands ss (sample1 m)" "stands ss (sample2 m)"
      "precedes (sample0 m) (sample1 m)" "precedes (sample1 m) (sample2 m)"
    using assms(1) by (simp_all add: filter_ok_def)
  have s: "stands (ss @ [c]) x" if "stands ss x" "svalue c \<le> svalue x" for x using that by (rule stands_snoc)
  have clock: "sround (sample0 m) \<le> sround c" "sround (sample1 m) \<le> sround c" "sat (sample0 m) \<le> sat c" "sat (sample1 m) \<le> sat c"
    using f(4,5) assms(3,4) by (auto simp: precedes_def)
  show ?thesis
  proof (cases "svalue c \<ge> svalue (sample1 m)")
    case True
    then show ?thesis using f s assms clock stands_last [of ss c] by (auto simp: absorb_def good_def filter_ok_def precedes_def)
  next
    case False
    then show ?thesis using f s assms clock stands_last [of ss c]
      by (cases "svalue c \<ge> svalue (sample2 m)") (auto simp: absorb_def good_def filter_ok_def precedes_def)
  qed
qed

lemma updateMax_good:
  assumes "filter_ok m ss \<or> svalue (sample0 m) = 0" "svalue c \<noteq> 0" "0 < sat c"
    and "filter_ok m ss \<Longrightarrow> sround (sample2 m) \<le> sround c \<and> sat (sample2 m) \<le> sat c \<and> 0 < sat (sample0 m)"
  shows "filter_ok (updateMax m (sround c) (sat c) (svalue c)) (ss @ [c]) \<and> recent (updateMax m (sround c) (sat c) (svalue c)) c"
proof (cases "svalue (sample0 m) = 0 \<or> svalue c \<ge> svalue (sample0 m)
    \<or> sround c \<ge> sround (sample2 m) \<and> sround c - sround (sample2 m) > mwindow m \<or> sample_expired m (sample0 m) (sat c)")
  case True
  then show ?thesis using assms(2) stands_last [of ss c] by (simp add: updateMax_absorb filter_ok_def recent_def)
next
  case False
  then have ok: "filter_ok m ss" using assms(1) by blast
  note clock = assms(4) [OF ok]
  have g: "good (absorb m c) (ss @ [c]) c" using absorb_good [OF ok, of c] False clock by (simp add: not_le)
  have keep: "sample0 (absorb m c) = sample0 m" "mwindow (absorb m c) = mwindow m" "timeWindow (absorb m c) = timeWindow m"
    "sample2 (absorb m c) \<in> {sample2 m, c}" by (auto simp: absorb_def)
  have "sround c - sround (sample2 (absorb m c)) \<le> mwindow (absorb m c)"
    using keep False clock by (auto simp: not_less)
  moreover have "0 < timeWindow (absorb m c) \<longrightarrow> sat c - sat (sample0 (absorb m c)) \<le> timeWindow (absorb m c)"
    using keep False clock assms(3) by (auto simp: sample_expired_def)
  ultimately have "good (subWindowUpdate (absorb m c) c) (ss @ [c]) c \<and> recent (subWindowUpdate (absorb m c) c) c"
    by (rule subWindowUpdate_good [OF g])
  then show ?thesis unfolding updateMax_absorb [OF assms(2)] if_not_P [OF False] by (simp add: good_def)
qed

lemma setRoundTrip_samples:
  "sample0 (setRoundTrip m rtt) = sample0 m" "sample1 (setRoundTrip m rtt) = sample1 m" "sample2 (setRoundTrip m rtt) = sample2 m"
  "mwindow (setRoundTrip m rtt) = mwindow m"
  by (simp_all add: setRoundTrip_def Let_def)

lemma offered_simps [simp]:
  "offered [] = []" "offered (xs @ ys) = offered xs @ offered ys" "offered [RoundTrip rtt] = []"
  "offered [Update s] = (if svalue s \<noteq> 0 then [s] else [])"
  by (simp_all add: offered_def)

lemma filter_run:
  assumes "forward (offered xs)" "m = foldl minmax_step newTUICMinMax xs"
  shows "mwindow m = 10 \<and> (if offered xs = [] then svalue (sample0 m) = 0 else filter_ok m (offered xs))"
  using assms
proof (induction xs arbitrary: m rule: rev_induct)
  case Nil
  then show ?case by (simp add: newTUICMinMax_def no_sample_def tuicMinMaxWindow_def)
next
  case (snoc x xs)
  let ?m = "foldl minmax_step newTUICMinMax xs"
  have fwd: "forward (offered xs)" using snoc.prems(1) by (auto simp: forward_def sorted_append)
  note ih = snoc.IH [OF fwd refl]
  show ?case
  proof (cases x)
    case (RoundTrip rtt)
    then show ?thesis using ih snoc.prems(2) by (auto simp: setRoundTrip_samples filter_ok_def split: if_splits)
  next
    case (Update c)
    have w: "mwindow (updateMax ?m r t v) = mwindow ?m" for r t v
      by (simp add: updateMax_def subWindowUpdate_def shift_samples_def Let_def)
    show ?thesis
    proof (cases "svalue c = 0")
      case True
      then show ?thesis using Update ih snoc.prems(2) by (simp add: updateMax_def)
    next
      case False
      have f: "0 < sat c" "\<forall>s\<in>set (offered xs). sround s \<le> sround c \<and> sat s \<le> sat c \<and> 0 < sat s"
        using snoc.prems(1) Update False by (auto simp: forward_def sorted_append)
      have "filter_ok ?m (offered xs) \<Longrightarrow> sround (sample2 ?m) \<le> sround c \<and> sat (sample2 ?m) \<le> sat c \<and> 0 < sat (sample0 ?m)"
        using f(2) stands_in by (auto simp: filter_ok_def)
      moreover have "filter_ok ?m (offered xs) \<or> svalue (sample0 ?m) = 0" using ih by (auto split: if_splits)
      ultimately have "filter_ok (updateMax ?m (sround c) (sat c) (svalue c)) (offered xs @ [c])"
        using updateMax_good [of ?m "offered xs" c] False f(1) by blast
      then show ?thesis using Update False snoc.prems(2) w ih by simp
    qed
  qed
qed

text \<open>
  C16 (functional). After a sample arrives, whatever the history of samples and round-trip times, the
  estimate is the value of a sample that really arrived; no sample that arrived since then is larger,
  the newest included; and it is recent on both clocks, at most ten rounds and at most the time
  window old. One that outlived either window never stands.
\<close>

theorem estimate_is_recent_maximum:
  assumes "forward (offered (xs @ [Update c]))" "svalue c \<noteq> 0"
    and "m = foldl minmax_step newTUICMinMax (xs @ [Update c])"
  shows "\<exists>pre x post. offered (xs @ [Update c]) = pre @ x # post \<and> minmax_get m = svalue x
    \<and> (\<forall>y\<in>set (x # post). svalue y \<le> minmax_get m) \<and> svalue c \<le> minmax_get m
    \<and> unat (sround c) - unat (sround x) \<le> 10 \<and> (0 < timeWindow m \<longrightarrow> sat c - sat x \<le> timeWindow m)"
proof -
  let ?m = "foldl minmax_step newTUICMinMax xs"
  have fwd: "forward (offered xs)" "0 < sat c" "\<forall>s\<in>set (offered xs). sround s \<le> sround c \<and> sat s \<le> sat c \<and> 0 < sat s"
    using assms(1,2) by (auto simp: forward_def sorted_append)
  note run = filter_run [OF fwd(1) refl]
  have "filter_ok ?m (offered xs) \<Longrightarrow> sround (sample2 ?m) \<le> sround c \<and> sat (sample2 ?m) \<le> sat c \<and> 0 < sat (sample0 ?m)"
    using fwd(3) stands_in by (auto simp: filter_ok_def)
  moreover have "filter_ok ?m (offered xs) \<or> svalue (sample0 ?m) = 0" using run by (auto split: if_splits)
  ultimately have "filter_ok m (offered xs @ [c]) \<and> recent m c"
    using updateMax_good [of ?m "offered xs" c] assms(2,3) fwd(2) by simp
  then have ok: "stands (offered (xs @ [Update c])) (sample0 m)" "recent m c" using assms(2) by (simp_all add: filter_ok_def)
  have w: "mwindow m = 10" using filter_run [OF assms(1,3)] by simp
  obtain pre post where p: "offered (xs @ [Update c]) = pre @ sample0 m # post" "\<forall>y\<in>set post. svalue y \<le> svalue (sample0 m)"
    using ok(1) by (auto simp: stands_def)
  have "unat (sround c) - unat (sround (sample0 m)) \<le> 10"
    using ok(2) w unat_sub [of "sround (sample0 m)" "sround c"] by (simp add: recent_def word_le_nat_alt)
  then show ?thesis using p ok(2) by (intro exI [of _ pre] exI [of _ "sample0 m"] exI [of _ post]) (auto simp: minmax_get_def recent_def)
qed

text \<open>The time window stays between one and ten seconds whatever round trip is measured.\<close>

lemma time_window_bounds:
  "timeWindow m \<in> {minBandwidthTimeWindow..maxBandwidthTimeWindow} \<Longrightarrow>
   timeWindow (setRoundTrip m rtt) \<in> {minBandwidthTimeWindow..maxBandwidthTimeWindow}"
  by (auto simp: setRoundTrip_def minBandwidthTimeWindow_def maxBandwidthTimeWindow_def tuicMinMaxWindow_def Let_def)

definition demo_samples :: "minmax_op list" where
  "demo_samples = [Update \<lparr>sround = 1, sat = 5, svalue = 900\<rparr>, RoundTrip (200 * 10 ^ 6), Update \<lparr>sround = 4, sat = 10 ^ 9, svalue = 300\<rparr>,
     Update \<lparr>sround = 8, sat = 15 * 10 ^ 8, svalue = 200\<rparr>]"

lemma estimate_is_recent_maximum_witness:
  "minmax_get (foldl minmax_step newTUICMinMax (demo_samples @ [Update \<lparr>sround = 12, sat = 2 * 10 ^ 9, svalue = 100\<rparr>])) \<ge> 100
   \<and> minmax_get (foldl minmax_step newTUICMinMax (demo_samples @ [Update \<lparr>sround = 12, sat = 2 * 10 ^ 9, svalue = 100\<rparr>])) = 300"
proof -
  let ?c = "\<lparr>sround = 12, sat = 2 * 10 ^ 9, svalue = 100\<rparr>"
  have "forward (offered (demo_samples @ [Update ?c]))" by (simp add: demo_samples_def offered_def forward_def)
  from estimate_is_recent_maximum [OF this _ refl]
  have "minmax_get (foldl minmax_step newTUICMinMax (demo_samples @ [Update ?c])) \<ge> 100" by auto
  moreover have "minmax_get (foldl minmax_step newTUICMinMax (demo_samples @ [Update ?c])) = 300" by code_simp
  ultimately show ?thesis by blast
qed

end
