(* ===== verification/PathWindow.thy ===== *)
theory PathWindow
  imports Prelude Complex_Main
begin

text \<open>
  The windowed maximum of the shared path model (\<^verbatim>\<open>internal/pathmodel/bandwidth_window.go\<close>): a queue that keeps only
  the samples that can still become the maximum. Rates are rationals, times integers in nanoseconds.
\<close>

section \<open>The queue\<close>

record bandwidthSample =
  bw_rate :: rat
  bw_at :: int

definition bottleneckWindow :: int where "bottleneckWindow = 10 * 10 ^ 9"

fun drop_old :: "int \<Rightarrow> bandwidthSample list \<Rightarrow> bandwidthSample list" where
  "drop_old now [] = []"
| "drop_old now (x # w) = (if now - bw_at x > bottleneckWindow then drop_old now w else x # w)"

definition bw_maximum :: "bandwidthSample list \<Rightarrow> int \<Rightarrow> bandwidthSample list \<times> rat" where
  "bw_maximum w now = (let w = drop_old now w in if w = [] then ([], 0) else (w, bw_rate (hd w)))"

function pop_dominated :: "rat \<Rightarrow> bandwidthSample list \<Rightarrow> bandwidthSample list" where
  "pop_dominated r w = (if w \<noteq> [] \<and> bw_rate (last w) \<le> r then pop_dominated r (butlast w) else w)"
  by pat_completeness auto
termination
  by (relation "measure (\<lambda>(r, w). length w)") auto

declare pop_dominated.simps [simp del]

definition bw_observe :: "bandwidthSample list \<Rightarrow> int \<Rightarrow> rat \<Rightarrow> bandwidthSample list \<times> rat" where
  "bw_observe w now r =
     (let w = fst (bw_maximum w now);
          w = (if r > 0 then pop_dominated r w @ [\<lparr>bw_rate = r, bw_at = now\<rparr>] else w) in
      (w, if w = [] then 0 else bw_rate (hd w)))"

section \<open>The queue is the window\<close>

datatype bw_op = Sampled int rat | Asked int

fun bw_time :: "bw_op \<Rightarrow> int" where
  "bw_time (Sampled t r) = t"
| "bw_time (Asked t) = t"

fun bw_step :: "bandwidthSample list \<Rightarrow> bw_op \<Rightarrow> bandwidthSample list" where
  "bw_step w (Sampled t r) = fst (bw_observe w t r)"
| "bw_step w (Asked t) = fst (bw_maximum w t)"

fun bw_answer :: "bandwidthSample list \<Rightarrow> bw_op \<Rightarrow> rat" where
  "bw_answer w (Sampled t r) = snd (bw_observe w t r)"
| "bw_answer w (Asked t) = snd (bw_maximum w t)"

text \<open>The samples of a run, and those that stand at a time.\<close>

definition bw_samples :: "bw_op list \<Rightarrow> bandwidthSample list" where
  "bw_samples xs = concat (map (\<lambda>x. case x of Sampled t r \<Rightarrow> if r > 0 then [\<lparr>bw_rate = r, bw_at = t\<rparr>] else [] | Asked t \<Rightarrow> []) xs)"

definition standing :: "int \<Rightarrow> bandwidthSample list \<Rightarrow> bandwidthSample list" where
  "standing now ss = filter (\<lambda>s. now - bw_at s \<le> bottleneckWindow) ss"

text \<open>
  Rates fall along the queue, its samples stand, and every standing sample is dominated by one that
  is in the queue.
\<close>

definition window_ok :: "int \<Rightarrow> bandwidthSample list \<Rightarrow> bandwidthSample list \<Rightarrow> bool" where
  "window_ok now ss w \<longleftrightarrow> sorted_wrt (\<lambda>x y. bw_rate x > bw_rate y \<and> bw_at x \<le> bw_at y) w \<and> set w \<subseteq> set (standing now ss)
     \<and> (\<forall>s\<in>set (standing now ss). \<exists>x\<in>set w. bw_rate s \<le> bw_rate x \<and> bw_at s \<le> bw_at x)"

lemma drop_old_split:
  "sorted_wrt (\<lambda>x y. bw_rate x > bw_rate y \<and> bw_at x \<le> bw_at y) w \<Longrightarrow>
    drop_old now w = filter (\<lambda>s. now - bw_at s \<le> bottleneckWindow) w"
proof (induction w)
  case (Cons x w)
  show ?case
  proof (cases "now - bw_at x > bottleneckWindow")
    case True
    then show ?thesis using Cons by simp
  next
    case False
    then have "\<forall>s\<in>set (x # w). now - bw_at s \<le> bottleneckWindow" using Cons.prems by force
    then show ?thesis using False by (simp add: filter_True)
  qed
qed simp

lemma pop_dominated_filter:
  "sorted_wrt (\<lambda>x y. bw_rate x > bw_rate y \<and> bw_at x \<le> bw_at y) w \<Longrightarrow> pop_dominated r w = filter (\<lambda>s. bw_rate s > r) w"
proof (induction w rule: rev_induct)
  case Nil
  show ?case by (simp add: pop_dominated.simps)
next
  case (snoc x w)
  have IH: "pop_dominated r w = filter (\<lambda>s. bw_rate s > r) w" using snoc by (simp add: sorted_wrt_append)
  show ?case
  proof (cases "bw_rate x \<le> r")
    case True
    then show ?thesis using IH by (subst pop_dominated.simps) simp
  next
    case False
    then have "\<forall>s\<in>set w. bw_rate s > r" using snoc.prems by (force simp: sorted_wrt_append)
    then show ?thesis using False by (subst pop_dominated.simps) simp
  qed
qed

lemma maximum_ok:
  assumes "window_ok now ss w" "now \<le> now'"
  shows "window_ok now' ss (fst (bw_maximum w now'))"
proof -
  let ?P = "\<lambda>s. now' - bw_at s \<le> bottleneckWindow"
  have s: "sorted_wrt (\<lambda>x y. bw_rate x > bw_rate y \<and> bw_at x \<le> bw_at y) w" using assms(1) by (simp add: window_ok_def)
  have eq: "fst (bw_maximum w now') = filter ?P w" by (simp add: bw_maximum_def Let_def drop_old_split [OF s])
  have sub: "set (standing now' ss) \<subseteq> set (standing now ss)" using assms(2) by (auto simp: standing_def)
  have "\<exists>x\<in>set (filter ?P w). bw_rate t \<le> bw_rate x \<and> bw_at t \<le> bw_at x" if "t \<in> set (standing now' ss)" for t
  proof -
    obtain x where "x \<in> set w" "bw_rate t \<le> bw_rate x" "bw_at t \<le> bw_at x" using assms(1) sub \<open>t \<in> _\<close> unfolding window_ok_def by blast
    moreover have "?P t" using that by (simp add: standing_def)
    ultimately show ?thesis by (intro bexI [of _ x]) auto
  qed
  moreover have "set (filter ?P w) \<subseteq> set (standing now' ss)" using assms(1) by (auto simp: window_ok_def standing_def)
  ultimately show ?thesis unfolding window_ok_def eq using s by (simp add: sorted_wrt_filter)
qed

lemma observe_ok:
  assumes "window_ok now ss w" "now \<le> now'" "\<forall>s\<in>set ss. bw_at s \<le> now'" "r > 0"
  shows "window_ok now' (ss @ [\<lparr>bw_rate = r, bw_at = now'\<rparr>]) (fst (bw_observe w now' r))"
proof -
  let ?x = "\<lparr>bw_rate = r, bw_at = now'\<rparr>" and ?w = "fst (bw_maximum w now')"
  have ok: "window_ok now' ss ?w" by (rule maximum_ok [OF assms(1,2)])
  then have s: "sorted_wrt (\<lambda>x y. bw_rate x > bw_rate y \<and> bw_at x \<le> bw_at y) ?w" by (simp add: window_ok_def)
  have eq: "fst (bw_observe w now' r) = filter (\<lambda>s. bw_rate s > r) ?w @ [?x]"
    using assms(4) by (simp add: bw_observe_def Let_def pop_dominated_filter [OF s])
  have at: "\<forall>s\<in>set ?w. bw_at s \<le> now'" using ok assms(3) by (auto simp: window_ok_def standing_def)
  have st: "standing now' (ss @ [?x]) = standing now' ss @ [?x]" by (simp add: standing_def bottleneckWindow_def)
  have "\<exists>y\<in>set (filter (\<lambda>s. bw_rate s > r) ?w @ [?x]). bw_rate t \<le> bw_rate y \<and> bw_at t \<le> bw_at y" if t: "t \<in> set (standing now' (ss @ [?x]))" for t
  proof (cases "t = ?x")
    case False
    then obtain y where y: "y \<in> set ?w" "bw_rate t \<le> bw_rate y" "bw_at t \<le> bw_at y" using ok t unfolding st window_ok_def by auto
    show ?thesis
    proof (cases "bw_rate y > r")
      case True
      then show ?thesis using y by auto
    next
      case False
      then show ?thesis using y at by (intro bexI [of _ ?x]) auto
    qed
  qed simp
  moreover have "set (filter (\<lambda>s. bw_rate s > r) ?w @ [?x]) \<subseteq> set (standing now' (ss @ [?x]))" using ok unfolding st by (auto simp: window_ok_def)
  moreover have "sorted_wrt (\<lambda>x y. bw_rate x > bw_rate y \<and> bw_at x \<le> bw_at y) (filter (\<lambda>s. bw_rate s > r) ?w @ [?x])"
    using s at by (simp add: sorted_wrt_append sorted_wrt_filter)
  ultimately show ?thesis unfolding window_ok_def eq by blast
qed

lemma samples_times: "s \<in> set (bw_samples xs) \<Longrightarrow> \<exists>x\<in>set xs. bw_at s = bw_time x"
  unfolding bw_samples_def by (auto split: bw_op.splits if_splits) (metis bw_time.simps(1))

lemma samples_snoc: "bw_samples (xs @ [x]) = bw_samples xs @ bw_samples [x]"
  by (simp add: bw_samples_def)

lemma run_ok:
  "sorted (map bw_time xs) \<Longrightarrow> xs \<noteq> [] \<Longrightarrow> window_ok (bw_time (last xs)) (bw_samples xs) (foldl bw_step [] xs)"
proof (induction xs rule: rev_induct)
  case (snoc x xs)
  let ?now = "if xs = [] then bw_time x else bw_time (last xs)"
  have le: "\<forall>y\<in>set xs. bw_time y \<le> bw_time x" and so: "sorted (map bw_time xs)" using snoc.prems(1) by (auto simp: sorted_append)
  have ok: "window_ok ?now (bw_samples xs) (foldl bw_step [] xs)"
    using snoc.IH [OF so] by (auto simp: window_ok_def bw_samples_def standing_def)
  have now: "?now \<le> bw_time x" using le by auto
  have ts: "\<forall>s\<in>set (bw_samples xs). bw_at s \<le> bw_time x" using samples_times le by fastforce
  show ?case
  proof (cases x)
    case (Sampled t r)
    show ?thesis
    proof (cases "r > 0")
      case True
      then show ?thesis using observe_ok [OF ok, of t r] now ts Sampled by (simp add: samples_snoc) (simp add: bw_samples_def)
    next
      case False
      then show ?thesis using maximum_ok [OF ok now] Sampled by (simp add: samples_snoc bw_observe_def Let_def) (simp add: bw_samples_def)
    qed
  next
    case (Asked t)
    then show ?thesis using maximum_ok [OF ok now] by (simp add: samples_snoc) (simp add: bw_samples_def)
  qed
qed simp

lemma answer_head: "bw_answer w x = (if bw_step w x = [] then 0 else bw_rate (hd (bw_step w x)))"
  by (cases x) (simp_all add: bw_observe_def bw_maximum_def Let_def)

lemma head_is_max:
  assumes "window_ok now ss w" "\<forall>s\<in>set ss. bw_rate s > 0"
  shows "(if w = [] then 0 else bw_rate (hd w)) = Max (insert 0 (bw_rate ` set (standing now ss)))"
proof (cases w)
  case Nil
  then have "set (standing now ss) = {}" using assms(1) by (auto simp: window_ok_def)
  then show ?thesis using Nil by simp
next
  case (Cons x w')
  have x: "x \<in> set (standing now ss)" using assms(1) Cons by (simp add: window_ok_def)
  then have "0 < bw_rate x" using assms(2) by (auto simp: standing_def)
  moreover have "bw_rate s \<le> bw_rate x" if "s \<in> set (standing now ss)" for s
  proof -
    have "\<exists>y\<in>set w. bw_rate s \<le> bw_rate y \<and> bw_at s \<le> bw_at y" using assms(1) that by (simp add: window_ok_def)
    then obtain y where "y \<in> set w" "bw_rate s \<le> bw_rate y" by blast
    moreover have "\<forall>y\<in>set w'. bw_rate y < bw_rate x" using assms(1) Cons by (simp add: window_ok_def)
    ultimately show ?thesis using Cons by (metis less_imp_le order_trans set_ConsD)
  qed
  ultimately have "Max (insert 0 (bw_rate ` set (standing now ss))) = bw_rate x" using x by (intro Max_eqI) auto
  then show ?thesis using Cons by simp
qed

text \<open>
  C36 (equivalence). The queue answers as a scan of the whole history would. For calls in the order of time,
  every answer, of an observation or of a question, is the greatest rate that was observed in the last ten
  seconds, and zero when there was none.
\<close>

theorem window_maximum_exact:
  assumes "sorted (map bw_time (xs @ [x]))"
  shows "bw_answer (foldl bw_step [] xs) x =
    Max (insert 0 (bw_rate ` {s \<in> set (bw_samples (xs @ [x])). bw_time x - bw_at s \<le> bottleneckWindow}))"
proof -
  have "\<forall>s\<in>set (bw_samples (xs @ [x])). bw_rate s > 0" by (auto simp: bw_samples_def split: bw_op.splits if_splits)
  moreover have "window_ok (bw_time x) (bw_samples (xs @ [x])) (bw_step (foldl bw_step [] xs) x)" using run_ok [OF assms] by simp
  ultimately show ?thesis unfolding answer_head using head_is_max by (simp add: standing_def)
qed

lemma window_maximum_exact_witness:
  "bw_answer (foldl bw_step [] [Sampled 0 9, Sampled 1 4]) (Sampled (10 * 10 ^ 9 + 1) 2) = 4"
proof -
  let ?xs = "[Sampled 0 9, Sampled 1 4]" and ?x = "Sampled (10 * 10 ^ 9 + 1) 2"
  have "{s \<in> set (bw_samples (?xs @ [?x])). bw_time ?x - bw_at s \<le> bottleneckWindow} = {\<lparr>bw_rate = 4, bw_at = 1\<rparr>, \<lparr>bw_rate = 2, bw_at = 10 * 10 ^ 9 + 1\<rparr>}"
    by (auto simp: bw_samples_def bottleneckWindow_def)
  then show ?thesis using window_maximum_exact [of ?xs ?x] by simp
qed

end
