(* ===== verification/Session.thy ===== *)
theory Session
  imports Prelude
begin

text \<open>
  \<^verbatim>\<open>internal/session\<close> (\<^verbatim>\<open>open.go\<close>, \<^verbatim>\<open>packet.go\<close>, \<^verbatim>\<open>session.go\<close>): the payloads of OPEN and PACKET
  frames. Strings are byte lists. Of the Go library the model has what the sources use:
  \<^verbatim>\<open>strings.TrimSpace\<close> over the UTF-8 encodings of the white-space runes, \<^verbatim>\<open>net.SplitHostPort\<close>,
  \<^verbatim>\<open>net.JoinHostPort\<close>, \<^verbatim>\<open>strconv.Atoi\<close> and \<^verbatim>\<open>strconv.Itoa\<close>.
\<close>

section \<open>Strings\<close>

text \<open>The white-space runes as Go encodes them.\<close>

definition space_runes :: "bytes list" where
  "space_runes = [[9], [10], [11], [12], [13], [32], [0xC2, 0x85], [0xC2, 0xA0], [0xE1, 0x9A, 0x80],
     [0xE2, 0x80, 0x80], [0xE2, 0x80, 0x81], [0xE2, 0x80, 0x82], [0xE2, 0x80, 0x83], [0xE2, 0x80, 0x84],
     [0xE2, 0x80, 0x85], [0xE2, 0x80, 0x86], [0xE2, 0x80, 0x87], [0xE2, 0x80, 0x88], [0xE2, 0x80, 0x89],
     [0xE2, 0x80, 0x8A], [0xE2, 0x80, 0xA8], [0xE2, 0x80, 0xA9], [0xE2, 0x80, 0xAF], [0xE2, 0x81, 0x9F],
     [0xE3, 0x80, 0x80]]"

lemma space_runes_nonempty: "r \<in> set space_runes \<Longrightarrow> r \<noteq> []"
  by (auto simp: space_runes_def)

function trim_left :: "bytes \<Rightarrow> bytes" where
  "trim_left s = (case find (\<lambda>r. prefix r s) space_runes of None \<Rightarrow> s | Some r \<Rightarrow> trim_left (drop (length r) s))"
  by pat_completeness auto
termination
proof (relation "measure length")
  fix s r assume "find (\<lambda>r. prefix r s) space_runes = Some r"
  then have "r \<in> set space_runes" "prefix r s" by (auto simp: find_Some_iff)
  then show "(drop (length r) s, s) \<in> measure length"
    using space_runes_nonempty [of r] by (auto simp: prefix_def)
qed simp

declare trim_left.simps [simp del]

function trim_right :: "bytes \<Rightarrow> bytes" where
  "trim_right s = (case find (\<lambda>r. suffix r s) space_runes of None \<Rightarrow> s | Some r \<Rightarrow> trim_right (take (length s - length r) s))"
  by pat_completeness auto
termination
proof (relation "measure length")
  fix s r assume "find (\<lambda>r. suffix r s) space_runes = Some r"
  then have "r \<in> set space_runes" "suffix r s" by (auto simp: find_Some_iff)
  then show "(take (length s - length r) s, s) \<in> measure length"
    using space_runes_nonempty [of r] by (auto simp: suffix_def)
qed simp

declare trim_right.simps [simp del]

definition TrimSpace :: "bytes \<Rightarrow> bytes" where
  "TrimSpace s = trim_right (trim_left s)"

definition index_byte :: "u8 \<Rightarrow> bytes \<Rightarrow> nat option" where
  "index_byte c s = (if c \<in> set s then Some (length (takeWhile (\<lambda>b. b \<noteq> c) s)) else None)"

definition last_byte :: "u8 \<Rightarrow> bytes \<Rightarrow> nat option" where
  "last_byte c s = (if c \<in> set s then Some (length s - 1 - length (takeWhile (\<lambda>b. b \<noteq> c) (rev s))) else None)"

abbreviation colon :: u8 where "colon \<equiv> 58"
abbreviation lbracket :: u8 where "lbracket \<equiv> 91"
abbreviation rbracket :: u8 where "rbracket \<equiv> 93"

definition SplitHostPort :: "bytes \<Rightarrow> (bytes \<times> bytes) option" where
  "SplitHostPort s =
     (case last_byte colon s of
        None \<Rightarrow> None
      | Some i \<Rightarrow>
          if s ! 0 = lbracket then
            (case index_byte rbracket s of
               None \<Rightarrow> None
             | Some e \<Rightarrow>
                 if e + 1 = length s then None
                 else if e + 1 = i then
                   (if lbracket \<in> set (drop 1 s) \<or> rbracket \<in> set (drop (e + 1) s) then None
                    else Some (go_slice 1 e s, drop (i + 1) s))
                 else None)
          else if colon \<in> set (take i s) then None
          else if lbracket \<in> set s \<or> rbracket \<in> set s then None
          else Some (take i s, drop (i + 1) s))"

definition JoinHostPort :: "bytes \<Rightarrow> bytes \<Rightarrow> bytes" where
  "JoinHostPort host port =
     (if colon \<in> set host then [lbracket] @ host @ [rbracket, colon] @ port else host @ [colon] @ port)"

definition is_digit :: "u8 \<Rightarrow> bool" where
  "is_digit b \<longleftrightarrow> 48 \<le> b \<and> b \<le> 57"

definition digits_value :: "bytes \<Rightarrow> nat" where
  "digits_value s = foldl (\<lambda>n b. n * 10 + (unat b - 48)) 0 s"

text \<open>A number too large for the machine is out of the port range as well.\<close>

definition Atoi :: "bytes \<Rightarrow> int option" where
  "Atoi s =
     (let neg = (s \<noteq> [] \<and> hd s = 45);
          t = (if s \<noteq> [] \<and> (hd s = 45 \<or> hd s = 43) then tl s else s) in
      if t = [] \<or> \<not> list_all is_digit t then None
      else Some (if neg then - int (digits_value t) else int (digits_value t)))"

fun Itoa :: "nat \<Rightarrow> bytes" where
  "Itoa n = (if n < 10 then [of_nat (48 + n)] else Itoa (n div 10) @ [of_nat (48 + n mod 10)])"

declare Itoa.simps [simp del]

section \<open>Destinations\<close>

definition maxDestinationLength :: nat where "maxDestinationLength = 255"

datatype dest_error = DestLength | DestForm | DestHost | DestPort | DestPayload | DestInvalid dest_error

definition EncodeDestination :: "bytes \<Rightarrow> dest_error + bytes" where
  "EncodeDestination destination =
     (let destination = TrimSpace destination in
      if length destination = 0 \<or> length destination > maxDestinationLength then Inl DestLength
      else case SplitHostPort destination of
        None \<Rightarrow> Inl DestForm
      | Some (host, port) \<Rightarrow>
          if host = [] then Inl DestForm
          else if \<exists>r\<in>set host. r \<le> 32 \<or> r = 0x7f then Inl DestHost
          else case Atoi port of
            None \<Rightarrow> Inl DestPort
          | Some p \<Rightarrow>
              if p < 1 \<or> p > 65535 then Inl DestPort
              else Inr (JoinHostPort host (Itoa (nat p))))"

definition DecodeDestination :: "bytes \<Rightarrow> dest_error + bytes" where
  "DecodeDestination payload =
     (if length payload = 0 \<or> length payload > maxDestinationLength then Inl DestPayload
      else case EncodeDestination payload of
        Inl e \<Rightarrow> Inl (DestInvalid e)
      | Inr canonical \<Rightarrow> Inr canonical)"

section \<open>Datagrams and associations\<close>

definition UDPAssociationMarker :: bytes where "UDPAssociationMarker = [87, 79, 85, 68, 1]"
definition UDPResumeMarker :: bytes where "UDPResumeMarker = [87, 79, 85, 68, 2]"
definition packetHeaderLength :: nat where "packetHeaderLength = 2"
definition maxUDPPayload :: nat where "maxUDPPayload = 65507"
definition MaxPacketPayload :: nat where
  "MaxPacketPayload = packetHeaderLength + maxDestinationLength + maxUDPPayload"
definition UDPResumeTokenSize :: nat where "UDPResumeTokenSize = 16"

datatype packet_error = PacketDestination dest_error | PacketTooLarge | PacketBound | PacketTruncated | PacketLength | TokenSize nat

definition IsUDPAssociation :: "bytes \<Rightarrow> bool" where
  "IsUDPAssociation payload \<longleftrightarrow> payload = UDPAssociationMarker"

definition EncodeUDPPacket :: "bytes \<Rightarrow> bytes \<Rightarrow> packet_error + bytes" where
  "EncodeUDPPacket destination payload =
     (case EncodeDestination destination of
        Inl e \<Rightarrow> Inl (PacketDestination e)
      | Inr dest \<Rightarrow>
          if length payload > maxUDPPayload then Inl PacketTooLarge
          else if length dest > 65535
            \<or> length dest + packetHeaderLength + length payload > maxUDPPayload + maxDestinationLength + packetHeaderLength
          then Inl PacketBound
          else Inr (be_put 2 (of_nat (length dest) :: u16) @ dest @ payload))"

definition DecodeUDPPacket :: "bytes \<Rightarrow> packet_error + bytes \<times> bytes" where
  "DecodeUDPPacket payload =
     (if length payload < packetHeaderLength + 1 then Inl PacketTruncated
      else
        (let n = unat (be_get (take 2 payload) :: u16) in
         if n = 0 \<or> n > maxDestinationLength \<or> packetHeaderLength + n > length payload then Inl PacketLength
         else case DecodeDestination (go_slice packetHeaderLength (packetHeaderLength + n) payload) of
           Inl e \<Rightarrow> Inl (PacketDestination e)
         | Inr destination \<Rightarrow>
             (let packet = drop (packetHeaderLength + n) payload in
              if length packet > maxUDPPayload then Inl PacketLength
              else Inr (destination, packet))))"

definition EncodeUDPResumeOpen :: "bytes \<Rightarrow> packet_error + bytes" where
  "EncodeUDPResumeOpen token =
     (if length token \<noteq> 0 \<and> length token \<noteq> UDPResumeTokenSize then Inl (TokenSize (length token))
      else Inr (UDPResumeMarker @ token))"

text \<open>The outer option says whether the payload opens a resumable association.\<close>

definition DecodeUDPResumeOpen :: "bytes \<Rightarrow> bytes option" where
  "DecodeUDPResumeOpen payload =
     (if length payload < length UDPResumeMarker \<or> take (length UDPResumeMarker) payload \<noteq> UDPResumeMarker then None
      else
        (let rest = drop (length UDPResumeMarker) payload in
         if length rest = 0 then Some []
         else if length rest = UDPResumeTokenSize then Some rest
         else None))"

definition EncodeUDPResumeGrant :: "bool \<Rightarrow> bytes \<Rightarrow> bytes" where
  "EncodeUDPResumeGrant resumed token = (if resumed then 1 else 0) # token"

definition DecodeUDPResumeGrant :: "bytes \<Rightarrow> (bool \<times> bytes) option" where
  "DecodeUDPResumeGrant payload =
     (if length payload \<noteq> 1 + UDPResumeTokenSize \<or> payload ! 0 > 1 then None
      else Some (payload ! 0 = 1, drop 1 payload))"

section \<open>Resets\<close>

datatype ResetCode = ResetProtocol | ResetAuthentication | ResetDestination | ResetFlowLimit | ResetTransport

definition reset_byte :: "ResetCode \<Rightarrow> u8" where
  "reset_byte c = (case c of ResetProtocol \<Rightarrow> 1 | ResetAuthentication \<Rightarrow> 2 | ResetDestination \<Rightarrow> 3
     | ResetFlowLimit \<Rightarrow> 4 | ResetTransport \<Rightarrow> 5)"

definition ResetPayload :: "ResetCode \<Rightarrow> bytes \<Rightarrow> bytes" where
  "ResetPayload code message = reset_byte code # (if length message > 256 then take 256 message else message)"

definition IsZeroSessionID :: "bytes \<Rightarrow> bool" where
  "IsZeroSessionID ident \<longleftrightarrow> ident = replicate 16 0"

section \<open>Ports\<close>

lemma digit_byte: "d < 10 \<Longrightarrow> unat (of_nat (48 + d) :: u8) = 48 + d"
  by (simp only: unat_of_nat) simp

lemma is_digit_nat: "d < 10 \<Longrightarrow> is_digit (of_nat (48 + d))"
  using digit_byte [of d] by (auto simp: is_digit_def word_le_nat_alt)

lemma Itoa_digits: "Itoa n \<noteq> [] \<and> list_all is_digit (Itoa n) \<and> digits_value (Itoa n) = n"
proof (induction n rule: less_induct)
  case (less n)
  show ?case
  proof (cases "n < 10")
    case True
    then show ?thesis using is_digit_nat [of n] digit_byte [of n] by (simp add: Itoa.simps digits_value_def)
  next
    case False
    then have ih: "Itoa (n div 10) \<noteq> [] \<and> list_all is_digit (Itoa (n div 10)) \<and> digits_value (Itoa (n div 10)) = n div 10"
      using less by simp
    have d: "is_digit (of_nat (48 + n mod 10))" "unat (of_nat (48 + n mod 10) :: u8) - 48 = n mod 10"
      using is_digit_nat [of "n mod 10"] digit_byte [of "n mod 10"] by simp_all
    have e: "Itoa n = Itoa (n div 10) @ [of_nat (48 + n mod 10)]" using False by (subst Itoa.simps) simp
    have "digits_value (Itoa n) = digits_value (Itoa (n div 10)) * 10 + (unat (of_nat (48 + n mod 10) :: u8) - 48)"
      unfolding e digits_value_def by simp
    then show ?thesis using ih d e by simp
  qed
qed

lemma digit_bounds: "is_digit b \<Longrightarrow> 48 \<le> unat b \<and> unat b \<le> 57"
  by (simp add: is_digit_def word_le_nat_alt)

lemma Itoa_byte: "b \<in> set (Itoa n) \<Longrightarrow> 48 \<le> unat b \<and> unat b \<le> 57"
  using Itoa_digits [of n] digit_bounds by (auto simp: list_all_iff)

lemma Atoi_Itoa: "Atoi (Itoa n) = Some (int n)"
proof -
  note d = Itoa_digits [of n]
  have "48 \<le> unat (hd (Itoa n))" using d Itoa_byte [of "hd (Itoa n)" n] by simp
  then have "hd (Itoa n) \<noteq> 45" "hd (Itoa n) \<noteq> 43" by auto
  then show ?thesis using d by (simp add: Atoi_def)
qed

section \<open>Canonical forms\<close>

lemma takeWhile_upto: "c \<notin> set t \<Longrightarrow> takeWhile (\<lambda>b. b \<noteq> c) (t @ c # u) = t"
  by (induction t) auto

lemma last_byte_append: "c \<notin> set t \<Longrightarrow> last_byte c (s @ c # t) = Some (length s)"
  using takeWhile_upto [of c "rev t" "rev s"] by (simp add: last_byte_def)

lemma index_byte_append: "c \<notin> set s \<Longrightarrow> index_byte c (s @ c # t) = Some (length s)"
  by (simp add: index_byte_def takeWhile_upto)

lemma last_byte_split:
  assumes "last_byte c s = Some i"
  obtains a b where "s = a @ c # b" "i = length a" "c \<notin> set b"
proof -
  have "c \<in> set s" using assms by (simp add: last_byte_def split: if_splits)
  then obtain a b where "s = a @ c # b" "c \<notin> set b" using split_list_last [of c s] by blast
  then show ?thesis using that assms last_byte_append [of c b a] by simp
qed

lemma index_byte_split:
  assumes "index_byte c s = Some i"
  obtains a b where "s = a @ c # b" "i = length a" "c \<notin> set a"
proof -
  have "c \<in> set s" using assms by (simp add: index_byte_def split: if_splits)
  then obtain a b where "s = a @ c # b" "c \<notin> set a" using split_list_first [of c s] by blast
  then show ?thesis using that assms index_byte_append [of c a b] by simp
qed

text \<open>What a split yields.\<close>

lemma SplitHostPort_host:
  assumes "SplitHostPort s = Some (host, port)"
  shows "s = host @ colon # port \<and> colon \<notin> set host \<or> s = lbracket # host @ rbracket # colon # port"
    "lbracket \<notin> set host" "rbracket \<notin> set host" "colon \<notin> set port"
proof -
  obtain i where i: "last_byte colon s = Some i" using assms by (auto simp: SplitHostPort_def split: option.splits)
  then obtain a b where s: "s = a @ colon # b" "i = length a" "colon \<notin> set b" by (rule last_byte_split)
  have "(s = host @ colon # port \<and> colon \<notin> set host \<or> s = lbracket # host @ rbracket # colon # port)
      \<and> lbracket \<notin> set host \<and> rbracket \<notin> set host \<and> colon \<notin> set port"
  proof (cases "s ! 0 = lbracket")
    case True
    obtain e where e: "index_byte rbracket s = Some e" "e + 1 = i" "lbracket \<notin> set (drop 1 s)"
      and r: "host = go_slice 1 e s" "port = drop (i + 1) s"
      using assms i True by (auto simp: SplitHostPort_def split: option.splits if_splits)
    obtain c d where c: "s = c @ rbracket # d" "e = length c" "rbracket \<notin> set c" using e(1) by (rule index_byte_split)
    have "c \<noteq> []" using c True by auto
    then obtain h where h: "c = lbracket # h" using c True by (cases c) auto
    have "a @ colon # b = (c @ [rbracket]) @ d" "length a = length (c @ [rbracket])" using s c e(2) by simp_all
    then have "a = c @ [rbracket]" "d = colon # b" by (metis append_eq_append_conv)+
    then show ?thesis using s(1,3) c h r e(2,3) by (auto simp: go_slice_def)
  next
    case False
    then have "host = take i s" "port = drop (i + 1) s" "colon \<notin> set (take i s)" "lbracket \<notin> set s" "rbracket \<notin> set s"
      using assms i by (auto simp: SplitHostPort_def split: if_splits)
    then show ?thesis using s by auto
  qed
  then show "s = host @ colon # port \<and> colon \<notin> set host \<or> s = lbracket # host @ rbracket # colon # port"
    "lbracket \<notin> set host" "rbracket \<notin> set host" "colon \<notin> set port" by blast+
qed

lemma SplitHostPort_Join:
  assumes "host \<noteq> []" "lbracket \<notin> set host" "rbracket \<notin> set host" "colon \<notin> set port" "lbracket \<notin> set port" "rbracket \<notin> set port"
  shows "SplitHostPort (JoinHostPort host port) = Some (host, port)"
proof (cases "colon \<in> set host")
  case True
  let ?s = "lbracket # host @ rbracket # colon # port"
  have l: "last_byte colon ?s = Some (length host + 2)" using last_byte_append [OF assms(4), of "lbracket # host @ [rbracket]"] by simp
  have e: "index_byte rbracket ?s = Some (length host + 1)" using index_byte_append [of rbracket "lbracket # host" "colon # port"] assms(3) by simp
  have "drop (length host + 3) ?s = port" by (simp add: numeral_3_eq_3)
  then have "SplitHostPort ?s = Some (go_slice 1 (length host + 1) ?s, port)"
    unfolding SplitHostPort_def l e using assms by simp
  then show ?thesis using True by (simp add: JoinHostPort_def go_slice_def)
next
  case False
  let ?s = "host @ colon # port"
  have l: "last_byte colon ?s = Some (length host)" using assms(4) by (rule last_byte_append)
  have "?s ! 0 \<noteq> lbracket" using assms(1,2) by (cases host) auto
  then show ?thesis unfolding JoinHostPort_def SplitHostPort_def using l assms False by auto
qed

lemma trim_left_id: "\<forall>r\<in>set space_runes. \<not> prefix r s \<Longrightarrow> trim_left s = s"
  by (subst trim_left.simps) (auto simp: find_None_iff find_Some_iff split: option.splits)

lemma trim_right_id: "\<forall>r\<in>set space_runes. \<not> suffix r s \<Longrightarrow> trim_right s = s"
  by (subst trim_right.simps) (auto simp: find_None_iff find_Some_iff split: option.splits)

lemma no_space_suffix:
  assumes "s \<noteq> []" "48 \<le> unat (last s)" "unat (last s) \<le> 57" "r \<in> set space_runes"
  shows "\<not> suffix r s"
proof
  assume "suffix r s"
  then have "last s = last r" using space_runes_nonempty [OF assms(4)] by (auto simp: suffix_def)
  then have "48 \<le> unat (last r)" "unat (last r) \<le> 57" using assms(2,3) by simp_all
  then show False using assms(4) by (auto simp: space_runes_def)
qed

lemma digits_value_snoc: "digits_value (t @ [b]) = digits_value t * 10 + (unat b - 48)"
  by (simp add: digits_value_def)

lemma digits_value_bound: "list_all is_digit t \<Longrightarrow> digits_value t < 10 ^ length t"
proof (induction t rule: rev_induct)
  case (snoc b t)
  then have "digits_value t < 10 ^ length t" "unat b \<le> 57" using digit_bounds [of b] by simp_all
  then show ?case by (simp add: digits_value_snoc)
qed (simp add: digits_value_def)

lemma Itoa_length: "n < 10 ^ k \<Longrightarrow> 0 < k \<Longrightarrow> length (Itoa n) \<le> k"
proof (induction k arbitrary: n)
  case (Suc k)
  show ?case
  proof (cases "n < 10")
    case True
    then show ?thesis by (simp add: Itoa.simps)
  next
    case False
    then have "0 < k" using Suc.prems(1) by (cases k) auto
    moreover have "n div 10 < 10 ^ k" using Suc.prems(1) by (simp add: less_mult_imp_div_less mult.commute)
    ultimately show ?thesis using Suc.IH False by (subst Itoa.simps) simp
  qed
qed simp

lemma Itoa_shortest:
  assumes "Atoi port = Some p" "1 \<le> p"
  shows "length (Itoa (nat p)) \<le> length port"
proof -
  define t where "t = (if port \<noteq> [] \<and> (hd port = 45 \<or> hd port = 43) then tl port else port)"
  have t: "t \<noteq> []" "list_all is_digit t" "nat p = digits_value t" "length t \<le> length port"
    using assms by (auto simp: Atoi_def t_def Let_def split: if_splits)
  then show ?thesis using Itoa_length [of "nat p" "length t"] digits_value_bound [OF t(2)] by simp
qed

lemma trim_left_length: "length (trim_left s) \<le> length s"
proof (induction s rule: trim_left.induct)
  case (1 s)
  show ?case
  proof (cases "find (\<lambda>r. prefix r s) space_runes")
    case (Some r)
    then show ?thesis using 1 [OF Some] by (subst trim_left.simps) simp
  qed (subst trim_left.simps, simp)
qed

lemma trim_right_length: "length (trim_right s) \<le> length s"
proof (induction s rule: trim_right.induct)
  case (1 s)
  show ?case
  proof (cases "find (\<lambda>r. suffix r s) space_runes")
    case (Some r)
    then show ?thesis using 1 [OF Some] by (subst trim_right.simps) simp
  qed (subst trim_right.simps, simp)
qed

text \<open>An accepted destination in terms of its host and port.\<close>

lemma EncodeDestination_ok:
  assumes "EncodeDestination d = Inr c"
  obtains host n where "c = JoinHostPort host (Itoa n)" "host \<noteq> []" "lbracket \<notin> set host" "rbracket \<notin> set host"
    "\<forall>r\<in>set host. \<not> r \<le> 32 \<and> r \<noteq> 0x7f" "1 \<le> n" "n \<le> 65535" "length c \<le> length (TrimSpace d)" "length c \<le> maxDestinationLength"
proof -
  obtain host port p where h: "SplitHostPort (TrimSpace d) = Some (host, port)" "host \<noteq> []"
    "\<forall>r\<in>set host. \<not> r \<le> 32 \<and> r \<noteq> 0x7f" "Atoi port = Some p" "1 \<le> p" "p \<le> 65535" "c = JoinHostPort host (Itoa (nat p))"
    "length (TrimSpace d) \<le> maxDestinationLength"
    using assms by (auto simp: EncodeDestination_def Let_def split: if_splits option.splits prod.splits)
  note f = SplitHostPort_host [OF h(1)]
  have "length c \<le> length (TrimSpace d)"
    using f(1) Itoa_shortest [OF h(4,5)] h(7) by (auto simp: JoinHostPort_def)
  then show ?thesis using that [OF h(7) h(2) f(2,3) h(3)] h(5,6,8) by simp
qed

lemma canonical_last:
  "JoinHostPort host (Itoa n) \<noteq> []" "48 \<le> unat (last (JoinHostPort host (Itoa n)))" "unat (last (JoinHostPort host (Itoa n))) \<le> 57"
proof -
  have "last (JoinHostPort host (Itoa n)) = last (Itoa n)" "last (Itoa n) \<in> set (Itoa n)"
    using Itoa_digits [of n] by (auto simp: JoinHostPort_def)
  then show "JoinHostPort host (Itoa n) \<noteq> []" "48 \<le> unat (last (JoinHostPort host (Itoa n)))"
    "unat (last (JoinHostPort host (Itoa n))) \<le> 57"
    using Itoa_byte [of "last (Itoa n)" n] by (auto simp: JoinHostPort_def)
qed

lemma EncodeDestination_canonical:
  assumes "EncodeDestination d = Inr c" "\<forall>r\<in>set space_runes. \<not> prefix r c"
  shows "EncodeDestination c = Inr c"
proof -
  obtain host n where h: "c = JoinHostPort host (Itoa n)" "host \<noteq> []" "lbracket \<notin> set host" "rbracket \<notin> set host"
    "\<forall>r\<in>set host. \<not> r \<le> 32 \<and> r \<noteq> 0x7f" "1 \<le> n" "n \<le> 65535" "length c \<le> maxDestinationLength"
    using assms(1) by (rule EncodeDestination_ok)
  have t: "TrimSpace c = c"
    using trim_left_id [OF assms(2)] trim_right_id [of c] no_space_suffix [of c] canonical_last [of host n] h(1)
    by (simp add: TrimSpace_def)
  have "colon \<notin> set (Itoa n)" "lbracket \<notin> set (Itoa n)" "rbracket \<notin> set (Itoa n)" using Itoa_byte [of _ n] by fastforce+
  then have "SplitHostPort c = Some (host, Itoa n)" unfolding h(1) by (intro SplitHostPort_Join h(2-4))
  moreover have "c \<noteq> []" using canonical_last(1) h(1) by simp
  ultimately show ?thesis using t h by (auto simp: EncodeDestination_def Atoi_Itoa Let_def)
qed

lemma trim_right_prefix: "prefix (trim_right s) s"
proof (induction s rule: trim_right.induct)
  case (1 s)
  show ?case
  proof (cases "find (\<lambda>r. suffix r s) space_runes")
    case (Some r)
    then have "prefix (trim_right s) (take (length s - length r) s)" using 1 [OF Some] by (subst trim_right.simps) simp
    then show ?thesis using take_is_prefix prefix_order.trans by blast
  qed (subst trim_right.simps, simp)
qed

lemma no_space_prefix_ascii: "32 < unat b \<Longrightarrow> unat b < 128 \<Longrightarrow> r \<in> set space_runes \<Longrightarrow> \<not> prefix r (b # s)"
  by (auto simp: space_runes_def)

lemma TrimSpace_ascii_prefix:
  assumes "32 < unat b" "unat b < 128"
  shows "prefix (TrimSpace (b # s)) (b # s)"
  using trim_left_id [of "b # s"] no_space_prefix_ascii [OF assms] trim_right_prefix [of "b # s"] by (simp add: TrimSpace_def)

text \<open>A payload whose first bytes are printable and then a control byte, with no colon among them, is never a destination.\<close>

lemma marker_not_destination:
  assumes "colon \<notin> set m" "\<exists>x\<in>set m. x \<le> 32" "m = b # m'" "32 < unat b" "unat b < 128" "b \<noteq> lbracket"
  shows "EncodeDestination (m @ t) \<noteq> Inr c"
proof
  assume "EncodeDestination (m @ t) = Inr c"
  then obtain host port where h: "SplitHostPort (TrimSpace (m @ t)) = Some (host, port)" "\<forall>r\<in>set host. \<not> r \<le> 32"
    by (auto simp: EncodeDestination_def Let_def split: if_splits option.splits prod.splits)
  have p: "prefix (TrimSpace (m @ t)) (m @ t)" using TrimSpace_ascii_prefix [OF assms(4,5), of "m' @ t"] assms(3) by simp
  have "TrimSpace (m @ t) = host @ colon # port"
    using SplitHostPort_host(1) [OF h(1)] p assms(3,6) by (auto simp: prefix_def)
  then obtain z where z: "m @ t = host @ colon # z" using p by (auto simp: prefix_def)
  then have "prefix m host \<or> prefix (host @ [colon]) m"
    by (metis (no_types, lifting) append_Cons append_Nil append_assoc prefixI prefix_same_cases prefix_snoc)
  moreover have "\<not> prefix (host @ [colon]) m" using assms(1) by (auto simp: prefix_def)
  ultimately show False using assms(2) h(2) by (auto simp: prefix_def)
qed

section \<open>Properties\<close>

text \<open>The canonical form of an accepted destination has at most 255 bytes and, unless it starts with a
  non-ASCII white-space rune, is its own canonical form: encoding it again and decoding it as a payload both return it.\<close>

theorem destination_roundtrip:
  assumes "EncodeDestination d = Inr c" "\<forall>r\<in>set space_runes. \<not> prefix r c"
  shows "EncodeDestination c = Inr c \<and> DecodeDestination c = Inr c \<and> 0 < length c \<and> length c \<le> maxDestinationLength"
proof -
  obtain host n where h: "c = JoinHostPort host (Itoa n)" "length c \<le> maxDestinationLength"
    using assms(1) by (rule EncodeDestination_ok)
  have "EncodeDestination c = Inr c" using assms by (rule EncodeDestination_canonical)
  then show ?thesis using h canonical_last(1) by (simp add: DecodeDestination_def)
qed

lemma example_destination: "EncodeDestination [32, 97, 58, 48, 56, 48, 10] = Inr [97, 58, 56, 48]"
  by code_simp

lemma example_no_space: "\<forall>r\<in>set space_runes. \<not> prefix r [97, 58, 56, 48]"
  by code_simp

theorem destination_roundtrip_witness:
  "EncodeDestination [32, 97, 58, 48, 56, 48, 10] = Inr [97, 58, 56, 48]
   \<and> EncodeDestination [97, 58, 56, 48] = Inr [97, 58, 56, 48] \<and> DecodeDestination [97, 58, 56, 48] = Inr [97, 58, 56, 48]"
  using destination_roundtrip [OF example_destination example_no_space] example_destination by simp

text \<open>A datagram encoded for an accepted destination fits the bound every receiver accepts, and decoding it
  returns the canonical destination and the datagram unchanged.\<close>

theorem udp_packet_roundtrip:
  assumes "EncodeDestination d = Inr c" "\<forall>r\<in>set space_runes. \<not> prefix r c" "length payload \<le> maxUDPPayload"
  shows "\<exists>out. EncodeUDPPacket d payload = Inr out \<and> length out \<le> MaxPacketPayload \<and> DecodeUDPPacket out = Inr (c, payload)"
proof -
  obtain host n where "c = JoinHostPort host (Itoa n)" "length c \<le> maxDestinationLength" using assms(1) by (rule EncodeDestination_ok)
  then have l: "0 < length c" "length c \<le> 255" using canonical_last(1) by (simp_all add: maxDestinationLength_def)
  let ?out = "be_put 2 (of_nat (length c) :: u16) @ c @ payload"
  have e: "EncodeUDPPacket d payload = Inr ?out"
    using assms l by (simp add: EncodeUDPPacket_def maxDestinationLength_def packetHeaderLength_def)
  have "DecodeDestination c = Inr c"
    using EncodeDestination_canonical [OF assms(1,2)] l by (simp add: DecodeDestination_def maxDestinationLength_def)
  moreover have "unat (of_nat (length c) :: u16) = length c" using l by (simp add: unat_of_nat)
  ultimately have "DecodeUDPPacket ?out = Inr (c, payload)"
    using l assms(3) by (simp add: DecodeUDPPacket_def packetHeaderLength_def maxDestinationLength_def go_slice_def Let_def)
  then show ?thesis using e l assms(3)
    by (simp add: MaxPacketPayload_def maxDestinationLength_def packetHeaderLength_def)
qed

theorem udp_packet_roundtrip_witness:
  "\<exists>out. EncodeUDPPacket [32, 97, 58, 48, 56, 48, 10] [1, 2, 3] = Inr out \<and> length out \<le> MaxPacketPayload
     \<and> DecodeUDPPacket out = Inr ([97, 58, 56, 48], [1, 2, 3])"
  using udp_packet_roundtrip [OF example_destination example_no_space, of "[1, 2, 3]"] by (simp add: maxUDPPayload_def)

lemma association_not_destination: "EncodeDestination UDPAssociationMarker \<noteq> Inr c"
  by (rule marker_not_destination [where b = 87 and t = "[]" and m' = "[79, 85, 68, 1]", simplified]) (simp_all add: UDPAssociationMarker_def)

lemma resume_not_destination: "EncodeDestination (UDPResumeMarker @ t) \<noteq> Inr c"
  by (rule marker_not_destination [where b = 87 and m' = "[79, 85, 68, 2]"]) (simp_all add: UDPResumeMarker_def)

lemma DecodeDestination_accepts: "DecodeDestination p = Inr c \<Longrightarrow> EncodeDestination p = Inr c"
  by (auto simp: DecodeDestination_def split: if_splits sum.splits)

lemma DecodeUDPResumeOpen_iff:
  "DecodeUDPResumeOpen p = Some t \<longleftrightarrow> p = UDPResumeMarker @ t \<and> (length t = 0 \<or> length t = UDPResumeTokenSize)"
proof
  assume "DecodeUDPResumeOpen p = Some t"
  then have "take (length UDPResumeMarker) p = UDPResumeMarker" "t = drop (length UDPResumeMarker) p"
    "length t = 0 \<or> length t = UDPResumeTokenSize"
    by (auto simp: DecodeUDPResumeOpen_def Let_def split: if_splits)
  then show "p = UDPResumeMarker @ t \<and> (length t = 0 \<or> length t = UDPResumeTokenSize)" by (metis append_take_drop_id)
qed (auto simp: DecodeUDPResumeOpen_def UDPResumeTokenSize_def)

text \<open>C25: the three readings of an OPEN payload exclude each other: the plain association marker, a resumable
  association with or without a token, and a destination. An accepted payload is therefore of exactly one kind,
  whatever bytes a token holds.\<close>

theorem open_payloads_disjoint:
  "\<not> (IsUDPAssociation p \<and> DecodeUDPResumeOpen p = Some t) \<and> \<not> (IsUDPAssociation p \<and> DecodeDestination p = Inr c)
   \<and> \<not> (DecodeUDPResumeOpen p = Some t \<and> DecodeDestination p = Inr c)"
  using association_not_destination [of c] resume_not_destination [of t c] DecodeDestination_accepts [of p c]
  by (auto simp: DecodeUDPResumeOpen_iff IsUDPAssociation_def) (auto simp: UDPAssociationMarker_def UDPResumeMarker_def)

text \<open>Resuming an association round-trips: an encoded open decodes to its token, a decoded one re-encodes to
  the same bytes, and a grant carries its flag and its token.\<close>

lemma resume_roundtrip:
  "(EncodeUDPResumeOpen t = Inr p \<longleftrightarrow> DecodeUDPResumeOpen p = Some t)
   \<and> (length t = UDPResumeTokenSize \<longrightarrow> DecodeUDPResumeGrant (EncodeUDPResumeGrant r t) = Some (r, t))
   \<and> (DecodeUDPResumeGrant g = Some (r, t) \<longrightarrow> EncodeUDPResumeGrant r t = g \<and> length t = UDPResumeTokenSize)"
proof (intro conjI impI)
  show "EncodeUDPResumeOpen t = Inr p \<longleftrightarrow> DecodeUDPResumeOpen p = Some t"
    by (auto simp: EncodeUDPResumeOpen_def DecodeUDPResumeOpen_iff)
next
  assume "DecodeUDPResumeGrant g = Some (r, t)"
  then have g: "length g = 1 + UDPResumeTokenSize" "g ! 0 \<le> 1" "r = (g ! 0 = 1)" "t = drop 1 g"
    by (auto simp: DecodeUDPResumeGrant_def split: if_splits)
  then obtain b u where "g = b # u" by (cases g) auto
  moreover from this have "b = 0 \<or> b = 1" using g(2) by (auto simp: word_le_nat_alt word_unat_eq_iff)
  ultimately show "EncodeUDPResumeGrant r t = g" "length t = UDPResumeTokenSize"
    using g by (auto simp: EncodeUDPResumeGrant_def)
qed (auto simp: DecodeUDPResumeGrant_def EncodeUDPResumeGrant_def)

lemma resume_roundtrip_witness:
  "DecodeUDPResumeGrant (EncodeUDPResumeGrant True (replicate 16 7)) = Some (True, replicate 16 7)"
  using resume_roundtrip [of "replicate 16 7" "[]" True "[]"] by (simp add: UDPResumeTokenSize_def)

text \<open>Canonicalisation is not idempotent on every input: a bracketed host that is a single no-break space is
  accepted, and its canonical form is then refused, because the white space an outer pair of brackets protected is
  trimmed.\<close>

theorem destination_not_idempotent:
  "EncodeDestination [91, 0xC2, 0xA0, 93, 58, 49] = Inr [0xC2, 0xA0, 58, 49] \<and> EncodeDestination [0xC2, 0xA0, 58, 49] = Inl DestForm"
  by code_simp

end
