(* ===== verification/FakeDns.thy ===== *)
theory FakeDns
  imports Session
begin

text \<open>
  The name handles of the mobile core (\<^verbatim>\<open>mobile/core/fakedns.go\<close>): names are given addresses of a
  reserved range and looked up again when a flow arrives, and the DNS questions they come from are
  parsed and answered. Strings are byte lists as in \<^verbatim>\<open>Session\<close>. \<^verbatim>\<open>strings.ToLower\<close> lowers ASCII names byte by
  byte; what it does to a name with other runes, which is a matter of the Unicode tables, is the
  parameter \<^verbatim>\<open>uni\<close>. An address is its number, 32 or 128 bits wide.
\<close>

section \<open>Addresses and names\<close>

datatype addr = V4 u32 | V6 "128 word"

definition Is4In6 :: "addr \<Rightarrow> bool" where
  "Is4In6 a = (case a of V4 _ \<Rightarrow> False | V6 w \<Rightarrow> drop_bit 32 w = 0xFFFF)"

definition unmapAddr :: "addr \<Rightarrow> addr" where
  "unmapAddr a = (if Is4In6 a then (case a of V4 w \<Rightarrow> V4 w | V6 w \<Rightarrow> V4 (ucast w)) else a)"

definition addAddr :: "u32 \<Rightarrow> u32 \<Rightarrow> addr" where
  "addAddr base offset = V4 (base + offset)"

definition is_ascii :: "bytes \<Rightarrow> bool" where
  "is_ascii s \<longleftrightarrow> list_all (\<lambda>b. b < 0x80) s"

definition lower_byte :: "u8 \<Rightarrow> u8" where
  "lower_byte b = (if 65 \<le> b \<and> b \<le> 90 then b + 32 else b)"

definition ToLower :: "(bytes \<Rightarrow> bytes) \<Rightarrow> bytes \<Rightarrow> bytes" where
  "ToLower uni s = (if is_ascii s then map lower_byte s else uni s)"

definition trim_dot :: "bytes \<Rightarrow> bytes" where
  "trim_dot s = (if s \<noteq> [] \<and> last s = 46 then butlast s else s)"

definition normalizeName :: "(bytes \<Rightarrow> bytes) \<Rightarrow> bytes \<Rightarrow> bytes" where
  "normalizeName uni name = trim_dot (ToLower uni (TrimSpace name))"

section \<open>Handles\<close>

definition fakeDNSBase :: u32 where "fakeDNSBase = 0xC6120000"
definition fakeDNSPoolSize :: u32 where "fakeDNSPoolSize = push_bit (32 - 15) 1"
definition fakeDNSCapacity :: nat where "fakeDNSCapacity = 8192"
definition fakeDNSTTL :: u32 where "fakeDNSTTL = 1"

record fakeDNS =
  fbase :: u32
  fsize :: u32
  fnext :: u32
  byName :: "bytes \<Rightarrow> addr option"
  byAddr :: "addr \<Rightarrow> bytes option"
  forder :: "bytes list"

definition newFakeDNS :: fakeDNS where
  "newFakeDNS = \<lparr>fbase = fakeDNSBase, fsize = fakeDNSPoolSize, fnext = 2, byName = (\<lambda>_. None), byAddr = (\<lambda>_. None), forder = []\<rparr>"

definition next_offset :: "u32 \<Rightarrow> u32 \<Rightarrow> u32" where
  "next_offset n offset = (let offset = (offset + 1) mod n in if offset < 2 then 2 else offset)"

lemma unat_succ: "i < n \<Longrightarrow> unat (i + 1) = unat i + 1" for i n :: u32
proof -
  assume "i < n"
  moreover have "unat n < 2 ^ 32" using unsigned_less [of n] by simp
  ultimately have "unat i + 1 < 2 ^ 32" by (simp add: word_less_nat_alt)
  then show ?thesis by (simp add: unat_word_ariths)
qed

text \<open>The loop over candidates: the address it settles on, the pool base when all are taken, and the next offset.\<close>

function handle_scan :: "u32 \<Rightarrow> u32 \<Rightarrow> (addr \<Rightarrow> bytes option) \<Rightarrow> u32 \<Rightarrow> u32 \<Rightarrow> addr \<times> u32" where
  "handle_scan base n taken i offset =
     (if i < n then
        (if taken (addAddr base offset) = None then (addAddr base offset, next_offset n offset)
         else handle_scan base n taken (i + 1) (next_offset n offset))
      else (V4 base, offset))"
  by pat_completeness auto
termination
  by (relation "measure (\<lambda>(base, n, taken, i, offset). unat n - unat i)") (auto simp: unat_succ word_less_nat_alt)

declare handle_scan.simps [simp del]

definition evict_oldest :: "fakeDNS \<Rightarrow> fakeDNS" where
  "evict_oldest f =
     (if length (forder f) \<ge> fakeDNSCapacity then
        (let oldest = hd (forder f) in
         f\<lparr>forder := tl (forder f),
           byAddr := (case byName f oldest of Some a \<Rightarrow> (byAddr f)(a := None) | None \<Rightarrow> byAddr f),
           byName := (byName f)(oldest := None)\<rparr>)
      else f)"

definition Handle :: "(bytes \<Rightarrow> bytes) \<Rightarrow> fakeDNS \<Rightarrow> bytes \<Rightarrow> fakeDNS \<times> addr option" where
  "Handle uni f name =
     (let name = normalizeName uni name in
      if name = [] then (f, None)
      else case byName f name of
          Some a \<Rightarrow> (f, Some a)
        | None \<Rightarrow>
            (let f = evict_oldest f in
             case handle_scan (fbase f) (fsize f) (byAddr f) 0 (fnext f) of (a, offset) \<Rightarrow>
               (f\<lparr>fnext := offset, byName := (byName f)(name \<mapsto> a), byAddr := (byAddr f)(a \<mapsto> name), forder := forder f @ [name]\<rparr>,
                Some a)))"

definition fake_Name :: "fakeDNS \<Rightarrow> addr \<Rightarrow> bytes option" where
  "fake_Name f a = byAddr f (unmapAddr a)"

definition Holds :: "addr \<Rightarrow> bool" where
  "Holds a = (case unmapAddr a of V4 w \<Rightarrow> w AND 0xFFFE0000 = fakeDNSBase | V6 _ \<Rightarrow> False)"

section \<open>Questions and answers\<close>

definition dnsTypeA :: u16 where "dnsTypeA = 1"
definition dnsClassIN :: u16 where "dnsClassIN = 1"
definition dnsHeaderLen :: nat where "dnsHeaderLen = 12"
definition dnsMaxName :: nat where "dnsMaxName = 255"

record dnsQuestion =
  qname :: bytes
  qtype :: u16
  qclass :: u16
  queryEnd :: nat

definition get16 :: "bytes \<Rightarrow> nat \<Rightarrow> u16" where
  "get16 b i = be_get (go_slice i (i + 2) b)"

function labels_loop :: "bytes \<Rightarrow> nat \<Rightarrow> bytes list \<Rightarrow> (bytes list \<times> nat) option" where
  "labels_loop message offset labels =
     (if offset \<ge> length message then None
      else
        (let n = unat (message ! offset) in
         if n = 0 then Some (labels, offset + 1)
         else if message ! offset AND 0xC0 \<noteq> 0 then None
         else if offset + 1 + n > length message then None
         else labels_loop message (offset + 1 + n) (labels @ [go_slice (offset + 1) (offset + 1 + n) message])))"
  by pat_completeness auto
termination
  by (relation "measure (\<lambda>(message, offset, labels). length message - offset)") auto

declare labels_loop.simps [simp del]

fun join_dots :: "bytes list \<Rightarrow> bytes" where
  "join_dots [] = []"
| "join_dots [l] = l"
| "join_dots (l # m # ls) = l @ 46 # join_dots (m # ls)"

definition parseDNSQuestion :: "(bytes \<Rightarrow> bytes) \<Rightarrow> bytes \<Rightarrow> dnsQuestion option" where
  "parseDNSQuestion uni message =
     (if length message < dnsHeaderLen then None
      else if get16 message 2 AND 0x8000 \<noteq> 0 then None
      else if get16 message 4 \<noteq> 1 then None
      else case labels_loop message dnsHeaderLen [] of
          None \<Rightarrow> None
        | Some (labels, offset) \<Rightarrow>
            if offset + 4 > length message then None
            else if length (join_dots labels) > dnsMaxName then None
            else Some \<lparr>qname = normalizeName uni (join_dots labels), qtype = get16 message offset,
                   qclass = get16 message (offset + 2), queryEnd = offset + 4\<rparr>)"

definition put16 :: "bytes \<Rightarrow> nat \<Rightarrow> u16 \<Rightarrow> bytes" where
  "put16 b i w = take i b @ be_put 2 w @ drop (i + 2) b"

definition answer_flags :: "bytes \<Rightarrow> u16" where
  "answer_flags query = (0x8000 OR 0x0080) OR (if get16 query 2 AND 0x0100 \<noteq> 0 then 0x0100 else 0)"

definition answer_header :: "bytes \<Rightarrow> dnsQuestion \<Rightarrow> u16 \<Rightarrow> bytes" where
  "answer_header query question answers =
     put16 (put16 (put16 (put16 (take (queryEnd question) query) 2 (answer_flags query)) 6 answers) 8 0) 10 0"

definition answerWithAddress :: "bytes \<Rightarrow> dnsQuestion \<Rightarrow> u32 \<Rightarrow> bytes" where
  "answerWithAddress query question a =
     answer_header query question 1 @ [0xC0, of_nat dnsHeaderLen] @ be_put 2 dnsTypeA @ be_put 2 dnsClassIN
       @ be_put 4 fakeDNSTTL @ be_put 2 (4 :: u16) @ be_put 4 a"

definition answerEmpty :: "bytes \<Rightarrow> dnsQuestion \<Rightarrow> bytes" where
  "answerEmpty query question = answer_header query question 0"

section \<open>Handles are a bijection\<close>

abbreviation pool_n :: nat where "pool_n \<equiv> 131072"

lemma pool_size: "fakeDNSPoolSize = of_nat pool_n"
  by (simp add: fakeDNSPoolSize_def push_bit_eq_mult)

definition adv :: "nat \<Rightarrow> nat" where
  "adv k = (if k + 1 = pool_n then 2 else k + 1)"

definition pool_addr :: "nat \<Rightarrow> addr" where
  "pool_addr k = V4 (fakeDNSBase + of_nat k)"

definition offset_ok :: "nat \<Rightarrow> bool" where
  "offset_ok k \<longleftrightarrow> 2 \<le> k \<and> k < pool_n"

lemma adv_ok: "offset_ok k \<Longrightarrow> offset_ok (adv k)"
  by (auto simp: offset_ok_def adv_def)

lemma of_nat_pool: "k < 2 ^ 32 \<Longrightarrow> unat (of_nat k :: u32) = k"
  by (simp add: unat_of_nat take_bit_eq_mod)

lemma advance_adv: "offset_ok k \<Longrightarrow> next_offset fakeDNSPoolSize (of_nat k) = of_nat (adv k)"
proof -
  assume k: "offset_ok k"
  then have lt: "k + 1 \<le> pool_n" "2 \<le> k" by (simp_all add: offset_ok_def)
  have u: "unat (of_nat (k + 1) mod of_nat pool_n :: u32) = (k + 1) mod pool_n"
    using lt of_nat_pool [of "k + 1"] of_nat_pool [of pool_n] by (simp only: unat_mod) simp
  have "(of_nat (k + 1) mod of_nat pool_n :: u32) = of_nat ((k + 1) mod pool_n)"
    using u of_nat_pool [of "(k + 1) mod pool_n"] by (simp only: word_unat_eq_iff) simp
  moreover have "\<not> (of_nat (k + 1) :: u32) < 2" if "k + 1 < pool_n"
  proof -
    have "unat (of_nat (k + 1) :: u32) = k + 1" using that by (intro of_nat_pool) simp
    then show ?thesis using lt by (simp add: word_less_nat_alt)
  qed
  ultimately show ?thesis using lt
    by (cases "k + 1 = pool_n") (simp_all add: next_offset_def adv_def pool_size Let_def add.commute)
qed

lemma adv_pow: "offset_ok k \<Longrightarrow> (adv ^^ j) k = 2 + (k - 2 + j) mod (pool_n - 2)"
proof (induction j)
  case 0
  then show ?case by (auto simp: offset_ok_def)
next
  case (Suc j)
  let ?r = "(k - 2 + j) mod (pool_n - 2)"
  have "(k - 2 + Suc j) mod (pool_n - 2) = (if Suc ?r = pool_n - 2 then 0 else Suc ?r)"
    by (simp add: mod_Suc)
  then show ?case using Suc by (auto simp: adv_def)
qed

lemma adv_covers:
  assumes "offset_ok k" "offset_ok m"
  shows "\<exists>j < pool_n - 2. (adv ^^ j) k = m"
proof -
  let ?N = "pool_n - 2"
  let ?j = "(m - 2 + (?N - (k - 2))) mod ?N"
  have "(k - 2 + ?j) mod ?N = (k - 2 + (m - 2 + (?N - (k - 2)))) mod ?N" by (rule mod_add_right_eq)
  also have "\<dots> = (m - 2 + ?N) mod ?N" using assms by (simp add: offset_ok_def)
  also have "\<dots> = (m - 2) mod ?N" by (rule mod_add_self2)
  also have "\<dots> = m - 2" using assms by (intro mod_less) (simp add: offset_ok_def, linarith)
  finally have "(adv ^^ ?j) k = m" using adv_pow [OF assms(1), of ?j] assms(2) by (simp only: offset_ok_def le_add_diff_inverse)
  moreover have "?j < ?N" by (rule mod_less_divisor) simp
  ultimately show ?thesis by blast
qed

lemma handle_scan_result:
  assumes "offset_ok k" "i \<le> pool_n" "\<exists>j < pool_n - i. taken (pool_addr ((adv ^^ j) k)) = None"
  shows "\<exists>m m'. handle_scan fakeDNSBase fakeDNSPoolSize taken (of_nat i) (of_nat k) = (pool_addr m, of_nat m')
    \<and> offset_ok m \<and> offset_ok m' \<and> taken (pool_addr m) = None"
  using assms
proof (induction "pool_n - i" arbitrary: i k)
  case 0
  then show ?case by simp
next
  case (Suc d)
  have lt: "(of_nat i :: u32) < fakeDNSPoolSize"
    using Suc.hyps(2) by (simp add: pool_size word_less_nat_alt unat_of_nat take_bit_eq_mod)
  have cand: "addAddr fakeDNSBase (of_nat k) = pool_addr k" by (simp add: addAddr_def pool_addr_def)
  show ?case
  proof (cases "taken (pool_addr k) = None")
    case True
    then show ?thesis using lt cand Suc.prems(1) advance_adv [OF Suc.prems(1)] adv_ok [OF Suc.prems(1)]
      by (subst handle_scan.simps) auto
  next
    case False
    obtain j where j: "j < pool_n - i" "taken (pool_addr ((adv ^^ j) k)) = None" using Suc.prems(3) by blast
    then obtain j' where j': "j = Suc j'" using False by (cases j) auto
    then have "(adv ^^ j) k = (adv ^^ j') (adv k)" by (simp only: funpow_Suc_right comp_apply)
    then have "\<exists>j < pool_n - Suc i. taken (pool_addr ((adv ^^ j) (adv k))) = None" using j j' by (intro exI [of _ j']) simp
    moreover have "d = pool_n - Suc i" "Suc i \<le> pool_n" using Suc.hyps(2) by simp_all
    ultimately have "\<exists>m m'. handle_scan fakeDNSBase fakeDNSPoolSize taken (of_nat (Suc i)) (of_nat (adv k)) = (pool_addr m, of_nat m')
        \<and> offset_ok m \<and> offset_ok m' \<and> taken (pool_addr m) = None"
      using Suc.hyps(1) [of "Suc i" "adv k"] adv_ok [OF Suc.prems(1)] by blast
    moreover have "handle_scan fakeDNSBase fakeDNSPoolSize taken (of_nat i) (of_nat k) =
        handle_scan fakeDNSBase fakeDNSPoolSize taken (of_nat (Suc i)) (of_nat (adv k))"
      unfolding handle_scan.simps [of fakeDNSBase fakeDNSPoolSize taken "of_nat i"] cand
      using lt False advance_adv [OF Suc.prems(1)] by (simp only: if_True if_False of_nat_Suc add.commute)
    ultimately show ?thesis by simp
  qed
qed

definition dns_inv :: "fakeDNS \<Rightarrow> bool" where
  "dns_inv f \<longleftrightarrow> fbase f = fakeDNSBase \<and> fsize f = fakeDNSPoolSize \<and> (\<exists>k. offset_ok k \<and> fnext f = of_nat k)
     \<and> (\<forall>n a. byName f n = Some a \<longleftrightarrow> byAddr f a = Some n)
     \<and> (\<forall>n a. byName f n = Some a \<longrightarrow> (\<exists>k. offset_ok k \<and> a = pool_addr k))
     \<and> distinct (forder f) \<and> set (forder f) = dom (byName f) \<and> length (forder f) \<le> fakeDNSCapacity"

lemma pool_addr_inj: "offset_ok k \<Longrightarrow> offset_ok m \<Longrightarrow> pool_addr k = pool_addr m \<Longrightarrow> k = m"
proof -
  assume k: "offset_ok k" "offset_ok m" and "pool_addr k = pool_addr m"
  then have "(of_nat k :: u32) = of_nat m" by (simp add: pool_addr_def)
  then have "unat (of_nat k :: u32) = unat (of_nat m :: u32)" by simp
  then show "k = m" using k by (simp add: unat_of_nat offset_ok_def take_bit_eq_mod)
qed

lemma free_handle:
  assumes "dns_inv f" "length (forder f) < fakeDNSCapacity"
  shows "\<exists>m. offset_ok m \<and> byAddr f (pool_addr m) = None"
proof (rule ccontr)
  assume no: "\<not> ?thesis"
  have "pool_addr ` {k. offset_ok k} \<subseteq> (\<lambda>n. the (byName f n)) ` set (forder f)"
  proof
    fix x assume "x \<in> pool_addr ` {k. offset_ok k}"
    then obtain n where "byAddr f x = Some n" using no by (metis imageE mem_Collect_eq not_None_eq)
    then have "byName f n = Some x" using assms(1) by (simp add: dns_inv_def)
    moreover from this have "n \<in> set (forder f)" using assms(1) by (simp add: dns_inv_def domI)
    ultimately show "x \<in> (\<lambda>n. the (byName f n)) ` set (forder f)" by (metis image_eqI option.sel)
  qed
  then have "card (pool_addr ` {k. offset_ok k}) \<le> card ((\<lambda>n. the (byName f n)) ` set (forder f))"
    by (intro card_mono) auto
  also have "\<dots> \<le> card (set (forder f))" by (rule card_image_le) simp
  also have "\<dots> \<le> length (forder f)" by (rule card_length)
  finally have "card {k. offset_ok k} \<le> length (forder f)"
    using card_image [of pool_addr "{k. offset_ok k}"] pool_addr_inj by (simp add: inj_on_def)
  moreover have "{k. offset_ok k} = {2..<pool_n}" by (auto simp: offset_ok_def)
  ultimately show False using assms(2) by (simp add: fakeDNSCapacity_def)
qed

lemma new_inv: "dns_inv newFakeDNS"
  by (auto simp: dns_inv_def newFakeDNS_def offset_ok_def intro!: exI [of _ 2])

lemma unlink_inverse:
  assumes "\<And>m b. nm m = Some b \<longleftrightarrow> ad b = Some m" "nm n = Some a"
  shows "(nm(n := None)) m = Some b \<longleftrightarrow> (ad(a := None)) b = Some m"
  using assms(1) [of m b] assms(1) [of n a] assms(1) [of n b] assms(1) [of m a] assms(2) by auto

lemma evict_full:
  assumes "dns_inv f" "length (forder f) \<ge> fakeDNSCapacity"
  shows "\<exists>n a. byName f n = Some a \<and> evict_oldest f = f\<lparr>forder := tl (forder f), byAddr := (byAddr f)(a := None), byName := (byName f)(n := None)\<rparr>
    \<and> n = hd (forder f) \<and> forder f = n # tl (forder f)"
proof -
  obtain n ns where o: "forder f = n # ns" using assms(2) by (cases "forder f") (auto simp: fakeDNSCapacity_def)
  then have "n \<in> dom (byName f)" using assms(1) unfolding dns_inv_def by (metis list.set_intros(1))
  then obtain a where "byName f n = Some a" by blast
  then show ?thesis using assms(2) o by (simp add: evict_oldest_def Let_def)
qed

lemma evict_inv:
  assumes "dns_inv f"
  shows "dns_inv (evict_oldest f) \<and> length (forder (evict_oldest f)) < fakeDNSCapacity"
proof (cases "length (forder f) \<ge> fakeDNSCapacity")
  case False
  then show ?thesis using assms by (simp add: evict_oldest_def)
next
  case True
  obtain n a ns where e: "byName f n = Some a" "forder f = n # ns"
      "evict_oldest f = f\<lparr>forder := ns, byAddr := (byAddr f)(a := None), byName := (byName f)(n := None)\<rparr>"
    using evict_full [OF assms True] by auto
  have len: "length (forder f) = fakeDNSCapacity" using True assms by (simp add: dns_inv_def)
  have inv: "\<And>m b. byName f m = Some b \<longleftrightarrow> byAddr f b = Some m" using assms by (simp add: dns_inv_def)
  have dom: "set (forder f) = dom (byName f)" "distinct (forder f)" using assms by (simp_all add: dns_inv_def)
  have "set ns = dom ((byName f)(n := None))" using dom e(2) by auto
  moreover have "\<forall>m b. ((byName f)(n := None)) m = Some b \<longrightarrow> (\<exists>k. offset_ok k \<and> b = pool_addr k)"
    using assms unfolding dns_inv_def by (metis fun_upd_apply option.distinct(1))
  moreover have "\<forall>m b. ((byName f)(n := None)) m = Some b \<longleftrightarrow> ((byAddr f)(a := None)) b = Some m"
    using unlink_inverse [of "byName f" "byAddr f", OF inv e(1)] by blast
  ultimately have "dns_inv (evict_oldest f)"
    using assms dom(2) e(2) len unfolding dns_inv_def e(3) by (simp del: fun_upd_apply)
  then show ?thesis using len e(2,3) by (simp add: fakeDNSCapacity_def)
qed

lemma link_inverse:
  assumes "\<And>m b. nm m = Some b \<longleftrightarrow> ad b = Some m" "nm n = None" "ad a = None"
  shows "(nm(n \<mapsto> a)) m = Some b \<longleftrightarrow> (ad(a \<mapsto> n)) b = Some m"
  using assms(1) [of m b] assms(1) [of n b] assms(1) [of m a] assms(2,3) by auto

lemma scan_free:
  assumes "dns_inv f" "length (forder f) < fakeDNSCapacity"
  shows "\<exists>m m'. handle_scan (fbase f) (fsize f) (byAddr f) 0 (fnext f) = (pool_addr m, of_nat m')
    \<and> offset_ok m \<and> offset_ok m' \<and> byAddr f (pool_addr m) = None"
proof -
  obtain k where k: "offset_ok k" "fnext f = of_nat k" using assms(1) by (auto simp: dns_inv_def)
  obtain x where x: "offset_ok x" "byAddr f (pool_addr x) = None" using free_handle [OF assms] by blast
  obtain j where j: "j < pool_n - 2" "(adv ^^ j) k = x" using adv_covers [OF k(1) x(1)] by blast
  then have "\<exists>j < pool_n - 0. byAddr f (pool_addr ((adv ^^ j) k)) = None" using x(2) by (intro exI [of _ j]) simp
  from handle_scan_result [OF k(1) _ this] show ?thesis
    using assms(1) k(2) by (simp add: dns_inv_def)
qed

lemma Handle_known: "normalizeName uni name \<noteq> [] \<Longrightarrow> byName f (normalizeName uni name) = Some a \<Longrightarrow> Handle uni f name = (f, Some a)"
  by (simp add: Handle_def Let_def)

lemma Handle_new:
  assumes "dns_inv f" "normalizeName uni name \<noteq> []" "byName f (normalizeName uni name) = None"
  shows "\<exists>m m'. offset_ok m \<and> offset_ok m' \<and> byAddr (evict_oldest f) (pool_addr m) = None
    \<and> Handle uni f name = (let g = evict_oldest f; n = normalizeName uni name in
         g\<lparr>fnext := of_nat m', byName := (byName g)(n \<mapsto> pool_addr m), byAddr := (byAddr g)(pool_addr m \<mapsto> n), forder := forder g @ [n]\<rparr>,
         Some (pool_addr m))"
proof -
  obtain m m' where "handle_scan (fbase (evict_oldest f)) (fsize (evict_oldest f)) (byAddr (evict_oldest f)) 0 (fnext (evict_oldest f)) = (pool_addr m, of_nat m')"
      "offset_ok m" "offset_ok m'" "byAddr (evict_oldest f) (pool_addr m) = None"
    using scan_free evict_inv [OF assms(1)] by blast
  then show ?thesis using assms(2,3) by (intro exI [of _ m] exI [of _ m']) (simp add: Handle_def Let_def)
qed

lemma evict_names: "byName (evict_oldest f) n = None \<or> byName (evict_oldest f) n = byName f n"
  by (auto simp: evict_oldest_def Let_def)

lemma Handle_inv:
  assumes "dns_inv f"
  shows "dns_inv (fst (Handle uni f name))"
proof (cases "normalizeName uni name = [] \<or> byName f (normalizeName uni name) \<noteq> None")
  case True
  then show ?thesis using assms by (auto simp: Handle_def Let_def)
next
  case False
  let ?n = "normalizeName uni name" and ?g = "evict_oldest f"
  have g: "dns_inv ?g" "length (forder ?g) < fakeDNSCapacity" using evict_inv [OF assms] by auto
  obtain m m' where m: "offset_ok m" "offset_ok m'" "byAddr ?g (pool_addr m) = None"
      "fst (Handle uni f name) = ?g\<lparr>fnext := of_nat m', byName := (byName ?g)(?n \<mapsto> pool_addr m), byAddr := (byAddr ?g)(pool_addr m \<mapsto> ?n), forder := forder ?g @ [?n]\<rparr>"
    using Handle_new [OF assms, of uni name] False by (auto simp: Let_def)
  have n: "byName ?g ?n = None" using False evict_names [of f ?n] by auto
  have inv: "\<And>k b. byName ?g k = Some b \<longleftrightarrow> byAddr ?g b = Some k" using g(1) by (simp add: dns_inv_def)
  have dom: "set (forder ?g) = dom (byName ?g)" "distinct (forder ?g)" using g(1) by (simp_all add: dns_inv_def)
  have "\<forall>k b. ((byName ?g)(?n \<mapsto> pool_addr m)) k = Some b \<longrightarrow> (\<exists>j. offset_ok j \<and> b = pool_addr j)"
    using g(1) m(1) unfolding dns_inv_def by (metis fun_upd_apply option.inject)
  moreover have "\<forall>k b. ((byName ?g)(?n \<mapsto> pool_addr m)) k = Some b \<longleftrightarrow> ((byAddr ?g)(pool_addr m \<mapsto> ?n)) b = Some k"
    using link_inverse [of "byName ?g" "byAddr ?g", OF inv n m(3)] by blast
  moreover have "?n \<notin> set (forder ?g)" using dom(1) n by auto
  ultimately show ?thesis
    using g m(2) dom unfolding dns_inv_def m(4) by (auto simp del: fun_upd_apply simp: dom_fun_upd)
qed

abbreviation after_names :: "(bytes \<Rightarrow> bytes) \<Rightarrow> bytes list \<Rightarrow> fakeDNS" where
  "after_names uni xs \<equiv> foldl (\<lambda>f n. fst (Handle uni f n)) newFakeDNS xs"

lemma after_names_inv: "dns_inv (after_names uni xs)"
  by (induction xs rule: rev_induct) (simp_all add: new_inv Handle_inv)

definition mapped_form :: "u32 \<Rightarrow> addr" where
  "mapped_form w = V6 (push_bit 32 0xFFFF OR ucast w)"

lemma unmap_mapped: "unmapAddr (mapped_form w) = V4 w"
proof -
  have "drop_bit 32 (ucast w :: 128 word) = 0"
    by (rule bit_word_eqI) (auto simp: bit_simps dest: bit_imp_le_length)
  then have "drop_bit 32 (push_bit 32 0xFFFF OR ucast w :: 128 word) = 0xFFFF" by simp
  moreover have "(ucast (push_bit 32 c OR ucast w :: 128 word) :: u32) = w" for c
    by (rule bit_word_eqI) (auto simp: bit_simps)
  ultimately show ?thesis by (simp add: unmapAddr_def mapped_form_def Is4In6_def del: push_bit_numeral)
qed

lemma unmap_v4: "unmapAddr (V4 w) = V4 w"
  by (simp add: unmapAddr_def Is4In6_def)

lemma and_not_mask: "w AND NOT (mask k) = push_bit k (drop_bit k w)" for w :: "'a::len word"
  by (rule bit_word_eqI) (auto simp: bit_simps)

lemma and_not_mask_zero: "w AND NOT (mask k) = 0 \<longleftrightarrow> drop_bit k w = 0" for w :: "'a::len word"
proof -
  have "drop_bit k (push_bit k (drop_bit k w)) = drop_bit k w"
    by (rule bit_word_eqI) (auto simp: bit_simps dest: bit_imp_le_length)
  then show ?thesis unfolding and_not_mask by (metis drop_bit_of_0 push_bit_of_0)
qed

lemma unat_pool_addr: "offset_ok k \<Longrightarrow> unat (fakeDNSBase + of_nat k) = 0xC6120000 + k"
proof -
  assume k: "offset_ok k"
  then have "unat (of_nat k :: u32) = k" by (intro of_nat_pool) (simp add: offset_ok_def)
  then show ?thesis using k by (subst unat_plus_if') (simp add: fakeDNSBase_def offset_ok_def)
qed

lemma Holds_pool: "offset_ok k \<Longrightarrow> Holds (pool_addr k)"
proof -
  assume k: "offset_ok k"
  let ?w = "fakeDNSBase + of_nat k :: u32"
  have "unat (drop_bit 17 ?w) = (0xC6120000 + k) div 2 ^ 17"
    using unat_pool_addr [OF k] by (simp add: drop_bit_eq_div unat_div)
  also have "\<dots> = 0x6309" using k by (intro div_nat_eqI) (simp_all add: offset_ok_def)
  finally have d: "drop_bit 17 ?w = 0x6309" by (simp add: word_unat_eq_iff)
  have "(0xFFFE0000 :: u32) = NOT (mask 17)" by code_simp
  then have "?w AND 0xFFFE0000 = ?w AND NOT (mask 17)" by (simp only:)
  also have "\<dots> = push_bit 17 (drop_bit 17 ?w)" by (rule and_not_mask)
  also have "\<dots> = fakeDNSBase" unfolding d by (simp add: fakeDNSBase_def)
  finally show ?thesis by (simp add: Holds_def pool_addr_def unmap_v4)
qed

lemma Handle_some:
  assumes "dns_inv f" "Handle uni f name = (f', Some a)"
  shows "byName f' (normalizeName uni name) = Some a \<and> normalizeName uni name \<noteq> []"
proof (cases "byName f (normalizeName uni name)")
  case None
  have n: "normalizeName uni name \<noteq> []" using assms(2) by (auto simp: Handle_def Let_def split: if_splits)
  show ?thesis using Handle_new [OF assms(1) n None] assms(2) n by (auto simp: Let_def)
next
  case (Some b)
  then show ?thesis using assms(2) by (auto simp: Handle_def Let_def split: if_splits)
qed

lemma Handle_keeps:
  assumes "dns_inv f" "Handle uni f name = (f', Some a)" "n \<noteq> normalizeName uni name"
  shows "byName f' n = byName f n \<or> (length (forder f) = fakeDNSCapacity \<and> n = hd (forder f))"
proof (cases "byName f (normalizeName uni name)")
  case None
  have nz: "normalizeName uni name \<noteq> []" using assms(2) by (auto simp: Handle_def Let_def split: if_splits)
  have "byName f' n = byName (evict_oldest f) n"
    using Handle_new [OF assms(1) nz None] assms(2,3) by (auto simp: Let_def)
  moreover have "length (forder f) \<le> fakeDNSCapacity" using assms(1) by (simp add: dns_inv_def)
  ultimately show ?thesis by (auto simp: evict_oldest_def Let_def)
next
  case (Some b)
  then show ?thesis using assms(2) by (auto simp: Handle_def Let_def split: if_splits)
qed

lemma handle_entry:
  assumes "Handle uni (after_names uni xs) name = (f', Some a)"
  shows "dns_inv f'" "byName f' (normalizeName uni name) = Some a" "normalizeName uni name \<noteq> []"
    "byAddr f' a = Some (normalizeName uni name)" "\<exists>k. offset_ok k \<and> a = pool_addr k"
proof -
  show inv: "dns_inv f'" using Handle_inv [OF after_names_inv, of uni uni xs name] assms by simp
  show a: "byName f' (normalizeName uni name) = Some a" "normalizeName uni name \<noteq> []"
    using Handle_some [OF after_names_inv assms] by auto
  show "byAddr f' a = Some (normalizeName uni name)" using inv a(1) by (simp add: dns_inv_def)
  show "\<exists>k. offset_ok k \<and> a = pool_addr k" using inv a(1) unfolding dns_inv_def by blast
qed

lemma handle_facts:
  assumes "Handle uni (after_names uni xs) name = (f', Some a)"
  shows "Holds a" "fake_Name f' a = Some (normalizeName uni name)"
proof -
  obtain k where k: "offset_ok k" "a = pool_addr k" using handle_entry(5) [OF assms] by blast
  show "Holds a" using Holds_pool [OF k(1)] k(2) by simp
  show "fake_Name f' a = Some (normalizeName uni name)"
    using handle_entry(4) [OF assms] k(2) by (simp add: fake_Name_def pool_addr_def unmap_v4)
qed

text \<open>
  C31 (functional). A handle stands for its name. After any sequence of lookups a name that is not empty
  gets an address of the reserved range, above the first two; looking that address up, also in the form
  mapped into IPv6, gives the normalised name; asking again gives the same address and changes
  nothing; no other name has it. At most 8192 names are held, and the only name that can lose its
  handle is the oldest when the table is full.
\<close>

theorem handles_stand_for_names:
  assumes "Handle uni (after_names uni xs) name = (f', Some a)"
  shows "(\<exists>w. a = V4 w \<and> fakeDNSBase + 2 \<le> w \<and> fake_Name f' (mapped_form w) = Some (normalizeName uni name))
    \<and> Holds a \<and> fake_Name f' a = Some (normalizeName uni name)
    \<and> Handle uni f' name = (f', Some a)
    \<and> (\<forall>n. byName f' n = Some a \<longrightarrow> n = normalizeName uni name)
    \<and> card (dom (byName f')) \<le> 8192
    \<and> (\<forall>n. n \<noteq> normalizeName uni name \<longrightarrow> byName f' n = byName (after_names uni xs) n
         \<or> card (dom (byName (after_names uni xs))) = 8192 \<and> n = hd (forder (after_names uni xs)))"
proof -
  let ?f = "after_names uni xs" and ?n = "normalizeName uni name"
  have inv: "dns_inv ?f" "dns_inv f'" using after_names_inv handle_entry(1) [OF assms] by simp_all
  have card: "card (dom (byName g)) = length (forder g)" if "dns_inv g" for g
    using that distinct_card [of "forder g"] by (simp add: dns_inv_def)
  note a = handle_entry(2,3) [OF assms] and ad = handle_entry(4) [OF assms]
  obtain k where k: "offset_ok k" "a = pool_addr k" using handle_entry(5) [OF assms] by blast
  have "fakeDNSBase + 2 \<le> fakeDNSBase + of_nat k"
    using unat_pool_addr [OF k(1)] k(1) by (simp add: word_le_nat_alt offset_ok_def) (simp add: fakeDNSBase_def)
  moreover have "\<forall>n. byName f' n = Some a \<longrightarrow> n = ?n" using inv(2) ad by (simp add: dns_inv_def)
  moreover have "card (dom (byName f')) \<le> 8192" using card [OF inv(2)] inv(2) by (simp add: dns_inv_def fakeDNSCapacity_def)
  moreover have "\<forall>n. n \<noteq> ?n \<longrightarrow> byName f' n = byName ?f n \<or> card (dom (byName ?f)) = 8192 \<and> n = hd (forder ?f)"
    using Handle_keeps [OF inv(1) assms] card [OF inv(1)] by (simp add: fakeDNSCapacity_def)
  moreover have "\<exists>w. a = V4 w \<and> w = fakeDNSBase + of_nat k \<and> fake_Name f' (mapped_form w) = Some ?n"
    using ad k(2) by (simp add: fake_Name_def pool_addr_def unmap_mapped)
  moreover note handle_facts [OF assms]
  moreover have "Handle uni f' name = (f', Some a)" by (rule Handle_known [OF a(2,1)])
  ultimately show ?thesis by blast
qed

lemma handles_stand_for_names_witness:
  "\<exists>f' a. Handle id (after_names id [[97]]) [66, 46] = (f', Some a) \<and> Holds a \<and> fake_Name f' a = Some [98]"
proof -
  let ?f = "after_names id [[97]]"
  have n: "normalizeName id [66, 46] = [98]" "normalizeName id [97] = [97]" by code_simp+
  have "byName ?f [98] = None"
    using Handle_new [OF new_inv, of id "[97]"] n(2) by (auto simp: Let_def newFakeDNS_def evict_oldest_def fakeDNSCapacity_def)
  then obtain f' a where h: "Handle id ?f [66, 46] = (f', Some a)"
    using Handle_new [OF after_names_inv, of id "[66, 46]" id "[[97]]"] n(1) by (auto simp: Let_def)
  from handles_stand_for_names [OF h] show ?thesis using h n(1) by auto
qed

section \<open>The wire form of a question\<close>

text \<open>
  A query: identifier, flags, one question, three further counts, the labels with their lengths, the
  type and the class.
\<close>

definition enc_labels :: "bytes list \<Rightarrow> bytes" where
  "enc_labels ls = concat (map (\<lambda>l. of_nat (length l) # l) ls) @ [0]"

definition dns_query :: "u16 \<Rightarrow> u16 \<Rightarrow> bytes \<Rightarrow> bytes list \<Rightarrow> u16 \<Rightarrow> u16 \<Rightarrow> bytes" where
  "dns_query ident flags counts ls t c = be_put 2 ident @ be_put 2 flags @ be_put 2 (1 :: u16) @ counts @ enc_labels ls @ be_put 2 t @ be_put 2 c"

definition valid_labels :: "bytes list \<Rightarrow> bool" where
  "valid_labels ls \<longleftrightarrow> (\<forall>l\<in>set ls. 1 \<le> length l \<and> length l \<le> 63)"

lemma enc_labels_Cons: "enc_labels (l # ls) = of_nat (length l) # l @ enc_labels ls"
  by (simp add: enc_labels_def)

lemma label_length_bits:
  fixes w :: u8
  shows "w AND 0xC0 = 0 \<longleftrightarrow> unat w \<le> 63"
proof -
  have "(0xC0 :: u8) = NOT (mask 6)" by code_simp
  then have "w AND 0xC0 = 0 \<longleftrightarrow> drop_bit 6 w = 0" by (simp only: and_not_mask_zero)
  also have "\<dots> \<longleftrightarrow> unat w div 64 = 0" by (simp add: drop_bit_eq_div word_unat_eq_iff unat_div)
  finally show ?thesis by (simp add: div_eq_0_iff less_Suc_eq_le [symmetric])
qed

lemma labels_loop_enc:
  assumes "valid_labels ls"
  shows "labels_loop (pre @ enc_labels ls @ post) (length pre) acc = Some (acc @ ls, length pre + length (enc_labels ls))"
  using assms
proof (induction ls arbitrary: pre acc)
  case Nil
  then show ?case by (subst labels_loop.simps) (simp add: enc_labels_def nth_append)
next
  case (Cons l ls)
  have l: "1 \<le> length l" "length l \<le> 63" "valid_labels ls" using Cons.prems by (auto simp: valid_labels_def)
  let ?m = "pre @ enc_labels (l # ls) @ post"
  have m: "?m = (pre @ of_nat (length l) # l) @ enc_labels ls @ post" by (simp add: enc_labels_Cons)
  have n: "unat (?m ! length pre) = length l" "?m ! length pre AND 0xC0 = 0"
    using l by (simp_all add: enc_labels_Cons nth_append unat_of_nat take_bit_eq_mod label_length_bits)
  have sl: "go_slice (length pre + 1) (length pre + 1 + length l) ?m = l"
    by (simp add: go_slice_def enc_labels_Cons)
  have "labels_loop ?m (length pre) acc = labels_loop ?m (length pre + 1 + length l) (acc @ [l])"
    using n sl l(1) by (subst labels_loop.simps) (auto simp: enc_labels_Cons Let_def)
  also have "\<dots> = Some ((acc @ [l]) @ ls, length (pre @ of_nat (length l) # l) + length (enc_labels ls))"
    using Cons.IH [OF l(3), of "pre @ of_nat (length l) # l" "acc @ [l]"] unfolding m by simp
  finally show ?case by (simp add: enc_labels_Cons)
qed

lemma labels_loop_sound:
  assumes "labels_loop m off acc = Some (acc', off')"
  shows "\<exists>ls. acc' = acc @ ls \<and> valid_labels ls \<and> off < off' \<and> off' \<le> length m \<and> go_slice off off' m = enc_labels ls"
  using assms
proof (induction m off acc rule: labels_loop.induct)
  case (1 m off acc)
  show ?case
  proof (cases "off \<ge> length m \<or> unat (m ! off) = 0 \<or> m ! off AND 0xC0 \<noteq> 0 \<or> off + 1 + unat (m ! off) > length m")
    case True
    then have "acc' = acc \<and> off' = off + 1 \<and> off < length m \<and> m ! off = 0"
      using "1.prems" by (subst (asm) labels_loop.simps) (auto simp: Let_def unat_eq_0 split: if_splits)
    then show ?thesis
      by (auto simp: valid_labels_def enc_labels_def go_slice_def take_Suc_conv_app_nth Cons_nth_drop_Suc [symmetric] intro!: exI [of _ "[]"])
  next
    case False
    let ?n = "unat (m ! off)" and ?l = "go_slice (off + 1) (off + 1 + unat (m ! off)) m"
    have "labels_loop m (off + 1 + ?n) (acc @ [?l]) = Some (acc', off')"
      using "1.prems" False by (subst (asm) labels_loop.simps) (simp add: Let_def)
    then obtain ls where ls: "acc' = (acc @ [?l]) @ ls" "valid_labels ls" "off + 1 + ?n < off'" "off' \<le> length m"
        "go_slice (off + 1 + ?n) off' m = enc_labels ls"
      using "1.IH" False by (auto simp: not_le)
    have len: "length ?l = ?n" using False by (auto simp: min_def)
    have "go_slice off off' m = go_slice off (off + 1) m @ ?l @ go_slice (off + 1 + ?n) off' m"
      using ls(3) by (simp add: go_slice_append)
    also have "go_slice off (off + 1) m = [m ! off]" using False by (simp add: go_slice_def take_Suc_conv_app_nth Cons_nth_drop_Suc [symmetric])
    finally have "go_slice off off' m = enc_labels (?l # ls)" using ls(5) len by (simp add: enc_labels_Cons)
    moreover have "valid_labels (?l # ls)" using ls(2) len False label_length_bits [of "m ! off"] by (auto simp: valid_labels_def)
    ultimately show ?thesis using ls(1,3,4) by (intro exI [of _ "?l # ls"]) simp
  qed
qed

lemma query_header:
  assumes "length counts = 6"
  shows "length (dns_query ident flags counts ls t c) = 16 + length (enc_labels ls)"
    "get16 (dns_query ident flags counts ls t c @ post) 2 = flags" "get16 (dns_query ident flags counts ls t c @ post) 4 = 1"
  using assms by (simp_all add: dns_query_def get16_def go_slice_def)

lemma get16_at: "length pre = i \<Longrightarrow> get16 (pre @ be_put 2 w @ post) i = w"
  by (simp add: get16_def go_slice_def)

lemma parse_query:
  assumes "length counts = 6" "flags AND 0x8000 = 0" "valid_labels ls" "length (join_dots ls) \<le> 255"
  shows "parseDNSQuestion uni (dns_query ident flags counts ls t c @ post) =
    Some \<lparr>qname = normalizeName uni (join_dots ls), qtype = t, qclass = c, queryEnd = length (dns_query ident flags counts ls t c)\<rparr>"
proof -
  let ?pre = "be_put 2 ident @ be_put 2 flags @ be_put 2 (1 :: u16) @ counts"
  let ?m = "dns_query ident flags counts ls t c @ post"
  have pre: "length ?pre = 12" using assms(1) by simp
  have m: "?m = ?pre @ enc_labels ls @ be_put 2 t @ be_put 2 c @ post" by (simp add: dns_query_def)
  have loop: "labels_loop ?m dnsHeaderLen [] = Some (ls, 12 + length (enc_labels ls))"
    using labels_loop_enc [OF assms(3), of ?pre "be_put 2 t @ be_put 2 c @ post" "[]"] pre unfolding m by (simp add: dnsHeaderLen_def)
  have "get16 ?m (12 + length (enc_labels ls)) = t" "get16 ?m (12 + length (enc_labels ls) + 2) = c"
    using get16_at [of "?pre @ enc_labels ls" _ t "be_put 2 c @ post"] get16_at [of "?pre @ enc_labels ls @ be_put 2 t" _ c post] pre
    unfolding m by simp_all
  then show ?thesis
    using loop query_header [OF assms(1)] assms(2,4)
    by (simp add: parseDNSQuestion_def dnsHeaderLen_def dnsMaxName_def)
qed

lemma parse_is_query:
  assumes "parseDNSQuestion uni m = Some q"
  shows "\<exists>ident flags counts ls t c post. m = dns_query ident flags counts ls t c @ post \<and> length counts = 6
    \<and> flags AND 0x8000 = 0 \<and> valid_labels ls \<and> length (join_dots ls) \<le> 255"
proof -
  have h: "12 \<le> length m" "get16 m 2 AND 0x8000 = 0" "get16 m 4 = 1"
    using assms by (auto simp: parseDNSQuestion_def dnsHeaderLen_def split: if_splits)
  obtain ls off where l: "labels_loop m 12 [] = Some (ls, off)" "off + 4 \<le> length m" "length (join_dots ls) \<le> 255"
    using assms by (auto simp: parseDNSQuestion_def dnsHeaderLen_def dnsMaxName_def split: if_splits option.splits)
  have s: "valid_labels ls" "12 < off" "go_slice 12 off m = enc_labels ls" using labels_loop_sound [OF l(1)] by auto
  have p: "be_put 2 (get16 m i) = go_slice i j m" if "j = i + 2" "j \<le> length m" for i j
    using that by (simp add: get16_def be_put_get_16)
  have "m = take off m @ go_slice off (off + 2) m @ go_slice (off + 2) (off + 4) m @ drop (off + 4) m"
    by (simp add: go_slice_append take_append_go_slice flip: append_assoc)
  also have "take off m = go_slice 0 2 m @ go_slice 2 4 m @ go_slice 4 6 m @ go_slice 6 12 m @ go_slice 12 off m"
    using s(2) by (simp add: go_slice_append go_slice_zero take_append_go_slice)
  finally have "m = dns_query (get16 m 0) (get16 m 2) (go_slice 6 12 m) ls (get16 m off) (get16 m (off + 2)) @ drop (off + 4) m"
    using h l(2) p [of 2 0] p [of 4 2] p [of 6 4] p [of "off + 2" off] p [of "off + 4" "off + 2"] s(3) by (simp add: dns_query_def)
  then show ?thesis using h s(1) l(3) by (intro exI conjI) auto
qed

text \<open>
  The parser accepts exactly the queries: a header without the response bit and with one
  question, labels of 1 to 63 bytes that make a name of at most 255, a type and a class, and any bytes
  after them. It returns the normalised name, the type and the class that the question spells, and the
  end of the question, which is inside the message.
\<close>

theorem dns_question_exact:
  "parseDNSQuestion uni m = Some q \<longleftrightarrow>
    (\<exists>ident flags counts ls t c post. m = dns_query ident flags counts ls t c @ post \<and> length counts = 6
      \<and> flags AND 0x8000 = 0 \<and> valid_labels ls \<and> length (join_dots ls) \<le> 255
      \<and> q = \<lparr>qname = normalizeName uni (join_dots ls), qtype = t, qclass = c, queryEnd = length (dns_query ident flags counts ls t c)\<rparr>)"
  using parse_is_query [of uni m q] parse_query [of _ _ _ uni] by (metis option.inject)

section \<open>Answers\<close>

lemma put16_at: "length pre = i \<Longrightarrow> length old = 2 \<Longrightarrow> put16 (pre @ old @ post) i w = pre @ be_put 2 w @ post"
  by (simp add: put16_def)

definition dns_reply :: "u16 \<Rightarrow> bool \<Rightarrow> u16 \<Rightarrow> bytes \<Rightarrow> bytes" where
  "dns_reply ident wanted answers question =
     be_put 2 ident @ [if wanted then 0x81 else 0x80, 0x80] @ [0, 1] @ be_put 2 answers @ [0, 0, 0, 0] @ question"

lemma header_constants:
  "be_put 2 (0x8180 :: u16) = [0x81, 0x80]" "be_put 2 (0x8080 :: u16) = [0x80, 0x80]" "be_put 2 (1 :: u16) = [0, 1]" "be_put 2 (0 :: u16) = [0, 0]"
  by code_simp+

lemma answer_header_eq:
  assumes "length counts = 6"
    and "query = dns_query ident flags counts ls t c @ post" "queryEnd q = length (dns_query ident flags counts ls t c)"
  shows "answer_header query q answers = dns_reply ident (flags AND 0x0100 \<noteq> 0) answers (enc_labels ls @ be_put 2 t @ be_put 2 c)"
proof -
  obtain x y z where cs: "counts = x @ y @ z" "length x = 2" "length y = 2" "length z = 2"
  proof (rule that [of "take 2 counts" "take 2 (drop 2 counts)" "drop 4 counts"])
    have "take 2 (drop 2 counts) @ drop 4 counts = drop 2 counts" using append_take_drop_id [of 2 "drop 2 counts"] by simp
    then show "counts = take 2 counts @ take 2 (drop 2 counts) @ drop 4 counts" by (metis append_take_drop_id)
  qed (use assms(1) in simp_all)
  let ?i = "be_put 2 ident" and ?o = "be_put 2 (1 :: u16)" and ?q = "enc_labels ls @ be_put 2 t @ be_put 2 c"
  let ?fl = "be_put 2 (answer_flags query)" and ?z = "be_put 2 (0 :: u16)"
  have p1: "take (queryEnd q) query = ?i @ be_put 2 flags @ ?o @ x @ y @ z @ ?q"
    using assms cs(1) by (simp add: dns_query_def)
  have p2: "put16 (?i @ be_put 2 flags @ ?o @ x @ y @ z @ ?q) 2 (answer_flags query) = ?i @ ?fl @ ?o @ x @ y @ z @ ?q"
    by (rule put16_at) simp_all
  have p3: "put16 (?i @ ?fl @ ?o @ x @ y @ z @ ?q) 6 answers = ?i @ ?fl @ ?o @ be_put 2 answers @ y @ z @ ?q"
    using put16_at [of "?i @ ?fl @ ?o" 6 x "y @ z @ ?q" answers] cs by simp
  have p4: "put16 (?i @ ?fl @ ?o @ be_put 2 answers @ y @ z @ ?q) 8 0 = ?i @ ?fl @ ?o @ be_put 2 answers @ ?z @ z @ ?q"
    using put16_at [of "?i @ ?fl @ ?o @ be_put 2 answers" 8 y "z @ ?q" 0] cs by simp
  have p5: "put16 (?i @ ?fl @ ?o @ be_put 2 answers @ ?z @ z @ ?q) 10 0 = ?i @ ?fl @ ?o @ be_put 2 answers @ ?z @ ?z @ ?q"
    using put16_at [of "?i @ ?fl @ ?o @ be_put 2 answers @ ?z" 10 z ?q 0] cs by simp
  have f: "answer_flags query = (if flags AND 0x0100 \<noteq> 0 then 0x8180 else 0x8080)"
    using query_header(2) [OF assms(1)] assms(2) by (simp add: answer_flags_def)
  show ?thesis unfolding answer_header_def p1 p2 p3 p4 p5 by (simp add: f header_constants dns_reply_def)
qed

lemma answer_constants:
  "be_put 2 dnsTypeA = [0, 1]" "be_put 2 dnsClassIN = [0, 1]" "be_put 4 fakeDNSTTL = [0, 0, 0, 1]" "be_put 2 (4 :: u16) = [0, 4]"
  by code_simp+

lemma reply_not_query: "parseDNSQuestion uni (dns_reply ident wanted answers question @ post) = None"
proof -
  have "go_slice 2 4 (dns_reply ident wanted answers question @ post) = [if wanted then 0x81 else 0x80, 0x80]"
    by (simp add: dns_reply_def go_slice_def numeral_eq_Suc)
  then have "get16 (dns_reply ident wanted answers question @ post) 2 AND 0x8000 \<noteq> 0"
    by (simp add: get16_def be_get_def)
  then show ?thesis by (simp add: parseDNSQuestion_def)
qed

text \<open>
  An answer to an accepted query keeps its identifier and repeats its question byte for
  byte; it is a response, asks for recursion when the query did, has no authority or additional
  records, whatever followed the question in the query, and carries one address record with the handle
  or none. It is not itself taken for a query.
\<close>

theorem dns_answer_exact:
  assumes "parseDNSQuestion uni query = Some q"
  shows "\<exists>ident wanted question post. query = be_put 2 ident @ go_slice 2 12 query @ question @ post
    \<and> queryEnd q = 12 + length question \<and> wanted = (get16 query 2 AND 0x0100 \<noteq> 0)
    \<and> answerEmpty query q = dns_reply ident wanted 0 question
    \<and> answerWithAddress query q a = dns_reply ident wanted 1 question @ [0xC0, 12, 0, 1, 0, 1, 0, 0, 0, 1, 0, 4] @ be_put 4 a
    \<and> parseDNSQuestion uni (answerEmpty query q) = None \<and> parseDNSQuestion uni (answerWithAddress query q a) = None"
proof -
  obtain ident flags counts ls t c post where m: "query = dns_query ident flags counts ls t c @ post" "length counts = 6"
      "flags AND 0x8000 = 0" "valid_labels ls" "length (join_dots ls) \<le> 255"
    using parse_is_query [OF assms] by blast
  then have e: "queryEnd q = length (dns_query ident flags counts ls t c)" using parse_query assms by (metis dnsQuestion.select_convs(4) option.inject)
  let ?q = "enc_labels ls @ be_put 2 t @ be_put 2 c" and ?w = "flags AND 0x0100 \<noteq> 0"
  have h: "answer_header query q n = dns_reply ident ?w n ?q" for n by (rule answer_header_eq [OF m(2,1) e])
  have w: "?w = (get16 query 2 AND 0x0100 \<noteq> 0)" using query_header(2) [OF m(2)] m(1) by simp
  have "query = be_put 2 ident @ go_slice 2 12 query @ ?q @ post" "queryEnd q = 12 + length ?q"
    using m(1,2) e by (simp_all add: dns_query_def go_slice_def)
  moreover have "answerWithAddress query q a = dns_reply ident ?w 1 ?q @ [0xC0, 12, 0, 1, 0, 1, 0, 0, 0, 1, 0, 4] @ be_put 4 a"
    by (simp add: answerWithAddress_def h dnsHeaderLen_def answer_constants)
  moreover have "answerEmpty query q = dns_reply ident ?w 0 ?q" by (simp add: answerEmpty_def h)
  ultimately show ?thesis using w reply_not_query [of uni ident ?w _ ?q] reply_not_query [of uni ident ?w 0 ?q "[]"]
    by (intro exI [of _ ident] exI [of _ ?w] exI [of _ ?q] exI [of _ post]) simp
qed

definition demo_query :: bytes where
  "demo_query = dns_query 7 0x0100 [0, 0, 0, 0, 0, 1] [[87, 119], [97]] dnsTypeA dnsClassIN @ [9, 9]"

lemma demo_parsed:
  "parseDNSQuestion id demo_query = Some \<lparr>qname = [119, 119, 46, 97], qtype = 1, qclass = 1, queryEnd = 22\<rparr>"
  by code_simp

lemma dns_answer_exact_witness:
  "parseDNSQuestion id (answerEmpty demo_query \<lparr>qname = [119, 119, 46, 97], qtype = 1, qclass = 1, queryEnd = 22\<rparr>) = None"
  using dns_answer_exact [OF demo_parsed, of 0] by blast

end
