(* ===== verification/Routing.thy ===== *)
theory Routing
  imports FakeDns "HOL-Library.Sublist"
begin

text \<open>
  What a flow of the mobile core does: the rule list (\<^verbatim>\<open>internal/routerule/routerule.go\<close>), the packed country
  set with its binary search (\<^verbatim>\<open>internal/routerule/geoip.go\<close>) and the router that joins them with the name
  handles (\<^verbatim>\<open>mobile/core/routing.go\<close>). \<^verbatim>\<open>netip.Prefix\<close>, \<^verbatim>\<open>sort.Search\<close> and \<^verbatim>\<open>bytes.Compare\<close> are modelled as the
  standard library has them. Upper-casing and folding of text that is not ASCII are the parameters
  \<^verbatim>\<open>upper\<close> and \<^verbatim>\<open>folds\<close>, like \<^verbatim>\<open>uni\<close> for lower-casing. An address option is \<^verbatim>\<open>None\<close> for the invalid address.
\<close>

section \<open>Blocks of addresses\<close>

record Prefix =
  pfx_ip :: "addr option"
  pfx_bits :: "nat option"

definition no_prefix :: Prefix where "no_prefix = \<lparr>pfx_ip = None, pfx_bits = None\<rparr>"

definition BitLen :: "addr \<Rightarrow> nat" where
  "BitLen a = (case a of V4 _ \<Rightarrow> 32 | V6 _ \<Rightarrow> 128)"

definition PrefixFrom :: "addr \<Rightarrow> nat \<Rightarrow> Prefix" where
  "PrefixFrom ip bits = \<lparr>pfx_ip = Some ip, pfx_bits = (if bits \<le> BitLen ip then Some bits else None)\<rparr>"

definition prefix_IsValid :: "Prefix \<Rightarrow> bool" where
  "prefix_IsValid p \<longleftrightarrow> pfx_bits p \<noteq> None"

definition prefix_Contains :: "Prefix \<Rightarrow> addr \<Rightarrow> bool" where
  "prefix_Contains p ip =
     (case pfx_bits p of
        None \<Rightarrow> False
      | Some b \<Rightarrow>
          (case (pfx_ip p, ip) of
             (Some (V4 n), V4 a) \<Rightarrow> drop_bit (32 - b) (a XOR n) = 0
           | (Some (V6 n), V6 a) \<Rightarrow> (a XOR n) AND NOT (mask (128 - b)) = 0
           | _ \<Rightarrow> False))"

definition AddrFromSlice :: "bytes \<Rightarrow> addr option" where
  "AddrFromSlice bs =
     (if length bs = 4 then Some (V4 (be_get bs)) else if length bs = 16 then Some (V6 (be_get bs)) else None)"

section \<open>The packed country set\<close>

fun bytes_Compare :: "bytes \<Rightarrow> bytes \<Rightarrow> int" where
  "bytes_Compare [] [] = 0"
| "bytes_Compare [] (_ # _) = - 1"
| "bytes_Compare (_ # _) [] = 1"
| "bytes_Compare (x # xs) (y # ys) = (if x < y then - 1 else if y < x then 1 else bytes_Compare xs ys)"

function search_loop :: "(nat \<Rightarrow> bool) \<Rightarrow> nat \<Rightarrow> nat \<Rightarrow> nat" where
  "search_loop f i j =
     (if i < j then (let h = (i + j) div 2 in if \<not> f h then search_loop f (h + 1) j else search_loop f i h) else i)"
  by pat_completeness auto
termination
  by (relation "measure (\<lambda>(f, i, j). j - i)") auto

declare search_loop.simps [simp del]

definition sort_Search :: "nat \<Rightarrow> (nat \<Rightarrow> bool) \<Rightarrow> nat" where
  "sort_Search n f = search_loop f 0 n"

record Packed =
  pcode :: bytes
  pv4 :: bytes
  pv6 :: bytes

definition packedHeaderSize :: nat where "packedHeaderSize = 16"
definition packedV4Entry :: nat where "packedV4Entry = 5"
definition packedV6Entry :: nat where "packedV6Entry = 17"
definition packedVersion :: u8 where "packedVersion = 1"
definition packedMagic :: bytes where "packedMagic = [0x51, 0x51, 0x47, 0x4F]"

datatype packed_error = TooShort | NotAHeader | WrongVersion u8 | WrongSize int int | NotAscending bool nat

definition upper_byte :: "u8 \<Rightarrow> u8" where
  "upper_byte b = (if 97 \<le> b \<and> b \<le> 122 then b - 32 else b)"

definition ToUpper :: "(bytes \<Rightarrow> bytes) \<Rightarrow> bytes \<Rightarrow> bytes" where
  "ToUpper upper s = (if is_ascii s then map upper_byte s else upper s)"

definition EqualFold :: "(bytes \<Rightarrow> bytes \<Rightarrow> bool) \<Rightarrow> bytes \<Rightarrow> bytes \<Rightarrow> bool" where
  "EqualFold folds s t = (if is_ascii s \<and> is_ascii t then map lower_byte s = map lower_byte t else folds s t)"

text \<open>The address bytes of an entry, and the first position that is not above the one before it.\<close>

definition entry_net :: "bytes \<Rightarrow> nat \<Rightarrow> nat \<Rightarrow> bytes" where
  "entry_net body width i = go_slice (i * width) (i * width + (width - 1)) body"

fun first_descent :: "bytes \<Rightarrow> nat \<Rightarrow> nat list \<Rightarrow> nat option" where
  "first_descent body width [] = None"
| "first_descent body width (i # is) =
     (if bytes_Compare (entry_net body width (i - 1)) (entry_net body width i) \<ge> 0 then Some i else first_descent body width is)"

definition verifySorted :: "Packed \<Rightarrow> packed_error option" where
  "verifySorted p =
     (case first_descent (pv4 p) packedV4Entry [1..<length (pv4 p) div packedV4Entry] of
        Some i \<Rightarrow> Some (NotAscending True i)
      | None \<Rightarrow>
          (case first_descent (pv6 p) packedV6Entry [1..<length (pv6 p) div packedV6Entry] of
             Some i \<Rightarrow> Some (NotAscending False i)
           | None \<Rightarrow> None))"

definition LoadPacked :: "(bytes \<Rightarrow> bytes) \<Rightarrow> bytes \<Rightarrow> bytes \<Rightarrow> packed_error + Packed" where
  "LoadPacked upper code blob =
     (if length blob < packedHeaderSize then Inl TooShort
      else if take 4 blob \<noteq> packedMagic then Inl NotAHeader
      else if blob ! 4 \<noteq> packedVersion then Inl (WrongVersion (blob ! 4))
      else
        (let v4Count = unat (be_get (go_slice 8 12 blob) :: u32);
             v6Count = unat (be_get (go_slice 12 16 blob) :: u32);
             expected = packedHeaderSize + v4Count * packedV4Entry + v6Count * packedV6Entry;
             v4End = packedHeaderSize + v4Count * packedV4Entry;
             packed = \<lparr>pcode = ToUpper upper code, pv4 = go_slice packedHeaderSize v4End blob, pv6 = drop v4End blob\<rparr> in
         if length blob \<noteq> expected then Inl (WrongSize (int expected) (int (length blob)))
         else case verifySorted packed of Some e \<Rightarrow> Inl e | None \<Rightarrow> Inr packed))"

text \<open>The end of \<^verbatim>\<open>search\<close>: the candidate entry, as a prefix, against the key.\<close>

definition entry_covers :: "nat \<Rightarrow> bytes \<Rightarrow> bytes \<Rightarrow> bool" where
  "entry_covers width entry key =
     (case AddrFromSlice (take (width - 1) entry) of
        None \<Rightarrow> False
      | Some network \<Rightarrow>
          (let prefix = PrefixFrom network (unat (entry ! (width - 1))) in
           if \<not> prefix_IsValid prefix then False
           else case AddrFromSlice key of None \<Rightarrow> False | Some target \<Rightarrow> prefix_Contains prefix target))"

definition search :: "bytes \<Rightarrow> nat \<Rightarrow> bytes \<Rightarrow> bool" where
  "search body width key =
     (let count = length body div width in
      if count = 0 then False
      else
        (let above = sort_Search count (\<lambda>i. bytes_Compare (entry_net body width i) key > 0) in
         if above = 0 then False
         else entry_covers width (go_slice ((above - 1) * width) (above * width) body) key))"

definition packed_Contains :: "(bytes \<Rightarrow> bytes \<Rightarrow> bool) \<Rightarrow> Packed option \<Rightarrow> bytes \<Rightarrow> addr option \<Rightarrow> bool" where
  "packed_Contains folds p code a =
     (case (p, a) of
        (Some q, Some ad) \<Rightarrow>
          (if \<not> EqualFold folds code (pcode q) then False
           else case unmapAddr ad of
               V4 w \<Rightarrow> search (pv4 q) packedV4Entry (be_put 4 w)
             | V6 w \<Rightarrow> search (pv6 q) packedV6Entry (be_put 16 w))
      | _ \<Rightarrow> False)"

definition Blocks :: "Packed option \<Rightarrow> nat" where
  "Blocks p = (case p of None \<Rightarrow> 0 | Some q \<Rightarrow> length (pv4 q) div packedV4Entry + length (pv6 q) div packedV6Entry)"

section \<open>The rule list\<close>

datatype Action = Proxy | Direct | Reject

datatype Kind = KindDomain | KindDomainSuffix | KindDomainKeyword | KindIPCIDR | KindGeoIP | KindDstPort | KindFinal

record Rule =
  rKind :: Kind
  rAction :: Action
  rDomain :: bytes
  rPrefix :: Prefix
  rCountry :: bytes
  rPort :: u16
  rNoResolve :: bool

definition zero_rule :: Rule where
  "zero_rule = \<lparr>rKind = KindDomain, rAction = Proxy, rDomain = [], rPrefix = no_prefix, rCountry = [], rPort = 0, rNoResolve = False\<rparr>"

record Flow =
  fDomain :: bytes
  fAddr :: "addr option"
  fPort :: u16

record RuleSet =
  rules :: "Rule list"
  countries :: "(bytes \<Rightarrow> addr \<Rightarrow> bool) option"

definition HasSuffix :: "bytes \<Rightarrow> bytes \<Rightarrow> bool" where
  "HasSuffix s t \<longleftrightarrow> length t \<le> length s \<and> drop (length s - length t) s = t"

fun str_Contains :: "bytes \<Rightarrow> bytes \<Rightarrow> bool" where
  "str_Contains [] t \<longleftrightarrow> t = []"
| "str_Contains (c # s) t \<longleftrightarrow> take (length t) (c # s) = t \<or> str_Contains s t"

definition normalizeDomain :: "(bytes \<Rightarrow> bytes) \<Rightarrow> bytes \<Rightarrow> bytes" where
  "normalizeDomain uni name = trim_dot (ToLower uni (TrimSpace name))"

definition rule_matches :: "RuleSet \<Rightarrow> Rule \<Rightarrow> bytes \<Rightarrow> Flow \<Rightarrow> bool" where
  "rule_matches s rule domain flow =
     (case rKind rule of
        KindFinal \<Rightarrow> True
      | KindDomain \<Rightarrow> domain \<noteq> [] \<and> domain = rDomain rule
      | KindDomainSuffix \<Rightarrow>
          (if domain = [] then False else domain = rDomain rule \<or> HasSuffix domain (46 # rDomain rule))
      | KindDomainKeyword \<Rightarrow> domain \<noteq> [] \<and> str_Contains domain (rDomain rule)
      | KindIPCIDR \<Rightarrow>
          (case fAddr flow of None \<Rightarrow> False | Some a \<Rightarrow> prefix_IsValid (rPrefix rule) \<and> prefix_Contains (rPrefix rule) (unmapAddr a))
      | KindGeoIP \<Rightarrow>
          (case fAddr flow of None \<Rightarrow> False
           | Some a \<Rightarrow> (case countries s of None \<Rightarrow> False | Some c \<Rightarrow> c (rCountry rule) (unmapAddr a)))
      | KindDstPort \<Rightarrow> fPort flow \<noteq> 0 \<and> fPort flow = rPort rule)"

fun match_loop :: "RuleSet \<Rightarrow> bytes \<Rightarrow> Flow \<Rightarrow> Rule list \<Rightarrow> Action \<times> Rule \<times> bool" where
  "match_loop s domain flow [] = (Proxy, zero_rule, False)"
| "match_loop s domain flow (r # rs) =
     (if \<not> rule_matches s r domain flow then match_loop s domain flow rs else (rAction r, r, True))"

definition Match :: "(bytes \<Rightarrow> bytes) \<Rightarrow> RuleSet option \<Rightarrow> Flow \<Rightarrow> Action \<times> Rule \<times> bool" where
  "Match uni s flow =
     (case s of None \<Rightarrow> (Proxy, zero_rule, False)
      | Some q \<Rightarrow> match_loop q (normalizeDomain uni (fDomain flow)) flow (rules q))"

definition ruleset_Len :: "RuleSet option \<Rightarrow> nat" where
  "ruleset_Len s = (case s of None \<Rightarrow> 0 | Some q \<Rightarrow> length (rules q))"

definition WithCountries :: "RuleSet option \<Rightarrow> (bytes \<Rightarrow> addr \<Rightarrow> bool) option \<Rightarrow> RuleSet option" where
  "WithCountries s c = (case s of None \<Rightarrow> None | Some q \<Rightarrow> Some (q\<lparr>countries := c\<rparr>))"

section \<open>The router\<close>

record router =
  rt_rules :: "RuleSet option"
  rt_dns :: "fakeDNS option"
  proxied :: u64
  directed :: u64
  rejected :: u64
  named :: u64
  rt_stale :: u64

record decision =
  d_action :: Action
  d_rule :: Rule
  d_host :: bytes
  d_addr :: "addr \<times> u16"
  d_stale :: bool

definition newRouter :: "RuleSet option \<Rightarrow> fakeDNS option \<Rightarrow> router" where
  "newRouter rs dns = \<lparr>rt_rules = rs, rt_dns = dns, proxied = 0, directed = 0, rejected = 0, named = 0, rt_stale = 0\<rparr>"

definition router_active :: "router option \<Rightarrow> bool" where
  "router_active r = (case r of None \<Rightarrow> False | Some q \<Rightarrow> rt_rules q \<noteq> None \<and> ruleset_Len (rt_rules q) > 0)"

definition count_action :: "Action \<Rightarrow> router \<Rightarrow> router" where
  "count_action a r =
     (case a of
        Direct \<Rightarrow> r\<lparr>directed := directed r + 1\<rparr>
      | Reject \<Rightarrow> r\<lparr>rejected := rejected r + 1\<rparr>
      | Proxy \<Rightarrow> r\<lparr>proxied := proxied r + 1\<rparr>)"

text \<open>The end of \<^verbatim>\<open>route\<close>, once it is known what the flow carries.\<close>

definition route_flow :: "(bytes \<Rightarrow> bytes) \<Rightarrow> router option \<Rightarrow> decision \<Rightarrow> Flow \<Rightarrow> router option \<times> decision" where
  "route_flow uni r d flow =
     (let d = (if router_active r
               then (case Match uni (rt_rules (the r)) flow of (action, rule, _) \<Rightarrow> d\<lparr>d_action := action, d_rule := rule\<rparr>)
               else d) in
      (map_option (count_action (d_action d)) r, d))"

definition route :: "(bytes \<Rightarrow> bytes) \<Rightarrow> router option \<Rightarrow> addr \<times> u16 \<Rightarrow> router option \<times> decision" where
  "route uni r destination =
     (let out = \<lparr>d_action = Proxy, d_rule = zero_rule, d_host = [], d_addr = destination, d_stale = False\<rparr>;
          ad = unmapAddr (fst destination);
          flow = \<lparr>fDomain = [], fAddr = None, fPort = snd destination\<rparr> in
      case (r, Option.bind r rt_dns) of
        (Some q, Some dns) \<Rightarrow>
          (if Holds ad then
             (case fake_Name dns ad of
                None \<Rightarrow> (Some (q\<lparr>rt_stale := rt_stale q + 1\<rparr>), out\<lparr>d_stale := True, d_action := Reject\<rparr>)
              | Some name \<Rightarrow> route_flow uni (Some (q\<lparr>named := named q + 1\<rparr>)) (out\<lparr>d_host := name\<rparr>) (flow\<lparr>fDomain := name\<rparr>))
           else route_flow uni r out (flow\<lparr>fAddr := Some ad\<rparr>))
      | _ \<Rightarrow> route_flow uni r out (flow\<lparr>fAddr := Some ad\<rparr>))"

section \<open>Byte strings as numbers\<close>

definition be_nat :: "bytes \<Rightarrow> nat" where
  "be_nat bs = foldl (\<lambda>acc b. 256 * acc + unat b) 0 bs"

lemma be_nat_snoc [simp]: "be_nat (bs @ [b]) = 256 * be_nat bs + unat b"
  by (simp add: be_nat_def)

lemma be_nat_Nil [simp]: "be_nat [] = 0"
  by (simp add: be_nat_def)

lemma unat_byte: "unat (b :: u8) < 256"
  using unsigned_less [of b] by simp

lemma be_nat_less: "be_nat bs < 256 ^ length bs"
proof (induction bs rule: rev_induct)
  case (snoc b bs)
  have "256 * be_nat bs + unat b < 256 * (be_nat bs + 1)" using unat_byte [of b] by simp
  also have "\<dots> \<le> 256 * 256 ^ length bs" using snoc by (intro mult_le_mono2) simp
  finally show ?case by simp
qed simp

lemma be_nat_Cons: "be_nat (b # bs) = unat b * 256 ^ length bs + be_nat bs"
proof (induction bs rule: rev_induct)
  case (snoc c bs)
  have "be_nat (b # bs @ [c]) = 256 * be_nat (b # bs) + unat c" using be_nat_snoc [of "b # bs" c] by simp
  then show ?case using snoc by simp
qed (simp add: be_nat_def)

lemma compare_be_nat:
  "length xs = length ys \<Longrightarrow> (0 < bytes_Compare xs ys \<longleftrightarrow> be_nat ys < be_nat xs) \<and> (0 \<le> bytes_Compare xs ys \<longleftrightarrow> be_nat ys \<le> be_nat xs)"
proof (induction xs ys rule: list_induct2)
  case (Cons x xs y ys)
  have less: "be_nat (u # us) < be_nat (v # vs)" if "u < v" "length us = length vs" for u v us vs
  proof -
    have "be_nat (u # us) < (unat u + 1) * 256 ^ length vs" using be_nat_less [of us] that(2) by (simp add: be_nat_Cons)
    also have "\<dots> \<le> unat v * 256 ^ length vs" using that(1) by (intro mult_le_mono1) (simp add: word_less_nat_alt)
    finally show ?thesis by (simp add: be_nat_Cons)
  qed
  consider "x < y" | "y < x" | "x = y" by fastforce
  then show ?case using Cons less [of x y xs ys] less [of y x ys xs] by cases (auto simp: be_nat_Cons)
qed simp

lemma unat_be_get: "8 * length bs \<le> LENGTH('a::len) \<Longrightarrow> unat (be_get bs :: 'a word) = be_nat bs"
proof (induction bs rule: rev_induct)
  case (snoc b bs)
  let ?w = "be_get bs :: 'a word"
  have len: "8 * length bs + 8 \<le> LENGTH('a)" using snoc.prems by simp
  have w: "unat ?w = be_nat bs" using snoc by simp
  have b: "unat (ucast b :: 'a word) = unat b" 
  proof -
    have "(2 :: nat) ^ 8 \<le> 2 ^ LENGTH('a)" using len by (intro power_increasing) simp_all
    then have "unat b < 2 ^ LENGTH('a)" using unat_byte [of b] by simp
    then show ?thesis by (simp add: unsigned_ucast_eq take_bit_nat_eq_self_iff)
  qed
  have lt: "256 * be_nat bs + unat b < 2 ^ LENGTH('a)"
  proof -
    have "be_nat (bs @ [b]) < 256 ^ length (bs @ [b])" by (rule be_nat_less)
    also have "(256 :: nat) ^ length (bs @ [b]) = 2 ^ (8 * length bs + 8)" by (simp add: power_mult power_add)
    also have "\<dots> \<le> (2 :: nat) ^ LENGTH('a)" using len by (intro power_increasing) simp_all
    finally show ?thesis by simp
  qed
  have "push_bit 8 ?w AND ucast b = 0" by (rule bit_word_eqI) (auto simp: bit_simps dest: bit_imp_le_length)
  then have "push_bit 8 ?w OR ucast b = 256 * ?w + ucast b" by (simp add: disjunctive_add_eq_or [symmetric] push_bit_eq_mult mult.commute)
  moreover have "unat (256 * ?w + ucast b) = 256 * be_nat bs + unat b"
  proof -
    have "256 * ?w + ucast b = of_nat (256 * unat ?w + unat (ucast b :: 'a word))" by simp
    then have "unat (256 * ?w + ucast b) = unat (of_nat (256 * be_nat bs + unat b) :: 'a word)" by (simp only: w b)
    also have "\<dots> = 256 * be_nat bs + unat b" unfolding unat_of_nat using lt by (rule mod_less)
    finally show ?thesis .
  qed
  ultimately show ?case by simp
qed simp

section \<open>The search finds every block of a collapsed set\<close>

lemma search_loop_step:
  "i < j \<Longrightarrow> f ((i + j) div 2) \<Longrightarrow> search_loop f i j = search_loop f i ((i + j) div 2)"
  "i < j \<Longrightarrow> \<not> f ((i + j) div 2) \<Longrightarrow> search_loop f i j = search_loop f ((i + j) div 2 + 1) j"
  "\<not> i < j \<Longrightarrow> search_loop f i j = i"
  by (subst search_loop.simps, simp add: Let_def)+

lemma search_loop_bounds: "i \<le> j \<Longrightarrow> i \<le> search_loop f i j \<and> search_loop f i j \<le> j"
proof (induction f i j rule: search_loop.induct)
  case (1 f i j)
  let ?h = "(i + j) div 2"
  consider "i < j" "f ?h" | "i < j" "\<not> f ?h" | "\<not> i < j" by blast
  then show ?case
  proof cases
    case 1
    then have "i \<le> ?h" "?h < j" by auto
    then show ?thesis using "1.IH"(2) [OF 1(1) refl] 1 search_loop_step(1) [of i j f] by fastforce
  next
    case 2
    then have "i \<le> ?h" "?h < j" by auto
    then show ?thesis using "1.IH"(1) [OF 2(1) refl 2(2)] 2 search_loop_step(2) [of i j f] by fastforce
  next
    case 3
    then show ?thesis using "1.prems" search_loop_step(3) [of i j f] by simp
  qed
qed

lemma search_loop_least:
  assumes "i \<le> j" "j \<le> n" "\<And>x y. x \<le> y \<Longrightarrow> y < n \<Longrightarrow> f x \<Longrightarrow> f y" "\<And>x. x < i \<Longrightarrow> \<not> f x" "\<And>x. j \<le> x \<Longrightarrow> x < n \<Longrightarrow> f x"
  shows "(\<forall>x < search_loop f i j. \<not> f x) \<and> (\<forall>x. search_loop f i j \<le> x \<and> x < n \<longrightarrow> f x)"
  using assms(1,2,4,5)
proof (induction "j - i" arbitrary: i j rule: less_induct)
  case less
  let ?h = "(i + j) div 2"
  consider "i < j" "f ?h" | "i < j" "\<not> f ?h" | "\<not> i < j" by blast
  then show ?case
  proof cases
    case 1
    have h: "i \<le> ?h" "?h < j" "?h < n" using 1(1) less.prems(2) by auto
    show ?thesis unfolding search_loop_step(1) [of i j f, OF 1]
      by (rule less.hyps) (use h less.prems assms(3) 1 in auto)
  next
    case 2
    have h: "i \<le> ?h" "?h < j" "?h < n" using 2(1) less.prems(2) by auto
    have "\<not> f x" if "x < ?h + 1" for x using assms(3) [of x ?h] h(3) 2(2) that by auto
    then show ?thesis unfolding search_loop_step(2) [of i j f, OF 2]
      by (intro less.hyps) (use h less.prems in auto)
  next
    case 3
    then show ?thesis using less.prems by (auto simp: search_loop_step(3))
  qed
qed

definition entries :: "bytes \<Rightarrow> nat \<Rightarrow> bytes list" where
  "entries body width = map (\<lambda>i. go_slice (i * width) (Suc i * width) body) [0..<length body div width]"

definition entry_bits :: "nat \<Rightarrow> bytes \<Rightarrow> nat" where
  "entry_bits width e = unat (e ! (width - 1))"

text \<open>The set is collapsed: networks have no host bits, and no block contains the network of another.\<close>

definition collapsed :: "bytes \<Rightarrow> nat \<Rightarrow> bool" where
  "collapsed body width \<longleftrightarrow>
     (\<forall>e\<in>set (entries body width). be_nat (take (width - 1) e) mod 2 ^ (8 * (width - 1) - entry_bits width e) = 0
        \<and> (\<forall>e'\<in>set (entries body width). entry_covers width e (take (width - 1) e') \<longrightarrow> e = e'))"

lemma xor_zero: "x XOR y = 0 \<longleftrightarrow> x = y" for x y :: "'a::len word"
  by (metis xor.assoc xor.right_neutral xor_self_eq)

lemma drop_bit_div: "drop_bit k x = drop_bit k y \<longleftrightarrow> unat x div 2 ^ k = unat y div 2 ^ k" for x y :: "'a::len word"
proof -
  have "unat (drop_bit k z) = unat z div 2 ^ k" for z :: "'a word" by (subst unat_drop_bit_eq) (rule drop_bit_eq_div)
  then show ?thesis by (simp only: word_unat_eq_iff)
qed

lemma contains_div:
  "prefix_Contains (PrefixFrom (V4 n) b) (V4 x) \<longleftrightarrow> b \<le> 32 \<and> unat x div 2 ^ (32 - b) = unat n div 2 ^ (32 - b)"
  "prefix_Contains (PrefixFrom (V6 m) b) (V6 y) \<longleftrightarrow> b \<le> 128 \<and> unat y div 2 ^ (128 - b) = unat m div 2 ^ (128 - b)"
  by (simp_all add: prefix_Contains_def PrefixFrom_def BitLen_def and_not_mask_zero drop_bit_xor xor_zero drop_bit_div)

lemma covers_div:
  assumes "width = 5 \<or> width = 17" "length e = width" "length key = width - 1"
  shows "entry_covers width e key \<longleftrightarrow> entry_bits width e \<le> 8 * (width - 1)
    \<and> be_nat key div 2 ^ (8 * (width - 1) - entry_bits width e) = be_nat (take (width - 1) e) div 2 ^ (8 * (width - 1) - entry_bits width e)"
  using assms(1)
proof
  assume w: "width = 5"
  then have "unat (be_get key :: u32) = be_nat key" "unat (be_get (take 4 e) :: u32) = be_nat (take 4 e)"
    using assms by (auto intro!: unat_be_get)
  then show ?thesis using w assms contains_div(1)
    by (auto simp: entry_covers_def AddrFromSlice_def entry_bits_def Let_def prefix_IsValid_def PrefixFrom_def BitLen_def)
next
  assume w: "width = 17"
  then have "unat (be_get key :: 128 word) = be_nat key" "unat (be_get (take 16 e) :: 128 word) = be_nat (take 16 e)"
    using assms by (auto intro!: unat_be_get)
  then show ?thesis using w assms contains_div(2)
    by (auto simp: entry_covers_def AddrFromSlice_def entry_bits_def Let_def prefix_IsValid_def PrefixFrom_def BitLen_def)
qed

lemma block_entry:
  assumes "0 < width" "i < length body div width"
  shows "length (entries body width ! i) = width" "entry_net body width i = take (width - 1) (entries body width ! i)"
    "entries body width ! i = go_slice (i * width) (Suc i * width) body" "entries body width ! i \<in> set (entries body width)"
proof -
  have "Suc i * width \<le> length body div width * width" using assms by (intro mult_le_mono1) simp
  also have "\<dots> \<le> length body" by (rule div_times_less_eq_dividend)
  finally have le: "Suc i * width \<le> length body" .
  show e: "entries body width ! i = go_slice (i * width) (Suc i * width) body" using assms by (simp add: entries_def)
  show "length (entries body width ! i) = width" unfolding e using le by (simp add: min_def)
  show "entry_net body width i = take (width - 1) (entries body width ! i)"
    unfolding e by (simp add: entry_net_def go_slice_def)
  show "entries body width ! i \<in> set (entries body width)" using assms by (simp add: entries_def)
qed

lemma in_entries: "e \<in> set (entries body width) \<Longrightarrow> \<exists>i < length body div width. e = entries body width ! i"
  by (force simp: entries_def)

lemma first_descent_None: "first_descent body width is = None \<Longrightarrow> i \<in> set is \<Longrightarrow> bytes_Compare (entry_net body width (i - 1)) (entry_net body width i) < 0"
  by (induction "is") (auto split: if_splits)

lemma nets_ascend:
  assumes "0 < width" "first_descent body width [1..<length body div width] = None" "i < j" "j < length body div width"
  shows "be_nat (entry_net body width i) < be_nat (entry_net body width j)"
  using assms(3,4)
proof (induction j)
  case (Suc j)
  have "bytes_Compare (entry_net body width j) (entry_net body width (Suc j)) < 0"
    using first_descent_None [OF assms(2), of "Suc j"] Suc.prems by simp
  moreover have "length (entry_net body width j) = length (entry_net body width (Suc j))"
    using Suc.prems assms(1) by (simp only: block_entry(1,2) length_take Suc_lessD)
  ultimately have "be_nat (entry_net body width j) < be_nat (entry_net body width (Suc j))"
    using compare_be_nat by (metis not_le)
  then show ?case using Suc by (cases "i = j") auto
qed simp

lemma search_candidate:
  assumes "0 < width" "search body width key"
  shows "\<exists>e\<in>set (entries body width). entry_covers width e key"
proof -
  let ?n = "length body div width"
  let ?above = "sort_Search ?n (\<lambda>i. bytes_Compare (entry_net body width i) key > 0)"
  have a: "?above \<noteq> 0" "entry_covers width (go_slice ((?above - 1) * width) (?above * width) body) key"
    using assms(2) by (auto simp: search_def Let_def split: if_splits)
  have "?above \<le> ?n" using search_loop_bounds [of 0 ?n] by (simp add: sort_Search_def)
  then have "?above - 1 < ?n" "Suc (?above - 1) = ?above" using a(1) by simp_all
  then show ?thesis using a(2) block_entry(3,4) [OF assms(1), of "?above - 1" body] by metis
qed

lemma div_between: "x div d = z div d \<Longrightarrow> x \<le> y \<Longrightarrow> y \<le> z \<Longrightarrow> y div d = x div d" for x y z d :: nat
  by (metis div_le_mono le_antisym)

lemma search_complete:
  assumes w: "width = 5 \<or> width = 17" and key: "length key = width - 1"
    and sorted: "first_descent body width [1..<length body div width] = None" and col: "collapsed body width"
    and e: "e \<in> set (entries body width)" "entry_covers width e key"
  shows "search body width key"
proof -
  let ?n = "length body div width" and ?net = "\<lambda>i. be_nat (entry_net body width i)"
  let ?f = "\<lambda>i. bytes_Compare (entry_net body width i) key > 0"
  have pos: "0 < width" using w by auto
  obtain i where i: "i < ?n" "e = entries body width ! i" using in_entries [OF e(1)] by blast
  note ei = block_entry [OF pos i(1), folded i(2)]
  let ?k = "2 ^ (8 * (width - 1) - entry_bits width e)"
  have cov: "be_nat key div ?k = ?net i div ?k" using e(2) covers_div [OF w ei(1) key] ei(2) by simp
  have "?net i mod ?k = 0" using col e(1) ei(2) by (simp add: collapsed_def)
  then have "?net i = ?net i div ?k * ?k" by (metis add.right_neutral div_mult_mod_eq)
  then have le: "?net i \<le> be_nat key" using cov by (metis div_times_less_eq_dividend)
  have f: "?f x \<longleftrightarrow> be_nat key < ?net x" if "x < ?n" for x
    using compare_be_nat [of "entry_net body width x" key] block_entry(1,2) [OF pos that] key by simp
  have mono: "?f y" if "x \<le> y" "y < ?n" "?f x" for x y
  proof (cases "x = y")
    case False
    then have "?net x < ?net y" using nets_ascend [OF pos sorted] that by simp
    then show ?thesis using f that by (meson le_less_trans less_trans)
  qed (use that in simp)
  define above where "above = sort_Search ?n ?f"
  have "(\<forall>x<above. \<not> ?f x) \<and> (\<forall>x. above \<le> x \<and> x < ?n \<longrightarrow> ?f x)"
    unfolding above_def sort_Search_def by (rule search_loop_least) (use mono in \<open>simp_all del: not_less\<close>)
  moreover have "above \<le> ?n" using search_loop_bounds [of 0 ?n ?f] by (simp only: above_def sort_Search_def le0 simp_thms)
  ultimately have least: "\<forall>x<above. \<not> ?f x" "\<forall>x. above \<le> x \<and> x < ?n \<longrightarrow> ?f x" "above \<le> ?n" by blast+
  have "i < above" using least(2) f [OF i(1)] le i(1) by (meson not_less)
  moreover have "\<not> i < above - 1"
  proof
    assume lt: "i < above - 1"
    then have c: "above - 1 < ?n" "\<not> ?f (above - 1)" using least(1,3) by auto
    have "?net i < ?net (above - 1)" by (rule nets_ascend [OF pos sorted lt c(1)])
    moreover have "?net (above - 1) \<le> be_nat key" using c f by (meson not_less)
    ultimately have "?net (above - 1) div ?k = ?net i div ?k" by (intro div_between [OF cov [symmetric]]) (rule less_imp_le)
    then have "entry_covers width e (take (width - 1) (entries body width ! (above - 1)))"
      using covers_div [OF w ei(1), of "take (width - 1) (entries body width ! (above - 1))"] e(2) covers_div [OF w ei(1) key]
        block_entry(1,2) [OF pos c(1)] ei(2) by simp
    then have "e = entries body width ! (above - 1)" using col e(1) block_entry(4) [OF pos c(1)] by (simp add: collapsed_def)
    then show False using \<open>?net i < ?net (above - 1)\<close> ei(2) block_entry(2) [OF pos c(1)] by simp
  qed
  ultimately have "above = Suc i" by simp
  then show ?thesis using i e(2) ei(3) by (auto simp: search_def Let_def above_def [symmetric])
qed

lemma loaded_sorted:
  assumes "LoadPacked upper code blob = Inr p"
  shows "first_descent (pv4 p) 5 [1..<length (pv4 p) div 5] = None" "first_descent (pv6 p) 17 [1..<length (pv6 p) div 17] = None"
    "pcode p = ToUpper upper code"
  using assms
  by (auto simp: LoadPacked_def Let_def verifySorted_def packedV4Entry_def packedV6Entry_def split: if_splits option.splits)

text \<open>The block of the set that covers an address of either family.\<close>

definition set_covers :: "Packed \<Rightarrow> addr \<Rightarrow> bool" where
  "set_covers p a =
     (case unmapAddr a of
        V4 w \<Rightarrow> (\<exists>e\<in>set (entries (pv4 p) 5). entry_covers 5 e (be_put 4 w))
      | V6 w \<Rightarrow> (\<exists>e\<in>set (entries (pv6 p) 17). entry_covers 17 e (be_put 16 w)))"

text \<open>
  C32 (equivalence). The binary search over the packed bytes is the linear one. For a file that loads, an
  address is never reported without a block of the file that covers it and a matching country
  code; and when the set is collapsed, every address of the right code that some block covers is reported,
  also in its IPv4-in-IPv6 form.
\<close>

theorem packed_search_exact:
  assumes "LoadPacked upper code blob = Inr p"
  shows "(packed_Contains folds (Some p) c (Some a) \<longrightarrow> EqualFold folds c (ToUpper upper code) \<and> set_covers p a)
    \<and> (collapsed (pv4 p) 5 \<and> collapsed (pv6 p) 17 \<longrightarrow>
        packed_Contains folds (Some p) c (Some a) = (EqualFold folds c (ToUpper upper code) \<and> set_covers p a))"
proof -
  note l = loaded_sorted [OF assms]
  have v4: "search (pv4 p) 5 (be_put 4 w) \<Longrightarrow> \<exists>e\<in>set (entries (pv4 p) 5). entry_covers 5 e (be_put 4 w)"
    "collapsed (pv4 p) 5 \<Longrightarrow> search (pv4 p) 5 (be_put 4 w) = (\<exists>e\<in>set (entries (pv4 p) 5). entry_covers 5 e (be_put 4 w))" for w :: u32
    using search_candidate [of 5 "pv4 p" "be_put 4 w"] search_complete [of 5 "be_put 4 w", OF _ _ l(1)] by auto
  have v6: "search (pv6 p) 17 (be_put 16 w) \<Longrightarrow> \<exists>e\<in>set (entries (pv6 p) 17). entry_covers 17 e (be_put 16 w)"
    "collapsed (pv6 p) 17 \<Longrightarrow> search (pv6 p) 17 (be_put 16 w) = (\<exists>e\<in>set (entries (pv6 p) 17). entry_covers 17 e (be_put 16 w))" for w :: "128 word"
    using search_candidate [of 17 "pv6 p" "be_put 16 w"] search_complete [of 17 "be_put 16 w", OF _ _ l(2)] by auto
  show ?thesis using v4 v6 l(3)
    by (cases "unmapAddr a") (simp_all add: packed_Contains_def set_covers_def packedV4Entry_def packedV6Entry_def)
qed

text \<open>A packed file with two IPv4 blocks, and what is read from it.\<close>

definition block4 :: "u32 \<Rightarrow> nat \<Rightarrow> bytes" where
  "block4 n b = be_put 4 n @ [of_nat b]"

definition two_block_file :: "u32 \<Rightarrow> nat \<Rightarrow> u32 \<Rightarrow> nat \<Rightarrow> bytes" where
  "two_block_file n b m b' = packedMagic @ [packedVersion, 0, 0, 0] @ be_put 4 (2 :: u32) @ be_put 4 (0 :: u32) @ block4 n b @ block4 m b'"

lemma block4_length [simp]: "length (block4 n b) = 5"
  by (simp add: block4_def)

lemma block4_covers: "b \<le> 32 \<Longrightarrow> entry_covers 5 (block4 n b) (be_put 4 x) = prefix_Contains (PrefixFrom (V4 n) b) (V4 x)"
  by (auto simp: entry_covers_def block4_def AddrFromSlice_def nth_append unat_of_nat prefix_IsValid_def PrefixFrom_def BitLen_def Let_def)

lemma two_block_entries:
  assumes "body = block4 n b @ block4 m b'"
  shows "length body div 5 = 2" "entry_net body 5 0 = be_put 4 n" "entry_net body 5 (Suc 0) = be_put 4 m"
    "go_slice 5 10 body = block4 m b'" "entries body 5 = [block4 n b, block4 m b']"
proof -
  show l: "length body div 5 = 2" by (simp add: assms)
  show "entry_net body 5 0 = be_put 4 n" "entry_net body 5 (Suc 0) = be_put 4 m" by (simp_all add: assms entry_net_def go_slice_def block4_def)
  show g: "go_slice 5 10 body = block4 m b'" by (simp add: assms go_slice_def)
  moreover have "go_slice 0 5 body = block4 n b" by (simp add: assms go_slice_def)
  moreover have "[0..<2] = [0, Suc 0]" by (simp add: upt_rec)
  ultimately show "entries body 5 = [block4 n b, block4 m b']" by (simp add: entries_def l del: upt_Suc)
qed

lemma be_nat_put: "be_nat (be_put 4 (w :: u32)) = unat w"
  using unat_be_get [of "be_put 4 w", where 'a = 32] by simp

lemma two_block_loads:
  assumes "n < m"
  shows "LoadPacked upper c (two_block_file n b m b') = Inr \<lparr>pcode = ToUpper upper c, pv4 = block4 n b @ block4 m b', pv6 = []\<rparr>"
proof -
  let ?body = "block4 n b @ block4 m b'"
  have "bytes_Compare (be_put 4 n) (be_put 4 m) < 0"
    using compare_be_nat [of "be_put 4 n" "be_put 4 m"] assms by (simp add: be_nat_put word_less_nat_alt not_le [symmetric])
  then have "first_descent ?body 5 [1..<length ?body div 5] = None"
    using two_block_entries(2,3) [of ?body, OF refl] by (simp add: numeral_2_eq_2)
  then have "verifySorted \<lparr>pcode = ToUpper upper c, pv4 = ?body, pv6 = []\<rparr> = None"
    by (simp add: verifySorted_def packedV4Entry_def)
  moreover have "take 4 (two_block_file n b m b') = packedMagic" "two_block_file n b m b' ! 4 = packedVersion"
    "go_slice 8 12 (two_block_file n b m b') = be_put 4 (2 :: u32)" "go_slice 12 16 (two_block_file n b m b') = be_put 4 (0 :: u32)"
    "go_slice 16 26 (two_block_file n b m b') = ?body" "drop 26 (two_block_file n b m b') = []" "length (two_block_file n b m b') = 26"
    by (simp_all add: two_block_file_def packedMagic_def go_slice_def)
  ultimately show ?thesis by (simp add: LoadPacked_def packedHeaderSize_def packedV4Entry_def packedV6Entry_def Let_def)
qed

lemma two_block_search:
  assumes "n < m" "m \<le> x" "body = block4 n b @ block4 m b'"
  shows "search body 5 (be_put 4 x) = entry_covers 5 (block4 m b') (be_put 4 x)"
proof -
  let ?f = "\<lambda>i. bytes_Compare (entry_net body 5 i) (be_put 4 x) > 0"
  note e = two_block_entries [OF assms(3)]
  have "\<not> ?f 0" "\<not> ?f 1"
    using compare_be_nat [of "be_put 4 n" "be_put 4 x"] compare_be_nat [of "be_put 4 m" "be_put 4 x"] assms(1,2) e(2,3)
    by (simp_all add: be_nat_put word_less_nat_alt word_le_nat_alt)
  then have "sort_Search 2 ?f = 2" unfolding sort_Search_def by (simp add: search_loop_step)
  then show ?thesis using e(1,4) by (simp add: search_def Let_def)
qed

text \<open>
  C35 (error). Loading does not check that the set is collapsed, and the search relies on it. Take any two IPv4
  blocks, the second nested in the first, and an address beyond the second's network that the outer block covers and the inner
  does not. The file with the two blocks, in the ascending order the loader asks for, loads; its blocks cover the address, through
  the outer one alone; and the address is reported as not in the set.
\<close>

theorem nested_block_missed:
  assumes "prefix_Contains (PrefixFrom (V4 n) b) (V4 m)" "n < m" "b' \<le> 32"
    and "prefix_Contains (PrefixFrom (V4 n) b) (V4 x)" "\<not> prefix_Contains (PrefixFrom (V4 m) b') (V4 x)" "m \<le> x"
  shows "\<exists>p. LoadPacked upper c (two_block_file n b m b') = Inr p \<and> entries (pv4 p) 5 = [block4 n b, block4 m b']
    \<and> (\<forall>y. prefix_Contains (PrefixFrom (V4 m) b') (V4 y) \<longrightarrow> prefix_Contains (PrefixFrom (V4 n) b) (V4 y))
    \<and> set_covers p (V4 x) \<and> \<not> packed_Contains folds (Some p) code (Some (V4 x))"
proof -
  let ?p = "\<lparr>pcode = ToUpper upper c, pv4 = block4 n b @ block4 m b', pv6 = []\<rparr>"
  have b: "b \<le> 32" using assms(1) contains_div(1) by simp
  note e = two_block_entries(5) [of "pv4 ?p" n b m b'] and cov = block4_covers [OF b, of n x] block4_covers [OF assms(3), of m x]
  have inner: "prefix_Contains (PrefixFrom (V4 n) b) (V4 y)" if "prefix_Contains (PrefixFrom (V4 m) b') (V4 y)" for y
  proof -
    have q: "unat y div 2 ^ (32 - b') = unat m div 2 ^ (32 - b')" "unat x div 2 ^ (32 - b) = unat m div 2 ^ (32 - b)"
      "unat m div 2 ^ (32 - b) = unat n div 2 ^ (32 - b)" "unat x div 2 ^ (32 - b') \<noteq> unat m div 2 ^ (32 - b')"
      using that assms(1,3-5) contains_div(1) by simp_all
    have refine: "u div 2 ^ (32 - i) = v div 2 ^ (32 - i)" if "u div 2 ^ (32 - j) = v div 2 ^ (32 - j)" "i \<le> j" "j \<le> 32" for u v i j :: nat
    proof -
      have "(2 :: nat) ^ (32 - i) = 2 ^ (32 - j) * 2 ^ (j - i)" using that(2,3) by (simp add: power_add [symmetric])
      then show ?thesis using that(1) by (simp add: div_mult2_eq)
    qed
    have "b \<le> b'" using refine [OF q(2), of b'] q(4) b by fastforce
    then show ?thesis using refine [OF q(1), of b] q(3) b assms(3) contains_div(1) by simp
  qed
  have "search (pv4 ?p) 5 (be_put 4 x) = False" using two_block_search [OF assms(2,6), of "pv4 ?p" b b'] cov(2) assms(5) by simp
  then have "\<not> packed_Contains folds (Some ?p) code (Some (V4 x))" by (simp add: packed_Contains_def packedV4Entry_def unmap_v4)
  moreover have "set_covers ?p (V4 x)" using e cov(1) assms(4) by (simp add: set_covers_def unmap_v4)
  ultimately show ?thesis using two_block_loads [OF assms(2)] inner e by (intro exI [of _ ?p]) simp
qed

text \<open>10.0.0.0/8 with 10.1.0.0/16 in it: 10.2.0.1 is missed.\<close>

lemma nested_block_missed_witness:
  "\<exists>p. LoadPacked id [67, 78] (two_block_file 0x0A000000 8 0x0A010000 16) = Inr p
    \<and> set_covers p (V4 0x0A020001) \<and> \<not> packed_Contains (=) (Some p) [67, 78] (Some (V4 0x0A020001))"
proof -
  have "prefix_Contains (PrefixFrom (V4 0x0A000000) 8) (V4 0x0A010000)" "prefix_Contains (PrefixFrom (V4 0x0A000000) 8) (V4 0x0A020001)"
    "\<not> prefix_Contains (PrefixFrom (V4 0x0A010000) 16) (V4 0x0A020001)" by code_simp+
  then show ?thesis
    using nested_block_missed [of "0x0A000000" 8 "0x0A010000" 16 "0x0A020001" id "[67, 78]" "(=)" "[67, 78]"] by auto
qed

section \<open>First match wins\<close>

lemma match_loop_split:
  assumes "match_loop s domain flow rs = (act, r, True)"
  shows "\<exists>pre post. rs = pre @ r # post \<and> (\<forall>q\<in>set pre. \<not> rule_matches s q domain flow) \<and> rule_matches s r domain flow \<and> act = rAction r"
  using assms
proof (induction rs)
  case (Cons q rs)
  show ?case
  proof (cases "rule_matches s q domain flow")
    case True
    then show ?thesis using Cons.prems by (intro exI [of _ "[]"] exI [of _ rs]) auto
  next
    case False
    then obtain pre post where "rs = pre @ r # post" "\<forall>q\<in>set pre. \<not> rule_matches s q domain flow" "rule_matches s r domain flow" "act = rAction r"
      using Cons by auto
    then show ?thesis using False by (intro exI [of _ "q # pre"] exI [of _ post]) simp
  qed
qed simp

lemma match_loop_none:
  "match_loop s domain flow rs = (act, r, False) \<longleftrightarrow> (\<forall>q\<in>set rs. \<not> rule_matches s q domain flow) \<and> act = Proxy \<and> r = zero_rule"
  by (induction rs) auto

text \<open>First match wins: an action and the rule that decided it, or the tunnel when no rule of the list matches.\<close>

definition first_match :: "RuleSet \<Rightarrow> bytes \<Rightarrow> Flow \<Rightarrow> Action \<Rightarrow> Rule \<Rightarrow> bool" where
  "first_match s domain flow act r \<longleftrightarrow>
     act = Proxy \<and> (\<forall>q\<in>set (rules s). \<not> rule_matches s q domain flow)
     \<or> (\<exists>pre post. rules s = pre @ r # post \<and> (\<forall>q\<in>set pre. \<not> rule_matches s q domain flow) \<and> rule_matches s r domain flow \<and> act = rAction r)"

lemma match_first: "match_loop s domain flow (rules s) = (act, r, ok) \<Longrightarrow> first_match s domain flow act r"
  unfolding first_match_def using match_loop_split [of s domain flow "rules s" act r] match_loop_none [of s domain flow "rules s" act r]
  by (cases ok) simp_all

lemma match_loop_filter:
  "(\<And>r. r \<in> set rs \<Longrightarrow> \<not> P r \<Longrightarrow> \<not> rule_matches s r domain flow) \<Longrightarrow> match_loop s domain flow (filter P rs) = match_loop s domain flow rs"
  by (induction rs) auto

text \<open>
  What the matcher relies on in a country lookup: a code it does not carry is never matched, and an
  address and its IPv4-in-IPv6 form have the same answer.
\<close>

locale country_lookup =
  fixes contains :: "bytes \<Rightarrow> addr \<Rightarrow> bool" and carries :: "bytes \<Rightarrow> bool"
  assumes unknown: "\<not> carries c \<Longrightarrow> \<not> contains c a"
    and flattened: "contains c (unmapAddr a) = contains c a"
begin

lemma unknown_country_skipped:
  assumes "countries s = Some contains"
  shows "match_loop s domain flow (filter (\<lambda>r. rKind r = KindGeoIP \<longrightarrow> carries (rCountry r)) rs) = match_loop s domain flow rs"
  using unknown assms by (intro match_loop_filter) (auto simp: rule_matches_def split: option.splits)

lemma geoip_rule:
  assumes "countries s = Some contains" "rKind r = KindGeoIP" "fAddr flow = Some a"
  shows "rule_matches s r domain flow = contains (rCountry r) a"
  using assms flattened by (simp add: rule_matches_def)

end

lemma unmap_idem: "unmapAddr (unmapAddr a) = unmapAddr a"
  by (cases a) (auto simp: unmapAddr_def Is4In6_def)

interpretation packed: country_lookup "\<lambda>c a. packed_Contains folds (Some p) c (Some a)" "\<lambda>c. EqualFold folds c (pcode p)" for folds p
  by unfold_locales (simp_all add: packed_Contains_def unmap_idem)

lemma HasSuffix_iff: "HasSuffix s t \<longleftrightarrow> suffix t s"
proof
  assume "HasSuffix s t"
  then have "s = take (length s - length t) s @ t" unfolding HasSuffix_def by (metis append_take_drop_id)
  then show "suffix t s" by (metis suffixI)
qed (auto simp: HasSuffix_def suffix_def)

text \<open>The labels of a name, split at its dots.\<close>

fun dot_labels :: "bytes \<Rightarrow> bytes list" where
  "dot_labels [] = [[]]"
| "dot_labels (c # s) = (if c = 46 then [] # dot_labels s else (c # hd (dot_labels s)) # tl (dot_labels s))"

lemma dot_labels_nonempty [simp]: "dot_labels s \<noteq> []"
  by (cases s) auto

lemma dot_labels_append: "dot_labels (s @ 46 # t) = dot_labels s @ dot_labels t"
  by (induction s) (auto simp: tl_append split: list.splits)

lemma join_dots_Cons: "ls \<noteq> [] \<Longrightarrow> join_dots (l # ls) = l @ 46 # join_dots ls"
  by (cases ls) auto

lemma join_dots_append: "ls \<noteq> [] \<Longrightarrow> ms \<noteq> [] \<Longrightarrow> join_dots (ls @ ms) = join_dots ls @ 46 # join_dots ms"
proof (induction ls)
  case (Cons l ls)
  then show ?case by (cases "ls = []") (simp_all add: join_dots_Cons)
qed simp

lemma join_dot_labels: "join_dots (dot_labels s) = s"
proof (induction s)
  case (Cons c s)
  then show ?case by (cases "dot_labels s") (auto simp: join_dots_Cons, cases "tl (dot_labels s)", auto)
qed simp

text \<open>A suffix rule compares whole labels: it takes a name and what is under it, and nothing that only ends alike.\<close>

lemma suffix_rule_labels:
  "rKind r = KindDomainSuffix \<Longrightarrow> rule_matches s r domain flow \<longleftrightarrow> domain \<noteq> [] \<and> suffix (dot_labels (rDomain r)) (dot_labels domain)"
proof -
  assume k: "rKind r = KindDomainSuffix"
  have "domain = d \<or> suffix (46 # d) domain" if "dot_labels domain = ls @ dot_labels d" for ls d
  proof (cases "ls = []")
    case True
    then show ?thesis using that join_dot_labels by (metis append_Nil)
  next
    case False
    then have "domain = join_dots ls @ 46 # d" using that join_dot_labels join_dots_append [OF False] by (metis dot_labels_nonempty)
    then show ?thesis by (auto simp: suffix_def)
  qed
  then show ?thesis using k by (auto simp: rule_matches_def HasSuffix_iff suffix_def dot_labels_append)
qed

section \<open>Routes\<close>

lemma route_flow_facts:
  assumes "route_flow uni r d flow = (r', d')"
  shows "d_host d' = d_host d" "d_stale d' = d_stale d" "d_addr d' = d_addr d"
    "router_active r \<Longrightarrow> (d_action d', d_rule d') = (fst (Match uni (rt_rules (the r)) flow), fst (snd (Match uni (rt_rules (the r)) flow)))"
    "\<not> router_active r \<Longrightarrow> d_action d' = d_action d"
  using assms by (auto simp: route_flow_def Let_def split: prod.splits if_splits)

abbreviation fresh_decision :: "bytes \<Rightarrow> addr \<times> u16 \<Rightarrow> decision" where
  "fresh_decision host dest \<equiv> \<lparr>d_action = Proxy, d_rule = zero_rule, d_host = host, d_addr = dest, d_stale = False\<rparr>"

lemma unmap_absorb: "Holds (unmapAddr a) = Holds a" "fake_Name f (unmapAddr a) = fake_Name f a"
  by (simp_all add: Holds_def fake_Name_def unmap_idem)

lemma route_cases:
  assumes "route uni r (a, port) = (r', d)"
  obtains (stale) q f where "r = Some q" "rt_dns q = Some f" "Holds a" "fake_Name f a = None" "d_stale d" "d_action d = Reject"
  | (name) q f n where "r = Some q" "rt_dns q = Some f" "Holds a" "fake_Name f a = Some n"
      "route_flow uni (Some (q\<lparr>named := named q + 1\<rparr>)) (fresh_decision n (a, port)) \<lparr>fDomain = n, fAddr = None, fPort = port\<rparr> = (r', d)"
  | (literal) "\<forall>q f. r = Some q \<and> rt_dns q = Some f \<longrightarrow> \<not> Holds a"
      "route_flow uni r (fresh_decision [] (a, port)) \<lparr>fDomain = [], fAddr = Some (unmapAddr a), fPort = port\<rparr> = (r', d)"
  using assms by (auto simp: route_def Let_def unmap_absorb split: option.splits if_splits)

text \<open>
  A decision made by the list on what a flow carries: the first rule to match it, or the tunnel when no list is loaded.
\<close>

definition decided :: "(bytes \<Rightarrow> bytes) \<Rightarrow> router option \<Rightarrow> Flow \<Rightarrow> decision \<Rightarrow> bool" where
  "decided uni r flow d \<longleftrightarrow>
     (case Option.bind r rt_rules of
        None \<Rightarrow> d_action d = Proxy
      | Some s \<Rightarrow> first_match s (normalizeDomain uni (fDomain flow)) flow (d_action d) (d_rule d))"

lemma route_flow_decided:
  assumes "route_flow uni r (fresh_decision host dest) flow = (r', d)"
  shows "decided uni r flow d"
proof (cases "router_active r")
  case True
  then obtain q s where q: "r = Some q" "rt_rules q = Some s" by (auto simp: router_active_def split: option.splits)
  obtain x ru ok where m: "match_loop s (normalizeDomain uni (fDomain flow)) flow (rules s) = (x, ru, ok)" by (metis prod_cases3)
  have "x = d_action d" "ru = d_rule d" using route_flow_facts(4) [OF assms True] q m by (simp_all add: Match_def)
  then show ?thesis using match_first [OF m] q by (simp add: decided_def)
next
  case False
  then have "d_action d = Proxy" using route_flow_facts(5) [OF assms] by simp
  then show ?thesis using False by (auto simp: decided_def router_active_def ruleset_Len_def first_match_def split: option.splits bind_splits)
qed

lemma decided_direct:
  assumes "decided uni r flow d" "d_action d = Direct"
  shows "\<exists>q s. r = Some q \<and> rt_rules q = Some s \<and> d_rule d \<in> set (rules s) \<and> rAction (d_rule d) = Direct"
  using assms by (auto simp: decided_def first_match_def split: option.splits bind_splits)

lemma route_handle:
  assumes "rt_dns r = Some f" "Holds (unmapAddr a)" "fake_Name f (unmapAddr a) = Some n" "route uni (Some r) (a, port) = (r', d)"
  shows "\<not> d_stale d \<and> d_host d = n \<and> d_addr d = (a, port)
    \<and> (if ruleset_Len (rt_rules r) > 0
       then (d_action d, d_rule d) = (fst (Match uni (rt_rules r) \<lparr>fDomain = n, fAddr = None, fPort = port\<rparr>),
              fst (snd (Match uni (rt_rules r) \<lparr>fDomain = n, fAddr = None, fPort = port\<rparr>)))
       else d_action d = Proxy)"
proof -
  let ?r = "Some (r\<lparr>named := named r + 1\<rparr>)"
  have rf: "route_flow uni ?r \<lparr>d_action = Proxy, d_rule = zero_rule, d_host = n, d_addr = (a, port), d_stale = False\<rparr>
      \<lparr>fDomain = n, fAddr = None, fPort = port\<rparr> = (r', d)"
    using assms by (simp add: route_def Let_def)
  have act: "router_active ?r \<longleftrightarrow> ruleset_Len (rt_rules r) > 0" by (auto simp: router_active_def ruleset_Len_def split: option.splits)
  show ?thesis using route_flow_facts [OF rf] act by auto
qed

text \<open>
  C33 (safety). A flow to a handle is routed by the name the handle was given for. After any lookups,
  a connection to the address that a name got, plain or mapped into IPv6, is not stale, carries the
  normalised name as the host to dial, and takes the action of the first rule that matches
  that name, or the tunnel when there is no list.
\<close>

theorem handle_routes_by_name:
  assumes "Handle uni (after_names uni xs) name = (f', Some (V4 w))" "rt_dns r = Some f'"
    and "a = V4 w \<or> a = mapped_form w" "route uni (Some r) (a, port) = (r', d)"
  shows "\<not> d_stale d \<and> d_host d = normalizeName uni name
    \<and> (ruleset_Len (rt_rules r) = 0 \<longrightarrow> d_action d = Proxy)
    \<and> (\<forall>s. rt_rules r = Some s \<and> rules s \<noteq> [] \<longrightarrow>
        first_match s (normalizeDomain uni (normalizeName uni name)) \<lparr>fDomain = normalizeName uni name, fAddr = None, fPort = port\<rparr>
          (d_action d) (d_rule d))"
proof -
  let ?n = "normalizeName uni name" and ?fl = "\<lparr>fDomain = normalizeName uni name, fAddr = None, fPort = port\<rparr>"
  have u: "unmapAddr a = V4 w" using assms(3) unmap_mapped unmap_v4 by auto
  have h: "Holds (V4 w)" "fake_Name f' (V4 w) = Some ?n" using handle_facts [OF assms(1)] by auto
  note rh = route_handle [OF assms(2) _ _ assms(4), unfolded u, OF h]
  have "first_match s (normalizeDomain uni ?n) ?fl (d_action d) (d_rule d)" if s: "rt_rules r = Some s" "rules s \<noteq> []" for s
  proof -
    obtain act ru ok where m: "match_loop s (normalizeDomain uni ?n) ?fl (rules s) = (act, ru, ok)" by (metis prod_cases3)
    have "d_action d = act" "d_rule d = ru" using rh s m by (simp_all add: ruleset_Len_def Match_def)
    then show ?thesis using match_first [OF m] by simp
  qed
  then show ?thesis using rh by auto
qed

text \<open>
  C34 (safety). Nothing leaves the tunnel unless a rule says so. Whatever the destination, the list and the handles,
  a flow is decided by the first rule of the list that matches what the flow carries, and takes the tunnel when none
  does or no list is loaded. A flow to a literal address is matched by exactly that address, flattened from its
  IPv4-in-IPv6 form, and its port. A flow to a reserved address is matched by the name the address stands for and the port, with
  no address, and carries that name as the host to dial; if the name is forgotten, the flow is refused. So a flow goes direct
  only by a rule of a loaded list that says direct.
\<close>

theorem route_never_leaks:
  assumes "route uni r (a, port) = (r', d)"
  shows "((\<forall>q f. r = Some q \<and> rt_dns q = Some f \<longrightarrow> \<not> Holds a) \<longrightarrow>
        \<not> d_stale d \<and> d_host d = [] \<and> d_addr d = (a, port)
        \<and> decided uni r \<lparr>fDomain = [], fAddr = Some (unmapAddr a), fPort = port\<rparr> d)
    \<and> (\<forall>q f. r = Some q \<and> rt_dns q = Some f \<and> Holds a \<longrightarrow>
        (case fake_Name f a of
           None \<Rightarrow> d_stale d \<and> d_action d = Reject
         | Some n \<Rightarrow> \<not> d_stale d \<and> d_host d = n \<and> decided uni r \<lparr>fDomain = n, fAddr = None, fPort = port\<rparr> d))
    \<and> (d_action d = Direct \<longrightarrow>
        (\<exists>q s. r = Some q \<and> rt_rules q = Some s \<and> d_rule d \<in> set (rules s) \<and> rAction (d_rule d) = Direct))"
  using assms
proof (cases rule: route_cases)
  case (stale q f)
  then show ?thesis by auto
next
  case (name q f n)
  have h: "d_host d = n" "\<not> d_stale d" using route_flow_facts(1,2) [OF name(5)] by simp_all
  have "decided uni r \<lparr>fDomain = n, fAddr = None, fPort = port\<rparr> d"
    using route_flow_decided [OF name(5)] name(1) by (simp add: decided_def)
  then show ?thesis using h name(1-4) decided_direct [of uni r _ d] by auto
next
  case literal
  have h: "d_host d = []" "\<not> d_stale d" "d_addr d = (a, port)" using route_flow_facts(1-3) [OF literal(2)] by simp_all
  then show ?thesis using route_flow_decided [OF literal(2)] literal(1) decided_direct [of uni r _ d] by blast
qed

definition demo_router :: "fakeDNS \<Rightarrow> router" where
  "demo_router f = newRouter (Some \<lparr>rules = [zero_rule\<lparr>rKind := KindDomainSuffix, rAction := Direct, rDomain := [98]\<rparr>], countries = None\<rparr>) (Some f)"

lemma handle_routes_by_name_witness:
  "\<exists>f' w r' d. Handle id newFakeDNS [65, 46, 66] = (f', Some (V4 w)) \<and> route id (Some (demo_router f')) (mapped_form w, 443) = (r', d)
    \<and> d_host d = [97, 46, 98] \<and> d_action d = Direct"
proof -
  have n: "normalizeName id [65, 46, 66] = [97, 46, 98]" "normalizeDomain id [97, 46, 98] = [97, 46, 98]" by code_simp+
  have "byName newFakeDNS [97, 46, 98] = None" by (simp add: newFakeDNS_def)
  then obtain f' m where h: "Handle id (after_names id []) [65, 46, 66] = (f', Some (pool_addr m))"
    using Handle_new [OF new_inv, of id "[65, 46, 66]"] n(1) by (auto simp: Let_def)
  then obtain w where w: "Handle id (after_names id []) [65, 46, 66] = (f', Some (V4 w))" by (auto simp: pool_addr_def)
  obtain r' d where d: "route id (Some (demo_router f')) (mapped_form w, 443) = (r', d)" by fastforce
  let ?s = "\<lparr>rules = [zero_rule\<lparr>rKind := KindDomainSuffix, rAction := Direct, rDomain := [98]\<rparr>], countries = None\<rparr>"
  have r: "rt_rules (demo_router f') = Some ?s" "rt_dns (demo_router f') = Some f'" by (simp_all add: demo_router_def newRouter_def)
  have m: "rule_matches ?s (hd (rules ?s)) [97, 46, 98] fl" for fl by (simp add: rule_matches_def HasSuffix_def)
  note t = handle_routes_by_name [OF w r(2) disjI2 [OF refl] d, unfolded n]
  have "d_action d = rAction (hd (rules ?s))" using t r(1) m by (auto simp: first_match_def Cons_eq_append_conv)
  then have "d_action d = Direct" by simp
  then show ?thesis using t d w by auto
qed

lemma packed_search_exact_witness:
  "packed_Contains (=) (Some \<lparr>pcode = [67, 78], pv4 = [10, 0, 0, 0, 8, 11, 1, 0, 0, 16], pv6 = []\<rparr>) [99, 110] (Some (V4 0x0A020001))"
proof -
  let ?p = "\<lparr>pcode = [67, 78], pv4 = [10, 0, 0, 0, 8, 11, 1, 0, 0, 16], pv6 = []\<rparr>"
  have "LoadPacked id [67, 78] (packedMagic @ [1, 0, 0, 0, 0, 0, 0, 2, 0, 0, 0, 0] @ pv4 ?p) = Inr ?p" by code_simp
  moreover have "entries (pv4 ?p) 5 = [[10, 0, 0, 0, 8], [11, 1, 0, 0, 16]]" "entries (pv6 ?p) 17 = []" by code_simp+
  moreover have "\<not> entry_covers 5 [10, 0, 0, 0, 8] [11, 1, 0, 0]" "\<not> entry_covers 5 [11, 1, 0, 0, 16] [10, 0, 0, 0]" by code_simp+
  moreover have "set_covers ?p (V4 0x0A020001)" "EqualFold (=) [99, 110] (ToUpper id [67, 78])" by code_simp+
  ultimately show ?thesis using packed_search_exact [of id "[67, 78]" _ ?p "(=)" "[99, 110]" "V4 0x0A020001"]
    by (simp add: collapsed_def be_nat_def entry_bits_def)
qed

text \<open>A forgotten handle is refused; a literal address goes direct by the rule for its block.\<close>

definition demo_list :: RuleSet where
  "demo_list = \<lparr>rules = [zero_rule\<lparr>rKind := KindIPCIDR, rAction := Direct, rPrefix := PrefixFrom (V4 0x0A000000) 8\<rparr>], countries = None\<rparr>"

lemma route_never_leaks_witness:
  "\<exists>d e. snd (route id (Some (newRouter None (Some newFakeDNS))) (V4 0xC6120005, 80)) = d \<and> d_stale d \<and> d_action d = Reject
    \<and> snd (route id (Some (newRouter (Some demo_list) (Some newFakeDNS))) (V4 0x0A020001, 80)) = e \<and> d_action e = Direct"
proof -
  obtain r' d where d: "route id (Some (newRouter None (Some newFakeDNS))) (V4 0xC6120005, 80) = (r', d)" by fastforce
  obtain r'' e where e: "route id (Some (newRouter (Some demo_list) (Some newFakeDNS))) (V4 0x0A020001, 80) = (r'', e)" by fastforce
  let ?fl = "\<lparr>fDomain = [], fAddr = Some (V4 0x0A020001), fPort = 80\<rparr>"
  have "Holds (V4 0xC6120005)" "\<not> Holds (V4 0x0A020001)" by code_simp+
  moreover have "fake_Name newFakeDNS (V4 0xC6120005) = None" by (simp add: fake_Name_def newFakeDNS_def)
  ultimately have "d_stale d \<and> d_action d = Reject" "decided id (Some (newRouter (Some demo_list) (Some newFakeDNS))) ?fl e"
    using route_never_leaks [OF d] route_never_leaks [OF e] by (simp_all add: newRouter_def unmap_v4)
  moreover obtain r where r: "rules demo_list = [r]" "rAction r = Direct" by (simp add: demo_list_def)
  moreover have "rule_matches demo_list (hd (rules demo_list)) dom ?fl" for dom by code_simp
  ultimately have fm: "d_stale d \<and> d_action d = Reject" "first_match demo_list (normalizeDomain id []) ?fl (d_action e) (d_rule e)"
      "rule_matches demo_list r (normalizeDomain id []) ?fl"
    by (simp_all add: decided_def newRouter_def)
  then have "d_action e = Direct" using r by (auto simp: first_match_def Cons_eq_append_conv)
  then show ?thesis using d e fm(1) by simp
qed

end
