(* ===== verification/Accounts.thy ===== *)
theory Accounts
  imports Prelude "HOL-Library.AList" "HOL-Library.Multiset"
begin

text \<open>
  Admission of flows at the gateway (\<^verbatim>\<open>internal/pep/server.go\<close>): the live usage of each account against its limits on
  flows and on devices, and the table of sessions. What the identity store answers is an
  argument: the limits of the account, or nothing when it refuses the principal. A map whose length the code
  takes is an association list.
\<close>

section \<open>Account usage\<close>

record Principal =
  ProviderID :: string
  AccountID :: string
  DeviceID :: string
  PublicKey :: bytes

record AccountLimits =
  MaxFlows :: int
  MaxClients :: int

record accountUsage =
  uflows :: int
  udevices :: "(string \<times> int) list"

datatype accountRefusal = AccountFlowLimit | AccountClientLimit | AccountUnauthorized

definition samePrincipal :: "Principal \<Rightarrow> Principal \<Rightarrow> bool" where
  "samePrincipal a b \<longleftrightarrow> ProviderID a = ProviderID b \<and> AccountID a = AccountID b \<and> DeviceID a = DeviceID b"

definition device_count :: "(string \<times> int) list \<Rightarrow> string \<Rightarrow> int" where
  "device_count ds d = (case map_of ds d of None \<Rightarrow> 0 | Some n \<Rightarrow> n)"

definition count_flow :: "accountUsage \<Rightarrow> string \<Rightarrow> accountUsage" where
  "count_flow u d = u\<lparr>uflows := uflows u + 1, udevices := AList.update d (device_count (udevices u) d + 1) (udevices u)\<rparr>"

definition admitAccountFlow ::
  "(string \<Rightarrow> accountUsage option) \<Rightarrow> AccountLimits option \<Rightarrow> Principal \<Rightarrow> (string \<Rightarrow> accountUsage option) \<times> accountRefusal option" where
  "admitAccountFlow acc authorization who =
     (case authorization of
        None \<Rightarrow> (acc, Some AccountUnauthorized)
      | Some limits \<Rightarrow>
          (let usage = acc (AccountID who);
               flows = (case usage of None \<Rightarrow> 0 | Some u \<Rightarrow> uflows u);
               clients = (case usage of None \<Rightarrow> 0 | Some u \<Rightarrow> int (length (udevices u)));
               known = (case usage of None \<Rightarrow> False | Some u \<Rightarrow> map_of (udevices u) (DeviceID who) \<noteq> None) in
           if MaxFlows limits > 0 \<and> flows \<ge> MaxFlows limits then (acc, Some AccountFlowLimit)
           else if MaxClients limits > 0 \<and> \<not> known \<and> clients \<ge> MaxClients limits then (acc, Some AccountClientLimit)
           else
             (let u = (case usage of None \<Rightarrow> \<lparr>uflows = 0, udevices = []\<rparr> | Some u \<Rightarrow> u) in
              (acc(AccountID who \<mapsto> count_flow u (DeviceID who)), None))))"

definition releaseAccountFlow :: "(string \<Rightarrow> accountUsage option) \<Rightarrow> Principal \<Rightarrow> (string \<Rightarrow> accountUsage option)" where
  "releaseAccountFlow acc who =
     (case acc (AccountID who) of
        None \<Rightarrow> acc
      | Some u \<Rightarrow>
          (if uflows u \<le> 1 then acc(AccountID who := None)
           else
             (let u = u\<lparr>uflows := uflows u - 1\<rparr>; n = device_count (udevices u) (DeviceID who) in
              if n \<le> 1 then acc(AccountID who \<mapsto> u\<lparr>udevices := AList.delete (DeviceID who) (udevices u)\<rparr>)
              else acc(AccountID who \<mapsto> u\<lparr>udevices := AList.update (DeviceID who) (n - 1) (udevices u)\<rparr>))))"

section \<open>Sessions\<close>

text \<open>
  Flows are numbered objects. \<^verbatim>\<open>flow_final\<close> is what a tombstone keeps of a flow; \<^verbatim>\<open>tombstoned\<close> are the flows whose
  \<^verbatim>\<open>tombstone\<close> has run.
\<close>

record flow_final =
  final_flowID :: u64
  final_sendAck :: u16
  final_recvAck :: u16
  final_reserve :: bool
  final_remoteFin :: u64
  final_fin :: u64
  final_finSent :: bool
  final_remoteFinSeen :: bool
  final_abortSent :: bool
  final_finished :: bool

record sessions =
  session_table :: "(bytes \<times> nat) list"
  sfinal :: "nat \<Rightarrow> flow_final"
  scompleted :: "nat set"
  tombstoned :: "nat set"
  snext :: nat
  lingering :: "(bytes \<times> nat) list"

definition registerSession :: "int \<Rightarrow> sessions \<Rightarrow> bytes \<Rightarrow> nat \<Rightarrow> sessions \<times> bool" where
  "registerSession maxSessions s i f =
     (if int (length (session_table s)) \<ge> maxSessions then (s, False)
      else if map_of (session_table s) i \<noteq> None then (s, False)
      else (s\<lparr>session_table := AList.update i f (session_table s)\<rparr>, True))"

definition lookupSession :: "sessions \<Rightarrow> bytes \<Rightarrow> nat option" where
  "lookupSession s i = map_of (session_table s) i"

definition unregisterSession :: "sessions \<Rightarrow> bytes \<Rightarrow> nat \<Rightarrow> sessions" where
  "unregisterSession s i f = (if map_of (session_table s) i = Some f then s\<lparr>session_table := AList.delete i (session_table s)\<rparr> else s)"

text \<open>The new object of the tombstone is the next free number; its timer is put on \<^verbatim>\<open>lingering\<close>.\<close>

definition retainCompletedSession :: "sessions \<Rightarrow> bytes \<Rightarrow> nat \<Rightarrow> sessions" where
  "retainCompletedSession s i f =
     (if f \<in> tombstoned s then s
      else
        (let t = snext s;
             s = s\<lparr>tombstoned := insert f (tombstoned s), snext := t + 1,
                   sfinal := (sfinal s)(t := (sfinal s f)\<lparr>final_finished := True\<rparr>), scompleted := insert f (insert t (scompleted s))\<rparr> in
         if map_of (session_table s) i \<noteq> Some f then s
         else s\<lparr>session_table := AList.update i t (session_table s), lingering := lingering s @ [(i, t)]\<rparr>))"

definition sessions_ok :: "int \<Rightarrow> sessions \<Rightarrow> bool" where
  "sessions_ok maxSessions s \<longleftrightarrow> distinct (map fst (session_table s)) \<and> int (length (session_table s)) \<le> max 0 maxSessions \<and> (\<forall>f\<in>snd ` set (session_table s). f < snext s)"

lemma length_update_key: "distinct (map fst al) \<Longrightarrow> length (AList.update k v al) = (if k \<in> fst ` set al then length al else length al + 1)"
  by (induction al) auto

lemma update_values: "snd ` set (AList.update k v al) \<subseteq> insert v (snd ` set al)"
  by (induction al) (auto split: if_splits)

lemma delete_values: "snd ` set (AList.delete k al) \<subseteq> snd ` set al" "length (AList.delete k al) \<le> length al"
  by (auto simp: AList.delete_eq)

lemma sessions_ok_steps:
  assumes "sessions_ok n s"
  shows "f < snext s \<Longrightarrow> sessions_ok n (fst (registerSession n s i f))" "sessions_ok n (unregisterSession s i f)"
    "sessions_ok n (retainCompletedSession s i f)"
proof -
  have d: "distinct (map fst (session_table s))" and l: "int (length (session_table s)) \<le> max 0 n" and v: "\<forall>f\<in>snd ` set (session_table s). f < snext s"
    using assms by (simp_all add: sessions_ok_def)
  have upd: "\<forall>x\<in>snd ` set (AList.update i g (session_table s)). x < k" if "g < k" "snext s \<le> k" for g k
    using v update_values [of i g "session_table s"] that by fastforce
  show "sessions_ok n (fst (registerSession n s i f))" if "f < snext s"
    using d l v upd [OF that] by (auto simp: registerSession_def sessions_ok_def distinct_update length_update_key)
  show "sessions_ok n (unregisterSession s i f)"
    using d l v delete_values [of i "session_table s"] by (fastforce simp: unregisterSession_def sessions_ok_def distinct_delete)
  have "i \<in> fst ` set (session_table s)" if "map_of (session_table s) i = Some f" using that by (force dest: map_of_SomeD)
  then show "sessions_ok n (retainCompletedSession s i f)"
    using d l v upd [of "snext s" "Suc (snext s)"] less_Suc_eq
    by (auto simp: retainCompletedSession_def sessions_ok_def Let_def distinct_update length_update_key)
qed

text \<open>
  A completed session keeps its tombstone when its owner, whose clean-up runs afterwards, removes itself; the
  timer of the tombstone removes it, and neither touches a session that another flow has registered since.
\<close>

lemma tombstone_survives_owner:
  assumes "sessions_ok n s" "lookupSession s i = Some f" "f \<notin> tombstoned s"
  shows "lookupSession (unregisterSession (retainCompletedSession s i f) i f) i = Some (snext s)"
    "final_finished (sfinal (retainCompletedSession s i f) (snext s))"
    "lookupSession (unregisterSession (retainCompletedSession s i f) i (snext s)) i = None"
    "lookupSession (unregisterSession s i g) i = (if g = f then None else Some f)"
proof -
  have "(i, f) \<in> set (session_table s)" using assms(2) by (auto simp: lookupSession_def dest: map_of_SomeD)
  then have "f < snext s" using assms(1) by (force simp: sessions_ok_def)
  then show "lookupSession (unregisterSession (retainCompletedSession s i f) i f) i = Some (snext s)"
    "final_finished (sfinal (retainCompletedSession s i f) (snext s))"
    "lookupSession (unregisterSession (retainCompletedSession s i f) i (snext s)) i = None"
    "lookupSession (unregisterSession s i g) i = (if g = f then None else Some f)"
    using assms(2,3) by (auto simp: lookupSession_def unregisterSession_def retainCompletedSession_def Let_def update_conv' delete_conv')
qed

section \<open>Usage is exact\<close>

type_synonym holders = "(string \<times> string) multiset"

definition acc_flows :: "holders \<Rightarrow> string \<Rightarrow> nat" where
  "acc_flows m a = size (filter_mset (\<lambda>p. fst p = a) m)"

definition acc_devices :: "holders \<Rightarrow> string \<Rightarrow> string set" where
  "acc_devices m a = {d. (a, d) \<in># m}"

definition usage_of :: "holders \<Rightarrow> string \<Rightarrow> accountUsage \<Rightarrow> bool" where
  "usage_of m a u \<longleftrightarrow> uflows u = int (acc_flows m a) \<and> distinct (map fst (udevices u))
     \<and> (\<forall>d. map_of (udevices u) d = (if (a, d) \<in># m then Some (int (count m (a, d))) else None))"

definition usage_exact :: "(string \<Rightarrow> accountUsage option) \<Rightarrow> holders \<Rightarrow> bool" where
  "usage_exact acc m \<longleftrightarrow> (\<forall>a. if acc_flows m a = 0 then acc a = None else (\<exists>u. acc a = Some u \<and> usage_of m a u))"

lemma usage_exact_at:
  assumes "usage_exact acc m"
  shows "acc_flows m a = 0 \<Longrightarrow> acc a = None" "acc_flows m a \<noteq> 0 \<Longrightarrow> \<exists>u. acc a = Some u \<and> usage_of m a u"
  using assms unfolding usage_exact_def by (metis, metis)

lemma devices_length:
  assumes "usage_of m a u"
  shows "length (udevices u) = card (acc_devices m a)"
proof -
  have "fst ` set (udevices u) = acc_devices m a"
    unfolding dom_map_of_conv_image_fst [symmetric] using assms by (auto simp: usage_of_def acc_devices_def dom_def simp del: map_of_eq_None_iff)
  moreover have "length (udevices u) = card (fst ` set (udevices u))"
    using assms distinct_card [of "map fst (udevices u)"] by (simp add: usage_of_def)
  ultimately show ?thesis by simp
qed

lemma acc_flows_zero: "acc_flows m a = 0 \<longleftrightarrow> acc_devices m a = {}"
  by (auto simp: acc_flows_def acc_devices_def filter_mset_eq_conv) 

lemma acc_flows_add: "acc_flows (add_mset (a, d) m) b = (if b = a then acc_flows m b + 1 else acc_flows m b)"
  by (auto simp: acc_flows_def)

lemma usage_other: "b \<noteq> a \<Longrightarrow> usage_of (add_mset (a, d) m) b u \<longleftrightarrow> usage_of m b u"
  by (simp add: usage_of_def acc_flows_add)

lemma count_flow_exact:
  assumes "usage_of m a u \<or> (acc_flows m a = 0 \<and> u = \<lparr>uflows = 0, udevices = []\<rparr>)"
  shows "usage_of (add_mset (a, d) m) a (count_flow u d)"
proof -
  have none: "acc_flows m a = 0 \<Longrightarrow> (a, e) \<notin># m" for e by (simp add: acc_flows_zero acc_devices_def)
  have u: "uflows u = int (acc_flows m a)" "distinct (map fst (udevices u))"
      "\<And>e. map_of (udevices u) e = (if (a, e) \<in># m then Some (int (count m (a, e))) else None)"
    using assms none by (auto simp: usage_of_def)
  have c: "device_count (udevices u) d = int (count m (a, d))" using u(3) [of d] by (simp add: device_count_def not_in_iff)
  show ?thesis unfolding usage_of_def using u(1,2)
    by (simp add: count_flow_def acc_flows_add distinct_update update_conv' u(3) c)
qed

lemma admit_exact:
  assumes "usage_exact acc m" "admitAccountFlow acc authz p = (acc', None)"
  shows "usage_exact acc' (add_mset (AccountID p, DeviceID p) m)"
proof -
  let ?a = "AccountID p" and ?d = "DeviceID p"
  let ?u = "case acc ?a of None \<Rightarrow> \<lparr>uflows = 0, udevices = []\<rparr> | Some u \<Rightarrow> u"
  have acc': "acc' = acc(?a \<mapsto> count_flow ?u ?d)"
    using assms(2) by (auto simp: admitAccountFlow_def Let_def split: option.splits if_splits)
  have "usage_of m ?a ?u \<or> (acc_flows m ?a = 0 \<and> ?u = \<lparr>uflows = 0, udevices = []\<rparr>)"
    using usage_exact_at [OF assms(1), of ?a] by (cases "acc_flows m ?a = 0") auto
  then have "usage_of (add_mset (?a, ?d) m) ?a (count_flow ?u ?d)" by (rule count_flow_exact)
  then show ?thesis using assms(1) unfolding usage_exact_def acc' by (auto simp: acc_flows_add usage_other)
qed

lemma release_exact:
  assumes "usage_exact acc (add_mset (AccountID p, DeviceID p) m)"
  shows "usage_exact (releaseAccountFlow acc p) m"
proof -
  let ?a = "AccountID p" and ?d = "DeviceID p" and ?m = "add_mset (AccountID p, DeviceID p) m"
  have n: "acc_flows ?m ?a = acc_flows m ?a + 1" by (simp add: acc_flows_add)
  then obtain u where u: "acc ?a = Some u" "usage_of ?m ?a u" using usage_exact_at(2) [OF assms, of ?a] by auto
  have fl: "uflows u = int (acc_flows m ?a) + 1" and di: "distinct (map fst (udevices u))"
    and dm: "\<And>e. map_of (udevices u) e = (if (?a, e) \<in># ?m then Some (int (count ?m (?a, e))) else None)"
    using u(2) n by (simp_all add: usage_of_def)
  have c: "device_count (udevices u) ?d = int (count m (?a, ?d)) + 1" using dm [of ?d] by (simp add: device_count_def)
  have others: "if acc_flows m b = 0 then acc b = None else \<exists>u. acc b = Some u \<and> usage_of m b u" if "b \<noteq> ?a" for b
    using usage_exact_at [OF assms, of b] usage_other [OF that] that by (auto simp: acc_flows_add)
  show ?thesis
  proof (cases "acc_flows m ?a = 0")
    case True
    then have "releaseAccountFlow acc p = acc(?a := None)" using u(1) fl by (simp add: releaseAccountFlow_def)
    then show ?thesis using others True by (simp add: usage_exact_def)
  next
    case False
    define v where "v = (if (?a, ?d) \<notin># m then u\<lparr>uflows := uflows u - 1, udevices := AList.delete ?d (udevices u)\<rparr>
        else u\<lparr>uflows := uflows u - 1, udevices := AList.update ?d (device_count (udevices u) ?d - 1) (udevices u)\<rparr>)"
    have "releaseAccountFlow acc p = acc(?a \<mapsto> v)" using u(1) fl c False by (simp add: releaseAccountFlow_def Let_def v_def count_greater_zero_iff [symmetric] del: count_greater_zero_iff)
    moreover have "usage_of m ?a v"
      using fl di by (auto simp: usage_of_def v_def distinct_update distinct_delete update_conv' delete_conv' dm c not_in_iff)
    ultimately show ?thesis using others False by (simp add: usage_exact_def)
  qed
qed

section \<open>Limits hold\<close>

text \<open>
  Flows open, each with whatever the identity store answers at that moment, and end, each once. The limits of an account can change
  between opens; \<^verbatim>\<open>used a\<close> are those under which flows of account \<^verbatim>\<open>a\<close> have been admitted so far.
\<close>

inductive acct_run :: "(string \<Rightarrow> AccountLimits set) \<Rightarrow> (string \<Rightarrow> accountUsage option) \<Rightarrow> holders \<Rightarrow> bool" where
  start: "acct_run (\<lambda>_. {}) (\<lambda>_. None) {#}"
| opened: "acct_run used acc m \<Longrightarrow> admitAccountFlow acc (Some limits) p = (acc', None)
    \<Longrightarrow> acct_run (used(AccountID p := insert limits (used (AccountID p)))) acc' (add_mset (AccountID p, DeviceID p) m)"
| refused: "acct_run used acc m \<Longrightarrow> admitAccountFlow acc authz p = (acc', Some e) \<Longrightarrow> acct_run used acc' m"
| ended: "acct_run used acc (add_mset (AccountID p, DeviceID p) m) \<Longrightarrow> acct_run used (releaseAccountFlow acc p) m"

lemma refused_unchanged: "admitAccountFlow acc authz p = (acc', Some e) \<Longrightarrow> acc' = acc"
  by (auto simp: admitAccountFlow_def Let_def split: option.splits if_splits)

lemma run_exact: "acct_run used acc m \<Longrightarrow> usage_exact acc m"
proof (induction rule: acct_run.induct)
  case start
  show ?case by (simp add: usage_exact_def acc_flows_def)
next
  case (opened used acc m limits p acc')
  then show ?case using admit_exact by blast
next
  case (refused used acc m authz p acc' e)
  then show ?case using refused_unchanged by blast
next
  case (ended used acc p m)
  then show ?case using release_exact by blast
qed

lemma admit_answer:
  assumes "usage_exact acc m"
  shows "snd (admitAccountFlow acc (Some limits) p) =
    (if 0 < MaxFlows limits \<and> MaxFlows limits \<le> int (acc_flows m (AccountID p)) then Some AccountFlowLimit
     else if 0 < MaxClients limits \<and> DeviceID p \<notin> acc_devices m (AccountID p) \<and> MaxClients limits \<le> int (card (acc_devices m (AccountID p)))
     then Some AccountClientLimit else None)"
proof (cases "acc_flows m (AccountID p) = 0")
  case True
  then have "acc (AccountID p) = None" "acc_devices m (AccountID p) = {}" using assms by (auto simp: usage_exact_def acc_flows_zero)
  then show ?thesis using True by (simp add: admitAccountFlow_def Let_def)
next
  case False
  then obtain u where u: "acc (AccountID p) = Some u" "usage_of m (AccountID p) u" using usage_exact_at(2) [OF assms] by blast
  have "map_of (udevices u) (DeviceID p) = None \<longleftrightarrow> DeviceID p \<notin> acc_devices m (AccountID p)" "uflows u = int (acc_flows m (AccountID p))"
    using u(2) by (simp_all add: usage_of_def acc_devices_def)
  then show ?thesis using u devices_length [OF u(2)] by (simp add: admitAccountFlow_def Let_def)
qed

lemma devices_add: "acc_devices (add_mset (a, d) m) b = (if b = a then insert d (acc_devices m b) else acc_devices m b)"
  by (auto simp: acc_devices_def)

lemma finite_devices [simp]: "finite (acc_devices m a)"
proof -
  have "acc_devices m a \<subseteq> snd ` set_mset m" by (force simp: acc_devices_def)
  then show ?thesis by (rule finite_subset) simp
qed

lemma admit_bounds:
  assumes "usage_exact acc m" "admitAccountFlow acc (Some limits) p = (acc', None)" "m' = add_mset (AccountID p, DeviceID p) m"
  shows "0 < MaxFlows limits \<longrightarrow> int (acc_flows m' (AccountID p)) \<le> MaxFlows limits"
    "0 < MaxClients limits \<longrightarrow> acc_devices m' (AccountID p) = acc_devices m (AccountID p) \<or> int (card (acc_devices m' (AccountID p))) \<le> MaxClients limits"
proof -
  let ?a = "AccountID p" and ?d = "DeviceID p"
  have ans: "\<not> (0 < MaxFlows limits \<and> MaxFlows limits \<le> int (acc_flows m ?a))"
    "\<not> (0 < MaxClients limits \<and> ?d \<notin> acc_devices m ?a \<and> MaxClients limits \<le> int (card (acc_devices m ?a)))"
    using admit_answer [OF assms(1), of limits p] assms(2) by (auto split: if_splits)
  then show "0 < MaxFlows limits \<longrightarrow> int (acc_flows m' ?a) \<le> MaxFlows limits" using assms(3) by (auto simp: acc_flows_add)
  show "0 < MaxClients limits \<longrightarrow> acc_devices m' ?a = acc_devices m ?a \<or> int (card (acc_devices m' ?a)) \<le> MaxClients limits"
    using ans(2) assms(3) by (cases "?d \<in> acc_devices m ?a") (auto simp: devices_add insert_absorb)
qed

lemma fewer_bounds:
  "int (acc_flows (add_mset x m) a) \<le> k \<Longrightarrow> int (acc_flows m a) \<le> k"
  "int (card (acc_devices (add_mset x m) a)) \<le> k \<Longrightarrow> int (card (acc_devices m a)) \<le> k"
proof -
  obtain b d where [simp]: "x = (b, d)" by (cases x)
  have "acc_flows m a \<le> acc_flows (add_mset x m) a" "card (acc_devices m a) \<le> card (acc_devices (add_mset x m) a)"
    by (auto simp: acc_flows_add devices_add intro!: card_mono)
  then show "int (acc_flows (add_mset x m) a) \<le> k \<Longrightarrow> int (acc_flows m a) \<le> k"
    "int (card (acc_devices (add_mset x m) a)) \<le> k \<Longrightarrow> int (card (acc_devices m a)) \<le> k" by simp_all
qed

lemma run_flows_within:
  "acct_run used acc m \<Longrightarrow> (\<And>l. l \<in> used a \<Longrightarrow> 0 < MaxFlows l \<and> MaxFlows l \<le> k) \<Longrightarrow> int (acc_flows m a) \<le> max 0 k"
proof (induction rule: acct_run.induct)
  case start
  show ?case by (simp add: acc_flows_def)
next
  case (opened used acc m limits p acc')
  show ?case
  proof (cases "a = AccountID p")
    case True
    then have "0 < MaxFlows limits \<and> MaxFlows limits \<le> k" using opened.prems by simp
    then show ?thesis using admit_bounds(1) [OF run_exact [OF opened.hyps(1)] opened.hyps(2) refl] True by simp
  next
    case False
    then show ?thesis using opened.IH opened.prems by (simp add: acc_flows_add)
  qed
next
  case (refused used acc m authz p acc' e)
  then show ?case by blast
next
  case (ended used acc p m)
  then show ?case using fewer_bounds(1) by blast
qed

lemma run_clients_within:
  "acct_run used acc m \<Longrightarrow> (\<And>l. l \<in> used a \<Longrightarrow> 0 < MaxClients l \<and> MaxClients l \<le> k) \<Longrightarrow> int (card (acc_devices m a)) \<le> max 0 k"
proof (induction rule: acct_run.induct)
  case start
  show ?case by (simp add: acc_devices_def)
next
  case (opened used acc m limits p acc')
  show ?case
  proof (cases "a = AccountID p")
    case True
    then have l: "0 < MaxClients limits \<and> MaxClients limits \<le> k" "\<And>l. l \<in> used a \<Longrightarrow> 0 < MaxClients l \<and> MaxClients l \<le> k"
      using opened.prems by auto
    then show ?thesis using admit_bounds(2) [OF run_exact [OF opened.hyps(1)] opened.hyps(2) refl] opened.IH [OF l(2)] True by auto
  next
    case False
    then show ?thesis using opened.IH opened.prems by (simp add: devices_add)
  qed
next
  case (refused used acc m authz p acc' e)
  then show ?case by blast
next
  case (ended used acc p m)
  then show ?case using fewer_bounds(2) by blast
qed

text \<open>
  C37 (refinement). The gateway's account table is the multiset of open flows. After any opens, refusals and
  ends, with limits that may change at any time, the table has an entry for exactly the accounts with an open flow, with
  the number of its flows and, for each device, how many it holds. An open is refused for the flow limit exactly when the
  account has that many open flows or more, and for the device limit exactly when the device holds none and that many
  others or more hold some; a refusal leaves the table as it was. An open that is admitted leaves the account within the flow limit it
  was admitted under, and adds no device or leaves the account within that device limit. So the account never has more flows, or more
  devices, than the largest limit under which it was admitted anything, when none of these was unlimited; lowering a limit closes nothing.
\<close>

theorem account_usage_exact:
  assumes "acct_run used acc m"
  shows "(acc a = None \<longleftrightarrow> acc_flows m a = 0)
    \<and> (\<forall>u. acc a = Some u \<longrightarrow> uflows u = int (acc_flows m a)
        \<and> (\<forall>d. device_count (udevices u) d = int (count m (a, d))) \<and> length (udevices u) = card (acc_devices m a))
    \<and> snd (admitAccountFlow acc (Some limits) p) =
        (if 0 < MaxFlows limits \<and> MaxFlows limits \<le> int (acc_flows m (AccountID p)) then Some AccountFlowLimit
         else if 0 < MaxClients limits \<and> DeviceID p \<notin> acc_devices m (AccountID p) \<and> MaxClients limits \<le> int (card (acc_devices m (AccountID p)))
         then Some AccountClientLimit else None)
    \<and> (\<forall>acc' e. admitAccountFlow acc authz p = (acc', Some e) \<longrightarrow> acc' = acc)
    \<and> (\<forall>acc'. admitAccountFlow acc (Some limits) p = (acc', None) \<longrightarrow>
        (let m' = add_mset (AccountID p, DeviceID p) m; b = AccountID p in
         (0 < MaxFlows limits \<longrightarrow> int (acc_flows m' b) \<le> MaxFlows limits)
         \<and> (0 < MaxClients limits \<longrightarrow> acc_devices m' b = acc_devices m b \<or> int (card (acc_devices m' b)) \<le> MaxClients limits)))
    \<and> (\<forall>k. (\<forall>l\<in>used a. 0 < MaxFlows l \<and> MaxFlows l \<le> k) \<longrightarrow> int (acc_flows m a) \<le> max 0 k)
    \<and> (\<forall>k. (\<forall>l\<in>used a. 0 < MaxClients l \<and> MaxClients l \<le> k) \<longrightarrow> int (card (acc_devices m a)) \<le> max 0 k)"
proof -
  have ex: "usage_exact acc m" by (rule run_exact [OF assms])
  have "acc a = None \<longleftrightarrow> acc_flows m a = 0" using ex unfolding usage_exact_def by (metis option.distinct(1))
  moreover have "usage_of m a u" if "acc a = Some u" for u using ex that unfolding usage_exact_def by (metis option.distinct(1) option.inject)
  then have "\<forall>u. acc a = Some u \<longrightarrow> uflows u = int (acc_flows m a)
      \<and> (\<forall>d. device_count (udevices u) d = int (count m (a, d))) \<and> length (udevices u) = card (acc_devices m a)"
    using devices_length by (auto simp: usage_of_def device_count_def not_in_iff)
  moreover have "int (acc_flows m a) \<le> max 0 k" if "\<forall>l\<in>used a. 0 < MaxFlows l \<and> MaxFlows l \<le> k" for k
    using run_flows_within [OF assms] that by blast
  moreover have "int (card (acc_devices m a)) \<le> max 0 k" if "\<forall>l\<in>used a. 0 < MaxClients l \<and> MaxClients l \<le> k" for k
    using run_clients_within [OF assms] that by blast
  ultimately show ?thesis using admit_answer [OF ex] refused_unchanged admit_bounds [OF ex _ refl] unfolding Let_def by auto
qed

definition demo_principal :: "string \<Rightarrow> Principal" where
  "demo_principal d = \<lparr>ProviderID = ''p'', AccountID = ''a'', DeviceID = d, PublicKey = []\<rparr>"

text \<open>Two flows admitted without limits stay when the flow limit is lowered to one, and a third is refused.\<close>

lemma account_usage_exact_witness:
  "\<exists>used acc. acct_run used acc {#(''a'', ''d''), (''a'', ''d'')#} \<and> acc_flows {#(''a'', ''d''), (''a'', ''d'')#} ''a'' = 2
    \<and> snd (admitAccountFlow acc (Some \<lparr>MaxFlows = 1, MaxClients = 0\<rparr>) (demo_principal ''d'')) = Some AccountFlowLimit"
proof -
  let ?l = "\<lparr>MaxFlows = 0, MaxClients = 0\<rparr>" and ?p = "demo_principal ''d''" and ?m = "{#(''a'', ''d''), (''a'', ''d'')#}"
  obtain acc1 where a1: "admitAccountFlow (\<lambda>_. None) (Some ?l) ?p = (acc1, None)" by (simp add: admitAccountFlow_def Let_def)
  obtain acc where a2: "admitAccountFlow acc1 (Some ?l) ?p = (acc, None)" by (simp add: admitAccountFlow_def Let_def)
  obtain used where run: "acct_run used acc ?m"
    using acct_run.opened [OF acct_run.opened [OF acct_run.start a1] a2] by (auto simp: demo_principal_def)
  have n: "acc_flows ?m ''a'' = 2" by (simp add: acc_flows_def)
  then have "snd (admitAccountFlow acc (Some \<lparr>MaxFlows = 1, MaxClients = 0\<rparr>) ?p) = Some AccountFlowLimit"
    using account_usage_exact [OF run, of "''a''" "\<lparr>MaxFlows = 1, MaxClients = 0\<rparr>" ?p] by (simp add: demo_principal_def)
  then show ?thesis using run n by blast
qed

end
