(* ===== verification/Relay.thy ===== *)
theory Relay
  imports Accounts Session
begin

text \<open>
  The relay sockets that outlive a lane (\<^verbatim>\<open>internal/pep/udprelay.go\<close>). A socket is its number; \<^verbatim>\<open>rclosed\<close> collects
  the sockets the store has closed and \<^verbatim>\<open>rsweepers\<close> counts the sweeping goroutines it has running. The
  current time is an argument of every call, in nanoseconds. A nil store is \<^verbatim>\<open>None\<close>.
\<close>

section \<open>The store\<close>

record retainedRelay =
  rr_conn :: nat
  rr_expires :: int
  rr_principal :: Principal

record udpRelayStore =
  rgrace :: int
  rmaximum :: int
  relays :: "(bytes \<times> retainedRelay) list"
  rsweeping :: bool
  rclosed :: "nat list"
  rsweepers :: nat

definition udpRelayGrace :: int where "udpRelayGrace = 30 * 10 ^ 9"
definition udpRelaysRetained :: int where "udpRelaysRetained = 256"

definition newUDPRelayStoreWith :: "int \<Rightarrow> int \<Rightarrow> udpRelayStore" where
  "newUDPRelayStoreWith grace maximum =
     \<lparr>rgrace = grace, rmaximum = maximum, relays = [], rsweeping = False, rclosed = [], rsweepers = 0\<rparr>"

definition newUDPRelayStore :: udpRelayStore where
  "newUDPRelayStore = newUDPRelayStoreWith udpRelayGrace udpRelaysRetained"

definition relay_expired :: "int \<Rightarrow> bytes \<times> retainedRelay \<Rightarrow> bool" where
  "relay_expired now e \<longleftrightarrow> now > rr_expires (snd e)"

definition relay_sweepLocked :: "udpRelayStore \<Rightarrow> int \<Rightarrow> udpRelayStore" where
  "relay_sweepLocked s now =
     s\<lparr>relays := filter (\<lambda>e. \<not> relay_expired now e) (relays s),
       rclosed := rclosed s @ map (\<lambda>e. rr_conn (snd e)) (filter (relay_expired now) (relays s))\<rparr>"

definition relay_retain :: "udpRelayStore option \<Rightarrow> int \<Rightarrow> bytes \<Rightarrow> Principal \<Rightarrow> nat option \<Rightarrow> udpRelayStore option" where
  "relay_retain s now token who conn =
     (case (s, conn) of
        (Some st, Some c) \<Rightarrow>
          (let st = relay_sweepLocked st now in
           if int (length (relays st)) \<ge> rmaximum st then Some (st\<lparr>rclosed := rclosed st @ [c]\<rparr>)
           else
             Some (st\<lparr>relays := AList.update token \<lparr>rr_conn = c, rr_expires = now + rgrace st, rr_principal = who\<rparr> (relays st),
                      rsweeping := True, rsweepers := (if \<not> rsweeping st then rsweepers st + 1 else rsweepers st)\<rparr>))
      | _ \<Rightarrow> s)"

definition sweep_interval :: "udpRelayStore \<Rightarrow> int" where
  "sweep_interval s = max (10 ^ 6) (if rgrace s < 0 then - ((- rgrace s) div 2) else rgrace s div 2)"

definition sweep_tick :: "udpRelayStore \<Rightarrow> int \<Rightarrow> udpRelayStore" where
  "sweep_tick s now =
     (let s = relay_sweepLocked s now in
      if relays s = [] then s\<lparr>rsweeping := False, rsweepers := rsweepers s - 1\<rparr> else s)"

definition relay_claim :: "udpRelayStore option \<Rightarrow> int \<Rightarrow> bytes \<Rightarrow> Principal \<Rightarrow> udpRelayStore option \<times> nat option" where
  "relay_claim s now token who =
     (case s of
        None \<Rightarrow> (None, None)
      | Some st \<Rightarrow>
          (if length token \<noteq> UDPResumeTokenSize then (Some st, None)
           else
             (let st = relay_sweepLocked st now in
              case map_of (relays st) token of
                None \<Rightarrow> (Some st, None)
              | Some held \<Rightarrow>
                  (let st = st\<lparr>relays := AList.delete token (relays st)\<rparr> in
                   if now > rr_expires held \<or> \<not> samePrincipal (rr_principal held) who
                   then (Some (st\<lparr>rclosed := rclosed st @ [rr_conn held]\<rparr>), None)
                   else (Some st, Some (rr_conn held))))))"

definition relay_closeAll :: "udpRelayStore \<Rightarrow> udpRelayStore" where
  "relay_closeAll s = s\<lparr>relays := [], rclosed := rclosed s @ map (\<lambda>e. rr_conn (snd e)) (relays s)\<rparr>"

definition relay_retained :: "udpRelayStore option \<Rightarrow> nat" where
  "relay_retained s = (case s of None \<Rightarrow> 0 | Some st \<Rightarrow> length (relays st))"

abbreviation held_conns :: "udpRelayStore \<Rightarrow> nat list" where
  "held_conns s \<equiv> map (\<lambda>e. rr_conn (snd e)) (relays s)"

section \<open>Runs\<close>

text \<open>
  Associations park the open sockets they own under tokens of sixteen random bytes, which do not repeat; replacements
  claim, the sweeper ticks, and the server shuts down. \<^verbatim>\<open>parked\<close> and \<^verbatim>\<open>reclaimed\<close> are the sockets given to
  and got from the store.
\<close>

record relay_sys =
  rstore :: udpRelayStore
  rnow :: int
  parked :: "nat list"
  reclaimed :: "nat list"

inductive relay_step :: "relay_sys \<Rightarrow> relay_sys \<Rightarrow> bool" where
  park: "rnow s \<le> t \<Longrightarrow> length token = UDPResumeTokenSize \<Longrightarrow> token \<notin> fst ` set (relays (rstore s)) \<Longrightarrow> c \<notin> set (held_conns (rstore s)) \<union> set (rclosed (rstore s))
    \<Longrightarrow> relay_retain (Some (rstore s)) t token who (Some c) = Some st
    \<Longrightarrow> relay_step s (s\<lparr>rstore := st, rnow := t, parked := parked s @ [c]\<rparr>)"
| claimed: "rnow s \<le> t \<Longrightarrow> relay_claim (Some (rstore s)) t token who = (Some st, Some c)
    \<Longrightarrow> relay_step s (s\<lparr>rstore := st, rnow := t, reclaimed := reclaimed s @ [c]\<rparr>)"
| not_claimed: "rnow s \<le> t \<Longrightarrow> relay_claim (Some (rstore s)) t token who = (Some st, None)
    \<Longrightarrow> relay_step s (s\<lparr>rstore := st, rnow := t\<rparr>)"
| tick: "rnow s \<le> t \<Longrightarrow> 0 < rsweepers (rstore s) \<Longrightarrow> relay_step s (s\<lparr>rstore := sweep_tick (rstore s) t, rnow := t\<rparr>)"
| shutdown: "rnow s \<le> t \<Longrightarrow> relay_step s (s\<lparr>rstore := relay_closeAll (rstore s), rnow := t\<rparr>)"

inductive relay_reachable :: "int \<Rightarrow> int \<Rightarrow> relay_sys \<Rightarrow> bool" for grace maximum where
  init: "relay_reachable grace maximum \<lparr>rstore = newUDPRelayStoreWith grace maximum, rnow = t0, parked = [], reclaimed = []\<rparr>"
| step: "relay_reachable grace maximum s \<Longrightarrow> relay_step s s' \<Longrightarrow> relay_reachable grace maximum s'"

definition relay_ok :: "int \<Rightarrow> int \<Rightarrow> udpRelayStore \<Rightarrow> bool" where
  "relay_ok grace maximum s \<longleftrightarrow> rgrace s = grace \<and> rmaximum s = maximum \<and> distinct (map fst (relays s)) \<and> int (length (relays s)) \<le> max 0 maximum
     \<and> (relays s \<noteq> [] \<longrightarrow> rsweeping s) \<and> rsweepers s = (if rsweeping s then 1 else 0)"

definition ledger :: "relay_sys \<Rightarrow> bool" where
  "ledger s \<longleftrightarrow> distinct (held_conns (rstore s) @ rclosed (rstore s))
     \<and> mset (parked s) = mset (held_conns (rstore s)) + mset (rclosed (rstore s)) + mset (reclaimed s)"

lemma sweep_mset:
  "mset (held_conns (relay_sweepLocked s now)) + mset (rclosed (relay_sweepLocked s now)) = mset (held_conns s) + mset (rclosed s)"
proof -
  have "mset (filter (\<lambda>e. \<not> relay_expired now e) (relays s)) + mset (filter (relay_expired now) (relays s)) = mset (relays s)"
    using multiset_partition [of "mset (relays s)" "relay_expired now"] by (simp add: add.commute)
  then have "image_mset (\<lambda>e. rr_conn (snd e)) (mset (filter (\<lambda>e. \<not> relay_expired now e) (relays s)))
      + image_mset (\<lambda>e. rr_conn (snd e)) (mset (filter (relay_expired now) (relays s))) = mset (held_conns s)"
    by (metis image_mset_union mset_map)
  then show ?thesis by (simp add: relay_sweepLocked_def add.commute add.left_commute)
qed

lemma sweep_keys: "set (relays (relay_sweepLocked s now)) \<subseteq> set (relays s)" "length (relays (relay_sweepLocked s now)) \<le> length (relays s)"
  by (auto simp: relay_sweepLocked_def)

lemma sweep_fields [simp]:
  "rgrace (relay_sweepLocked s now) = rgrace s" "rmaximum (relay_sweepLocked s now) = rmaximum s"
  "rsweeping (relay_sweepLocked s now) = rsweeping s" "rsweepers (relay_sweepLocked s now) = rsweepers s"
  by (simp_all add: relay_sweepLocked_def)

lemma sweep_ok: "relay_ok g m s \<Longrightarrow> relay_ok g m (relay_sweepLocked s now)"
proof -
  assume ok: "relay_ok g m s"
  have "distinct (map fst (relays (relay_sweepLocked s now)))" using ok by (simp add: relay_ok_def relay_sweepLocked_def distinct_map_filter)
  moreover have "relays (relay_sweepLocked s now) \<noteq> [] \<longrightarrow> relays s \<noteq> []" by (auto simp: relay_sweepLocked_def)
  ultimately show ?thesis using ok sweep_keys(2) [of s now] unfolding relay_ok_def by (auto intro: order_trans)
qed

lemma delete_mset:
  assumes "distinct (map fst al)" "map_of al k = Some v"
  shows "mset al = add_mset (k, v) (mset (AList.delete k al))"
  using assms
proof (induction al)
  case (Cons x al)
  show ?case
  proof (cases "fst x = k")
    case True
    then have "AList.delete k al = al" using Cons.prems(1) by (metis delete_id distinct.simps(2) list.simps(9) list.set_map)
    then show ?thesis using True Cons.prems(2) by (cases x) simp
  next
    case False
    then show ?thesis using Cons by (cases x) (simp add: add_mset_commute)
  qed
qed simp

lemma update_new: "k \<notin> fst ` set al \<Longrightarrow> AList.update k v al = al @ [(k, v)]"
  by (induction al) auto

lemma distinct_by_mset: "mset xs = mset ys \<Longrightarrow> distinct xs = distinct ys"
  by (rule mset_eq_imp_distinct_iff)

lemma sweep_ledger: "ledger s \<Longrightarrow> ledger (s\<lparr>rstore := relay_sweepLocked (rstore s) t\<rparr>)"
  using sweep_mset [of "rstore s" t] distinct_by_mset [of "held_conns (relay_sweepLocked (rstore s) t) @ rclosed (relay_sweepLocked (rstore s) t)"
      "held_conns (rstore s) @ rclosed (rstore s)"]
  by (simp add: ledger_def del: distinct_append)

lemma retain_cases:
  assumes "relay_retain (Some s) t token who (Some c) = Some st"
  shows "(int (length (relays (relay_sweepLocked s t))) \<ge> rmaximum s \<and> st = (relay_sweepLocked s t)\<lparr>rclosed := rclosed (relay_sweepLocked s t) @ [c]\<rparr>)
    \<or> (int (length (relays (relay_sweepLocked s t))) < rmaximum s
       \<and> st = (relay_sweepLocked s t)\<lparr>relays := AList.update token \<lparr>rr_conn = c, rr_expires = t + rgrace s, rr_principal = who\<rparr> (relays (relay_sweepLocked s t)),
            rsweeping := True, rsweepers := (if \<not> rsweeping s then rsweepers s + 1 else rsweepers s)\<rparr>)"
  using assms by (auto simp: relay_retain_def Let_def split: if_splits)

lemma retain_ok:
  assumes "relay_ok g m s" "relay_retain (Some s) t token who (Some c) = Some st" "token \<notin> fst ` set (relays s)"
  shows "relay_ok g m st"
proof -
  note ok = sweep_ok [OF assms(1), of t]
  have k: "token \<notin> fst ` set (relays (relay_sweepLocked s t))" using assms(3) sweep_keys(1) by blast
  have sw: "rsweepers s = (if rsweeping s then 1 else 0)" "rmaximum s = m" using assms(1) by (simp_all add: relay_ok_def)
  from retain_cases [OF assms(2)] show ?thesis using ok sw k
    by (elim disjE) (auto simp: relay_ok_def update_new)
qed

lemma retain_ledger:
  assumes "ledger s" "relay_retain (Some (rstore s)) t token who (Some c) = Some st" "token \<notin> fst ` set (relays (rstore s))"
    "c \<notin> set (held_conns (rstore s)) \<union> set (rclosed (rstore s))"
  shows "ledger (s\<lparr>rstore := st, rnow := t, parked := parked s @ [c]\<rparr>)"
proof -
  let ?s = "relay_sweepLocked (rstore s) t"
  have l: "distinct (held_conns ?s @ rclosed ?s)" "mset (parked s) = mset (held_conns ?s) + mset (rclosed ?s) + mset (reclaimed s)"
    using sweep_ledger [OF assms(1), of t] by (simp_all add: ledger_def)
  have k: "token \<notin> fst ` set (relays ?s)" using assms(3) sweep_keys(1) by blast
  have "set_mset (mset (held_conns ?s) + mset (rclosed ?s)) = set_mset (mset (held_conns (rstore s)) + mset (rclosed (rstore s)))"
    by (simp only: sweep_mset)
  then have c: "c \<notin> set (held_conns ?s) \<union> set (rclosed ?s)" using assms(4) by simp
  from retain_cases [OF assms(2)] show ?thesis using l c k
    by (elim disjE) (auto simp: ledger_def update_new)
qed

lemma claim_cases:
  assumes "relay_claim (Some s) t token who = (Some st, res)"
  obtains (short) "st = s" "res = None"
  | (unknown) "st = relay_sweepLocked s t" "res = None" "map_of (relays (relay_sweepLocked s t)) token = None"
  | (wrong) held where "map_of (relays (relay_sweepLocked s t)) token = Some held" "\<not> samePrincipal (rr_principal held) who" "res = None"
      "st = (relay_sweepLocked s t)\<lparr>relays := AList.delete token (relays (relay_sweepLocked s t)), rclosed := rclosed (relay_sweepLocked s t) @ [rr_conn held]\<rparr>"
  | (right) held where "map_of (relays (relay_sweepLocked s t)) token = Some held" "samePrincipal (rr_principal held) who" "res = Some (rr_conn held)"
      "st = (relay_sweepLocked s t)\<lparr>relays := AList.delete token (relays (relay_sweepLocked s t))\<rparr>"
proof -
  have alive: "t \<le> rr_expires held" if "map_of (relays (relay_sweepLocked s t)) token = Some held" for held
    using map_of_SomeD [OF that] by (auto simp: relay_sweepLocked_def relay_expired_def)
  show thesis
  proof (cases "length token = UDPResumeTokenSize")
    case False
    then show ?thesis using assms by (intro short) (simp_all add: relay_claim_def)
  next
    case len: True
    show ?thesis
    proof (cases "map_of (relays (relay_sweepLocked s t)) token")
      case None
      then show ?thesis using assms len by (intro unknown) (simp_all add: relay_claim_def Let_def)
    next
      case (Some held)
      then have "\<not> t > rr_expires held" using alive by (simp add: not_less)
      then show ?thesis using assms len Some right [OF Some] wrong [OF Some]
        by (cases "samePrincipal (rr_principal held) who") (simp_all add: relay_claim_def Let_def)
    qed
  qed
qed

lemma delete_ok: "relay_ok g m s \<Longrightarrow> relay_ok g m (s\<lparr>relays := AList.delete token (relays s), rclosed := x\<rparr>)"
  using length_delete_le [of token "relays s"] by (auto simp: relay_ok_def distinct_delete)

lemma claim_ok:
  assumes "relay_ok g m s" "relay_claim (Some s) t token who = (Some st, res)"
  shows "relay_ok g m st"
  using assms(2)
proof (cases rule: claim_cases)
  case (right held)
  then show ?thesis using delete_ok [OF sweep_ok [OF assms(1), of t], where x = "rclosed (relay_sweepLocked s t)" and token = token] by simp
qed (use assms(1) sweep_ok delete_ok in simp_all)

lemma claim_ledger:
  assumes "ledger s" "relay_ok g m (rstore s)" "relay_claim (Some (rstore s)) t token who = (Some st, res)"
  shows "ledger (s\<lparr>rstore := st, rnow := t, reclaimed := reclaimed s @ (case res of None \<Rightarrow> [] | Some c \<Rightarrow> [c])\<rparr>)"
proof -
  let ?s = "relay_sweepLocked (rstore s) t"
  have l: "distinct (held_conns ?s @ rclosed ?s)" "mset (parked s) = mset (held_conns ?s) + mset (rclosed ?s) + mset (reclaimed s)"
    using sweep_ledger [OF assms(1), of t] by (simp_all add: ledger_def)
  have d: "distinct (map fst (relays ?s))" using sweep_ok [OF assms(2)] by (simp add: relay_ok_def)
  have del: "mset (held_conns ?s) = add_mset (rr_conn h) (mset (map (\<lambda>e. rr_conn (snd e)) (AList.delete token (relays ?s))))"
    if "map_of (relays ?s) token = Some h" for h using delete_mset [OF d that] by simp
  have dis: "distinct (map (\<lambda>e. rr_conn (snd e)) (AList.delete token (relays ?s)) @ rclosed ?s @ [rr_conn h])"
    if "map_of (relays ?s) token = Some h" for h
    using l(1) distinct_by_mset [of "held_conns ?s @ rclosed ?s" "map (\<lambda>e. rr_conn (snd e)) (AList.delete token (relays ?s)) @ rclosed ?s @ [rr_conn h]"]
      del [OF that] by (simp del: distinct_append)
  from assms(3) show ?thesis
  proof (cases rule: claim_cases)
    case short
    then show ?thesis using assms(1) by (simp add: ledger_def)
  next
    case unknown
    then show ?thesis using l by (simp add: ledger_def)
  next
    case (wrong held)
    then show ?thesis using dis [OF wrong(1)] del [OF wrong(1)] l(2) by (simp add: ledger_def)
  next
    case (right held)
    then show ?thesis using dis [OF right(1)] del [OF right(1)] l(2) by (simp add: ledger_def)
  qed
qed

lemma tick_facts:
  assumes "relay_ok g m (rstore s)" "ledger s"
  shows "relay_ok g m (sweep_tick (rstore s) t)" "ledger (s\<lparr>rstore := sweep_tick (rstore s) t, rnow := t\<rparr>)"
proof -
  note ok = sweep_ok [OF assms(1), of t]
  show "relay_ok g m (sweep_tick (rstore s) t)" using ok assms(1) by (auto simp: sweep_tick_def Let_def relay_ok_def)
  show "ledger (s\<lparr>rstore := sweep_tick (rstore s) t, rnow := t\<rparr>)"
    using sweep_ledger [OF assms(2), of t] by (simp add: sweep_tick_def Let_def ledger_def)
qed

lemma shutdown_facts:
  assumes "relay_ok g m (rstore s)" "ledger s"
  shows "relay_ok g m (relay_closeAll (rstore s))" "ledger (s\<lparr>rstore := relay_closeAll (rstore s), rnow := t\<rparr>)"
  using assms by (auto simp: relay_closeAll_def relay_ok_def ledger_def)

lemma relay_invariant: "relay_reachable g m s \<Longrightarrow> relay_ok g m (rstore s) \<and> ledger s"
proof (induction rule: relay_reachable.induct)
  case (init t0)
  show ?case by (simp add: relay_ok_def ledger_def newUDPRelayStoreWith_def)
next
  case (step s s')
  then have i: "relay_ok g m (rstore s)" "ledger s" by auto
  from step.hyps(2) show ?case
  proof cases
    case (park t token c who st)
    then show ?thesis using retain_ok [OF i(1) park(6) park(4)] retain_ledger [OF i(2) park(6,4,5)] by simp
  next
    case (claimed t token who st c)
    then show ?thesis using claim_ok [OF i(1) claimed(3)] claim_ledger [OF i(2,1) claimed(3)] by simp
  next
    case (not_claimed t token who st)
    then show ?thesis using claim_ok [OF i(1) not_claimed(3)] claim_ledger [OF i(2,1) not_claimed(3)] by simp
  next
    case (tick t)
    then show ?thesis using tick_facts [OF i] by simp
  next
    case (shutdown t)
    then show ?thesis using shutdown_facts [OF i] by simp
  qed
qed

text \<open>
  C38 (safety). No relay socket leaks, and none is closed under its user. In every run of parks, claims,
  sweeps and shutdowns each socket given to the store is held by it, was closed by it or was given
  back, and the store closes a socket at most once and never one that it holds. It holds at most its
  maximum, and while it holds any, one sweeper is running, which closes at its next tick whatever
  has outlived its grace. A claim gives back only the socket parked under that token by the same
  principal, alive, and a second claim of the token gets nothing.
\<close>

theorem relay_sockets_accounted:
  assumes "relay_reachable grace maximum s" "relay_claim (Some (rstore s)) now token who = (Some st, res)"
  shows "mset (parked s) = mset (held_conns (rstore s)) + mset (rclosed (rstore s)) + mset (reclaimed s)
    \<and> distinct (held_conns (rstore s) @ rclosed (rstore s))
    \<and> int (length (relays (rstore s))) \<le> max 0 maximum
    \<and> (relays (rstore s) \<noteq> [] \<longrightarrow> rsweepers (rstore s) = 1)
    \<and> (\<forall>e\<in>set (relays (sweep_tick (rstore s) now)). now \<le> rr_expires (snd e))
    \<and> (\<forall>c. res = Some c \<longrightarrow> (\<exists>h. (token, h) \<in> set (relays (rstore s)) \<and> rr_conn h = c \<and> samePrincipal (rr_principal h) who \<and> now \<le> rr_expires h)
        \<and> c \<notin> set (held_conns st) \<union> set (rclosed st) \<and> snd (relay_claim (Some st) now token who') = None)"
proof -
  have i: "relay_ok grace maximum (rstore s)" "ledger s" using relay_invariant [OF assms(1)] by auto
  let ?s = "relay_sweepLocked (rstore s) now"
  have tick: "\<forall>e\<in>set (relays (sweep_tick (rstore s) now)). now \<le> rr_expires (snd e)"
    by (auto simp: sweep_tick_def Let_def relay_sweepLocked_def relay_expired_def)
  have "(\<exists>h. (token, h) \<in> set (relays (rstore s)) \<and> rr_conn h = c \<and> samePrincipal (rr_principal h) who \<and> now \<le> rr_expires h)
      \<and> c \<notin> set (held_conns st) \<union> set (rclosed st) \<and> snd (relay_claim (Some st) now token who') = None" if res: "res = Some c" for c
    using assms(2)
  proof (cases rule: claim_cases)
    case (right h)
    have m: "(token, h) \<in> set (relays ?s)" using map_of_SomeD [OF right(1)] .
    then have h: "(token, h) \<in> set (relays (rstore s))" "now \<le> rr_expires h" by (auto simp: relay_sweepLocked_def relay_expired_def)
    have c: "c = rr_conn h" using right(3) res by simp
    have d: "distinct (map fst (relays ?s))" "distinct (held_conns ?s @ rclosed ?s)"
      using sweep_ok [OF i(1)] sweep_ledger [OF i(2), of now] by (simp_all add: relay_ok_def ledger_def)
    have "distinct (map (\<lambda>e. rr_conn (snd e)) (AList.delete token (relays ?s)) @ rclosed ?s @ [rr_conn h])"
      using d(2) distinct_by_mset [of "held_conns ?s @ rclosed ?s" "map (\<lambda>e. rr_conn (snd e)) (AList.delete token (relays ?s)) @ rclosed ?s @ [rr_conn h]"]
        delete_mset [OF d(1) right(1)] by (simp del: distinct_append)
    then have "c \<notin> set (held_conns st) \<union> set (rclosed st)" using right(4) c by auto
    moreover have "token \<notin> fst ` set (relays (relay_sweepLocked st now))"
      using right(4) delete_notin_dom [of token "relays ?s"] sweep_keys(1) [of st now] by auto
    then have "snd (relay_claim (Some st) now token who') = None" by (auto simp: relay_claim_def Let_def map_of_eq_None_iff [symmetric] split: option.splits)
    ultimately show ?thesis using h c right(2) by blast
  qed (use res in simp_all)
  then show ?thesis using i tick unfolding relay_ok_def ledger_def by auto
qed

definition demo_owner :: Principal where
  "demo_owner = \<lparr>ProviderID = ''p'', AccountID = ''a'', DeviceID = ''d'', PublicKey = []\<rparr>"

lemma relay_sockets_accounted_witness:
  "\<exists>s st. relay_reachable 30 4 s \<and> relay_claim (Some (rstore s)) 10 (replicate 16 7) demo_owner = (Some st, Some 3) \<and> relays st = []
    \<and> snd (relay_claim (Some st) 10 (replicate 16 7) demo_owner) = None"
proof -
  let ?t = "replicate 16 7 :: bytes"
  let ?s0 = "\<lparr>rstore = newUDPRelayStoreWith 30 4, rnow = 0, parked = [], reclaimed = []\<rparr>"
  define st1 where "st1 = the (relay_retain (Some (rstore ?s0)) 0 ?t demo_owner (Some 3))"
  have r1: "relay_retain (Some (rstore ?s0)) 0 ?t demo_owner (Some 3) = Some st1"
    by (simp add: st1_def relay_retain_def newUDPRelayStoreWith_def relay_sweepLocked_def)
  have run: "relay_reachable 30 4 (?s0\<lparr>rstore := st1, rnow := 0, parked := parked ?s0 @ [3]\<rparr>)"
    by (rule relay_reachable.step [OF relay_reachable.init relay_step.park [OF _ _ _ _ r1]]) (simp_all add: UDPResumeTokenSize_def newUDPRelayStoreWith_def)
  obtain st where st: "relay_claim (Some st1) 10 ?t demo_owner = (Some st, Some 3)" "relays st = []"
    by (simp add: st1_def relay_retain_def newUDPRelayStoreWith_def relay_sweepLocked_def relay_claim_def relay_expired_def UDPResumeTokenSize_def
        samePrincipal_def Let_def)
  show ?thesis using relay_sockets_accounted [OF run, of 10 ?t demo_owner st "Some 3" demo_owner] run st
    by (intro exI [of _ "?s0\<lparr>rstore := st1, rnow := 0, parked := parked ?s0 @ [3]\<rparr>"] exI [of _ st]) simp
qed

end
