(* ===== verification/Hop.thy ===== *)
theory Hop
  imports Prelude Complex_Main "HOL-Library.Multiset"
begin

text \<open>
  Port hopping (\<^verbatim>\<open>internal/portmux/hop.go\<close> and \<^verbatim>\<open>HopPorts\<close> of \<^verbatim>\<open>portmux.go\<close>): the ports both ends derive, the
  shuffled walk over them, and the controller that hops when a window of polls sent and received
  nothing. SHA-256 is the parameter \<^verbatim>\<open>sha\<close>; the random draws of a shuffle are a function from the
  position to the drawn index, \<^verbatim>\<open>None\<close> where \<^verbatim>\<open>rand.Int\<close> fails. Indices stay below the port npool, far from the
  bounds of \<^verbatim>\<open>int32\<close>. \<^verbatim>\<open>None\<close> as a result is a panic or a loop that does not return.
\<close>

section \<open>Ports\<close>

definition hop_prefix :: "bytes \<Rightarrow> bytes" where
  "hop_prefix provider = provider @ [0] @ [113, 117, 101, 113, 105, 97, 111, 45, 104, 111, 112, 45, 118, 49] @ [0]"

definition hop_port :: "(bytes \<Rightarrow> bytes) \<Rightarrow> bytes \<Rightarrow> nat \<Rightarrow> int" where
  "hop_port sha pre i = 1024 + int (unat (be_get (take 2 (sha (pre @ be_put 4 (of_nat i :: u32)))) :: u16)) mod (65535 - 1024)"

partial_function (option) hop_ports_loop :: "(nat \<Rightarrow> int) \<Rightarrow> int \<Rightarrow> nat \<Rightarrow> int list \<Rightarrow> int list option" where
  "hop_ports_loop port npool i ports =
     (if int (length ports) < npool then
        (if port i \<notin> set ports then hop_ports_loop port npool (i + 1) (ports @ [port i])
         else hop_ports_loop port npool (i + 1) ports)
      else Some ports)"

definition HopPorts :: "(bytes \<Rightarrow> bytes) \<Rightarrow> bytes \<Rightarrow> int \<Rightarrow> int \<Rightarrow> int list option" where
  "HopPorts sha provider primaryPort npool =
     (if npool \<le> 1 then Some [primaryPort] else hop_ports_loop (hop_port sha (hop_prefix provider)) npool 0 [primaryPort])"

section \<open>The walk\<close>

fun shuffle_loop :: "(nat \<Rightarrow> nat option) \<Rightarrow> nat \<Rightarrow> nat list \<Rightarrow> nat list" where
  "shuffle_loop draw 0 order = order"
| "shuffle_loop draw (Suc i) order =
     (case draw (Suc i) of
        None \<Rightarrow> order
      | Some k \<Rightarrow> shuffle_loop draw i (order[Suc i := order ! k, k := order ! Suc i]))"

definition shuffleInts :: "(nat \<Rightarrow> nat option) \<Rightarrow> nat list \<Rightarrow> nat list" where
  "shuffleInts draw order = shuffle_loop draw (length order - 1) order"

record HopWalk =
  worder :: "nat list"
  wpos :: nat

definition NewHopWalk :: "(nat \<Rightarrow> nat option) \<Rightarrow> nat \<Rightarrow> HopWalk" where
  "NewHopWalk draw npool = \<lparr>worder = shuffleInts draw [0..<npool], wpos = 0\<rparr>"

definition walk_Next :: "(nat \<Rightarrow> nat option) \<Rightarrow> HopWalk \<Rightarrow> (nat \<times> HopWalk) option" where
  "walk_Next draw w =
     (let w = (if wpos w \<ge> length (worder w) then w\<lparr>worder := shuffleInts draw (worder w), wpos := 0\<rparr> else w) in
      if wpos w < length (worder w) then Some (worder w ! wpos w, w\<lparr>wpos := wpos w + 1\<rparr>) else None)"

text \<open>
  The walk belongs to the client: every dial starts on its next index and every controller hops to its next
  index, and only \<^verbatim>\<open>Next\<close> itself is locked. Calls made by other goroutines are therefore explicit: \<^verbatim>\<open>env k\<close>
  are the shuffle draws of the calls of \<^verbatim>\<open>Next\<close> that others make before the \<^verbatim>\<open>k\<close>-th call of this controller, \<^verbatim>\<open>rnd k\<close>
  are the shuffle draws of that call itself.
\<close>

type_synonym draws = "nat \<Rightarrow> nat option"

primrec other_draws :: "draws list \<Rightarrow> HopWalk \<Rightarrow> HopWalk option" where
  "other_draws [] w = Some w"
| "other_draws (d # ds) w = (case walk_Next d w of None \<Rightarrow> None | Some (_, w') \<Rightarrow> other_draws ds w')"

partial_function (option) draw_other ::
  "(nat \<Rightarrow> draws list) \<Rightarrow> (nat \<Rightarrow> draws) \<Rightarrow> nat \<Rightarrow> HopWalk \<Rightarrow> nat \<Rightarrow> (nat \<times> HopWalk \<times> nat) option" where
  "draw_other env rnd k w current =
     (case other_draws (env k) w of
        None \<Rightarrow> None
      | Some w \<Rightarrow>
          (case walk_Next (rnd k) w of
             None \<Rightarrow> None
           | Some (idx, w') \<Rightarrow> if idx = current then draw_other env rnd (k + 1) w' current else Some (idx, w', k + 1)))"

section \<open>The controller\<close>

record HopConfig =
  DetectWindow :: int
  MinSent :: u64
  Cooldown :: int
  PollInterval :: int

definition hop_resolved :: "HopConfig \<Rightarrow> HopConfig" where
  "hop_resolved c =
     (let c = (if DetectWindow c \<le> 0 then c\<lparr>DetectWindow := 4 * 10 ^ 9\<rparr> else c);
          c = (if MinSent c = 0 then c\<lparr>MinSent := 5\<rparr> else c);
          c = (if Cooldown c \<le> 0 then c\<lparr>Cooldown := 3 * 10 ^ 9\<rparr> else c);
          c = (if PollInterval c \<le> 0 then c\<lparr>PollInterval := 2 * 10 ^ 9\<rparr> else c) in
      if PollInterval c < 10 ^ 9 then c\<lparr>PollInterval := 10 ^ 9\<rparr> else c)"

definition samplesPerWindow :: "HopConfig \<Rightarrow> nat" where
  "samplesPerWindow cfg = (if DetectWindow cfg div PollInterval cfg < 2 then 2 else nat (DetectWindow cfg div PollInterval cfg))"

record hopper =
  ring :: "(u64 \<times> u64) list"
  ringPos :: nat
  filled :: nat
  lastSend :: u64
  lastRecv :: u64
  lastHop :: "int option"
  currentIdx :: nat
  hops :: "(nat \<times> nat) list"

definition hop_start :: "nat \<Rightarrow> nat \<Rightarrow> hopper" where
  "hop_start n current =
     \<lparr>ring = replicate n (0, 0), ringPos = 0, filled = 0, lastSend = 0, lastRecv = 0, lastHop = None,
      currentIdx = current, hops = []\<rparr>"

text \<open>A dial takes the next index of the shared walk and starts a controller there.\<close>

definition hop_dial :: "nat \<Rightarrow> draws \<Rightarrow> HopWalk \<Rightarrow> (hopper \<times> HopWalk) option" where
  "hop_dial n draw w = (case walk_Next draw w of None \<Rightarrow> None | Some (idx, w') \<Rightarrow> Some (hop_start n idx, w'))"

definition hop_record :: "nat \<Rightarrow> hopper \<Rightarrow> u64 \<Rightarrow> u64 \<Rightarrow> hopper" where
  "hop_record n h sent recv =
     h\<lparr>ring := (ring h)[ringPos h := (sent - lastSend h, recv - lastRecv h)], lastSend := sent, lastRecv := recv,
       ringPos := (ringPos h + 1) mod n, filled := (if filled h < n then filled h + 1 else filled h)\<rparr>"

definition hop_due :: "HopConfig \<Rightarrow> nat \<Rightarrow> nat \<Rightarrow> hopper \<Rightarrow> int \<Rightarrow> bool" where
  "hop_due cfg n nports h now \<longleftrightarrow>
     (let windowSent = sum_list (map fst (ring h)); windowRecv = sum_list (map snd (ring h)) in
      \<not> (filled h < n \<or> windowSent < MinSent cfg \<or> windowRecv > 0)
      \<and> \<not> (lastHop h \<noteq> None \<and> now - the (lastHop h) < Cooldown cfg)
      \<and> \<not> nports \<le> 1)"

definition hop_poll ::
  "HopConfig \<Rightarrow> nat \<Rightarrow> nat \<Rightarrow> (nat \<Rightarrow> draws list) \<Rightarrow> (nat \<Rightarrow> draws) \<Rightarrow> nat \<Rightarrow> HopWalk \<Rightarrow> hopper \<Rightarrow> u64 \<Rightarrow> u64 \<Rightarrow> int
   \<Rightarrow> (hopper \<times> HopWalk \<times> nat) option" where
  "hop_poll cfg n nports env rnd k w h sent recv now =
     (let h = hop_record n h sent recv in
      if \<not> hop_due cfg n nports h now then Some (h, w, k)
      else case draw_other env rnd k w (currentIdx h) of
          None \<Rightarrow> None
        | Some (idx, w', k') \<Rightarrow>
            Some (h\<lparr>hops := hops h @ [(currentIdx h, idx)], currentIdx := idx, lastHop := Some now,
                    ring := replicate n (0, 0), filled := 0\<rparr>, w', k'))"

section \<open>Shuffles permute and the draw ends\<close>

definition draws_ok :: "(nat \<Rightarrow> nat option) \<Rightarrow> bool" where
  "draws_ok draw \<longleftrightarrow> (\<forall>i k. draw i = Some k \<longrightarrow> k \<le> i)"

lemma shuffle_loop_mset: "draws_ok draw \<Longrightarrow> i < length order \<or> order = [] \<and> i = 0 \<Longrightarrow> mset (shuffle_loop draw i order) = mset order"
proof (induction draw i order rule: shuffle_loop.induct)
  case (2 draw i order)
  show ?case
  proof (cases "draw (Suc i)")
    case (Some k)
    then have "k \<le> Suc i" using "2.prems"(1) by (simp add: draws_ok_def)
    then have "mset (order[Suc i := order ! k, k := order ! Suc i]) = mset order" using "2.prems"(2) by (simp add: mset_swap)
    then show ?thesis using "2.IH" [OF Some "2.prems"(1)] "2.prems"(2) Some by simp
  qed simp
qed simp

lemma shuffle_mset: "draws_ok draw \<Longrightarrow> mset (shuffleInts draw order) = mset order"
  unfolding shuffleInts_def by (rule shuffle_loop_mset, assumption) (cases order, simp_all)

definition walk_ok :: "nat \<Rightarrow> HopWalk \<Rightarrow> bool" where
  "walk_ok npool w \<longleftrightarrow> mset (worder w) = mset [0..<npool] \<and> wpos w \<le> npool"

lemma walk_ok_facts:
  assumes "walk_ok npool w"
  shows "length (worder w) = npool" "distinct (worder w)" "set (worder w) = {0..<npool}"
  using assms mset_eq_length [of "worder w" "[0..<npool]"] mset_eq_imp_distinct_iff [of "worder w" "[0..<npool]"] mset_eq_setD [of "worder w" "[0..<npool]"]
  by (simp_all add: walk_ok_def)

lemma new_walk_ok: "draws_ok draw \<Longrightarrow> walk_ok npool (NewHopWalk draw npool)"
  by (simp add: walk_ok_def NewHopWalk_def shuffle_mset)

lemma next_cases:
  assumes "walk_ok npool w" "draws_ok draw" "0 < npool"
  obtains (inside) "wpos w < npool" "walk_Next draw w = Some (worder w ! wpos w, w\<lparr>wpos := wpos w + 1\<rparr>)"
  | (again) order where "wpos w = npool" "walk_ok npool \<lparr>worder = order, wpos = 1\<rparr>" "walk_Next draw w = Some (order ! 0, \<lparr>worder = order, wpos = 1\<rparr>)"
proof (cases "wpos w < npool")
  case True
  then show thesis using walk_ok_facts(1) [OF assms(1)] by (intro inside) (simp_all add: walk_Next_def)
next
  case False
  let ?o = "shuffleInts draw (worder w)"
  have m: "mset ?o = mset [0..<npool]" using shuffle_mset [OF assms(2)] assms(1) by (simp add: walk_ok_def)
  then have l: "length ?o = npool" using mset_eq_length by fastforce
  have pos: "wpos w = npool" using False assms(1) by (simp add: walk_ok_def)
  have "walk_Next draw w = Some (?o ! 0, \<lparr>worder = ?o, wpos = 1\<rparr>)"
    using pos l walk_ok_facts(1) [OF assms(1)] assms(3) by (cases w) (simp add: walk_Next_def)
  then show thesis using pos m assms(3) by (intro again [of ?o]) (simp_all add: walk_ok_def)
qed

text \<open>
  The share of an index in the part of the permutation already handed out, weighted so that a whole
  permutation is worth nothing: each occurrence counts \<^verbatim>\<open>npool - 1\<close>, every other index \<^verbatim>\<open>-1\<close>. A reshuffle leaves it at
  zero, so over any calls of \<^verbatim>\<open>Next\<close>, whoever makes them, it changes exactly by the weights of the indices returned.
\<close>

definition weight :: "nat \<Rightarrow> nat \<Rightarrow> nat \<Rightarrow> int" where
  "weight npool c i = (if i = c then int npool - 1 else - 1)"

definition balance :: "nat \<Rightarrow> nat \<Rightarrow> HopWalk \<Rightarrow> int" where
  "balance npool c w = sum_list (map (weight npool c) (take (wpos w) (worder w)))"

lemma sum_weights: "distinct xs \<Longrightarrow> sum_list (map (weight npool c) xs) = (if c \<in> set xs then int npool else 0) - int (length xs)"
  by (induction xs) (auto simp: weight_def)

lemma balance_bounds:
  assumes "walk_ok npool w" "0 < npool"
  shows "- (int npool - 1) \<le> balance npool c w \<or> npool \<le> c" "balance npool c w \<le> int npool - 1"
proof -
  have d: "distinct (take (wpos w) (worder w))" and l: "length (take (wpos w) (worder w)) = wpos w"
    using walk_ok_facts(1,2) [OF assms(1)] assms(1) by (simp_all add: walk_ok_def)
  have eq: "balance npool c w = (if c \<in> set (take (wpos w) (worder w)) then int npool else 0) - int (wpos w)"
    using sum_weights [OF d, of npool c] l by (simp add: balance_def)
  have "c \<in> set (take (wpos w) (worder w))" if "wpos w = npool" "c < npool"
    using walk_ok_facts(1,3) [OF assms(1)] that by simp
  then show "- (int npool - 1) \<le> balance npool c w \<or> npool \<le> c" using eq assms(1) by (fastforce simp: walk_ok_def)
  have "wpos w \<noteq> 0" if "c \<in> set (take (wpos w) (worder w))" using that by (cases "wpos w") simp_all
  then show "balance npool c w \<le> int npool - 1" using eq assms(2) by auto
qed

lemma next_ok:
  assumes "walk_ok npool w" "draws_ok draw" "c < npool"
  shows "\<exists>idx w'. walk_Next draw w = Some (idx, w') \<and> walk_ok npool w' \<and> idx < npool \<and> balance npool c w' = balance npool c w + weight npool c idx"
proof -
  have pos: "0 < npool" using assms(3) by simp
  from assms(1,2) pos show ?thesis
  proof (cases rule: next_cases)
    case inside
    have lt: "wpos w < length (worder w)" using inside(1) walk_ok_facts(1) [OF assms(1)] by simp
    then have "worder w ! wpos w \<in> set (worder w)" by simp
    then show ?thesis using inside assms(1) walk_ok_facts(3) [OF assms(1)] lt by (auto simp: walk_ok_def balance_def take_Suc_conv_app_nth)
  next
    case (again order)
    have o: "length order = npool" "set order = {0..<npool}" using walk_ok_facts [OF again(2)] by simp_all
    then have "order ! 0 \<in> set order" using pos by (metis nth_mem)
    moreover have "balance npool c w = 0"
      using sum_weights [OF walk_ok_facts(2) [OF assms(1)], of npool c] walk_ok_facts(1,3) [OF assms(1)] again(1) assms(3) by (simp add: balance_def)
    moreover have "take 1 order = [order ! 0]" using o(1) pos by (cases order) simp_all
    ultimately show ?thesis using again o(2) by (auto simp: balance_def)
  qed
qed

lemma other_draws_ok:
  assumes "walk_ok npool w" "list_all draws_ok ds" "c < npool"
  shows "\<exists>w'. other_draws ds w = Some w' \<and> walk_ok npool w' \<and> balance npool c w - int (length ds) \<le> balance npool c w'"
  using assms(1,2)
proof (induction ds arbitrary: w)
  case (Cons d ds)
  obtain idx w' where n: "walk_Next d w = Some (idx, w')" "walk_ok npool w'" "balance npool c w' = balance npool c w + weight npool c idx"
    using next_ok [OF Cons.prems(1) _ assms(3), of d] Cons.prems(2) by auto
  obtain w'' where "other_draws ds w' = Some w''" "walk_ok npool w''" "balance npool c w' - int (length ds) \<le> balance npool c w''"
    using Cons.IH [OF n(2)] Cons.prems(2) by auto
  then show ?case using n assms(3) by (auto simp: weight_def split: if_splits)
qed simp

lemma sum_shift: "length (env k) + (\<Sum>i<n. length (env (k + 1 + i))) = (\<Sum>i<Suc n. length (env (k + i)))"
  by (subst sum.lessThan_Suc_shift) simp

lemma draw_ends_within:
  assumes "walk_ok npool w" "\<And>k. list_all draws_ok (env k)" "\<And>k. draws_ok (rnd k)" "c < npool"
    and "\<And>n. (\<Sum>i<n. length (env (k + i))) \<le> m"
    and "int npool - 1 - balance npool c w + int m < (int j + 1) * (int npool - 1)"
  shows "\<exists>idx w' k'. draw_other env rnd k w c = Some (idx, w', k') \<and> idx \<noteq> c \<and> idx < npool \<and> k' \<le> k + j + 1 \<and> walk_ok npool w'"
  using assms(1,5,6)
proof (induction j arbitrary: k w m)
  case (0 k w m)
  obtain w1 where o: "other_draws (env k) w = Some w1" "walk_ok npool w1" "balance npool c w - int (length (env k)) \<le> balance npool c w1"
    using other_draws_ok [OF "0.prems"(1) assms(2) [of k] assms(4)] by blast
  obtain idx w2 where n: "walk_Next (rnd k) w1 = Some (idx, w2)" "walk_ok npool w2" "idx < npool" "balance npool c w2 = balance npool c w1 + weight npool c idx"
    using next_ok [OF o(2) assms(3) assms(4)] by blast
  have "length (env k) \<le> m" using "0.prems"(2) [of 1] by simp
  moreover have "balance npool c w2 \<le> int npool - 1" using balance_bounds(2) [OF n(2)] assms(4) by simp
  ultimately have "idx \<noteq> c" using "0.prems"(3) o(3) n(4) by (auto simp: weight_def)
  then show ?case using o(1) n by (subst draw_other.simps) simp
next
  case (Suc j k w m)
  obtain w1 where o: "other_draws (env k) w = Some w1" "walk_ok npool w1" "balance npool c w - int (length (env k)) \<le> balance npool c w1"
    using other_draws_ok [OF Suc.prems(1) assms(2) [of k] assms(4)] by blast
  obtain idx w2 where n: "walk_Next (rnd k) w1 = Some (idx, w2)" "walk_ok npool w2" "idx < npool" "balance npool c w2 = balance npool c w1 + weight npool c idx"
    using next_ok [OF o(2) assms(3) assms(4)] by blast
  have len: "length (env k) \<le> m" using Suc.prems(2) [of 1] by simp
  show ?case
  proof (cases "idx = c")
    case True
    have "(\<Sum>i<n. length (env (k + 1 + i))) \<le> m - length (env k)" for n
      using Suc.prems(2) [of "Suc n"] sum_shift [of env k n] by simp
    moreover have "int npool - 1 - balance npool c w2 + int (m - length (env k)) < (int j + 1) * (int npool - 1)"
      using Suc.prems(3) o(3) n(4) True len by (simp add: weight_def algebra_simps)
    ultimately show ?thesis using Suc.IH [OF n(2), of "k + 1" "m - length (env k)"] o(1) n(1) True
      by (subst draw_other.simps) fastforce
  next
    case False
    then show ?thesis using o(1) n by (subst draw_other.simps) simp
  qed
qed

lemma draw_ends:
  assumes "walk_ok npool w" "\<And>k. list_all draws_ok (env k)" "\<And>k. draws_ok (rnd k)" "c < npool" "2 \<le> npool"
    and "\<And>n. (\<Sum>i<n. length (env (k + i))) \<le> m"
  shows "\<exists>idx w' k'. draw_other env rnd k w c = Some (idx, w', k') \<and> idx \<noteq> c \<and> idx < npool \<and> k' \<le> k + 3 + m div (npool - 1) \<and> walk_ok npool w'"
proof -
  have "m < (npool - 1) + m div (npool - 1) * (npool - 1)" using assms(5) by (intro dividend_less_div_times) simp
  then have "m < (m div (npool - 1) + 1) * (npool - 1)" by (simp add: algebra_simps)
  then have "int m < int ((m div (npool - 1) + 1) * (npool - 1))" by (simp only: of_nat_less_iff)
  moreover have "int (npool - 1) = int npool - 1" using assms(5) by simp
  ultimately have "int m < (int (m div (npool - 1)) + 1) * (int npool - 1)" by (simp only: of_nat_mult of_nat_add of_nat_1)
  moreover have "- (int npool - 1) \<le> balance npool c w" using balance_bounds(1) [OF assms(1)] assms(4) by fastforce
  ultimately have "int npool - 1 - balance npool c w + int m < (int (2 + m div (npool - 1)) + 1) * (int npool - 1)"
    by (simp add: algebra_simps)
  from draw_ends_within [where env = env and rnd = rnd, OF assms(1-4,6) this] show ?thesis by (fastforce simp: add_ac)
qed

section \<open>What a window says\<close>

text \<open>The ring read from its oldest sample.\<close>

definition window_of :: "hopper \<Rightarrow> (u64 \<times> u64) list" where
  "window_of h = drop (ringPos h) (ring h) @ take (ringPos h) (ring h)"

lemma window_record:
  assumes "length (ring h) = n" "ringPos h < n"
  shows "window_of (hop_record n h sent recv) = tl (window_of h) @ [(sent - lastSend h, recv - lastRecv h)]"
proof -
  let ?d = "(sent - lastSend h, recv - lastRecv h)"
  have tl: "tl (drop (ringPos h) (ring h)) = drop (Suc (ringPos h)) (ring h)" by (simp add: drop_Suc tl_drop)
  have ne: "drop (ringPos h) (ring h) \<noteq> []" using assms by simp
  show ?thesis
  proof (cases "ringPos h + 1 = n")
    case True
    then have "(ring h)[ringPos h := ?d] = take (ringPos h) (ring h) @ [?d]" using assms by (simp add: upd_conv_take_nth_drop)
    moreover have "drop (Suc (ringPos h)) (ring h) = []" using True assms by simp
    ultimately show ?thesis using True ne tl by (simp add: window_of_def hop_record_def)
  next
    case False
    then have m: "(ringPos h + 1) mod n = Suc (ringPos h)" using assms by simp
    have "take (Suc (ringPos h)) ((ring h)[ringPos h := ?d]) = take (ringPos h) (ring h) @ [?d]"
      using assms by (simp add: take_Suc_conv_app_nth take_update_cancel)
    then show ?thesis using m ne tl by (simp add: window_of_def hop_record_def)
  qed
qed

lemma window_sum: "sum_list (map f (ring h)) = sum_list (map f (window_of h))" for f :: "u64 \<times> u64 \<Rightarrow> u64"
proof -
  have "sum_list (map f (ring h)) = sum_list (map f (take (ringPos h) (ring h) @ drop (ringPos h) (ring h)))" by simp
  then show ?thesis by (simp only: window_of_def map_append sum_list_append add.commute)
qed

text \<open>A controller that has just started or hopped, and the polls that follow.\<close>

definition fresh_window :: "nat \<Rightarrow> hopper \<Rightarrow> bool" where
  "fresh_window n h \<longleftrightarrow> ring h = replicate n (0, 0) \<and> ringPos h < n \<and> filled h = 0"

abbreviation after_polls :: "nat \<Rightarrow> hopper \<Rightarrow> (u64 \<times> u64) list \<Rightarrow> hopper" where
  "after_polls n h ps \<equiv> foldl (\<lambda>h p. hop_record n h (fst p) (snd p)) h ps"

fun deltas :: "u64 \<times> u64 \<Rightarrow> (u64 \<times> u64) list \<Rightarrow> (u64 \<times> u64) list" where
  "deltas b [] = []"
| "deltas b (p # ps) = (fst p - fst b, snd p - snd b) # deltas p ps"

lemma deltas_snoc: "deltas b (ps @ [p]) = deltas b ps @ [(fst p - fst (last (b # ps)), snd p - snd (last (b # ps)))]"
  by (induction ps arbitrary: b) auto

lemma length_deltas [simp]: "length (deltas b ps) = length ps"
  by (induction ps arbitrary: b) auto

lemma deltas_sum:
  "sum_list (map fst (deltas b ps)) = fst (last (b # ps)) - fst b" "sum_list (map snd (deltas b ps)) = snd (last (b # ps)) - snd b"
  by (induction ps arbitrary: b) auto

lemma deltas_append: "deltas b (ps @ qs) = deltas b ps @ deltas (last (b # ps)) qs"
  by (induction ps arbitrary: b) auto

lemma polls_state:
  assumes "fresh_window n h" "0 < n"
  shows "length (ring (after_polls n h ps)) = n \<and> ringPos (after_polls n h ps) < n \<and> filled (after_polls n h ps) = min n (length ps)
    \<and> (lastSend (after_polls n h ps), lastRecv (after_polls n h ps)) = last ((lastSend h, lastRecv h) # ps)
    \<and> window_of (after_polls n h ps) = drop (length ps) (replicate n (0, 0) @ deltas (lastSend h, lastRecv h) ps)
    \<and> lastHop (after_polls n h ps) = lastHop h"
proof (induction ps rule: rev_induct)
  case Nil
  show ?case using assms by (simp add: fresh_window_def window_of_def replicate_add [symmetric])
next
  case (snoc p ps)
  let ?h = "after_polls n h ps"
  have w: "window_of (hop_record n ?h (fst p) (snd p)) = tl (window_of ?h) @ [(fst p - lastSend ?h, snd p - lastRecv ?h)]"
    by (rule window_record) (use snoc in simp_all)
  have l: "lastSend ?h = fst (last ((lastSend h, lastRecv h) # ps))" "lastRecv ?h = snd (last ((lastSend h, lastRecv h) # ps))"
  proof -
    have "(lastSend ?h, lastRecv ?h) = last ((lastSend h, lastRecv h) # ps)" using snoc by (elim conjE)
    from arg_cong [OF this, of fst] arg_cong [OF this, of snd]
    show "lastSend ?h = fst (last ((lastSend h, lastRecv h) # ps))" "lastRecv ?h = snd (last ((lastSend h, lastRecv h) # ps))"
      by (simp_all only: fst_conv snd_conv)
  qed
  have "tl (window_of ?h) @ [(fst p - lastSend ?h, snd p - lastRecv ?h)] = drop (length (ps @ [p])) (replicate n (0, 0) @ deltas (lastSend h, lastRecv h) (ps @ [p]))"
  proof -
    let ?X = "replicate n (0, 0) @ deltas (lastSend h, lastRecv h) ps"
    have "window_of ?h = drop (length ps) ?X" using snoc by simp
    moreover have "tl (drop (length ps) ?X) = drop (Suc (length ps)) ?X" by (simp only: drop_Suc tl_drop)
    moreover have "Suc (length ps) - length ?X = 0" using assms(2) by simp
    ultimately show ?thesis unfolding l deltas_snoc append_assoc [symmetric] drop_append length_append_singleton by simp
  qed
  then show ?case using snoc w assms(2) by (auto simp: hop_record_def)
qed

lemma window_full:
  assumes "n \<le> length ps"
  shows "drop (length ps) (replicate n (0, 0) @ deltas b ps) = deltas ((b # ps) ! (length ps - n)) (drop (length ps - n) ps)"
proof -
  let ?k = "length ps - n"
  have "deltas b ps = deltas b (take ?k ps) @ deltas (last (b # take ?k ps)) (drop ?k ps)" using deltas_append [of b "take ?k ps" "drop ?k ps"] by (simp only: append_take_drop_id)
  moreover have "last (b # take ?k ps) = (b # ps) ! ?k"
  proof (cases ?k)
    case (Suc j)
    then have "j < length ps" using assms by simp
    then have "take ?k ps = take j ps @ [ps ! j]" using Suc by (simp add: take_Suc_conv_app_nth)
    then show ?thesis using Suc by simp
  qed simp
  ultimately show ?thesis using assms by simp
qed

lemma last_drop_eq: "last (x # drop k ps) = last (y # ps)" if "k < length ps"
  using that by (auto simp: last_drop)

text \<open>
  C39 (functional). The controller hops exactly on a silent window. Take any sequence of polls since the start or the
  last hop: before a full window of them it never hops, and from then on it hops at a poll exactly when,
  over the last window, at least the minimum was sent and nothing was received, the cooldown is over
  and there is another port. The figures are differences of the counters at the two ends of the window, whatever
  the rotation of the ring.
\<close>

theorem hop_on_silent_window:
  assumes "fresh_window n h" "0 < n" "ps \<noteq> []"
  shows "hop_due cfg n nports (after_polls n h ps) now \<longleftrightarrow>
    n \<le> length ps
    \<and> MinSent cfg \<le> fst (last ps) - fst (((lastSend h, lastRecv h) # ps) ! (length ps - n))
    \<and> snd (last ps) = snd (((lastSend h, lastRecv h) # ps) ! (length ps - n))
    \<and> (case lastHop h of None \<Rightarrow> True | Some t \<Rightarrow> Cooldown cfg \<le> now - t) \<and> 1 < nports"
proof -
  let ?h = "after_polls n h ps" and ?b = "(lastSend h, lastRecv h)"
  have st: "filled ?h = min n (length ps)" "window_of ?h = drop (length ps) (replicate n (0, 0) @ deltas ?b ps)" "lastHop ?h = lastHop h"
    using polls_state [OF assms(1,2), of ps] by simp_all
  show ?thesis
  proof (cases "n \<le> length ps")
    case True
    let ?o = "(?b # ps) ! (length ps - n)"
    have win: "window_of ?h = deltas ?o (drop (length ps - n) ps)" using st(2) window_full [OF True] by simp
    have l: "last (?o # drop (length ps - n) ps) = last ps"
      using last_drop_eq [of "length ps - n" ps ?o ?b] assms(2,3) True by simp
    have "sum_list (map fst (ring ?h)) = fst (last ps) - fst ?o" "sum_list (map snd (ring ?h)) = snd (last ps) - snd ?o"
      unfolding window_sum win deltas_sum l by simp_all
    then show ?thesis using True st(1,3) by (auto simp: hop_due_def Let_def not_less not_le word_gt_0 split: option.splits)
  next
    case False
    then show ?thesis using st(1) by (simp add: hop_due_def)
  qed
qed

text \<open>
  C40 (termination). A poll comes to an end although the walk is shared, and a hop changes the port. Take a
  pool of at least two ports, draws in range, and other dials and controllers that call \<^verbatim>\<open>Next\<close> at any points of the
  search, \<^verbatim>\<open>m\<close> times in all. Then the loop that looks for another port returns after at most
  \<^verbatim>\<open>3 + m div (npool - 1)\<close> draws of its own, also across reshuffles, and so after at most three when nobody else draws; the
  new index is a valid one and differs from the old, the window and the cooldown start anew, and the walk
  stays a permutation of the pool. A poll that finds no silent window leaves the walk alone.
\<close>

theorem hop_poll_ends:
  assumes "walk_ok npool w" "\<And>k. list_all draws_ok (env k)" "\<And>k. draws_ok (rnd k)" "2 \<le> npool" "ringPos h < n" "currentIdx h < npool"
    and "\<And>j. (\<Sum>i<j. length (env (k + i))) \<le> m"
  shows "\<exists>h' w' k'. hop_poll cfg n nports env rnd k w h sent recv now = Some (h', w', k') \<and> k' \<le> k + 3 + m div (npool - 1)
    \<and> walk_ok npool w' \<and> currentIdx h' < npool
    \<and> (if hop_due cfg n nports (hop_record n h sent recv) now
       then currentIdx h' \<noteq> currentIdx h \<and> lastHop h' = Some now \<and> fresh_window n h' \<and> (lastSend h', lastRecv h') = (sent, recv)
       else h' = hop_record n h sent recv \<and> w' = w \<and> k' = k)"
proof -
  let ?h = "hop_record n h sent recv"
  have f: "currentIdx ?h = currentIdx h" "ringPos ?h < n" "(lastSend ?h, lastRecv ?h) = (sent, recv)"
    using assms(5) by (auto simp: hop_record_def)
  show ?thesis
  proof (cases "hop_due cfg n nports ?h now")
    case False
    then show ?thesis using assms(1,6) f by (simp add: hop_poll_def Let_def)
  next
    case True
    obtain idx w' k' where d: "draw_other env rnd k w (currentIdx h) = Some (idx, w', k')" "idx \<noteq> currentIdx h" "idx < npool"
        "k' \<le> k + 3 + m div (npool - 1)" "walk_ok npool w'"
      using draw_ends [where env = env and rnd = rnd, OF assms(1-3,6,4,7)] by blast
    then show ?thesis using True f by (simp add: hop_poll_def Let_def fresh_window_def)
  qed
qed

text \<open>A dial starts its controller on a valid index with an empty window, and leaves a walk the others can go on with.\<close>

lemma hop_dial_starts:
  assumes "walk_ok npool w" "draws_ok draw" "0 < npool" "0 < n"
  shows "\<exists>h w'. hop_dial n draw w = Some (h, w') \<and> walk_ok npool w' \<and> currentIdx h < npool \<and> fresh_window n h \<and> ringPos h < n"
  using next_ok [OF assms(1,2,3)] assms(4) by (auto simp: hop_dial_def hop_start_def fresh_window_def)

section \<open>The ports\<close>

lemma hop_ports_result:
  assumes "hop_ports_loop port npool i ports = Some ps" "distinct ports" "ports \<noteq> []" "int (length ports) \<le> npool"
  shows "distinct ps \<and> int (length ps) = npool \<and> hd ps = hd ports \<and> set ps \<subseteq> set ports \<union> range port"
proof -
  have "distinct ports \<longrightarrow> ports \<noteq> [] \<longrightarrow> int (length ports) \<le> npool
      \<longrightarrow> distinct ps \<and> int (length ps) = npool \<and> hd ps = hd ports \<and> set ps \<subseteq> set ports \<union> range port"
  proof (rule hop_ports_loop.raw_induct [OF _ assms(1)], intro impI)
    fix loop :: "(nat \<Rightarrow> int) \<Rightarrow> int \<Rightarrow> nat \<Rightarrow> int list \<Rightarrow> int list option" and port npool i ports ps
    assume IH: "\<And>port npool i ports ps. loop port npool i ports = Some ps \<Longrightarrow> distinct ports \<longrightarrow> ports \<noteq> [] \<longrightarrow> int (length ports) \<le> npool
        \<longrightarrow> distinct ps \<and> int (length ps) = npool \<and> hd ps = hd ports \<and> set ps \<subseteq> set ports \<union> range port"
      and body: "(if int (length ports) < npool then if port i \<notin> set ports then loop port npool (i + 1) (ports @ [port i]) else loop port npool (i + 1) ports
        else Some ports) = Some ps"
      and pre: "distinct ports" "ports \<noteq> []" "int (length ports) \<le> npool"
    show "distinct ps \<and> int (length ps) = npool \<and> hd ps = hd ports \<and> set ps \<subseteq> set ports \<union> range port"
      using IH [of port npool "i + 1" "ports @ [port i]" ps] IH [of port npool "i + 1" ports ps] body pre by (auto split: if_splits)
  qed
  then show ?thesis using assms by blast
qed

lemma hop_ports_returns:
  assumes "distinct ports" "npool \<le> int (card (set ports \<union> port ` {i..<i + n}))"
  shows "\<exists>ps. hop_ports_loop port npool i ports = Some ps"
  using assms
proof (induction n arbitrary: i ports)
  case 0
  then show ?case by (subst hop_ports_loop.simps) (simp add: distinct_card)
next
  case (Suc n)
  have eq: "set ports \<union> port ` {i..<i + Suc n} = set (ports @ [port i]) \<union> port ` {i + 1..<i + 1 + n}"
  proof -
    have "{i..<i + Suc n} = insert i {i + 1..<i + 1 + n}" by auto
    then show ?thesis by auto
  qed
  show ?case
  proof (cases "port i \<in> set ports")
    case True
    then have "set (ports @ [port i]) = set ports" by auto
    then show ?thesis using Suc.IH [of ports "i + 1"] Suc.prems eq True by (subst hop_ports_loop.simps) auto
  next
    case False
    then show ?thesis using Suc.IH [of "ports @ [port i]" "i + 1"] Suc.prems eq by (subst hop_ports_loop.simps) auto
  qed
qed

text \<open>
  Both ends derive the same usable ports. Whatever the hash, a list that is returned has as many
  ports as asked for, all different, the primary one first and the others between 1024 and 65534; and the
  list is returned whenever some prefix of the derived sequence has enough different ports.
\<close>

theorem hop_ports_derived:
  assumes "1 < npool"
  shows "(\<forall>ps. HopPorts sha provider primary npool = Some ps \<longrightarrow>
      int (length ps) = npool \<and> distinct ps \<and> hd ps = primary \<and> (\<forall>p\<in>set ps. p = primary \<or> 1024 \<le> p \<and> p < 65535))
    \<and> ((\<exists>n. npool \<le> int (card (insert primary (hop_port sha (hop_prefix provider) ` {0..<n})))) \<longrightarrow>
        (\<exists>ps. HopPorts sha provider primary npool = Some ps))"
proof -
  let ?port = "hop_port sha (hop_prefix provider)"
  have range: "1024 \<le> ?port i \<and> ?port i < 65535" for i
  proof -
    have "0 \<le> x mod (64511 :: int)" "x mod (64511 :: int) < 64511" for x by simp_all
    then show ?thesis unfolding hop_port_def by simp
  qed
  have "int (length ps) = npool \<and> distinct ps \<and> hd ps = primary \<and> (\<forall>p\<in>set ps. p = primary \<or> 1024 \<le> p \<and> p < 65535)"
    if "HopPorts sha provider primary npool = Some ps" for ps
  proof -
    have "hop_ports_loop ?port npool 0 [primary] = Some ps" using that assms by (simp add: HopPorts_def)
    then have "distinct ps \<and> int (length ps) = npool \<and> hd ps = primary \<and> set ps \<subseteq> {primary} \<union> range ?port"
      using hop_ports_result [of ?port npool 0 "[primary]" ps] assms by simp
    then show ?thesis using range by auto
  qed
  moreover have "\<exists>ps. HopPorts sha provider primary npool = Some ps" if "npool \<le> int (card (insert primary (?port ` {0..<n})))" for n
    using hop_ports_returns [of "[primary]" npool ?port 0 n] that assms by (simp add: HopPorts_def)
  ultimately show ?thesis by blast
qed

section \<open>Instances\<close>

definition demo_cfg :: HopConfig where
  "demo_cfg = hop_resolved \<lparr>DetectWindow = 0, MinSent = 0, Cooldown = 0, PollInterval = 0\<rparr>"

definition demo_hopper :: hopper where
  "demo_hopper = hop_start 2 0"

lemma hop_on_silent_window_witness:
  "samplesPerWindow demo_cfg = 2 \<and> hop_due demo_cfg 2 2 (after_polls 2 demo_hopper [(3, 0), (8, 0)]) 7"
proof -
  have "fresh_window 2 demo_hopper" by (simp add: fresh_window_def demo_hopper_def hop_start_def)
  moreover have "MinSent demo_cfg = 5" "samplesPerWindow demo_cfg = 2" by (simp_all add: demo_cfg_def hop_resolved_def samplesPerWindow_def)
  ultimately show ?thesis using hop_on_silent_window [of 2 demo_hopper "[(3, 0), (8, 0)]" demo_cfg 2 7]
    by (simp add: demo_hopper_def hop_start_def)
qed

text \<open>Before the controller's second draw another dial takes one index: the search ends within four draws.\<close>

lemma hop_poll_ends_witness:
  "\<exists>h' w' k'. hop_poll demo_cfg 2 2 (\<lambda>k. if k = 1 then [\<lambda>_. None] else []) (\<lambda>_ _. None) 0 (NewHopWalk (\<lambda>_. None) 2)
      (after_polls 2 demo_hopper [(3, 0)]) 8 0 7 = Some (h', w', k') \<and> k' \<le> 4 \<and> currentIdx h' = 1"
proof -
  let ?h = "after_polls 2 demo_hopper [(3, 0)]" and ?rnd = "\<lambda>_ _. None :: nat option" and ?env = "\<lambda>k :: nat. if k = 1 then [\<lambda>_. None] else [] :: draws list"
  have ok: "draws_ok (\<lambda>_. None)" by (simp add: draws_ok_def)
  then have env: "list_all draws_ok (?env k)" for k by simp
  have "walk_ok 2 (NewHopWalk (\<lambda>_. None) 2)" "ringPos ?h < 2" "currentIdx ?h = 0"
    using new_walk_ok [OF ok, of 2] by (simp_all add: demo_hopper_def hop_start_def hop_record_def)
  moreover have "hop_due demo_cfg 2 2 (hop_record 2 ?h 8 0) 7" by code_simp
  moreover have "(\<Sum>i<j. length (?env (0 + i))) \<le> 1" for j
  proof -
    have "length (?env (0 + i)) = (if i = 1 then 1 else 0)" for i by simp
    then show ?thesis by (simp only: sum.delta' finite_lessThan sum.delta) simp
  qed
  ultimately obtain h' w' k' where "hop_poll demo_cfg 2 2 ?env ?rnd 0 (NewHopWalk (\<lambda>_. None) 2) ?h 8 0 7 = Some (h', w', k')"
      "k' \<le> 4" "currentIdx h' < 2" "currentIdx h' \<noteq> 0"
    using hop_poll_ends [of 2 "NewHopWalk (\<lambda>_. None) 2" ?env ?rnd ?h 2 0 1 demo_cfg 2 8 0 7, OF _ env ok] by (auto simp del: fresh_window_def)
  then show ?thesis by (intro exI [of _ h'] exI [of _ w'] exI [of _ k']) simp
qed

lemma hop_ports_derived_witness:
  "\<exists>ps. HopPorts (\<lambda>b. drop (length b - 2) b) [65] 443 3 = Some ps \<and> length ps = 3 \<and> distinct ps \<and> hd ps = 443"
proof -
  let ?sha = "\<lambda>b. drop (length b - 2) b :: bytes"
  have p: "hop_port ?sha pre 0 = 1024" "hop_port ?sha pre 1 = 1025" for pre :: bytes
    by (simp_all add: hop_port_def numeral_eq_Suc be_get_def)
  have "{0..<2 :: nat} = {0, 1}" by auto
  then have "card (insert 443 (hop_port ?sha (hop_prefix [65]) ` {0..<2})) = 3" using p by simp
  then have "3 \<le> int (card (insert 443 (hop_port ?sha (hop_prefix [65]) ` {0..<2})))" by simp
  then obtain ps where "HopPorts ?sha [65] 443 3 = Some ps" using hop_ports_derived [of 3 ?sha "[65]" 443] by fastforce
  then show ?thesis using hop_ports_derived [of 3 ?sha "[65]" 443] by fastforce
qed

end
