(* ===== verification/Spec2Isabelle.thy ===== *)
theory Spec2Isabelle
  imports AckPath FecLimits StripeSafe Limiter RecordLimiter CodedLossless CodedWork Recovery Inbound Classifier MinMax PathWindow Routing Relay Hop
begin

text \<open>
  Verification of queqiao, a transport that carries TCP and UDP flows between two endpoints over
  several lanes of a lossy long-haul path.

  \<^bold>\<open>How the parts fit.\<close> A flow is opened with a destination (\<^verbatim>\<open>internal/session\<close>) and cut into
  chunks by the striping scheduler (\<^verbatim>\<open>internal/stripe\<close>), which reserves memory for what it reads
  (\<^verbatim>\<open>internal/memlimit\<close>), hands chunks to lanes, and takes them back when a lane fails. A lane sends
  frames (\<^verbatim>\<open>internal/protocol\<close>), paced by a token bucket (\<^verbatim>\<open>internal/limiter\<close>), over a stream or over
  a coded datagram path (\<^verbatim>\<open>internal/coded\<close>), whose sliding window code (\<^verbatim>\<open>internal/fec\<close>) repairs
  erasures with parity sized from the measured channel. The receiver puts the segments of all lanes
  back in order (\<^verbatim>\<open>internal/multipath\<close>) and reports the ranges it holds; the sender's tracker
  (\<^verbatim>\<open>internal/pep/acktrack.go\<close>) credits them (\<^verbatim>\<open>internal/pep/mpflow.go\<close>). The flow keeps a table of its lanes,
  admits, fails, retires and replaces them, chooses the lanes for a frame, classifies itself, and
  hands what its lanes receive to the application through a bounded queue. On a phone, names are
  given handles by a resolver of the program's own (\<^verbatim>\<open>mobile/core/fakedns.go\<close>) and flows to them are routed by a
  rule list (\<^verbatim>\<open>internal/routerule\<close>). The gateway admits flows against the limits of their account, keeps sessions
  and the relay sockets of broken associations (\<^verbatim>\<open>internal/pep/server.go\<close>, \<^verbatim>\<open>udprelay.go\<close>); a client whose port is
  blocked hops to another (\<^verbatim>\<open>internal/portmux\<close>).

  \<^bold>\<open>Theories, in the order they build on each other.\<close>
  \<^item> \<^verbatim>\<open>Prelude\<close>: machine integers, slices, big-endian accessors, the \<^verbatim>\<open>codec\<close> interface.
  \<^item> \<^verbatim>\<open>Frame\<close>: \<^verbatim>\<open>protocol/frame.go\<close>. Header, frame and acknowledgement codecs, short writes. Encoding and
    decoding are inverse and canonical; every error return is a value.
  \<^item> \<^verbatim>\<open>Memlimit\<close>: \<^verbatim>\<open>memlimit/budget.go\<close>, with a step relation for interleaved goroutines: the hard limit
    and no lost wake-up.
  \<^item> \<^verbatim>\<open>Reassembly\<close>: \<^verbatim>\<open>multipath/reassembly.go\<close>. Insertion refines set union; what is delivered is the prefix
    of the stream; the budget is charged for exactly what is buffered.
  \<^item> \<^verbatim>\<open>AckTracker\<close>, \<^verbatim>\<open>AckPath\<close>: \<^verbatim>\<open>pep/acktrack.go\<close> and the acknowledgement handlers of \<^verbatim>\<open>pep/mpflow.go\<close>. The
    tracker is the set of acknowledged bytes; the loop receiver, wire, sender credits only bytes that
    were received, and no frame makes it credit bytes that were never sent.
  \<^item> \<^verbatim>\<open>GF256\<close>, \<^verbatim>\<open>FecEncoder\<close>, \<^verbatim>\<open>FecDecoder\<close>: \<^verbatim>\<open>fec/gf.go\<close> and \<^verbatim>\<open>fec/window.go\<close>. \<^verbatim>\<open>FecSound\<close>: on an erasing
    channel every recovered symbol is the one sent. \<^verbatim>\<open>FecLimits\<close>: nothing solvable is left unsolved, and
    a run in which a late source symbol makes the decoder report a wrong one.
  \<^item> \<^verbatim>\<open>FecRate\<close>: \<^verbatim>\<open>fec/rate.go\<close>. The chosen plan is optimal among the admissible ones; parity is bounded.
  \<^item> \<^verbatim>\<open>Coded\<close>: \<^verbatim>\<open>coded/coded.go\<close>, sender and receiver. \<^verbatim>\<open>CodedSend\<close> relates the sender to runs of the
    encoder and to the frames its symbols spell out; \<^verbatim>\<open>CodedSafe\<close> shows that only frames that were sent
    are delivered, through the locale \<^verbatim>\<open>symbol_reader\<close>, and exhibits the frames that never are, those that
    fill a symbol to within its last three bytes; \<^verbatim>\<open>CodedLossless\<close> shows that without loss all others arrive in
    order; \<^verbatim>\<open>CodedWork\<close> bounds the work.
  \<^item> \<^verbatim>\<open>Stripe\<close>, \<^verbatim>\<open>StripeSafe\<close>: \<^verbatim>\<open>stripe/stripe.go\<close>. Every critical section as a step over a store of chunks;
    until it is closed no byte is lost and the books balance; reservations are returned; and a run that misplaces the end mark.
  \<^item> \<^verbatim>\<open>Limiter\<close>: \<^verbatim>\<open>limiter/budget.go\<close>, whose grants in any stretch of time stay within a burst and the rate; \<^verbatim>\<open>RecordLimiter\<close>: \<^verbatim>\<open>pep/recordlimiter.go\<close>; \<^verbatim>\<open>Session\<close>: \<^verbatim>\<open>session/*.go\<close>.
  \<^item> \<^verbatim>\<open>Lanes\<close>, \<^verbatim>\<open>LaneRuns\<close>: the lane table of a flow (\<^verbatim>\<open>pep/mpflow.go\<close>) and the admission of lanes at the gateway
    (\<^verbatim>\<open>addLaneReplacing\<close> in \<^verbatim>\<open>pep/server.go\<close>). A store of lanes with a table of addresses, one definition
    per method; runs interleave joins, failures in two halves, retirements, traffic and the teardown by
    \<^verbatim>\<open>closeAll\<close>, which leaves closed lanes in the table. No lane leaks or is lost, the ceiling holds, identifiers are fresh, and the choice of lanes and of victims does
    not depend on the order of a Go map (locale \<^verbatim>\<open>keep_best\<close>, interpreted for both victim searches).
  \<^item> \<^verbatim>\<open>Recovery\<close>: the stall watchdog and the wait for a replacement lane (\<^verbatim>\<open>pep/mpflow.go\<close>). A stall is
    reported exactly after a threshold without progress; all waiters of an outage share one grace.
  \<^item> \<^verbatim>\<open>Inbound\<close>: \<^verbatim>\<open>pep/inbound.go\<close> as a step relation over the receive budget: memory is accounted for exactly,
    frames stay in order, and a queued frame has a forwarder that is or will be awake.
  \<^item> \<^verbatim>\<open>Classifier\<close>: \<^verbatim>\<open>classifier/classifier.go\<close> and its use in \<^verbatim>\<open>pep/mpflow.go\<close>. The class is a function of the
    history that needs no state to state; the recent figures cover the exchange window.
  \<^item> \<^verbatim>\<open>MinMax\<close>: \<^verbatim>\<open>congestion/bbr_tuic_minmax.go\<close>. The estimate is the maximum of the samples since one that is
    recent in rounds and in time.
  \<^item> \<^verbatim>\<open>FakeDns\<close>: \<^verbatim>\<open>mobile/core/fakedns.go\<close>. Handles and names are in bijection; the question parser accepts
    exactly the single-question queries, and answers repeat the question byte for byte.
  \<^item> \<^verbatim>\<open>Routing\<close>: \<^verbatim>\<open>routerule/routerule.go\<close>, \<^verbatim>\<open>routerule/geoip.go\<close> and \<^verbatim>\<open>mobile/core/routing.go\<close>. The binary search over the
    packed country set is the linear one when the set is collapsed, and misses addresses when a block is nested in
    another; a flow to a handle is routed by its name, a flow to an address by that address, and nothing leaves
    the tunnel unless a rule says so. The
    interface of a country lookup is the locale \<^verbatim>\<open>country_lookup\<close>, interpreted for the packed set.
  \<^item> \<^verbatim>\<open>PathWindow\<close>: \<^verbatim>\<open>pathmodel/bandwidth_window.go\<close>. The queue answers with the exact windowed maximum.
  \<^item> \<^verbatim>\<open>Accounts\<close>: account usage and the session table of \<^verbatim>\<open>pep/server.go\<close>. The table is the multiset of open
    flows, and opens are refused exactly at the limits the identity store answers at that moment.
  \<^item> \<^verbatim>\<open>Relay\<close>: \<^verbatim>\<open>pep/udprelay.go\<close>. Every relay socket is held, closed once or given back to its owner.
  \<^item> \<^verbatim>\<open>Hop\<close>: \<^verbatim>\<open>portmux/hop.go\<close> and \<^verbatim>\<open>HopPorts\<close>. Hops happen exactly on silent windows, and the search for another
    port ends although the walk is shared by all dials: its draws are bounded by those of the others.

  \<^bold>\<open>Conventions.\<close> Bytes and wire integers are words of their width, so sequence numbers and symbol
  identifiers wrap. Lengths and offsets of the scheduler are natural numbers (Go's \<^verbatim>\<open>int\<close> and
  \<^verbatim>\<open>uint64\<close> offsets do not reach their limits in a flow). \<^verbatim>\<open>float64\<close> amounts are rationals: rounding,
  infinities and NaN are not modelled. A blocking call is the critical section of one iteration of
  its loop; where wake-ups matter (budget, tracker) goroutines are program counters of a step relation.
  Callbacks, clocks, carriers and the order in which a Go map is visited are arguments. Loops are
  total functions with measures, so that termination is part of each definition, except the two of
  \<^verbatim>\<open>Hop\<close> that depend on a hash and on random draws: they are partial functions, and that they return is proved
  from what they rely on. No fuel is used.
  Theorems about 32-bit identifiers bound the number of symbols of a run (\<^verbatim>\<open>2^32\<close>, or \<^verbatim>\<open>2^31\<close> where the
  code compares on the circle), which is what the circular comparisons assume.

  \<^bold>\<open>Not modelled.\<close> Sockets, TLS and QUIC, goroutine scheduling of the endpoints (\<^verbatim>\<open>pep/client.go\<close>,
  \<^verbatim>\<open>pep/server.go\<close>, \<^verbatim>\<open>pep/transport.go\<close>) apart from the tables above, the congestion controllers and
  path statistics over floating point around the two maximum filters, identity and enrolment, probes,
  command line programs and the rest of the mobile bindings: they are input and output around the
  components above, or rest on third-party code. The parser of rule lists and the SOCKS5 codec rest on the
  textual syntax of addresses in the standard library, which is not modelled.
\<close>

end
